(* ===== verification/Prelude.thy ===== *)
theory Prelude
  imports Main "HOL-Library.Monad_Syntax"
begin

text \<open>
  Shared vocabulary of the development: the conversions C performs when a value is stored
  in a narrow integer field, byte buffers with bounds-checked access, an allocator that may
  refuse a request, and the generic facts about lists and options the component theories use.

  Conventions.  A C function is a HOL function.  A result of type \<open>'a option\<close> uses \<open>None\<close>
  for an execution that has no defined result: an access outside a buffer, a use or a second
  \<open>free\<close> of freed memory, a failed \<open>assert\<close>, or a loop that never ends.  Error codes the C
  code returns are ordinary values.  C \<open>int\<close> locals are HOL \<open>int\<close>; every store to an 8- or
  16-bit field goes through the conversions below.
\<close>

section \<open>Collections of facts\<close>

named_theorems conv_simps \<open>conversions to narrow C integer types\<close>
named_theorems mem_simps \<open>bounds-checked buffer access\<close>
named_theorems inv_intros \<open>operations preserve their invariant\<close>

section \<open>Narrow integer types\<close>

definition u8 :: "int \<Rightarrow> int" where
  "u8 x = x mod 256"

definition u16 :: "int \<Rightarrow> int" where
  "u16 x = x mod 65536"

definition s8 :: "int \<Rightarrow> int" where
  "s8 x = (x + 128) mod 256 - 128"

definition s16 :: "int \<Rightarrow> int" where
  "s16 x = (x + 32768) mod 65536 - 32768"

definition u32 :: "int \<Rightarrow> int" where
  "u32 x = x mod 4294967296"

definition s32 :: "int \<Rightarrow> int" where
  "s32 x = (x + 2147483648) mod 4294967296 - 2147483648"

lemma u8_id [conv_simps]: "0 \<le> x \<Longrightarrow> x < 256 \<Longrightarrow> u8 x = x"
  by (simp add: u8_def)

lemma u16_id [conv_simps]: "0 \<le> x \<Longrightarrow> x < 65536 \<Longrightarrow> u16 x = x"
  by (simp add: u16_def)

lemma s16_id [conv_simps]: "- 32768 \<le> x \<Longrightarrow> x < 32768 \<Longrightarrow> s16 x = x"
  by (simp add: s16_def)

lemma s8_id [conv_simps]: "- 128 \<le> x \<Longrightarrow> x < 128 \<Longrightarrow> s8 x = x"
  by (simp add: s8_def)

lemma u32_id [conv_simps]: "0 \<le> x \<Longrightarrow> x < 4294967296 \<Longrightarrow> u32 x = x"
  by (simp add: u32_def)

lemma s32_id [conv_simps]: "- 2147483648 \<le> x \<Longrightarrow> x < 2147483648 \<Longrightarrow> s32 x = x"
  by (simp add: s32_def)

lemma u8_range: "0 \<le> u8 x \<and> u8 x < 256"
  by (simp add: u8_def)

lemma u16_range: "0 \<le> u16 x \<and> u16 x < 65536"
  by (simp add: u16_def)

lemma s16_range: "- 32768 \<le> s16 x \<and> s16 x < 32768"
  by (simp add: s16_def)

lemma s16_cong: "s16 (s16 x + y) = s16 (x + y)"
proof -
  have "(s16 x + y + 32768) mod 65536 = ((x + 32768) mod 65536 + y) mod 65536"
    by (simp add: s16_def)
  also have "\<dots> = (x + y + 32768) mod 65536"
    using mod_add_left_eq [of "x + 32768" 65536 y] by (simp add: algebra_simps)
  finally show ?thesis by (simp add: s16_def)
qed

lemma s16_diff_cong: "s16 (s16 x - y) = s16 (x - y)"
  using s16_cong [of x "- y"] by simp

section \<open>Truncating division\<close>

text \<open>C rounds quotients towards zero; the remainder has the sign of the dividend.\<close>

definition c_div :: "int \<Rightarrow> int \<Rightarrow> int" where
  "c_div a b = sgn a * sgn b * (\<bar>a\<bar> div \<bar>b\<bar>)"

definition c_rem :: "int \<Rightarrow> int \<Rightarrow> int" where
  "c_rem a b = a - b * c_div a b"

lemma c_rem_nonneg [conv_simps]: "0 \<le> a \<Longrightarrow> 0 < b \<Longrightarrow> c_rem a b = a mod b"
  by (cases "a = 0") (simp_all add: c_rem_def c_div_def minus_mult_div_eq_mod)

lemma c_div_nonneg [conv_simps]: "0 \<le> a \<Longrightarrow> 0 < b \<Longrightarrow> c_div a b = a div b"
  by (cases "a = 0") (simp_all add: c_div_def)

section \<open>Byte buffers\<close>

type_synonym bytes = "char list"

abbreviation NUL :: char where
  "NUL \<equiv> CHR 0x00"

text \<open>The bytes in \<open>[off, off + n)\<close>, if they lie inside the buffer.\<close>

definition mem_read :: "'a list \<Rightarrow> int \<Rightarrow> int \<Rightarrow> 'a list option" where
  "mem_read b off n =
     (if 0 \<le> off \<and> 0 \<le> n \<and> off + n \<le> int (length b)
      then Some (take (nat n) (drop (nat off) b)) else None)"

definition mem_write :: "'a list \<Rightarrow> int \<Rightarrow> 'a list \<Rightarrow> 'a list option" where
  "mem_write b off xs =
     (if 0 \<le> off \<and> off + int (length xs) \<le> int (length b)
      then Some (take (nat off) b @ xs @ drop (nat off + length xs) b) else None)"

text \<open>\<open>memmove\<close> inside one buffer: the source bytes are read before any is overwritten.\<close>

definition mem_move :: "'a list \<Rightarrow> int \<Rightarrow> int \<Rightarrow> int \<Rightarrow> 'a list option" where
  "mem_move b dst src n = do { xs \<leftarrow> mem_read b src n; mem_write b dst xs }"

lemma mem_read_Some [mem_simps]:
  "0 \<le> off \<Longrightarrow> 0 \<le> n \<Longrightarrow> off + n \<le> int (length b) \<Longrightarrow>
     mem_read b off n = Some (take (nat n) (drop (nat off) b))"
  by (simp add: mem_read_def)

lemma mem_write_Some [mem_simps]:
  "0 \<le> off \<Longrightarrow> off + int (length xs) \<le> int (length b) \<Longrightarrow>
     mem_write b off xs = Some (take (nat off) b @ xs @ drop (nat off + length xs) b)"
  by (simp add: mem_write_def)

lemma mem_write_single [mem_simps]:
  "0 \<le> off \<Longrightarrow> off < int (length b) \<Longrightarrow> mem_write b off [x] = Some (b[nat off := x])"
  by (simp add: mem_write_def upd_conv_take_nth_drop nat_less_iff)

lemma mem_read_single [mem_simps]:
  "0 \<le> off \<Longrightarrow> off < int (length b) \<Longrightarrow> mem_read b off 1 = Some [b ! nat off]"
  by (simp add: mem_read_def nat_less_iff take_Suc_conv_app_nth)

lemma mem_write_length: "mem_write b off xs = Some b' \<Longrightarrow> length b' = length b"
  by (auto simp: mem_write_def split: if_splits)

lemma mem_move_length: "mem_move b d s n = Some b' \<Longrightarrow> length b' = length b"
  by (auto simp: mem_move_def mem_write_length split: Option.bind_splits)

section \<open>Allocation\<close>

text \<open>
  The allocator's answers are an argument: which request sizes it grants, and what a fresh
  block holds.  Nothing is assumed about either.
\<close>

record alloc_env =
  env_ok :: "nat \<Rightarrow> bool"
  env_junk :: "nat \<Rightarrow> char"

definition c_malloc :: "alloc_env \<Rightarrow> nat \<Rightarrow> bytes option" where
  "c_malloc e n = (if env_ok e n then Some (map (env_junk e) [0..<n]) else None)"

definition c_realloc :: "alloc_env \<Rightarrow> bytes \<Rightarrow> nat \<Rightarrow> bytes option" where
  "c_realloc e b n =
     (if env_ok e n then Some (take n b @ map (env_junk e) [length b..<n]) else None)"

text \<open>A pointer to a heap block, with the block it owns.\<close>

datatype ptr = Null | Block bytes | Freed

definition c_free :: "ptr \<Rightarrow> ptr option" where
  "c_free p = (case p of Null \<Rightarrow> Some Null | Block b \<Rightarrow> Some Freed | Freed \<Rightarrow> None)"

fun deref :: "ptr \<Rightarrow> bytes option" where
  "deref (Block b) = Some b"
| "deref Null = None"
| "deref Freed = None"

lemma c_realloc_Some:
  assumes "c_realloc e b n = Some b'"
  shows "length b' = n" and "take (min n (length b)) b' = take (min n (length b)) b"
  using assms by (auto simp: c_realloc_def split: if_splits)

lemma c_malloc_Some: "c_malloc e n = Some b \<Longrightarrow> length b = n"
  by (auto simp: c_malloc_def split: if_splits)

section \<open>Lists and rings\<close>

text \<open>Positions less than a full turn apart fall on different slots of a ring.\<close>

lemma ring_index_inj:
  fixes c s i j :: int
  assumes "0 \<le> i" "i < c" "0 \<le> j" "j < c"
  shows "(s + i) mod c = (s + j) mod c \<longleftrightarrow> i = j"
proof
  assume "(s + i) mod c = (s + j) mod c"
  then have "c dvd i - j" by (simp add: mod_eq_dvd_iff)
  moreover have "\<bar>i - j\<bar> < c" using assms by auto
  ultimately show "i = j" using dvd_imp_le_int [of "i - j" c] by linarith
qed simp

text \<open>A C string as a list of bytes: what precedes the first NUL.\<close>

definition c_str :: "bytes \<Rightarrow> bytes" where
  "c_str b = takeWhile (\<lambda>c. c \<noteq> NUL) b"

lemma c_str_append_NUL: "NUL \<notin> set s \<Longrightarrow> c_str (s @ NUL # r) = s"
  by (simp add: c_str_def takeWhile_append)


lemma sum_list_drop_int:
  fixes f :: "'a \<Rightarrow> int"
  shows "sum_list (map f xs) = sum_list (map f (take k xs)) + sum_list (map f (drop k xs))"
  by (metis append_take_drop_id map_append sum_list_append)

lemma sum_list_nonneg_int:
  fixes f :: "'a \<Rightarrow> int"
  shows "(\<And>x. x \<in> set xs \<Longrightarrow> 0 \<le> f x) \<Longrightarrow> 0 \<le> sum_list (map f xs)"
  by (induction xs) auto

lemma nth_eq_conv: "i < length xs \<Longrightarrow> xs ! i = x \<Longrightarrow> xs = take i xs @ x # drop (Suc i) xs"
  by (metis id_take_nth_drop)

end
