(* ===== verification/StrEdit.thy ===== *)
theory StrEdit
  imports Prelude
begin

text \<open>
  The editable string of \<open>ports/sh/stredit.c\<close>: a heap buffer that starts with \<open>reserved\<close>
  header bytes, followed by the text and its NUL.  The five 16-bit counters of
  \<open>stredit_t\<close> are kept as integers and every store to them is converted with \<open>u16\<close>.

  Shown here: \<open>ed_wf\<close> (the buffer is big enough, NUL-terminated, and the counters agree) is
  kept by every operation; insertion and deletion act on the text as list surgery; no
  operation reads or writes outside the buffer; a prefix can never be edited away.  The
  contract a client relies on is the locale \<open>line_editor\<close>.
\<close>

section \<open>State\<close>

record stredit =
  ed_raw :: ptr
  ed_max_size :: int
  ed_reserved :: int
  ed_size :: int
  ed_alloc_size :: int
  ed_prefix :: int

text \<open>The all-zero structure \<open>memset\<close> leaves.\<close>

definition stredit_zero :: stredit where
  "stredit_zero = \<lparr>ed_raw = Null, ed_max_size = 0, ed_reserved = 0, ed_size = 0,
     ed_alloc_size = 0, ed_prefix = 0\<rparr>"

section \<open>Operations\<close>

definition stredit_init ::
  "alloc_env \<Rightarrow> stredit \<Rightarrow> int \<Rightarrow> int \<Rightarrow> int \<Rightarrow> (bool \<times> stredit) option" where
  "stredit_init e ed prealloc_size reserved_bytes max_size =
     (if max_size = 0 then Some (True, stredit_zero)
      else case c_malloc e (nat (u32 (reserved_bytes + prealloc_size + 1))) of
        None \<Rightarrow> Some (False, ed)
      | Some raw \<Rightarrow> do {
          raw \<leftarrow> mem_write raw 0 (replicate (nat reserved_bytes) NUL);
          raw \<leftarrow> mem_write raw reserved_bytes [NUL];
          Some (True, ed\<lparr>ed_raw := Block raw, ed_reserved := u16 reserved_bytes,
             ed_max_size := u16 max_size, ed_size := 0,
             ed_alloc_size := u16 (reserved_bytes + prealloc_size + 1), ed_prefix := 0\<rparr>)
        })"

definition stredit_reset :: "stredit \<Rightarrow> stredit option" where
  "stredit_reset ed = do { _ \<leftarrow> c_free (ed_raw ed); Some stredit_zero }"

text \<open>\<open>realloc\<close> on a pointer: a null pointer is an allocation, a failure yields null.\<close>

definition realloc_ptr :: "alloc_env \<Rightarrow> ptr \<Rightarrow> int \<Rightarrow> ptr option" where
  "realloc_ptr e p n = (case p of
       Null \<Rightarrow> Some (case c_malloc e (nat (u32 n)) of None \<Rightarrow> Null | Some b \<Rightarrow> Block b)
     | Block b \<Rightarrow> Some (case c_realloc e b (nat (u32 n)) of None \<Rightarrow> Null | Some b' \<Rightarrow> Block b')
     | Freed \<Rightarrow> None)"

definition stredit_freeze_and_reset :: "alloc_env \<Rightarrow> stredit \<Rightarrow> (ptr \<times> stredit) option" where
  "stredit_freeze_and_reset e ed = do {
     let size_needed = ed_reserved ed + ed_size ed + 1;
     raw \<leftarrow> (if ed_alloc_size ed \<ge> size_needed + 4 then realloc_ptr e (ed_raw ed) size_needed
            else Some (ed_raw ed));
     ed \<leftarrow> stredit_reset (ed\<lparr>ed_raw := Null\<rparr>);
     Some (raw, ed)
   }"

definition stredit_alloc :: "alloc_env \<Rightarrow> stredit \<Rightarrow> int \<Rightarrow> (bool \<times> stredit) option" where
  "stredit_alloc e ed n =
     (if ed_alloc_size ed \<ge> ed_reserved ed + n + 1 then Some (True, ed)
      else do {
        let newsize = max (ed_alloc_size ed + 16) (ed_reserved ed + n + 1);
        newraw \<leftarrow> realloc_ptr e (ed_raw ed) newsize;
        if newraw = Null then Some (False, ed)
        else Some (True, ed\<lparr>ed_raw := newraw, ed_alloc_size := u16 newsize\<rparr>)
      })"

definition stredit_set_prefix :: "stredit \<Rightarrow> int \<Rightarrow> stredit" where
  "stredit_set_prefix ed prefix_size =
     ed\<lparr>ed_prefix := u16 (min (max 0 prefix_size) (ed_size ed))\<rparr>"

definition stredit_capacity :: "stredit \<Rightarrow> int" where
  "stredit_capacity ed = ed_max_size ed - ed_size ed"

definition stredit_insert ::
  "alloc_env \<Rightarrow> stredit \<Rightarrow> int \<Rightarrow> bytes \<Rightarrow> int \<Rightarrow> (bool \<times> stredit) option" where
  "stredit_insert e ed p insert_str n =
     (if p < 0 \<or> p > ed_size ed \<or> ed_size ed + n > ed_max_size ed then Some (False, ed)
      else do {
        (ok, ed) \<leftarrow> stredit_alloc e ed (ed_size ed + n);
        if \<not> ok then Some (False, ed)
        else do {
          b \<leftarrow> deref (ed_raw ed);
          let str = ed_reserved ed;
          b \<leftarrow> mem_move b (str + p + n) (str + p) (ed_size ed - p + 1);
          xs \<leftarrow> mem_read insert_str 0 n;
          b \<leftarrow> mem_write b (str + p) xs;
          Some (True, ed\<lparr>ed_raw := Block b, ed_size := u16 (ed_size ed + n)\<rparr>)
        }
      })"

definition stredit_delete :: "stredit \<Rightarrow> int \<Rightarrow> int \<Rightarrow> (int \<times> stredit) option" where
  "stredit_delete ed p n = do {
     let (p, n) = (if p < ed_prefix ed
                   then (p + (ed_prefix ed - p), n - (ed_prefix ed - p)) else (p, n));
     let n = min n (ed_size ed - p);
     if n < 0 then Some (0, ed)
     else do {
       b \<leftarrow> deref (ed_raw ed);
       let str = ed_reserved ed;
       b \<leftarrow> mem_move b (str + p) (str + p + n) (ed_size ed - n - p + 1);
       Some (n, ed\<lparr>ed_raw := Block b, ed_size := u16 (ed_size ed - n)\<rparr>)
     }
   }"

section \<open>Invariant and abstraction\<close>

text \<open>
  The counters agree with the block and leave room for the growth step of
  \<open>stredit_alloc\<close> in 16 bits.
\<close>

definition ed_shape :: "bytes \<Rightarrow> stredit \<Rightarrow> bool" where
  "ed_shape b ed \<longleftrightarrow>
     int (length b) = ed_alloc_size ed \<and> ed_alloc_size ed < 65536 \<and>
     0 \<le> ed_reserved ed \<and> 0 \<le> ed_size ed \<and> ed_size ed \<le> ed_max_size ed \<and>
     ed_reserved ed + ed_size ed + 1 \<le> ed_alloc_size ed \<and>
     ed_reserved ed + ed_max_size ed + 17 < 65536 \<and>
     0 \<le> ed_prefix ed \<and> ed_prefix ed \<le> ed_size ed \<and>
     b ! nat (ed_reserved ed + ed_size ed) = NUL"

definition ed_wf :: "stredit \<Rightarrow> bool" where
  "ed_wf ed \<longleftrightarrow> (case ed_raw ed of Block b \<Rightarrow> ed_shape b ed | _ \<Rightarrow> False)"

definition ed_header :: "stredit \<Rightarrow> bytes" where
  "ed_header ed = (case ed_raw ed of Block b \<Rightarrow> take (nat (ed_reserved ed)) b | _ \<Rightarrow> [])"

definition ed_text :: "stredit \<Rightarrow> bytes" where
  "ed_text ed = (case ed_raw ed of
     Block b \<Rightarrow> take (nat (ed_size ed)) (drop (nat (ed_reserved ed)) b) | _ \<Rightarrow> [])"

lemma ed_wfE:
  assumes "ed_wf ed"
  obtains b where "ed_raw ed = Block b" and "ed_shape b ed"
  using assms by (auto simp: ed_wf_def split: ptr.splits)

lemma ed_text_length [simp]: "ed_wf ed \<Longrightarrow> int (length (ed_text ed)) = ed_size ed"
  by (auto simp: ed_wf_def ed_shape_def ed_text_def split: ptr.splits)

lemma ed_text_length_nat: "ed_wf ed \<Longrightarrow> length (ed_text ed) = nat (ed_size ed)"
  by (metis ed_text_length nat_int)

text \<open>The block laid out as header, text, NUL and slack.\<close>

lemma ed_layout:
  assumes "ed_raw ed = Block b" and "ed_shape b ed"
  obtains h t r where "b = h @ t @ NUL # r" and "int (length h) = ed_reserved ed"
    and "int (length t) = ed_size ed" and "ed_text ed = t" and "ed_header ed = h"
proof -
  let ?h = "take (nat (ed_reserved ed)) b"
  let ?t = "take (nat (ed_size ed)) (drop (nat (ed_reserved ed)) b)"
  let ?k = "nat (ed_reserved ed + ed_size ed)"
  have k: "?k < length b" "?k = nat (ed_reserved ed) + nat (ed_size ed)"
    using assms by (auto simp: ed_shape_def)
  then have "b = take ?k b @ b ! ?k # drop (Suc ?k) b"
    by (simp add: id_take_nth_drop)
  moreover have "take ?k b = ?h @ ?t" using k by (simp add: take_add)
  moreover have "b ! ?k = NUL" using assms by (simp add: ed_shape_def)
  ultimately have "b = ?h @ ?t @ NUL # drop (Suc ?k) b" by (metis append_assoc)
  moreover have "int (length ?h) = ed_reserved ed" "int (length ?t) = ed_size ed"
    using assms by (auto simp: ed_shape_def)
  ultimately show thesis using that assms by (auto simp: ed_text_def ed_header_def)
qed

lemma ed_wfI:
  assumes "ed_raw ed = Block (h @ t @ NUL # r)"
    and "int (length h) = ed_reserved ed" and "int (length t) = ed_size ed"
    and "int (length h + length t + length r + 1) = ed_alloc_size ed"
    and "ed_alloc_size ed < 65536" and "ed_size ed \<le> ed_max_size ed"
    and "ed_reserved ed + ed_max_size ed + 17 < 65536"
    and "0 \<le> ed_prefix ed" and "ed_prefix ed \<le> ed_size ed"
  shows "ed_wf ed \<and> ed_text ed = t \<and> ed_header ed = h"
proof -
  have *: "nat (ed_reserved ed) = length h" "nat (ed_size ed) = length t"
    "nat (ed_reserved ed + ed_size ed) = length h + length t"
    using assms(2,3) by auto
  have "ed_wf ed" using assms * by (simp add: ed_wf_def ed_shape_def nth_append)
  moreover have "ed_text ed = t" using assms(1) * by (simp add: ed_text_def)
  moreover have "ed_header ed = h" using assms(1) * by (simp add: ed_header_def)
  ultimately show ?thesis by simp
qed

section \<open>Buffer surgery\<close>

lemma mem_insert:
  assumes "length xs \<le> length r"
  shows "do { b \<leftarrow> mem_move (a @ m @ r) (int (length a + length xs)) (int (length a)) (int (length m));
              mem_write b (int (length a)) xs }
         = Some (a @ xs @ m @ drop (length xs) r)"
proof -
  let ?b = "take (length a + length xs) (a @ m @ r) @ m @
              drop (length a + length xs + length m) (a @ m @ r)"
  have "mem_move (a @ m @ r) (int (length a + length xs)) (int (length a)) (int (length m)) = Some ?b"
    using assms by (simp add: mem_move_def mem_read_def mem_write_def nat_add_distrib)
  moreover have "mem_write ?b (int (length a)) xs = Some (a @ xs @ m @ drop (length xs) r)"
    using assms by (simp add: mem_write_def)
  ultimately show ?thesis by simp
qed

lemma mem_delete:
  "mem_move (a @ d @ m @ r) (int (length a)) (int (length a + length d)) (int (length m))
     = Some (a @ m @ drop (length m) (d @ m @ r))"
  by (simp add: mem_move_def mem_read_def mem_write_def nat_add_distrib)

section \<open>Every operation keeps the invariant\<close>

lemma stredit_alloc_spec:
  assumes "ed_wf ed" and "stredit_alloc e ed n = Some (ok, ed')" and "n \<le> ed_max_size ed"
  shows "ed_wf ed'" and "ed_text ed' = ed_text ed" and "ed_header ed' = ed_header ed"
    and "ed_size ed' = ed_size ed" and "ed_prefix ed' = ed_prefix ed"
    and "ed_max_size ed' = ed_max_size ed" and "ed_reserved ed' = ed_reserved ed"
    and "ok \<Longrightarrow> ed_reserved ed + n + 1 \<le> ed_alloc_size ed'" and "\<not> ok \<Longrightarrow> ed' = ed"
proof -
  from assms(1) obtain b where b: "ed_raw ed = Block b" "ed_shape b ed" by (rule ed_wfE)
  from b obtain h t r where l: "b = h @ t @ NUL # r" "int (length h) = ed_reserved ed"
    "int (length t) = ed_size ed" "ed_text ed = t" "ed_header ed = h" by (rule ed_layout)
  let ?s = "max (ed_alloc_size ed + 16) (ed_reserved ed + n + 1)"
  have c: "(ed' = ed \<and> (ok \<longrightarrow> ed_reserved ed + n + 1 \<le> ed_alloc_size ed)) \<or>
    (ed_alloc_size ed < ed_reserved ed + n + 1 \<and> ok \<and>
      (\<exists>b'. c_realloc e b (nat (u32 ?s)) = Some b' \<and>
        ed' = ed\<lparr>ed_raw := Block b', ed_alloc_size := u16 ?s\<rparr>))"
  proof (cases "ed_alloc_size ed \<ge> ed_reserved ed + n + 1")
    case True
    then show ?thesis using assms(2) by (simp add: stredit_alloc_def)
  next
    case False
    then show ?thesis using assms(2) b(1)
      by (cases "c_realloc e b (nat (u32 ?s))")
        (simp_all add: stredit_alloc_def realloc_ptr_def Let_def)
  qed
  then show "ed_size ed' = ed_size ed" "ed_prefix ed' = ed_prefix ed"
    "ed_max_size ed' = ed_max_size ed" "ed_reserved ed' = ed_reserved ed" "\<not> ok \<Longrightarrow> ed' = ed"
    by auto
  from c consider "ed' = ed" "ok \<longrightarrow> ed_reserved ed + n + 1 \<le> ed_alloc_size ed"
    | b' where "ed_alloc_size ed < ed_reserved ed + n + 1" "c_realloc e b (nat (u32 ?s)) = Some b'"
      "ed' = ed\<lparr>ed_raw := Block b', ed_alloc_size := u16 ?s\<rparr>" by blast
  then have "ed_wf ed' \<and> ed_text ed' = t \<and> ed_header ed' = h \<and>
      (ok \<longrightarrow> ed_reserved ed + n + 1 \<le> ed_alloc_size ed')"
  proof cases
    case 1
    then show ?thesis using assms(1) l by simp
  next
    case (2 b')
    have s: "0 \<le> ?s" "?s < 65536" using 2(1) b(2) assms(3) by (auto simp: ed_shape_def)
    then have u: "u16 ?s = ?s" "u32 ?s = ?s" by (simp_all add: u16_def u32_def)
    have "b' = take (nat ?s) b @ map (env_junk e) [length b..<nat ?s]"
      using 2(2) u by (simp add: c_realloc_def split: if_splits)
    moreover have "length b \<le> nat ?s" using b(2) unfolding ed_shape_def by linarith
    ultimately have b': "b' = h @ t @ NUL # (r @ map (env_junk e) [length b..<nat ?s])"
      using l(1) by simp
    have "length b = length h + length t + length r + 1" "int (length b) \<le> ?s"
      using l(1) b(2) by (simp_all add: ed_shape_def)
    then have len: "int (length h + length t + length (r @ map (env_junk e) [length b..<nat ?s]) + 1) = ?s"
      by simp
    have e: "ed_raw ed' = Block b'" "ed_alloc_size ed' = ?s" "ed_size ed' = ed_size ed"
      "ed_reserved ed' = ed_reserved ed" "ed_max_size ed' = ed_max_size ed"
      "ed_prefix ed' = ed_prefix ed"
      using 2(3) u by simp_all
    have "ed_wf ed' \<and> ed_text ed' = t \<and> ed_header ed' = h"
      by (rule ed_wfI [of _ h t "r @ map (env_junk e) [length b..<nat ?s]"])
        (use e b' len l s b(2) in \<open>auto simp: ed_shape_def\<close>)
    then show ?thesis using e by simp
  qed
  then show "ed_wf ed'" "ed_text ed' = ed_text ed" "ed_header ed' = ed_header ed"
    "ok \<Longrightarrow> ed_reserved ed + n + 1 \<le> ed_alloc_size ed'" using l by auto
qed

lemma stredit_alloc_total: "ed_wf ed \<Longrightarrow> \<exists>ok ed'. stredit_alloc e ed n = Some (ok, ed')"
  by (elim ed_wfE) (auto simp: stredit_alloc_def realloc_ptr_def Let_def)

lemma stredit_insert_spec:
  assumes "ed_wf ed" and "0 \<le> n" and "n \<le> int (length s)"
  shows "\<exists>ok ed'. stredit_insert e ed p s n = Some (ok, ed') \<and> ed_wf ed' \<and>
     ed_prefix ed' = ed_prefix ed \<and> ed_header ed' = ed_header ed \<and>
     ed_max_size ed' = ed_max_size ed \<and> ed_reserved ed' = ed_reserved ed \<and>
     (if ok then 0 \<le> p \<and> p \<le> ed_size ed \<and> ed_size ed + n \<le> ed_max_size ed \<and>
           ed_size ed' = ed_size ed + n \<and>
           ed_text ed' = take (nat p) (ed_text ed) @ take (nat n) s @ drop (nat p) (ed_text ed)
      else ed' = ed)"
proof (cases "p < 0 \<or> p > ed_size ed \<or> ed_size ed + n > ed_max_size ed")
  case True
  then show ?thesis using assms(1) by (auto simp: stredit_insert_def)
next
  case False
  obtain ok ed1 where a: "stredit_alloc e ed (ed_size ed + n) = Some (ok, ed1)"
    using stredit_alloc_total [OF assms(1)] by blast
  note A = stredit_alloc_spec [OF assms(1) a]
  show ?thesis
  proof (cases ok)
    case False
    then show ?thesis using \<open>\<not> (p < 0 \<or> _)\<close> a A assms(1) by (auto simp: stredit_insert_def)
  next
    case True
    have n: "ed_size ed + n \<le> ed_max_size ed" using \<open>\<not> (p < 0 \<or> _)\<close> by simp
    note A = A [OF n]
    from A(1) obtain b where b: "ed_raw ed1 = Block b" "ed_shape b ed1" by (rule ed_wfE)
    from b obtain h t r where l: "b = h @ t @ NUL # r" "int (length h) = ed_reserved ed1"
      "int (length t) = ed_size ed1" "ed_text ed1 = t" "ed_header ed1 = h" by (rule ed_layout)
    let ?k = "nat p" let ?xs = "take (nat n) s"
    let ?a = "h @ take ?k t" let ?m = "drop ?k t @ [NUL]"
    let ?r = "drop (nat n) r"
    have p: "0 \<le> p" "p \<le> int (length t)" using \<open>\<not> (p < 0 \<or> _)\<close> l A(4) by auto
    have alen: "int (length h + length t + length r + 1) = ed_alloc_size ed1"
      using l(1) b(2) by (simp add: ed_shape_def)
    have rlen: "nat n \<le> length r" using A(8) [OF True] alen l A(7) A(4) assms(2) by linarith
    have xs: "length ?xs = nat n" using assms(3) by simp
    have bb: "b = ?a @ ?m @ r" using l(1) by simp
    have off: "ed_reserved ed1 + p + n = int (length ?a + length ?xs)" "ed_reserved ed1 + p = int (length ?a)"
      "ed_size ed1 - p + 1 = int (length ?m)"
      using l p xs assms(2) by auto
    have "do { b' \<leftarrow> mem_move b (ed_reserved ed1 + p + n) (ed_reserved ed1 + p) (ed_size ed1 - p + 1);
               mem_write b' (ed_reserved ed1 + p) ?xs } = Some (?a @ ?xs @ ?m @ ?r)"
      unfolding bb off using mem_insert [of ?xs r ?a ?m] rlen xs assms(2) by simp
    then have I: "stredit_insert e ed p s n = Some (True, ed1\<lparr>ed_raw := Block (?a @ ?xs @ ?m @ ?r),
        ed_size := u16 (ed_size ed1 + n)\<rparr>)" (is "_ = Some (True, ?e)")
      using \<open>\<not> (p < 0 \<or> _)\<close> a True b(1) assms(2,3) A(4,7)
      by (auto simp: stredit_insert_def Let_def mem_read_def split: Option.bind_splits)
    have sz: "u16 (ed_size ed1 + n) = ed_size ed1 + n"
      using b(2) A(4,6) n assms(2) by (intro u16_id) (auto simp: ed_shape_def)
    let ?t = "take ?k t @ ?xs @ drop ?k t"
    have W: "ed_wf ?e \<and> ed_text ?e = ?t \<and> ed_header ?e = h"
      by (rule ed_wfI [of _ h ?t ?r])
        (use sz l b(2) n A(4,6) rlen xs p assms(2) alen in \<open>auto simp: ed_shape_def\<close>)
    show ?thesis using I W A l sz \<open>\<not> (p < 0 \<or> _)\<close> True by auto
  qed
qed

lemma stredit_delete_unfold:
  "stredit_delete ed p n =
     (let q = max p (ed_prefix ed); m = min (n - (q - p)) (ed_size ed - q)
      in if m < 0 then Some (0, ed)
         else do { b \<leftarrow> deref (ed_raw ed);
                   b \<leftarrow> mem_move b (ed_reserved ed + q) (ed_reserved ed + q + m) (ed_size ed - m - q + 1);
                   Some (m, ed\<lparr>ed_raw := Block b, ed_size := u16 (ed_size ed - m)\<rparr>) })"
proof (cases "p < ed_prefix ed")
  case True
  then have "max p (ed_prefix ed) = ed_prefix ed" by simp
  then show ?thesis using True by (simp only: stredit_delete_def) (simp add: Let_def)
next
  case False
  then have "max p (ed_prefix ed) = p" by simp
  then show ?thesis using False by (simp only: stredit_delete_def) (simp add: Let_def)
qed

lemma stredit_delete_spec:
  fixes p n :: int and ed :: stredit
  assumes "ed_wf ed"
  defines "q \<equiv> max p (ed_prefix ed)"
  defines "k \<equiv> max 0 (min (n - (q - p)) (ed_size ed - q))"
  shows "\<exists>ed'. stredit_delete ed p n = Some (k, ed') \<and> ed_wf ed' \<and>
     ed_prefix ed' = ed_prefix ed \<and> ed_header ed' = ed_header ed \<and>
     ed_max_size ed' = ed_max_size ed \<and> ed_reserved ed' = ed_reserved ed \<and>
     ed_size ed' = ed_size ed - k \<and>
     ed_text ed' = take (nat q) (ed_text ed) @ drop (nat (q + k)) (ed_text ed)"
proof -
  from assms(1) obtain b where b: "ed_raw ed = Block b" "ed_shape b ed" by (rule ed_wfE)
  from b obtain h t r where l: "b = h @ t @ NUL # r" "int (length h) = ed_reserved ed"
    "int (length t) = ed_size ed" "ed_text ed = t" "ed_header ed = h" by (rule ed_layout)
  let ?m = "min (n - (q - p)) (ed_size ed - q)"
  have q: "0 \<le> q" "ed_prefix ed \<le> q" using b(2) by (auto simp: q_def ed_shape_def)
  show ?thesis
  proof (cases "?m < 0")
    case True
    then have D: "stredit_delete ed p n = Some (0, ed)" "k = 0"
      by (simp_all add: stredit_delete_unfold q_def [symmetric] k_def)
    show ?thesis by (rule exI [of _ ed]) (use D assms(1) in simp)
  next
    case False
    then have k: "k = ?m" "0 \<le> k" "q + k \<le> int (length t)" "q \<le> int (length t)"
      using l by (auto simp: k_def)
    let ?a = "h @ take (nat q) t" let ?d = "take (nat k) (drop (nat q) t)"
    let ?m' = "drop (nat (q + k)) t @ [NUL]"
    have "drop (nat q) t = ?d @ drop (nat (q + k)) t"
      using q(1) k(2) by (simp add: nat_add_distrib add.commute flip: drop_drop)
    then have bb: "b = ?a @ ?d @ ?m' @ r" using l(1) by (metis append.assoc append_Cons append_Nil append_take_drop_id)
    have off: "ed_reserved ed + q = int (length ?a)" "ed_reserved ed + q + k = int (length ?a + length ?d)"
      "ed_size ed - k - q + 1 = int (length ?m')"
      using l k q by auto
    let ?R = "drop (length ?m') (?d @ ?m' @ r)"
    have D: "stredit_delete ed p n = Some (k, ed\<lparr>ed_raw := Block (?a @ ?m' @ drop (length ?m') (?d @ ?m' @ r)),
        ed_size := u16 (ed_size ed - k)\<rparr>)" (is "_ = Some (_, ?e)")
      using False b(1) mem_delete [of ?a ?d ?m' r, folded off, folded bb]
      by (simp add: stredit_delete_unfold q_def [symmetric] k(1) [symmetric] Let_def)
    have sz: "u16 (ed_size ed - k) = ed_size ed - k"
      using b(2) k l q by (intro u16_id) (auto simp: ed_shape_def)
    have len: "int (length ?d) = k" using k q by simp
    have "ed_wf ?e \<and> ed_text ?e = take (nat q) t @ drop (nat (q + k)) t \<and> ed_header ?e = h"
    proof (rule ed_wfI [of _ h _ ?R])
      have "length b = length ?a + length ?d + length ?m' + length r" by (subst bb) simp
      moreover have "length ?R = length ?d + length r"
        by (simp only: length_drop length_append)
      moreover have "length ?a + length ?m' = length h + length (take (nat q) t @ drop (nat (q + k)) t) + 1"
        by simp
      moreover have "int (length b) = ed_alloc_size ed" using b(2) by (simp add: ed_shape_def)
      moreover have "ed_alloc_size ?e = ed_alloc_size ed" by simp
      ultimately show "int (length h + length (take (nat q) t @ drop (nat (q + k)) t) + length ?R + 1)
          = ed_alloc_size ?e"
        by linarith
      show "int (length (take (nat q) t @ drop (nat (q + k)) t)) = ed_size ?e"
        using sz l(3) k(2-4) q(1) by auto
    qed (use sz l(2,3) b(2) k(2-4) q in \<open>simp_all add: ed_shape_def\<close>)
    then show ?thesis using D l sz by auto
  qed
qed

lemma stredit_set_prefix_spec:
  assumes "ed_wf ed"
  shows "ed_wf (stredit_set_prefix ed n)" and "ed_text (stredit_set_prefix ed n) = ed_text ed"
    and "ed_prefix (stredit_set_prefix ed n) = min (max 0 n) (ed_size ed)"
proof -
  from assms obtain b where b: "ed_raw ed = Block b" "ed_shape b ed" by (rule ed_wfE)
  have u: "u16 (min (max 0 n) (ed_size ed)) = min (max 0 n) (ed_size ed)"
    using b(2) by (intro u16_id) (auto simp: ed_shape_def)
  show "ed_wf (stredit_set_prefix ed n)" "ed_text (stredit_set_prefix ed n) = ed_text ed"
    "ed_prefix (stredit_set_prefix ed n) = min (max 0 n) (ed_size ed)"
    using b u by (auto simp: ed_wf_def ed_shape_def ed_text_def stredit_set_prefix_def)
qed

lemma stredit_init_spec:
  assumes "0 < m" and "0 \<le> r" and "0 \<le> p" and "r + p + 1 < 65536" and "r + m + 17 < 65536"
  shows "\<exists>ok ed'. stredit_init e ed p r m = Some (ok, ed') \<and>
    (if ok then ed_wf ed' \<and> ed_text ed' = [] \<and> ed_prefix ed' = 0 \<and> ed_size ed' = 0 \<and>
         ed_max_size ed' = m \<and> ed_reserved ed' = r \<and> ed_header ed' = replicate (nat r) NUL
     else ed' = ed \<and> \<not> env_ok e (nat (r + p + 1)))"
proof (cases "env_ok e (nat (r + p + 1))")
  case False
  then show ?thesis using assms by (auto simp: stredit_init_def c_malloc_def u32_def)
next
  case True
  let ?n = "nat (r + p + 1)"
  let ?J = "map (env_junk e) [0..<?n]"
  let ?h = "replicate (nat r) NUL" let ?R = "drop (nat r + 1) ?J"
  have n: "nat (u32 (r + p + 1)) = ?n" using assms by (simp add: u32_def)
  have n': "int ?n = r + p + 1" "?n = nat r + nat p + 1" using assms by auto
  have 1: "mem_write ?J 0 ?h = Some (?h @ drop (nat r) ?J)"
    using assms n' by (simp add: mem_write_def)
  have 2: "mem_write (?h @ drop (nat r) ?J) r [NUL] = Some (?h @ NUL # ?R)"
    using assms n' by (simp add: mem_write_def)
  have I: "stredit_init e ed p r m = Some (True, ed\<lparr>ed_raw := Block (?h @ NUL # ?R),
     ed_reserved := r, ed_max_size := m, ed_size := 0, ed_alloc_size := r + p + 1, ed_prefix := 0\<rparr>)"
    (is "_ = Some (True, ?e)")
    unfolding stredit_init_def c_malloc_def n
    using True 1 2 assms by (simp add: u16_def)
  have "ed_wf ?e \<and> ed_text ?e = [] \<and> ed_header ?e = ?h"
    by (rule ed_wfI [of _ ?h "[]" ?R]) (use assms n' in auto)
  then show ?thesis using I by (intro exI [of _ True] exI [of _ ?e]) simp
qed

text \<open>Freezing hands the block over; unless a shrinking \<open>realloc\<close> fails it still holds the line.\<close>

lemma stredit_freeze_spec:
  assumes "ed_wf ed"
  shows "\<exists>p. stredit_freeze_and_reset e ed = Some (p, stredit_zero) \<and>
    (p = Null \<and> \<not> env_ok e (nat (ed_reserved ed + ed_size ed + 1)) \<or>
     (\<exists>r. p = Block (ed_header ed @ ed_text ed @ NUL # r)))"
proof -
  from assms obtain b where b: "ed_raw ed = Block b" "ed_shape b ed" by (rule ed_wfE)
  from b obtain h t r where l: "b = h @ t @ NUL # r" "int (length h) = ed_reserved ed"
    "int (length t) = ed_size ed" "ed_text ed = t" "ed_header ed = h" by (rule ed_layout)
  let ?n = "ed_reserved ed + ed_size ed + 1"
  have n: "u32 ?n = ?n" "nat ?n = length (h @ t @ [NUL])"
    using l b(2) by (auto simp: u32_def ed_shape_def)
  have "take (nat ?n) b = h @ t @ [NUL]" unfolding n(2) using l(1) by simp
  moreover have "nat ?n \<le> length b" using b(2) by (auto simp: ed_shape_def)
  ultimately have "c_realloc e b (nat ?n) = (if env_ok e (nat ?n) then Some (h @ t @ [NUL]) else None)"
    by (simp add: c_realloc_def)
  then show ?thesis using b(1) l n(1)
    by (simp add: stredit_freeze_and_reset_def stredit_reset_def realloc_ptr_def c_free_def Let_def)
qed

section \<open>The contract of a line editor\<close>

text \<open>
  What the console relies on: a state with a text, a protected prefix and a size limit;
  insertion and deletion that either act on the text or leave the state alone.
\<close>

locale line_editor =
  fixes inv :: "'s \<Rightarrow> bool"
    and contents :: "'s \<Rightarrow> 'c list"
    and locked :: "'s \<Rightarrow> int"
    and limit :: "'s \<Rightarrow> int"
    and ins :: "'s \<Rightarrow> int \<Rightarrow> 'c list \<Rightarrow> (bool \<times> 's) option"
    and del :: "'s \<Rightarrow> int \<Rightarrow> int \<Rightarrow> (int \<times> 's) option"
  assumes locked_range: "inv s \<Longrightarrow> 0 \<le> locked s \<and> locked s \<le> int (length (contents s))"
    and limit_range: "inv s \<Longrightarrow> int (length (contents s)) \<le> limit s"
    and ins_ok: "inv s \<Longrightarrow> \<exists>ok s'. ins s p xs = Some (ok, s') \<and> inv s' \<and> locked s' = locked s \<and>
        limit s' = limit s \<and>
        (if ok then 0 \<le> p \<and> p \<le> int (length (contents s)) \<and>
            contents s' = take (nat p) (contents s) @ xs @ drop (nat p) (contents s)
         else contents s' = contents s)"
    and del_ok: "inv s \<Longrightarrow> \<exists>k s'. del s p n = Some (k, s') \<and> inv s' \<and> locked s' = locked s \<and>
        limit s' = limit s \<and>
        (let q = max p (locked s) in
           k = max 0 (min (n - (q - p)) (int (length (contents s)) - q)) \<and>
           contents s' = take (nat q) (contents s) @ drop (nat (q + k)) (contents s))"
begin

text \<open>Neither operation touches the protected prefix.\<close>

lemma ins_keeps_prefix:
  assumes "inv s" and "ins s p xs = Some (ok, s')" and "locked s \<le> p"
  shows "take (nat (locked s)) (contents s') = take (nat (locked s)) (contents s)"
  using ins_ok [OF assms(1), of p xs] assms by (auto split: if_splits)

lemma del_keeps_prefix:
  assumes "inv s" and "del s p n = Some (k, s')"
  shows "take (nat (locked s)) (contents s') = take (nat (locked s)) (contents s)"
proof -
  let ?q = "max p (locked s)"
  obtain k' where "contents s' = take (nat ?q) (contents s) @ drop (nat (?q + k')) (contents s)" "0 \<le> k'"
    using del_ok [OF assms(1), of p n] assms(2) unfolding Let_def by fastforce
  moreover have "nat (locked s) \<le> nat ?q" by simp
  moreover have "nat (locked s) \<le> length (contents s)" using locked_range [OF assms(1)] by linarith
  ultimately show ?thesis by (simp add: min_def)
qed

text \<open>Deleting what was just inserted restores the text.\<close>

lemma del_ins:
  assumes "inv s" and "ins s p xs = Some (True, s1)" and "locked s \<le> p"
  shows "\<exists>s2. del s1 p (int (length xs)) = Some (int (length xs), s2) \<and> inv s2 \<and>
           contents s2 = contents s"
proof -
  from ins_ok [OF assms(1), of p xs] assms(2) have s1: "inv s1" "locked s1 = locked s" "0 \<le> p"
    "p \<le> int (length (contents s))"
    "contents s1 = take (nat p) (contents s) @ xs @ drop (nat p) (contents s)"
    by auto
  have "max p (locked s1) = p" using assms(3) s1(2) by simp
  then show ?thesis using del_ok [OF s1(1), of p "int (length xs)"] s1(3-5)
    by (auto simp: Let_def nat_add_distrib)
qed

end

interpretation ed: line_editor ed_wf ed_text ed_prefix ed_max_size
  "\<lambda>ed p xs. stredit_insert e ed p xs (int (length xs))" stredit_delete
proof
  fix s assume W: "ed_wf s"
  show "0 \<le> ed_prefix s \<and> ed_prefix s \<le> int (length (ed_text s))"
    "int (length (ed_text s)) \<le> ed_max_size s"
    using W by (auto simp: ed_shape_def elim!: ed_wfE)
  fix p xs
  show "\<exists>ok s'. stredit_insert e s p xs (int (length xs)) = Some (ok, s') \<and> ed_wf s' \<and>
      ed_prefix s' = ed_prefix s \<and> ed_max_size s' = ed_max_size s \<and>
      (if ok then 0 \<le> p \<and> p \<le> int (length (ed_text s)) \<and>
          ed_text s' = take (nat p) (ed_text s) @ xs @ drop (nat p) (ed_text s)
       else ed_text s' = ed_text s)"
  proof -
    from stredit_insert_spec [OF W, of "int (length xs)" xs e p] obtain ok s' where
      *: "stredit_insert e s p xs (int (length xs)) = Some (ok, s')" "ed_wf s'"
        "ed_prefix s' = ed_prefix s" "ed_max_size s' = ed_max_size s"
      and **: "if ok then 0 \<le> p \<and> p \<le> ed_size s \<and> ed_size s + int (length xs) \<le> ed_max_size s \<and>
           ed_size s' = ed_size s + int (length xs) \<and>
           ed_text s' = take (nat p) (ed_text s) @ take (nat (int (length xs))) xs @ drop (nat p) (ed_text s)
         else s' = s" by auto
    show ?thesis by (rule exI [of _ ok], rule exI [of _ s']) (use * ** W in simp)
  qed
next
  fix s p n assume W: "ed_wf s"
  let ?q = "max p (ed_prefix s)"
  let ?k = "max 0 (min (n - (?q - p)) (ed_size s - ?q))"
  from stredit_delete_spec [OF W, of p n]
  obtain s' where "stredit_delete s p n = Some (?k, s')" "ed_wf s'" "ed_prefix s' = ed_prefix s"
    "ed_max_size s' = ed_max_size s" "ed_text s' = take (nat ?q) (ed_text s) @ drop (nat (?q + ?k)) (ed_text s)"
    by blast
  then show "\<exists>k s'. stredit_delete s p n = Some (k, s') \<and> ed_wf s' \<and> ed_prefix s' = ed_prefix s \<and>
      ed_max_size s' = ed_max_size s \<and>
      (let q = max p (ed_prefix s) in
         k = max 0 (min (n - (q - p)) (int (length (ed_text s)) - q)) \<and>
         ed_text s' = take (nat q) (ed_text s) @ drop (nat (q + k)) (ed_text s))"
    using W by (intro exI [of _ ?k] exI [of _ s']) (simp add: Let_def)
qed

section \<open>Properties\<close>


text \<open>An editor for lines of at most ten bytes.\<close>

lemma demo_editor:
  "\<exists>ed. stredit_init \<lparr>env_ok = (\<lambda>_. True), env_junk = (\<lambda>_. NUL)\<rparr> stredit_zero 4 3 10 = Some (True, ed) \<and> ed_wf ed"
  using stredit_init_spec [of 10 3 4 "\<lparr>env_ok = (\<lambda>_. True), env_junk = (\<lambda>_. NUL)\<rparr>" stredit_zero]
  by (auto split: if_splits)


text \<open>Deleting at a position behind the protected prefix what was just inserted there restores the
  text, and no insertion behind the prefix or deletion anywhere changes the prefix.\<close>

theorem stredit_insert_delete:
  assumes "ed_wf ed" and "stredit_insert e ed p s (int (length s)) = Some (True, ed1)" and "ed_prefix ed \<le> p"
  shows "(\<exists>ed2. stredit_delete ed1 p (int (length s)) = Some (int (length s), ed2) \<and> ed_wf ed2 \<and>
       ed_text ed2 = ed_text ed) \<and>
     take (nat (ed_prefix ed)) (ed_text ed1) = take (nat (ed_prefix ed)) (ed_text ed) \<and>
     (\<forall>q m k ed3. stredit_delete ed q m = Some (k, ed3) \<longrightarrow>
       take (nat (ed_prefix ed)) (ed_text ed3) = take (nat (ed_prefix ed)) (ed_text ed))"
  using ed.del_ins [OF assms] ed.ins_keeps_prefix [OF assms] ed.del_keeps_prefix [OF assms(1)] by blast

theorem stredit_insert_delete_witness:
  "\<exists>ed ed1 ed2. stredit_insert \<lparr>env_ok = (\<lambda>_. True), env_junk = (\<lambda>_. NUL)\<rparr> ed 0 [] 0 = Some (True, ed1) \<and>
     stredit_delete ed1 0 0 = Some (0, ed2) \<and> ed_text ed2 = ed_text ed"
proof -
  let ?e = "\<lparr>env_ok = (\<lambda>_. True), env_junk = (\<lambda>_. NUL)\<rparr>"
  obtain ed where ed: "stredit_init ?e stredit_zero 4 3 10 = Some (True, ed)" "ed_wf ed" using demo_editor by blast
  have i: "\<exists>ed'. stredit_init ?e stredit_zero 4 3 10 = Some (True, ed') \<and> ed_prefix ed' = 0 \<and> ed_size ed' = 0 \<and>
      ed_max_size ed' = 10 \<and> ed_reserved ed' = 3"
    using stredit_init_spec [of 10 3 4 ?e stredit_zero] by (auto split: if_splits)
  have z: "ed_prefix ed = 0" "ed_size ed = 0" "ed_max_size ed = 10" "ed_reserved ed = 3" using i ed(1) by auto
  have "4 \<le> ed_alloc_size ed" using ed(2) z by (auto simp: ed_shape_def elim!: ed_wfE)
  then have al: "stredit_alloc ?e ed 0 = Some (True, ed)" using z by (simp add: stredit_alloc_def)
  obtain ok ed1 where ins: "stredit_insert ?e ed 0 [] 0 = Some (ok, ed1)"
    using stredit_insert_spec [OF ed(2), of 0 "[]" ?e 0] by auto
  then have ok: "ok" using al z by (auto simp: stredit_insert_def Let_def split: Option.bind_splits)
  then have "stredit_insert ?e ed 0 [] (int (length [])) = Some (True, ed1)" using ins by simp
  from stredit_insert_delete [OF ed(2) this] z ins ok show ?thesis by auto
qed

end
