(* ===== verification/LineBuf.thy ===== *)
theory LineBuf
  imports StrEdit
begin

text \<open>
  The rotating line storage of \<open>ports/sh/console.c\<close>: an array of \<open>capacity\<close> line pointers
  used as a ring, the last line being held by an editable string instead of the array.
  A frozen line is a block that begins with \<open>console_fline_t\<close>: a big-endian 16-bit size, the
  8-bit number of render lines, then the NUL-terminated text.

  Shown here: \<open>lb_wf\<close> (the ring window holds live, well-formed lines, the running totals
  are the sums they stand for) is kept by every operation; adding a line appends an empty
  line and drops just enough of the oldest; cleaning the backlog bounds the bytes of text
  kept; recycling advances the absolute numbering with the lines it frees.
\<close>

section \<open>Frozen lines\<close>

definition CONSOLE_FLINE_SIZE :: int where
  "CONSOLE_FLINE_SIZE = 3"

definition PE_CONSOLE_LINE_MAX_LENGTH :: int where
  "PE_CONSOLE_LINE_MAX_LENGTH = 1024"

text \<open>Field access through a \<open>console_fline_t\<close> pointer.\<close>

definition fline_get_size :: "bytes \<Rightarrow> int option" where
  "fline_get_size b = do {
     xs \<leftarrow> mem_read b 0 2; Some (256 * of_char (xs ! 0) + of_char (xs ! 1)) }"

definition fline_set_size :: "bytes \<Rightarrow> int \<Rightarrow> bytes option" where
  "fline_set_size b n = mem_write b 0 [char_of (u16 n div 256), char_of (u16 n mod 256)]"

definition fline_get_render_lines :: "bytes \<Rightarrow> int option" where
  "fline_get_render_lines b = do { xs \<leftarrow> mem_read b 2 1; Some (of_char (xs ! 0)) }"

definition fline_set_render_lines :: "bytes \<Rightarrow> int \<Rightarrow> bytes option" where
  "fline_set_render_lines b n = mem_write b 2 [char_of (u8 n)]"

section \<open>The ring\<close>

record linebuf =
  lb_lines :: "ptr list"
  lb_edit :: stredit
  lb_capacity :: int
  lb_start :: int
  lb_size :: int
  lb_total_rendered :: int
  lb_absolute :: int
  lb_backlog_size :: int
  lb_total_size_except_last :: int
  lb_absolute_rendered :: int

definition linebuf_zero :: linebuf where
  "linebuf_zero = \<lparr>lb_lines = [], lb_edit = stredit_zero, lb_capacity = 0, lb_start = 0,
     lb_size = 0, lb_total_rendered = 0, lb_absolute = 0, lb_backlog_size = 0,
     lb_total_size_except_last = 0, lb_absolute_rendered = 0\<rparr>"

definition linebuf_init :: "alloc_env \<Rightarrow> linebuf \<Rightarrow> int \<Rightarrow> int \<Rightarrow> (bool \<times> linebuf) option" where
  "linebuf_init e buf capacity backlog_size =
     (if capacity \<le> 0 then Some (False, buf)
      else if \<not> env_ok e (nat (capacity * 4)) then Some (False, buf)
      else do {
        (_, ed) \<leftarrow> stredit_init e (lb_edit buf) 0 0 0;
        Some (True, \<lparr>lb_lines = replicate (nat capacity) Null, lb_edit = ed,
          lb_capacity = s16 capacity, lb_start = 0, lb_size = 0, lb_total_rendered = 0,
          lb_absolute = 1, lb_backlog_size = backlog_size, lb_total_size_except_last = 0,
          lb_absolute_rendered = 0\<rparr>)
      })"

fun free_lines :: "ptr list \<Rightarrow> nat \<Rightarrow> unit option" where
  "free_lines ps 0 = Some ()"
| "free_lines [] (Suc n) = None"
| "free_lines (p # ps) (Suc n) = do { _ \<leftarrow> c_free p; free_lines ps n }"

definition linebuf_deinit :: "linebuf \<Rightarrow> linebuf option" where
  "linebuf_deinit buf = do {
     _ \<leftarrow> stredit_reset (lb_edit buf);
     _ \<leftarrow> free_lines (lb_lines buf) (nat (lb_capacity buf));
     Some linebuf_zero
   }"

definition linebuf_nth_to_index :: "linebuf \<Rightarrow> int \<Rightarrow> int" where
  "linebuf_nth_to_index buf ith = c_rem (lb_start buf + ith) (lb_capacity buf)"

text \<open>Reading and writing an entry of the \<open>lines\<close> array.\<close>

definition lines_at :: "linebuf \<Rightarrow> int \<Rightarrow> ptr option" where
  "lines_at buf i = do { xs \<leftarrow> mem_read (lb_lines buf) i 1; Some (xs ! 0) }"

definition lines_put :: "linebuf \<Rightarrow> int \<Rightarrow> ptr \<Rightarrow> linebuf option" where
  "lines_put buf i p = do { ls \<leftarrow> mem_write (lb_lines buf) i [p]; Some (buf\<lparr>lb_lines := ls\<rparr>) }"

text \<open>The pointer to the nth line, and a store through it.\<close>

definition linebuf_get_nth_line :: "linebuf \<Rightarrow> int \<Rightarrow> ptr option" where
  "linebuf_get_nth_line buf ith =
     (if ith < 0 \<or> ith \<ge> lb_size buf then Some Null
      else if ith = lb_size buf - 1 then Some (ed_raw (lb_edit buf))
      else lines_at buf (linebuf_nth_to_index buf ith))"

definition linebuf_put_nth_line :: "linebuf \<Rightarrow> int \<Rightarrow> ptr \<Rightarrow> linebuf option" where
  "linebuf_put_nth_line buf ith p =
     (if ith = lb_size buf - 1
      then Some (buf\<lparr>lb_edit := (lb_edit buf)\<lparr>ed_raw := p\<rparr>\<rparr>)
      else lines_put buf (linebuf_nth_to_index buf ith) p)"

definition linebuf_index_add :: "linebuf \<Rightarrow> int \<Rightarrow> int \<Rightarrow> int" where
  "linebuf_index_add buf index diff = c_rem (index + diff + lb_capacity buf) (lb_capacity buf)"

definition linebuf_start :: "linebuf \<Rightarrow> int" where
  "linebuf_start buf = lb_absolute buf"

definition linebuf_end :: "linebuf \<Rightarrow> int" where
  "linebuf_end buf = lb_absolute buf + lb_size buf"

definition linebuf_get_line :: "linebuf \<Rightarrow> int \<Rightarrow> ptr option" where
  "linebuf_get_line buf n = linebuf_get_nth_line buf (n - lb_absolute buf)"

text \<open>\<open>None\<close> is the null pointer here; the editor itself lives in the buffer.\<close>

definition linebuf_get_last_line :: "linebuf \<Rightarrow> stredit option" where
  "linebuf_get_last_line buf = (if lb_size buf > 0 then Some (lb_edit buf) else None)"

text \<open>Freeing lines \<open>ith, ith + 1, \<dots>\<close> one after the other.\<close>

fun recycle_loop :: "nat \<Rightarrow> int \<Rightarrow> linebuf \<Rightarrow> linebuf option" where
  "recycle_loop 0 ith buf = Some buf"
| "recycle_loop (Suc k) ith buf = do {
     FL \<leftarrow> linebuf_get_nth_line buf ith;
     if FL = Null then recycle_loop k (ith + 1) buf
     else do {
       b \<leftarrow> deref FL;
       rl \<leftarrow> fline_get_render_lines b;
       let buf = buf\<lparr>lb_total_rendered := s16 (lb_total_rendered buf - rl)\<rparr>;
       sz \<leftarrow> fline_get_size b;
       let buf = (if ith \<noteq> lb_size buf - 1
         then buf\<lparr>lb_total_size_except_last := lb_total_size_except_last buf - sz\<rparr> else buf);
       p \<leftarrow> c_free FL;
       buf \<leftarrow> linebuf_put_nth_line buf ith p;
       recycle_loop k (ith + 1) buf
     }
   }"

definition linebuf_recycle_oldest_lines :: "linebuf \<Rightarrow> int \<Rightarrow> linebuf option" where
  "linebuf_recycle_oldest_lines buf count = do {
     let count = min count (lb_size buf);
     if count \<le> 0 then Some buf
     else do {
       buf \<leftarrow> recycle_loop (nat count) 0 buf;
       Some (buf\<lparr>lb_start := s16 (linebuf_index_add buf (lb_start buf) count),
                 lb_size := s16 (lb_size buf - count),
                 lb_absolute := lb_absolute buf + count\<rparr>)
     }
   }"

text \<open>The first half of \<open>linebuf_newline\<close>: freeze the current last line and store it in the array.\<close>

definition freeze_last :: "alloc_env \<Rightarrow> linebuf \<Rightarrow> linebuf option" where
  "freeze_last e buf = do {
     let buf = buf\<lparr>lb_total_size_except_last :=
         lb_total_size_except_last buf + ed_size (lb_edit buf)\<rparr>;
     let size = ed_size (lb_edit buf);
     (frozen, ed) \<leftarrow> stredit_freeze_and_reset e (lb_edit buf);
     let buf = buf\<lparr>lb_edit := ed\<rparr>;
     b \<leftarrow> deref frozen;
     b \<leftarrow> fline_set_size b size;
     let last_nth = linebuf_nth_to_index buf (lb_size buf - 1);
     old \<leftarrow> lines_at buf last_nth;
     if old \<noteq> Null then None else lines_put buf last_nth (Block b)
   }"

text \<open>The second half: count a new last line and give it an empty editor.\<close>

definition open_last :: "alloc_env \<Rightarrow> linebuf \<Rightarrow> linebuf option" where
  "open_last e buf = do {
     let buf = buf\<lparr>lb_size := s16 (lb_size buf + 1)\<rparr>;
     let last_nth = linebuf_nth_to_index buf (lb_size buf - 1);
     buf \<leftarrow> lines_put buf last_nth Null;
     (_, ed) \<leftarrow> stredit_init e (lb_edit buf) 16 CONSOLE_FLINE_SIZE PE_CONSOLE_LINE_MAX_LENGTH;
     Some (buf\<lparr>lb_edit := ed\<rparr>)
   }"

definition linebuf_newline :: "alloc_env \<Rightarrow> linebuf \<Rightarrow> linebuf option" where
  "linebuf_newline e buf = do {
     buf \<leftarrow> linebuf_recycle_oldest_lines buf (lb_size buf - lb_capacity buf + 1);
     buf \<leftarrow> (if lb_size buf > 0 then freeze_last e buf else Some buf);
     open_last e buf
   }"

text \<open>
  The scan of \<open>linebuf_clean_backlog\<close>: how many of the oldest lines go, given the bytes
  held.  At most all lines but the last.
\<close>

fun backlog_scan :: "linebuf \<Rightarrow> nat \<Rightarrow> int \<Rightarrow> int \<Rightarrow> int option" where
  "backlog_scan buf 0 remove n = Some remove"
| "backlog_scan buf (Suc k) remove n =
     (if remove < lb_size buf - 1 \<and> n > lb_backlog_size buf then do {
        FL \<leftarrow> linebuf_get_nth_line buf remove;
        b \<leftarrow> deref FL;
        sz \<leftarrow> fline_get_size b;
        backlog_scan buf k (remove + 1) (n - sz)
      } else Some remove)"

definition linebuf_clean_backlog :: "linebuf \<Rightarrow> linebuf option" where
  "linebuf_clean_backlog buf =
     (if lb_size buf \<le> 0 then Some buf
      else do {
        ed \<leftarrow> linebuf_get_last_line buf;
        let n = lb_total_size_except_last buf + ed_size ed;
        remove \<leftarrow> backlog_scan buf (nat (lb_size buf)) 0 n;
        linebuf_recycle_oldest_lines buf remove
      })"

section \<open>Invariant and abstraction\<close>

definition fl_size :: "bytes \<Rightarrow> int" where
  "fl_size b = 256 * of_char (b ! 0) + of_char (b ! 1)"

definition fl_render_lines :: "bytes \<Rightarrow> int" where
  "fl_render_lines b = of_char (b ! 2)"

definition fl_text :: "bytes \<Rightarrow> bytes" where
  "fl_text b = take (nat (fl_size b)) (drop 3 b)"

text \<open>A block that holds a line: header, as many text bytes as the header says, a NUL.\<close>

definition fline_ok :: "bytes \<Rightarrow> bool" where
  "fline_ok b \<longleftrightarrow> fl_size b + 4 \<le> int (length b) \<and> b ! nat (3 + fl_size b) = NUL"

text \<open>The array entry of the line with number \<open>i\<close>, counted from the start of the ring.\<close>

definition lb_slot :: "linebuf \<Rightarrow> nat \<Rightarrow> ptr" where
  "lb_slot buf i = lb_lines buf ! nat ((lb_start buf + int i) mod lb_capacity buf)"

fun block_of :: "ptr \<Rightarrow> bytes" where
  "block_of (Block b) = b"
| "block_of _ = []"

definition lb_frozen :: "linebuf \<Rightarrow> bytes list" where
  "lb_frozen buf = map (\<lambda>i. block_of (lb_slot buf i)) [0..<nat (lb_size buf - 1)]"

definition lb_geometry :: "linebuf \<Rightarrow> bool" where
  "lb_geometry buf \<longleftrightarrow>
     0 < lb_capacity buf \<and> lb_capacity buf < 32768 \<and>
     int (length (lb_lines buf)) = lb_capacity buf \<and>
     0 \<le> lb_start buf \<and> lb_start buf < lb_capacity buf \<and>
     0 \<le> lb_size buf \<and> lb_size buf \<le> lb_capacity buf"

definition line_live :: "ptr \<Rightarrow> bool" where
  "line_live p \<longleftrightarrow> (case p of Block b \<Rightarrow> fline_ok b | _ \<Rightarrow> False)"

definition lb_lines_ok :: "linebuf \<Rightarrow> bool" where
  "lb_lines_ok buf \<longleftrightarrow> (\<forall>i < nat (lb_size buf - 1). line_live (lb_slot buf i))"

definition lb_edit_ok :: "linebuf \<Rightarrow> bool" where
  "lb_edit_ok buf \<longleftrightarrow> (lb_size buf > 0 \<longrightarrow>
     lb_slot buf (nat (lb_size buf - 1)) = Null \<and> ed_wf (lb_edit buf) \<and>
     ed_reserved (lb_edit buf) = 3 \<and> ed_max_size (lb_edit buf) = 1024)"

text \<open>The last line's header byte that counts its render lines.\<close>

definition edit_render_lines :: "linebuf \<Rightarrow> int" where
  "edit_render_lines buf =
     (if lb_size buf > 0 then fl_render_lines (block_of (ed_raw (lb_edit buf))) else 0)"

definition lb_wf :: "linebuf \<Rightarrow> bool" where
  "lb_wf buf \<longleftrightarrow> lb_geometry buf \<and> lb_lines_ok buf \<and> lb_edit_ok buf \<and>
     lb_total_size_except_last buf = sum_list (map fl_size (lb_frozen buf)) \<and>
     lb_total_rendered buf =
       s16 (sum_list (map fl_render_lines (lb_frozen buf)) + edit_render_lines buf)"

text \<open>The lines held, oldest first.\<close>

definition lb_texts :: "linebuf \<Rightarrow> bytes list" where
  "lb_texts buf = map fl_text (lb_frozen buf) @ (if lb_size buf > 0 then [ed_text (lb_edit buf)] else [])"

section \<open>Frozen line headers\<close>

lemma of_char_range: "0 \<le> (of_char c :: int) \<and> (of_char c :: int) < 256"
  by (metis of_char_mod_256 pos_mod_bound pos_mod_sign zero_less_numeral)

lemma fl_size_nonneg: "0 \<le> fl_size b"
  using of_char_range [of "b ! 0"] of_char_range [of "b ! 1"] by (simp add: fl_size_def)

lemma fline_okD: "fline_ok b \<Longrightarrow> 4 \<le> length b \<and> 0 \<le> fl_size b \<and> fl_size b + 4 \<le> int (length b)"
  using fl_size_nonneg [of b] by (simp add: fline_ok_def)

lemma fline_get_size_eq: "2 \<le> length b \<Longrightarrow> fline_get_size b = Some (fl_size b)"
  by (simp add: fline_get_size_def mem_read_def fl_size_def)

lemma fline_get_render_lines_eq: "3 \<le> length b \<Longrightarrow> fline_get_render_lines b = Some (fl_render_lines b)"
  by (simp add: fline_get_render_lines_def mem_read_def fl_render_lines_def)

lemma of_char_char_of: "0 \<le> n \<Longrightarrow> n < 256 \<Longrightarrow> of_char (char_of (n :: int) :: char) = n"
  by simp

text \<open>Writing the size of a frozen block records the text it holds.\<close>

lemma fline_set_size_frozen:
  assumes "length h = 3" and "length t < 65536"
  shows "\<exists>b. fline_set_size (h @ t @ NUL # r) (int (length t)) = Some b \<and> fline_ok b \<and>
     fl_text b = t \<and> fl_size b = int (length t) \<and>
     fl_render_lines b = of_char (h ! 2) \<and> length b = length (h @ t @ NUL # r)"
proof -
  obtain h0 h1 h2 where h: "h = [h0, h1, h2]" using assms(1)
    by (auto simp: length_Suc_conv eval_nat_numeral)
  let ?n = "int (length t)"
  obtain u v where uv: "?n div 256 = u" "?n mod 256 = v" "0 \<le> u" "u < 256" "0 \<le> v" "v < 256"
    using assms(2) by simp
  then have n: "?n = 256 * u + v" by (metis mult_div_mod_eq)
  let ?b = "char_of u # char_of v # h2 # t @ NUL # r"
  have u: "u16 ?n = ?n" using assms(2) by (simp add: u16_def)
  have s: "fl_size ?b = ?n" unfolding n using uv(3-6) by (simp add: fl_size_def)
  have "fline_set_size (h @ t @ NUL # r) ?n = Some ?b"
    unfolding fline_set_size_def u uv(1,2) by (simp add: mem_write_def h)
  moreover have "fline_ok ?b" unfolding fline_ok_def s
    by (simp add: nat_add_distrib nth_append)
  moreover have "fl_text ?b = t" unfolding fl_text_def s by simp
  ultimately show ?thesis using s h by (intro exI [of _ ?b]) (simp add: fl_render_lines_def)
qed

section \<open>Slots of the ring\<close>

lemma linebuf_nth_to_index_eq:
  "lb_geometry buf \<Longrightarrow> linebuf_nth_to_index buf (int i) = (lb_start buf + int i) mod lb_capacity buf"
  by (simp add: linebuf_nth_to_index_def lb_geometry_def c_rem_nonneg)

lemma ring_index_less:
  "lb_geometry buf \<Longrightarrow> nat ((lb_start buf + i) mod lb_capacity buf) < length (lb_lines buf)"
  by (simp add: lb_geometry_def nat_less_iff)

lemma lines_at_slot:
  "lb_geometry buf \<Longrightarrow> lines_at buf (linebuf_nth_to_index buf (int i)) = Some (lb_slot buf i)"
  by (simp add: lines_at_def linebuf_nth_to_index_eq lb_slot_def lb_geometry_def mem_read_single)

lemma lines_put_slot:
  assumes "lb_geometry buf" and "int i < lb_capacity buf"
  obtains ls where "lines_put buf (linebuf_nth_to_index buf (int i)) p = Some (buf\<lparr>lb_lines := ls\<rparr>)"
    and "length ls = length (lb_lines buf)"
    and "\<And>(buf' :: linebuf) j. lb_lines buf' = ls \<Longrightarrow> lb_start buf' = lb_start buf \<Longrightarrow>
           lb_capacity buf' = lb_capacity buf \<Longrightarrow> int j < lb_capacity buf \<Longrightarrow>
           lb_slot buf' j = (if j = i then p else lb_slot buf j)"
proof
  let ?x = "nat ((lb_start buf + int i) mod lb_capacity buf)"
  let ?ls = "(lb_lines buf)[?x := p]"
  show "lines_put buf (linebuf_nth_to_index buf (int i)) p = Some (buf\<lparr>lb_lines := ?ls\<rparr>)"
    using assms by (simp add: lines_put_def linebuf_nth_to_index_eq mem_write_single lb_geometry_def)
  show "length ?ls = length (lb_lines buf)" by simp
  fix buf' :: linebuf and j assume eq: "lb_lines buf' = ?ls" "lb_start buf' = lb_start buf"
    "lb_capacity buf' = lb_capacity buf" "int j < lb_capacity buf"
  have "?x = nat ((lb_start buf + int j) mod lb_capacity buf) \<longleftrightarrow> i = j"
    using ring_index_inj [of "int i" "lb_capacity buf" "int j" "lb_start buf"] assms eq(4)
    by (auto simp: lb_geometry_def nat_eq_iff2)
  then show "lb_slot buf' j = (if j = i then p else lb_slot buf j)"
    using ring_index_less [OF assms(1), of "int i"] eq by (auto simp: lb_slot_def)
qed

section \<open>Recycling\<close>

text \<open>Everything but the line array and the two totals is the same.\<close>

definition lb_frame :: "linebuf \<Rightarrow> linebuf \<Rightarrow> bool" where
  "lb_frame buf buf' \<longleftrightarrow> lb_capacity buf' = lb_capacity buf \<and> lb_start buf' = lb_start buf \<and>
     lb_size buf' = lb_size buf \<and> lb_absolute buf' = lb_absolute buf \<and>
     lb_backlog_size buf' = lb_backlog_size buf \<and>
     lb_absolute_rendered buf' = lb_absolute_rendered buf \<and>
     length (lb_lines buf') = length (lb_lines buf)"

lemma lb_frame_geometry: "lb_frame buf buf' \<Longrightarrow> lb_geometry buf \<Longrightarrow> lb_geometry buf'"
  by (simp add: lb_frame_def lb_geometry_def)

lemma recycle_loop_frozen:
  assumes "lb_geometry buf" and "\<And>i. k \<le> i \<Longrightarrow> i < k + n \<Longrightarrow> line_live (lb_slot buf i)"
    and "int (k + n) \<le> lb_size buf - 1"
  shows "\<exists>buf'. recycle_loop n (int k) buf = Some buf' \<and> lb_frame buf buf' \<and>
      lb_edit buf' = lb_edit buf \<and>
      (\<forall>j. int j < lb_capacity buf \<longrightarrow>
         lb_slot buf' j = (if k \<le> j \<and> j < k + n then Freed else lb_slot buf j)) \<and>
      lb_total_size_except_last buf' = lb_total_size_except_last buf -
        sum_list (map (\<lambda>i. fl_size (block_of (lb_slot buf i))) [k..<k + n]) \<and>
      (\<forall>x. lb_total_rendered buf = s16 x \<longrightarrow> lb_total_rendered buf' = s16 (x -
        sum_list (map (\<lambda>i. fl_render_lines (block_of (lb_slot buf i))) [k..<k + n])))"
  using assms
proof (induction n arbitrary: k buf)
  case 0
  then show ?case by (auto simp: lb_frame_def)
next
  case (Suc n)
  have "line_live (lb_slot buf k)" by (rule Suc.prems(2)) simp_all
  then obtain b where b: "lb_slot buf k = Block b" "fline_ok b"
    by (auto simp: line_live_def split: ptr.splits)
  have len: "3 \<le> length b" "2 \<le> length b" using fline_okD [OF b(2)] by auto
  have k: "int k < lb_size buf - 1" "int k < lb_capacity buf"
    using Suc.prems(1,3) by (simp_all add: lb_geometry_def)
  let ?b1 = "buf\<lparr>lb_total_rendered := s16 (lb_total_rendered buf - fl_render_lines b),
    lb_total_size_except_last := lb_total_size_except_last buf - fl_size b\<rparr>"
  have g1: "lb_geometry ?b1" using Suc.prems(1) by (simp add: lb_geometry_def)
  from k(2) have k': "int k < lb_capacity ?b1" by simp
  from lines_put_slot [OF g1 k', of Freed] obtain ls where
    put: "lines_put ?b1 (linebuf_nth_to_index ?b1 (int k)) Freed = Some (?b1\<lparr>lb_lines := ls\<rparr>)"
      "length ls = length (lb_lines ?b1)"
    and slot': "\<And>(buf' :: linebuf) j. lb_lines buf' = ls \<Longrightarrow> lb_start buf' = lb_start ?b1 \<Longrightarrow>
           lb_capacity buf' = lb_capacity ?b1 \<Longrightarrow> int j < lb_capacity ?b1 \<Longrightarrow>
           lb_slot buf' j = (if j = k then Freed else lb_slot ?b1 j)"
    by blast
  let ?b2 = "?b1\<lparr>lb_lines := ls\<rparr>"
  have slot1: "lb_slot ?b1 j = lb_slot buf j" for j by (simp add: lb_slot_def)
  have slot: "lb_slot ?b2 j = (if j = k then Freed else lb_slot ?b1 j)" if "int j < lb_capacity buf" for j
    by (rule slot') (use that in simp_all)
  have step: "recycle_loop (Suc n) (int k) buf = recycle_loop n (int (Suc k)) ?b2"
    using k(1) b(1) put(1) lines_at_slot [OF Suc.prems(1), of k] len
    by (simp add: linebuf_get_nth_line_def linebuf_put_nth_line_def fline_get_size_eq
        fline_get_render_lines_eq c_free_def add.commute)
  have g2: "lb_geometry ?b2" using g1 put(2) by (simp add: lb_geometry_def)
  have live: "line_live (lb_slot ?b2 i)" if "Suc k \<le> i" "i < Suc k + n" for i
    using Suc.prems(2) [of i] that slot [of i] slot1 Suc.prems(1,3) by (auto simp: lb_geometry_def)
  have sz2: "int (Suc k + n) \<le> lb_size ?b2 - 1" using Suc.prems(3) by simp
  from Suc.IH [OF g2 live sz2] obtain buf' where B:
    "recycle_loop n (int (Suc k)) ?b2 = Some buf'" "lb_frame ?b2 buf'" "lb_edit buf' = lb_edit ?b2"
    "\<forall>j. int j < lb_capacity ?b2 \<longrightarrow>
       lb_slot buf' j = (if Suc k \<le> j \<and> j < Suc k + n then Freed else lb_slot ?b2 j)"
    "lb_total_size_except_last buf' = lb_total_size_except_last ?b2 -
        sum_list (map (\<lambda>i. fl_size (block_of (lb_slot ?b2 i))) [Suc k..<Suc k + n])"
    "\<forall>x. lb_total_rendered ?b2 = s16 x \<longrightarrow> lb_total_rendered buf' = s16 (x -
        sum_list (map (\<lambda>i. fl_render_lines (block_of (lb_slot ?b2 i))) [Suc k..<Suc k + n]))"
    by blast
  have eq: "map (\<lambda>i. f (block_of (lb_slot ?b2 i))) [Suc k..<Suc k + n] =
      map (\<lambda>i. f (block_of (lb_slot buf i))) [Suc k..<Suc k + n]" for f :: "bytes \<Rightarrow> int"
    using slot slot1 Suc.prems(1,3) by (intro map_cong) (auto simp: lb_geometry_def)
  have upt: "[k..<k + Suc n] = k # [Suc k..<Suc k + n]" by (simp add: upt_conv_Cons)
  have 1: "lb_frame buf buf'" using B(2) put(2) by (simp add: lb_frame_def)
  have 2: "\<forall>j. int j < lb_capacity buf \<longrightarrow>
      lb_slot buf' j = (if k \<le> j \<and> j < k + Suc n then Freed else lb_slot buf j)"
    using B(4) slot slot1 by auto
  have 3: "lb_total_rendered buf' = s16 (x -
        sum_list (map (\<lambda>i. fl_render_lines (block_of (lb_slot buf i))) [k..<k + Suc n]))"
    if "lb_total_rendered buf = s16 x" for x
  proof -
    have "lb_total_rendered ?b2 = s16 (x - fl_render_lines b)" using that by (simp add: s16_diff_cong)
    from B(6) [unfolded eq, rule_format, OF this] show ?thesis
      by (simp only: upt list.map sum_list.Cons b(1) block_of.simps diff_diff_eq)
  qed
  have 4: "lb_total_size_except_last buf' = lb_total_size_except_last buf -
        sum_list (map (\<lambda>i. fl_size (block_of (lb_slot buf i))) [k..<k + Suc n])"
    using B(5) [unfolded eq] unfolding upt list.map sum_list.Cons b(1) block_of.simps by simp
  show ?case
    by (rule exI [of _ buf'], intro conjI allI impI) (use step B(1,3) 1 2 3 4 in simp_all)
qed

lemma index_add_eq:
  assumes "lb_geometry buf" and "0 \<le> c" and "c \<le> lb_capacity buf"
  shows "s16 (linebuf_index_add buf (lb_start buf) c) = (lb_start buf + c) mod lb_capacity buf"
    and "(lb_start buf + c) mod lb_capacity buf < lb_capacity buf"
    and "0 \<le> (lb_start buf + c) mod lb_capacity buf"
proof -
  show m: "(lb_start buf + c) mod lb_capacity buf < lb_capacity buf"
    "0 \<le> (lb_start buf + c) mod lb_capacity buf" using assms by (simp_all add: lb_geometry_def)
  have "lb_capacity buf < 32768" using assms(1) by (simp add: lb_geometry_def)
  then have "s16 ((lb_start buf + c) mod lb_capacity buf) = (lb_start buf + c) mod lb_capacity buf"
    using m by (intro s16_id) linarith+
  moreover have "linebuf_index_add buf (lb_start buf) c = (lb_start buf + c) mod lb_capacity buf"
    using assms by (simp add: linebuf_index_add_def lb_geometry_def c_rem_nonneg)
  ultimately show "s16 (linebuf_index_add buf (lb_start buf) c) = (lb_start buf + c) mod lb_capacity buf"
    by simp
qed

lemma lb_slot_shift:
  assumes "lb_lines buf' = lb_lines buf" and "lb_capacity buf' = lb_capacity buf"
    and "lb_start buf' = (lb_start buf + int c) mod lb_capacity buf"
  shows "lb_slot buf' j = lb_slot buf (c + j)"
  by (simp add: lb_slot_def assms mod_add_left_eq add.assoc)

lemma lb_frozen_cong:
  assumes "lb_size buf' = lb_size buf" and "\<And>j. int j < lb_size buf - 1 \<Longrightarrow> lb_slot buf' j = lb_slot buf j"
  shows "lb_frozen buf' = lb_frozen buf"
  using assms by (auto simp: lb_frozen_def)

text \<open>Recycling fewer lines than there are: the oldest go, the rest and the editor stay.\<close>

lemma linebuf_recycle_some:
  assumes "lb_wf buf" and "0 \<le> c" and "c < lb_size buf"
  shows "\<exists>buf'. linebuf_recycle_oldest_lines buf c = Some buf' \<and> lb_wf buf' \<and>
     lb_frozen buf' = drop (nat c) (lb_frozen buf) \<and> lb_edit buf' = lb_edit buf \<and>
     lb_size buf' = lb_size buf - c \<and> lb_absolute buf' = lb_absolute buf + c \<and>
     lb_capacity buf' = lb_capacity buf \<and> lb_backlog_size buf' = lb_backlog_size buf \<and>
     lb_absolute_rendered buf' = lb_absolute_rendered buf"
proof (cases "c = 0")
  case True
  then show ?thesis using assms by (auto simp: linebuf_recycle_oldest_lines_def lb_wf_def)
next
  case False
  define n where "n = nat c"
  have W: "lb_geometry buf" "lb_lines_ok buf" "lb_edit_ok buf"
    "lb_total_size_except_last buf = sum_list (map fl_size (lb_frozen buf))"
    "lb_total_rendered buf = s16 (sum_list (map fl_render_lines (lb_frozen buf)) + edit_render_lines buf)"
    using assms(1) by (simp_all add: lb_wf_def)
  have c: "0 < c" "int n = c" using False assms(2) by (auto simp: n_def)
  have live: "line_live (lb_slot buf i)" if "0 \<le> i" "i < 0 + n" for i
    using W(2) that assms(3) c(2) by (auto simp: lb_lines_ok_def)
  from recycle_loop_frozen [OF W(1), of 0 n] live assms(3) c(2) obtain b1 where B:
    "recycle_loop n 0 buf = Some b1" "lb_frame buf b1" "lb_edit b1 = lb_edit buf"
    "\<forall>j. int j < lb_capacity buf \<longrightarrow> lb_slot b1 j = (if j < n then Freed else lb_slot buf j)"
    "lb_total_size_except_last b1 = lb_total_size_except_last buf -
        sum_list (map (\<lambda>i. fl_size (block_of (lb_slot buf i))) [0..<n])"
    "\<forall>x. lb_total_rendered buf = s16 x \<longrightarrow> lb_total_rendered b1 = s16 (x -
        sum_list (map (\<lambda>i. fl_render_lines (block_of (lb_slot buf i))) [0..<n]))"
    by auto
  have G1: "lb_geometry b1" by (rule lb_frame_geometry [OF B(2) W(1)])
  have F: "lb_capacity b1 = lb_capacity buf" "lb_start b1 = lb_start buf" "lb_size b1 = lb_size buf"
    "lb_absolute b1 = lb_absolute buf" "lb_backlog_size b1 = lb_backlog_size buf"
    "lb_absolute_rendered b1 = lb_absolute_rendered buf" "length (lb_lines b1) = length (lb_lines buf)"
    using B(2) by (simp_all add: lb_frame_def)
  have cap: "c \<le> lb_capacity b1" using assms(3) W(1) F(1) by (simp add: lb_geometry_def)
  note ix = index_add_eq [OF G1 assms(2) cap]
  have sz: "s16 (lb_size b1 - c) = lb_size buf - c"
    using W(1) c(1) assms(3) F(3) by (intro trans [OF s16_id]) (auto simp: lb_geometry_def)
  let ?b = "b1\<lparr>lb_start := (lb_start buf + c) mod lb_capacity buf, lb_size := lb_size buf - c,
      lb_absolute := lb_absolute buf + c\<rparr>"
  have R: "linebuf_recycle_oldest_lines buf c = Some ?b"
    using c(1) assms(3) B(1) ix(1) sz F by (simp add: linebuf_recycle_oldest_lines_def min_def n_def [symmetric])
  have slot: "lb_slot ?b j = lb_slot buf (n + j)" if "int (n + j) < lb_capacity buf" for j
  proof -
    have "lb_slot ?b j = lb_slot b1 (n + j)"
      by (rule lb_slot_shift) (simp_all add: F c(2))
    then show ?thesis using B(4) that by simp
  qed
  have G: "lb_geometry ?b" using G1 ix(2,3) F assms(2,3) by (simp add: lb_geometry_def)
  have szle: "lb_size buf \<le> lb_capacity buf" using W(1) by (simp add: lb_geometry_def)
  have L: "lb_lines_ok ?b" unfolding lb_lines_ok_def
  proof (intro allI impI)
    fix i assume i: "i < nat (lb_size ?b - 1)"
    then have *: "n + i < nat (lb_size buf - 1)" using c by auto
    then have "line_live (lb_slot buf (n + i))" using W(2) by (simp add: lb_lines_ok_def)
    moreover have "int (n + i) < lb_capacity buf" using * szle by linarith
    ultimately show "line_live (lb_slot ?b i)" using slot [of i] by simp
  qed
  have E: "lb_edit_ok ?b"
  proof -
    have "n + nat (lb_size buf - c - 1) = nat (lb_size buf - 1)" using c(2) assms(3) by auto
    then show ?thesis using W(3) slot [of "nat (lb_size buf - c - 1)"] szle c assms(3) B(3)
      by (simp add: lb_edit_ok_def)
  qed
  have Fr: "lb_frozen ?b = drop n (lb_frozen buf)"
  proof (rule nth_equalityI)
    show "length (lb_frozen ?b) = length (drop n (lb_frozen buf))"
      using c(2) by (auto simp: lb_frozen_def)
    fix i assume i: "i < length (lb_frozen ?b)"
    then have "n + i < nat (lb_size buf - 1)" using c by (auto simp: lb_frozen_def)
    then show "lb_frozen ?b ! i = drop n (lb_frozen buf) ! i"
      using i c(2) slot [of i] szle by (simp add: lb_frozen_def)
  qed
  have tk: "map (\<lambda>i. f (block_of (lb_slot buf i))) [0..<n] = map f (take n (lb_frozen buf))"
    for f :: "bytes \<Rightarrow> int"
    using assms(3) c by (simp add: lb_frozen_def take_map o_def min_def)
  have T: "lb_total_size_except_last ?b = sum_list (map fl_size (lb_frozen ?b))"
    unfolding Fr using B(5) W(4) sum_list_drop_int [of fl_size "lb_frozen buf" n] by (simp add: tk)
  have "edit_render_lines ?b = edit_render_lines buf" using B(3) assms(3) c(1)
    by (simp add: edit_render_lines_def)
  then have TR: "lb_total_rendered ?b =
      s16 (sum_list (map fl_render_lines (lb_frozen ?b)) + edit_render_lines ?b)"
    unfolding Fr using B(6) W(5) sum_list_drop_int [of fl_render_lines "lb_frozen buf" n]
    by (simp add: tk algebra_simps)
  show ?thesis
    by (rule exI [of _ ?b], intro conjI)
      (use R G L E T TR Fr F B(3) in \<open>simp_all add: lb_wf_def n_def\<close>)
qed

lemma recycle_loop_Suc:
  "recycle_loop (Suc a) k buf = do { buf \<leftarrow> recycle_loop a k buf; recycle_loop 1 (k + int a) buf }"
proof (induction a arbitrary: k buf)
  case 0
  then show ?case by simp
next
  case (Suc a)
  have "recycle_loop (Suc (Suc a)) k buf =
      do { b \<leftarrow> recycle_loop 1 k buf; recycle_loop (Suc a) (k + 1) b }"
    by (simp add: Let_def cong: Option.bind_cong split: Option.bind_split)
  also have "\<dots> = do { b \<leftarrow> recycle_loop 1 k buf; b \<leftarrow> recycle_loop a (k + 1) b;
      recycle_loop 1 (k + 1 + int a) b }"
    by (simp only: Suc.IH)
  also have "\<dots> = do { b \<leftarrow> recycle_loop (Suc a) k buf; recycle_loop 1 (k + int (Suc a)) b }"
    by (simp add: Let_def algebra_simps cong: Option.bind_cong split: Option.bind_split)
  finally show ?case .
qed

text \<open>Recycling every line frees the editor's block too and leaves an empty ring.\<close>

lemma linebuf_recycle_all:
  assumes "lb_wf buf" and "0 < lb_size buf" and "lb_size buf \<le> c"
  shows "\<exists>buf'. linebuf_recycle_oldest_lines buf c = Some buf' \<and> lb_wf buf' \<and> lb_size buf' = 0 \<and>
     lb_absolute buf' = lb_absolute buf + lb_size buf \<and>
     lb_capacity buf' = lb_capacity buf \<and> lb_backlog_size buf' = lb_backlog_size buf \<and>
     lb_absolute_rendered buf' = lb_absolute_rendered buf"
proof -
  define n where "n = nat (lb_size buf - 1)"
  have n: "lb_size buf = int n + 1" "nat (lb_size buf) = Suc n" using assms(2) by (auto simp: n_def)
  have W: "lb_geometry buf" "lb_lines_ok buf" "lb_edit_ok buf"
    "lb_total_size_except_last buf = sum_list (map fl_size (lb_frozen buf))"
    "lb_total_rendered buf = s16 (sum_list (map fl_render_lines (lb_frozen buf)) + edit_render_lines buf)"
    using assms(1) by (simp_all add: lb_wf_def)
  have live: "line_live (lb_slot buf i)" if "0 \<le> i" "i < 0 + n" for i
    using W(2) that by (simp add: lb_lines_ok_def n_def)
  from recycle_loop_frozen [OF W(1), of 0 n] live n(1) obtain b1 where B:
    "recycle_loop n 0 buf = Some b1" "lb_frame buf b1" "lb_edit b1 = lb_edit buf"
    "lb_total_size_except_last b1 = lb_total_size_except_last buf -
        sum_list (map (\<lambda>i. fl_size (block_of (lb_slot buf i))) [0..<n])"
    "\<forall>x. lb_total_rendered buf = s16 x \<longrightarrow> lb_total_rendered b1 = s16 (x -
        sum_list (map (\<lambda>i. fl_render_lines (block_of (lb_slot buf i))) [0..<n]))"
    by auto
  have F: "lb_capacity b1 = lb_capacity buf" "lb_start b1 = lb_start buf" "lb_size b1 = lb_size buf"
    "lb_absolute b1 = lb_absolute buf" "lb_backlog_size b1 = lb_backlog_size buf"
    "lb_absolute_rendered b1 = lb_absolute_rendered buf" "length (lb_lines b1) = length (lb_lines buf)"
    using B(2) by (simp_all add: lb_frame_def)
  have all: "map (\<lambda>i. f (block_of (lb_slot buf i))) [0..<n] = map f (lb_frozen buf)"
    for f :: "bytes \<Rightarrow> int" by (simp add: lb_frozen_def n_def o_def)
  have ed: "ed_wf (lb_edit buf)" "ed_reserved (lb_edit buf) = 3" using W(3) assms(2) by (simp_all add: lb_edit_ok_def)
  from ed obtain b where b: "ed_raw (lb_edit buf) = Block b" "ed_shape b (lb_edit buf)" by (elim ed_wfE)
  have len: "3 \<le> length b" "2 \<le> length b" using b(2) ed(2) by (auto simp: ed_shape_def)
  let ?b2 = "b1\<lparr>lb_total_rendered := s16 (lb_total_rendered b1 - fl_render_lines b),
     lb_edit := (lb_edit buf)\<lparr>ed_raw := Freed\<rparr>\<rparr>"
  have "recycle_loop 1 (int n) b1 = Some ?b2"
    using b(1) B(3) len n(1) F(3)
    by (simp add: linebuf_get_nth_line_def linebuf_put_nth_line_def fline_get_size_eq
        fline_get_render_lines_eq c_free_def)
  then have loop: "recycle_loop (nat (lb_size buf)) 0 buf = Some ?b2"
    unfolding n(2) recycle_loop_Suc using B(1) by simp
  have G2: "lb_geometry ?b2" using W(1) F by (simp add: lb_geometry_def)
  have cap: "0 \<le> lb_size buf" "lb_size buf \<le> lb_capacity ?b2" using W(1) F by (simp_all add: lb_geometry_def)
  note ix = index_add_eq [OF G2 cap]
  let ?b = "?b2\<lparr>lb_start := s16 (linebuf_index_add ?b2 (lb_start ?b2) (lb_size buf)), lb_size := 0,
     lb_absolute := lb_absolute buf + lb_size buf\<rparr>"
  have "s16 0 = 0" by (simp add: s16_def)
  then have R: "linebuf_recycle_oldest_lines buf c = Some ?b"
    using assms(2,3) loop F by (simp add: linebuf_recycle_oldest_lines_def min_def Let_def)
  have T: "lb_total_size_except_last ?b = 0" using B(4) W(4) by (simp add: all)
  have "edit_render_lines buf = fl_render_lines b" using b(1) assms(2) by (simp add: edit_render_lines_def)
  then have TR: "lb_total_rendered ?b = s16 0"
    using B(5) [rule_format, OF W(5)] by (simp add: all s16_diff_cong)
  have "lb_geometry ?b" using G2 ix by (simp add: lb_geometry_def)
  moreover have "lb_frozen ?b = []" "edit_render_lines ?b = 0" "lb_lines_ok ?b" "lb_edit_ok ?b"
    by (simp_all add: lb_frozen_def edit_render_lines_def lb_lines_ok_def lb_edit_ok_def)
  ultimately have "lb_wf ?b" using T TR by (simp add: lb_wf_def)
  then show ?thesis using R F by (intro exI [of _ ?b]) simp
qed

section \<open>Adding a line\<close>

text \<open>Room is made first: afterwards the ring is not full.\<close>

lemma newline_make_room:
  assumes "lb_wf buf"
  shows "\<exists>buf'. linebuf_recycle_oldest_lines buf (lb_size buf - lb_capacity buf + 1) = Some buf' \<and>
     lb_wf buf' \<and> lb_size buf' < lb_capacity buf' \<and>
     lb_texts buf' = drop (length (lb_texts buf) + 1 - nat (lb_capacity buf)) (lb_texts buf) \<and>
     linebuf_end buf' = linebuf_end buf \<and> lb_capacity buf' = lb_capacity buf \<and>
     lb_backlog_size buf' = lb_backlog_size buf \<and>
     lb_absolute_rendered buf' = lb_absolute_rendered buf"
proof -
  have g: "0 < lb_capacity buf" "0 \<le> lb_size buf" "lb_size buf \<le> lb_capacity buf"
    using assms by (simp_all add: lb_wf_def lb_geometry_def)
  have len: "length (lb_texts buf) = nat (lb_size buf)"
    using g(2) by (auto simp: lb_texts_def lb_frozen_def)
  consider (room) "lb_size buf < lb_capacity buf" | (one) "lb_size buf = lb_capacity buf" "lb_capacity buf = 1"
    | (full) "lb_size buf = lb_capacity buf" "1 < lb_capacity buf" using g by linarith
  then show ?thesis
  proof cases
    case room
    then have "linebuf_recycle_oldest_lines buf (lb_size buf - lb_capacity buf + 1) = Some buf"
      by (simp add: linebuf_recycle_oldest_lines_def Let_def)
    moreover have "length (lb_texts buf) + 1 - nat (lb_capacity buf) = 0" using room len g by simp
    ultimately show ?thesis using assms room by simp
  next
    case one
    from linebuf_recycle_all [OF assms, of 1] one obtain b1 where
      B: "linebuf_recycle_oldest_lines buf 1 = Some b1" "lb_wf b1" "lb_size b1 = 0"
        "lb_absolute b1 = lb_absolute buf + lb_size buf" "lb_capacity b1 = lb_capacity buf"
        "lb_backlog_size b1 = lb_backlog_size buf" "lb_absolute_rendered b1 = lb_absolute_rendered buf"
      by auto
    have "lb_texts b1 = []" using B(3) by (simp add: lb_texts_def lb_frozen_def)
    then show ?thesis using B one len by (simp add: linebuf_end_def)
  next
    case full
    from linebuf_recycle_some [OF assms, of 1] full obtain b1 where
      B: "linebuf_recycle_oldest_lines buf 1 = Some b1" "lb_wf b1"
        "lb_frozen b1 = drop 1 (lb_frozen buf)" "lb_edit b1 = lb_edit buf"
        "lb_size b1 = lb_size buf - 1"
        "lb_absolute b1 = lb_absolute buf + 1" "lb_capacity b1 = lb_capacity buf"
        "lb_backlog_size b1 = lb_backlog_size buf" "lb_absolute_rendered b1 = lb_absolute_rendered buf"
      by auto
    have "length (lb_texts buf) + 1 - nat (lb_capacity buf) = 1" using full len g by simp
    moreover have "0 < length (lb_frozen buf)" using full by (simp add: lb_frozen_def)
    ultimately have "lb_texts b1 = drop (length (lb_texts buf) + 1 - nat (lb_capacity buf)) (lb_texts buf)"
      using B(3-5) full by (simp add: lb_texts_def drop_map)
    then show ?thesis using B full by (simp add: linebuf_end_def)
  qed
qed

lemma edit_header:
  assumes "lb_wf buf" and "0 < lb_size buf"
  shows "length (ed_header (lb_edit buf)) = 3"
    and "edit_render_lines buf = of_char (ed_header (lb_edit buf) ! 2)"
proof -
  have ed: "ed_wf (lb_edit buf)" "ed_reserved (lb_edit buf) = 3"
    using assms by (simp_all add: lb_wf_def lb_edit_ok_def)
  from ed obtain b where b: "ed_raw (lb_edit buf) = Block b" "ed_shape b (lb_edit buf)" by (elim ed_wfE)
  have "4 \<le> length b" using b(2) ed(2) by (auto simp: ed_shape_def)
  then show "length (ed_header (lb_edit buf)) = 3"
    "edit_render_lines buf = of_char (ed_header (lb_edit buf) ! 2)"
    using b(1) ed(2) assms(2) by (simp_all add: ed_header_def edit_render_lines_def fl_render_lines_def)
qed

lemma freeze_last_spec:
  assumes "lb_wf buf" and "0 < lb_size buf" and "env_ok e = (\<lambda>_. True)"
  shows "\<exists>ls b. freeze_last e buf = Some (buf\<lparr>lb_total_size_except_last :=
       lb_total_size_except_last buf + ed_size (lb_edit buf), lb_edit := stredit_zero, lb_lines := ls\<rparr>) \<and>
     fline_ok b \<and> fl_text b = ed_text (lb_edit buf) \<and> fl_size b = ed_size (lb_edit buf) \<and>
     fl_render_lines b = edit_render_lines buf \<and> length ls = length (lb_lines buf) \<and>
     (\<forall>(buf' :: linebuf) j. lb_lines buf' = ls \<longrightarrow> lb_start buf' = lb_start buf \<longrightarrow>
        lb_capacity buf' = lb_capacity buf \<longrightarrow> int j < lb_capacity buf \<longrightarrow>
        lb_slot buf' j = (if j = nat (lb_size buf - 1) then Block b else lb_slot buf j))"
proof -
  let ?ed = "lb_edit buf"
  define k where "k = nat (lb_size buf - 1)"
  have ed: "ed_wf ?ed" "ed_max_size ?ed = 1024" "lb_slot buf k = Null"
    using assms(1,2) by (simp_all add: lb_wf_def lb_edit_ok_def k_def)
  have k: "int k = lb_size buf - 1" using assms(2) by (simp add: k_def)
  have G: "lb_geometry buf" using assms(1) by (simp add: lb_wf_def)
  note H = edit_header [OF assms(1,2)]
  from stredit_freeze_spec [OF ed(1), of e] assms(3) obtain r where
    fr: "stredit_freeze_and_reset e ?ed = Some (Block (ed_header ?ed @ ed_text ?ed @ NUL # r), stredit_zero)"
    by auto
  have tl: "int (length (ed_text ?ed)) = ed_size ?ed" using ed(1) by simp
  moreover have "ed_size ?ed \<le> 1024" using ed by (auto simp: ed_shape_def elim!: ed_wfE)
  ultimately have "length (ed_text ?ed) < 65536" by simp
  from fline_set_size_frozen [OF H(1) this, of r] tl H(2) obtain b where
    b: "fline_set_size (ed_header ?ed @ ed_text ?ed @ NUL # r) (ed_size ?ed) = Some b" "fline_ok b"
      "fl_text b = ed_text ?ed" "fl_size b = ed_size ?ed" "fl_render_lines b = edit_render_lines buf"
    by auto
  let ?b1 = "buf\<lparr>lb_total_size_except_last := lb_total_size_except_last buf + ed_size ?ed,
      lb_edit := stredit_zero\<rparr>"
  have G1: "lb_geometry ?b1" using G by (simp add: lb_geometry_def)
  have kc: "int k < lb_capacity ?b1" using G k by (simp add: lb_geometry_def)
  have slot1: "lb_slot ?b1 j = lb_slot buf j" for j by (simp add: lb_slot_def)
  from lines_put_slot [OF G1 kc, of "Block b"] obtain ls where
    put: "lines_put ?b1 (linebuf_nth_to_index ?b1 (int k)) (Block b) = Some (?b1\<lparr>lb_lines := ls\<rparr>)"
      "length ls = length (lb_lines ?b1)"
    and slot: "\<And>(buf' :: linebuf) j. lb_lines buf' = ls \<Longrightarrow> lb_start buf' = lb_start ?b1 \<Longrightarrow>
           lb_capacity buf' = lb_capacity ?b1 \<Longrightarrow> int j < lb_capacity ?b1 \<Longrightarrow>
           lb_slot buf' j = (if j = k then Block b else lb_slot ?b1 j)" by blast
  have at: "lines_at ?b1 (linebuf_nth_to_index ?b1 (lb_size buf - 1)) = Some Null"
    using lines_at_slot [OF G1, of k] slot1 ed(3) k by simp
  have "freeze_last e buf = Some (?b1\<lparr>lb_lines := ls\<rparr>)"
    using fr b(1) at put(1) k by (simp add: freeze_last_def Let_def)
  then show ?thesis
    by (intro exI [of _ ls] exI [of _ b] conjI allI impI)
      (use b put(2) slot slot1 in \<open>simp_all add: k_def [symmetric]\<close>)
qed

text \<open>The blocks of the first \<open>n\<close> lines.\<close>

definition lb_blocks :: "linebuf \<Rightarrow> nat \<Rightarrow> bytes list" where
  "lb_blocks buf n = map (\<lambda>i. block_of (lb_slot buf i)) [0..<n]"

lemma open_last_spec:
  assumes "lb_geometry buf" and "lb_size buf < lb_capacity buf"
    and "\<forall>i < nat (lb_size buf). line_live (lb_slot buf i)"
    and "lb_total_size_except_last buf = sum_list (map fl_size (lb_blocks buf (nat (lb_size buf))))"
    and "lb_total_rendered buf = s16 (sum_list (map fl_render_lines (lb_blocks buf (nat (lb_size buf)))))"
    and "env_ok e = (\<lambda>_. True)"
  shows "\<exists>buf'. open_last e buf = Some buf' \<and> lb_wf buf' \<and>
     lb_frozen buf' = lb_blocks buf (nat (lb_size buf)) \<and>
     lb_size buf' = lb_size buf + 1 \<and> ed_text (lb_edit buf') = [] \<and> ed_size (lb_edit buf') = 0 \<and>
     ed_prefix (lb_edit buf') = 0 \<and>
     lb_absolute buf' = lb_absolute buf \<and> lb_capacity buf' = lb_capacity buf \<and>
     lb_backlog_size buf' = lb_backlog_size buf \<and> lb_absolute_rendered buf' = lb_absolute_rendered buf"
proof -
  define k where "k = nat (lb_size buf)"
  have g: "0 \<le> lb_size buf" "lb_capacity buf < 32768" using assms(1) by (simp_all add: lb_geometry_def)
  have k: "int k = lb_size buf" using g by (simp add: k_def)
  have sz: "s16 (lb_size buf + 1) = lb_size buf + 1" using g assms(2) by (intro s16_id) linarith+
  let ?b1 = "buf\<lparr>lb_size := lb_size buf + 1\<rparr>"
  have G1: "lb_geometry ?b1" using assms(1,2) by (simp add: lb_geometry_def)
  have kc: "int k < lb_capacity ?b1" using assms(2) k by simp
  have slot1: "lb_slot ?b1 j = lb_slot buf j" for j by (simp add: lb_slot_def)
  from lines_put_slot [OF G1 kc, of Null] obtain ls where
    put: "lines_put ?b1 (linebuf_nth_to_index ?b1 (int k)) Null = Some (?b1\<lparr>lb_lines := ls\<rparr>)"
      "length ls = length (lb_lines ?b1)"
    and slot: "\<And>(buf' :: linebuf) j. lb_lines buf' = ls \<Longrightarrow> lb_start buf' = lb_start ?b1 \<Longrightarrow>
           lb_capacity buf' = lb_capacity ?b1 \<Longrightarrow> int j < lb_capacity ?b1 \<Longrightarrow>
           lb_slot buf' j = (if j = k then Null else lb_slot ?b1 j)" by blast
  from stredit_init_spec [of 1024 3 16 e "lb_edit buf"] assms(6) obtain ed where
    ini: "stredit_init e (lb_edit buf) 16 3 1024 = Some (True, ed)"
    and ed: "ed_wf ed" "ed_text ed = []" "ed_prefix ed = 0" "ed_size ed = 0" "ed_max_size ed = 1024"
      "ed_reserved ed = 3" "ed_header ed = replicate 3 NUL"
    by (fastforce split: if_splits)
  let ?b = "?b1\<lparr>lb_lines := ls, lb_edit := ed\<rparr>"
  have O: "open_last e buf = Some ?b"
    using put(1) sz k ini by (simp add: open_last_def CONSOLE_FLINE_SIZE_def PE_CONSOLE_LINE_MAX_LENGTH_def)
  have slotb: "lb_slot ?b j = (if j = k then Null else lb_slot buf j)" if "int j < lb_capacity buf" for j
    by (rule trans [OF slot]) (use that slot1 in simp_all)
  have G: "lb_geometry ?b" using G1 put(2) by (simp add: lb_geometry_def)
  have kk: "nat (lb_size ?b - 1) = k" using k by simp
  have Fr: "lb_frozen ?b = lb_blocks buf k" unfolding lb_frozen_def lb_blocks_def kk
    using slotb assms(2) k by auto
  have L: "lb_lines_ok ?b" unfolding lb_lines_ok_def kk
    using assms(2,3) slotb k by (auto simp: k_def [symmetric])
  have E: "lb_edit_ok ?b" unfolding lb_edit_ok_def kk using slotb [of k] assms(2) k ed by simp
  have "edit_render_lines ?b = 0"
  proof -
    from ed(1) obtain b where b: "ed_raw ed = Block b" "ed_shape b ed" by (rule ed_wfE)
    then have "take 3 b = replicate 3 NUL" "4 \<le> length b" using ed(6,7) by (auto simp: ed_header_def ed_shape_def)
    then have "take 3 b ! 2 = replicate 3 NUL ! 2" by simp
    then have "b ! 2 = NUL" by simp
    then show ?thesis using b(1) by (simp add: edit_render_lines_def fl_render_lines_def)
  qed
  then have "lb_wf ?b" using G L E assms(4,5) by (simp add: lb_wf_def Fr k_def [symmetric])
  then show ?thesis
    using O Fr ed by (intro exI [of _ ?b]) (simp add: k_def)
qed

text \<open>
  A new line appends an empty line and drops the oldest only when the ring is full; the
  absolute numbering runs on.
\<close>

lemma linebuf_newline_spec:
  assumes "lb_wf buf" and "env_ok e = (\<lambda>_. True)"
  shows "\<exists>buf'. linebuf_newline e buf = Some buf' \<and> lb_wf buf' \<and>
     lb_texts buf' = drop (length (lb_texts buf) + 1 - nat (lb_capacity buf)) (lb_texts buf) @ [[]] \<and>
     0 < lb_size buf' \<and> ed_size (lb_edit buf') = 0 \<and> ed_prefix (lb_edit buf') = 0 \<and>
     linebuf_end buf' = linebuf_end buf + 1 \<and> lb_capacity buf' = lb_capacity buf \<and>
     lb_backlog_size buf' = lb_backlog_size buf \<and> lb_absolute_rendered buf' = lb_absolute_rendered buf"
proof -
  from newline_make_room [OF assms(1)] obtain b0 where B0:
    "linebuf_recycle_oldest_lines buf (lb_size buf - lb_capacity buf + 1) = Some b0" "lb_wf b0"
    "lb_size b0 < lb_capacity b0"
    "lb_texts b0 = drop (length (lb_texts buf) + 1 - nat (lb_capacity buf)) (lb_texts buf)"
    "linebuf_end b0 = linebuf_end buf" "lb_capacity b0 = lb_capacity buf"
    "lb_backlog_size b0 = lb_backlog_size buf" "lb_absolute_rendered b0 = lb_absolute_rendered buf" by blast
  have W: "lb_geometry b0" "lb_lines_ok b0" "lb_edit_ok b0"
    "lb_total_size_except_last b0 = sum_list (map fl_size (lb_frozen b0))"
    "lb_total_rendered b0 = s16 (sum_list (map fl_render_lines (lb_frozen b0)) + edit_render_lines b0)"
    using B0(2) by (simp_all add: lb_wf_def)
  have "\<exists>b1. (if lb_size b0 > 0 then freeze_last e b0 else Some b0) = Some b1 \<and>
      lb_geometry b1 \<and> lb_size b1 = lb_size b0 \<and> lb_capacity b1 = lb_capacity b0 \<and>
      (\<forall>i < nat (lb_size b1). line_live (lb_slot b1 i)) \<and>
      map fl_text (lb_blocks b1 (nat (lb_size b1))) = lb_texts b0 \<and>
      lb_total_size_except_last b1 = sum_list (map fl_size (lb_blocks b1 (nat (lb_size b1)))) \<and>
      lb_total_rendered b1 = s16 (sum_list (map fl_render_lines (lb_blocks b1 (nat (lb_size b1))))) \<and>
      lb_absolute b1 = lb_absolute b0 \<and> lb_backlog_size b1 = lb_backlog_size b0 \<and>
      lb_absolute_rendered b1 = lb_absolute_rendered b0"
  proof (cases "0 < lb_size b0")
    case False
    then have "lb_size b0 = 0" using W(1) by (simp add: lb_geometry_def)
    then show ?thesis using W
      by (intro exI [of _ b0]) (simp add: lb_blocks_def lb_texts_def lb_frozen_def edit_render_lines_def)
  next
    case True
    from freeze_last_spec [OF B0(2) True assms(2)] obtain ls b where F:
      "freeze_last e b0 = Some (b0\<lparr>lb_total_size_except_last :=
         lb_total_size_except_last b0 + ed_size (lb_edit b0), lb_edit := stredit_zero, lb_lines := ls\<rparr>)"
      "fline_ok b" "fl_text b = ed_text (lb_edit b0)" "fl_size b = ed_size (lb_edit b0)"
      "fl_render_lines b = edit_render_lines b0" "length ls = length (lb_lines b0)"
      and slot: "\<And>(buf' :: linebuf) j. lb_lines buf' = ls \<Longrightarrow> lb_start buf' = lb_start b0 \<Longrightarrow>
        lb_capacity buf' = lb_capacity b0 \<Longrightarrow> int j < lb_capacity b0 \<Longrightarrow>
        lb_slot buf' j = (if j = nat (lb_size b0 - 1) then Block b else lb_slot b0 j)" by blast
    let ?b1 = "b0\<lparr>lb_total_size_except_last :=
         lb_total_size_except_last b0 + ed_size (lb_edit b0), lb_edit := stredit_zero, lb_lines := ls\<rparr>"
    define k where "k = nat (lb_size b0 - 1)"
    have k: "nat (lb_size b0) = Suc k" "int k < lb_capacity b0" using True B0(3) by (auto simp: k_def)
    have s: "lb_slot ?b1 j = (if j = k then Block b else lb_slot b0 j)" if "int j < lb_capacity b0" for j
      unfolding k_def by (rule slot) (use that in simp_all)
    have bl: "lb_blocks ?b1 (Suc k) = lb_frozen b0 @ [b]"
      using s k by (auto simp: lb_blocks_def lb_frozen_def k_def [symmetric])
    have live: "line_live (lb_slot ?b1 i)" if "i < Suc k" for i
      using s [of i] that k W(2) F(2) by (auto simp: lb_lines_ok_def line_live_def k_def [symmetric])
    have "lb_geometry ?b1" using W(1) F(6) by (simp add: lb_geometry_def)
    then show ?thesis using True F k(1) bl live W(4,5)
      by (intro exI [of _ ?b1]) (simp add: lb_texts_def)
  qed
  then obtain b1 where B1: "(if lb_size b0 > 0 then freeze_last e b0 else Some b0) = Some b1"
      "lb_geometry b1" "lb_size b1 = lb_size b0" "lb_capacity b1 = lb_capacity b0"
      "\<forall>i < nat (lb_size b1). line_live (lb_slot b1 i)"
      "map fl_text (lb_blocks b1 (nat (lb_size b1))) = lb_texts b0"
      "lb_total_size_except_last b1 = sum_list (map fl_size (lb_blocks b1 (nat (lb_size b1))))"
      "lb_total_rendered b1 = s16 (sum_list (map fl_render_lines (lb_blocks b1 (nat (lb_size b1)))))"
      "lb_absolute b1 = lb_absolute b0" "lb_backlog_size b1 = lb_backlog_size b0"
      "lb_absolute_rendered b1 = lb_absolute_rendered b0" by blast
  have room: "lb_size b1 < lb_capacity b1" using B0(3) B1(3,4) by simp
  from open_last_spec [OF B1(2) room B1(5,7,8) assms(2)] obtain b2 where B2:
    "open_last e b1 = Some b2" "lb_wf b2" "lb_frozen b2 = lb_blocks b1 (nat (lb_size b1))"
    "lb_size b2 = lb_size b1 + 1" "ed_text (lb_edit b2) = []" "ed_size (lb_edit b2) = 0"
    "ed_prefix (lb_edit b2) = 0" "lb_absolute b2 = lb_absolute b1" "lb_capacity b2 = lb_capacity b1"
    "lb_backlog_size b2 = lb_backlog_size b1" "lb_absolute_rendered b2 = lb_absolute_rendered b1" by blast
  have p: "0 < lb_size b2" using B2(4) B1(3) W(1) by (simp add: lb_geometry_def)
  have "lb_texts b2 = lb_texts b0 @ [[]]" using p B2(3,5) B1(6) by (simp add: lb_texts_def [of b2])
  moreover have "linebuf_end b2 = linebuf_end buf + 1"
    using B0(5) B1(3,9) B2(4,8) by (simp add: linebuf_end_def)
  moreover have "linebuf_newline e buf = Some b2" using B0(1) B1(1) B2(1) by (simp add: linebuf_newline_def)
  ultimately show ?thesis using p B0(4,6,7,8) B1(4,10,11) B2(2,6,7,9,10,11)
    by (intro exI [of _ b2]) simp
qed

section \<open>Cleaning the backlog\<close>

text \<open>The scan stops at the first suffix of lines that fits, or at the last line.\<close>

lemma backlog_scan_spec:
  assumes "lb_geometry buf" and "lb_lines_ok buf" and "int r \<le> lb_size buf - 1"
    and "nat (lb_size buf - 1) - r \<le> k" and "n = sum_list (map fl_size (drop r (lb_frozen buf))) + x"
  shows "\<exists>r'. backlog_scan buf k (int r) n = Some (int r') \<and> r \<le> r' \<and> int r' \<le> lb_size buf - 1 \<and>
     (int r' = lb_size buf - 1 \<or>
      sum_list (map fl_size (drop r' (lb_frozen buf))) + x \<le> lb_backlog_size buf) \<and>
     (r < r' \<longrightarrow> sum_list (map fl_size (drop (r' - 1) (lb_frozen buf))) + x > lb_backlog_size buf)"
  using assms(3-5)
proof (induction k arbitrary: r n)
  case 0
  then show ?case by (intro exI [of _ r]) auto
next
  case (Suc k)
  show ?case
  proof (cases "int r < lb_size buf - 1 \<and> n > lb_backlog_size buf")
    case False
    then show ?thesis using Suc.prems by (intro exI [of _ r]) auto
  next
    case True
    then have r: "r < nat (lb_size buf - 1)" by linarith
    then have "line_live (lb_slot buf r)" using assms(2) by (simp add: lb_lines_ok_def)
    then obtain b where b: "lb_slot buf r = Block b" "fline_ok b"
      by (auto simp: line_live_def split: ptr.splits)
    have "lb_frozen buf ! r = b" "r < length (lb_frozen buf)" using b(1) r by (simp_all add: lb_frozen_def)
    then have dr: "drop r (lb_frozen buf) = b # drop (Suc r) (lb_frozen buf)"
      by (metis Cons_nth_drop_Suc)
    have n: "n - fl_size b = sum_list (map fl_size (drop (Suc r) (lb_frozen buf))) + x"
      using Suc.prems(3) unfolding dr list.map sum_list.Cons by linarith
    have "backlog_scan buf (Suc k) (int r) n = backlog_scan buf k (int (Suc r)) (n - fl_size b)"
      using True b(1) fline_okD [OF b(2)] lines_at_slot [OF assms(1), of r]
      by (simp add: linebuf_get_nth_line_def fline_get_size_eq add.commute)
    moreover have "int (Suc r) \<le> lb_size buf - 1" "nat (lb_size buf - 1) - Suc r \<le> k"
      using True Suc.prems(2) by linarith+
    ultimately obtain r' where R: "backlog_scan buf (Suc k) (int r) n = Some (int r')" "Suc r \<le> r'"
      "int r' \<le> lb_size buf - 1"
      "int r' = lb_size buf - 1 \<or> sum_list (map fl_size (drop r' (lb_frozen buf))) + x \<le> lb_backlog_size buf"
      "Suc r < r' \<longrightarrow> sum_list (map fl_size (drop (r' - 1) (lb_frozen buf))) + x > lb_backlog_size buf"
      using Suc.IH [of "Suc r", OF _ _ n] by auto
    have "sum_list (map fl_size (drop (r' - 1) (lb_frozen buf))) + x > lb_backlog_size buf"
      using R(2,5) True Suc.prems(3) by (cases "Suc r = r'") auto
    then show ?thesis using R by (intro exI [of _ r']) simp
  qed
qed

text \<open>
  Cleaning keeps a suffix of the lines, always the last one, and brings the bytes of text
  under the limit unless only the last line is left; it never removes more than needed.
\<close>

lemma linebuf_clean_backlog_spec:
  assumes "lb_wf buf" and "0 < lb_size buf"
  shows "\<exists>buf' c. linebuf_clean_backlog buf = Some buf' \<and> lb_wf buf' \<and>
     lb_texts buf' = drop c (lb_texts buf) \<and> int c < lb_size buf \<and>
     lb_edit buf' = lb_edit buf \<and> lb_size buf' = lb_size buf - int c \<and>
     lb_absolute buf' = lb_absolute buf + int c \<and> lb_capacity buf' = lb_capacity buf \<and>
     lb_backlog_size buf' = lb_backlog_size buf \<and>
     lb_absolute_rendered buf' = lb_absolute_rendered buf \<and>
     (lb_size buf' = 1 \<or>
      lb_total_size_except_last buf' + ed_size (lb_edit buf') \<le> lb_backlog_size buf')"
proof -
  let ?x = "ed_size (lb_edit buf)"
  have W: "lb_geometry buf" "lb_lines_ok buf"
    "lb_total_size_except_last buf = sum_list (map fl_size (lb_frozen buf))"
    using assms(1) by (simp_all add: lb_wf_def)
  obtain c where c: "backlog_scan buf (nat (lb_size buf)) 0 (lb_total_size_except_last buf + ?x) = Some (int c)"
    "int c \<le> lb_size buf - 1"
    "int c = lb_size buf - 1 \<or> sum_list (map fl_size (drop c (lb_frozen buf))) + ?x \<le> lb_backlog_size buf"
    using backlog_scan_spec [OF W(1,2), of 0 "nat (lb_size buf)" "lb_total_size_except_last buf + ?x" ?x]
      assms(2) W(3) nat_mono [of "lb_size buf - 1" "lb_size buf"] by auto
  have c': "0 \<le> int c" "int c < lb_size buf" using c(2) by auto
  from linebuf_recycle_some [OF assms(1) c'] obtain b where B:
    "linebuf_recycle_oldest_lines buf (int c) = Some b" "lb_wf b"
    "lb_frozen b = drop c (lb_frozen buf)" "lb_edit b = lb_edit buf" "lb_size b = lb_size buf - int c"
    "lb_absolute b = lb_absolute buf + int c" "lb_capacity b = lb_capacity buf"
    "lb_backlog_size b = lb_backlog_size buf" "lb_absolute_rendered b = lb_absolute_rendered buf" by auto
  have "linebuf_clean_backlog buf = Some b"
    using assms(2) c(1) B(1) by (simp add: linebuf_clean_backlog_def linebuf_get_last_line_def)
  moreover have "c \<le> length (lb_frozen buf)" using c(2) by (simp add: lb_frozen_def)
  then have "lb_texts b = drop c (lb_texts buf)"
    using B(3-5) c'(2) assms(2) by (simp add: lb_texts_def drop_map)
  moreover have "lb_total_size_except_last b = sum_list (map fl_size (drop c (lb_frozen buf)))"
    using B(2,3) by (simp add: lb_wf_def)
  ultimately show ?thesis using B c(3) c'(2) by (intro exI [of _ b] exI [of _ c]) auto
qed

section \<open>Start and end of life\<close>

lemma linebuf_init_spec:
  assumes "0 < capacity" and "capacity < 32768" and "env_ok e = (\<lambda>_. True)"
  shows "\<exists>buf'. linebuf_init e buf capacity backlog = Some (True, buf') \<and> lb_wf buf' \<and>
     lb_texts buf' = [] \<and> lb_size buf' = 0 \<and> lb_capacity buf' = capacity \<and>
     lb_backlog_size buf' = backlog \<and> linebuf_start buf' = 1 \<and> linebuf_end buf' = 1"
proof -
  let ?b = "\<lparr>lb_lines = replicate (nat capacity) Null, lb_edit = stredit_zero,
     lb_capacity = capacity, lb_start = 0, lb_size = 0, lb_total_rendered = 0,
     lb_absolute = 1, lb_backlog_size = backlog, lb_total_size_except_last = 0,
     lb_absolute_rendered = 0\<rparr>"
  have "linebuf_init e buf capacity backlog = Some (True, ?b)"
    using assms by (simp add: linebuf_init_def stredit_init_def s16_id)
  moreover have "lb_geometry ?b" "lb_lines_ok ?b" "lb_edit_ok ?b" "lb_frozen ?b = []" "edit_render_lines ?b = 0"
    using assms by (simp_all add: lb_geometry_def lb_lines_ok_def lb_edit_ok_def lb_frozen_def edit_render_lines_def)
  moreover from this have "lb_wf ?b" by (simp add: lb_wf_def s16_def)
  ultimately show ?thesis
    by (intro exI [of _ ?b]) (simp add: lb_texts_def linebuf_start_def linebuf_end_def)
qed

text \<open>\<open>free_lines\<close> is defined exactly when none of the first \<open>n\<close> pointers was freed before.\<close>

lemma free_lines_iff: "n \<le> length ps \<Longrightarrow> free_lines ps n = Some () \<longleftrightarrow> Freed \<notin> set (take n ps)"
  by (induction ps n rule: free_lines.induct) (auto simp: c_free_def split: ptr.splits)

lemma linebuf_deinit_iff:
  assumes "lb_wf buf"
  shows "linebuf_deinit buf = Some linebuf_zero \<longleftrightarrow>
     ed_raw (lb_edit buf) \<noteq> Freed \<and> Freed \<notin> set (lb_lines buf)"
    and "linebuf_deinit buf = None \<longleftrightarrow>
     ed_raw (lb_edit buf) = Freed \<or> Freed \<in> set (lb_lines buf)"
proof -
  have n: "nat (lb_capacity buf) = length (lb_lines buf)" using assms by (auto simp: lb_wf_def lb_geometry_def)
  have f: "free_lines (lb_lines buf) (length (lb_lines buf)) = (if Freed \<in> set (lb_lines buf) then None else Some ())"
    using free_lines_iff [of "length (lb_lines buf)" "lb_lines buf"] by (cases "free_lines (lb_lines buf) (length (lb_lines buf))") auto
  show "linebuf_deinit buf = Some linebuf_zero \<longleftrightarrow>
     ed_raw (lb_edit buf) \<noteq> Freed \<and> Freed \<notin> set (lb_lines buf)"
    "linebuf_deinit buf = None \<longleftrightarrow> ed_raw (lb_edit buf) = Freed \<or> Freed \<in> set (lb_lines buf)"
    by (auto simp: linebuf_deinit_def stredit_reset_def c_free_def n f split: ptr.splits)
qed

text \<open>Recycling leaves the freed pointers in the array.\<close>

lemma recycle_leaves_freed:
  assumes "lb_wf buf" and "0 < c" and "c < lb_size buf"
    and "linebuf_recycle_oldest_lines buf c = Some buf'"
  shows "Freed \<in> set (lb_lines buf')"
proof -
  have W: "lb_geometry buf" "lb_lines_ok buf" using assms(1) by (simp_all add: lb_wf_def)
  define n where "n = nat c"
  have n: "int n = c" "0 < n" using assms(2) by (simp_all add: n_def)
  have live: "line_live (lb_slot buf i)" if "0 \<le> i" "i < 0 + n" for i
    using W(2) that assms(3) n by (simp add: lb_lines_ok_def)
  have sz: "int (0 + n) \<le> lb_size buf - 1" using n assms(3) by simp
  from recycle_loop_frozen [OF W(1) live sz] obtain b where b: "recycle_loop n 0 buf = Some b" "lb_frame buf b"
    "\<forall>j. int j < lb_capacity buf \<longrightarrow> lb_slot b j = (if 0 \<le> j \<and> j < 0 + n then Freed else lb_slot buf j)" by auto
  have G: "lb_geometry b" by (rule lb_frame_geometry [OF b(2) W(1)])
  have "lb_slot b 0 = Freed" using b(3) n W(1) by (simp add: lb_geometry_def)
  then have "Freed \<in> set (lb_lines b)" using ring_index_less [OF G, of "int 0"] by (metis lb_slot_def nth_mem)
  moreover have "lb_lines buf' = lb_lines b"
    using assms(2-4) b(1) by (auto simp: linebuf_recycle_oldest_lines_def Let_def n_def)
  ultimately show ?thesis by simp
qed

section \<open>Properties\<close>



text \<open>C40: a ring from which recycling has dropped some but not all lines cannot be released:
  the array still holds the freed pointers, and releasing it frees them a second time.\<close>

theorem linebuf_deinit_double_free:
  assumes "lb_wf buf" and "0 < c" and "c < lb_size buf" and "linebuf_recycle_oldest_lines buf c = Some buf'"
  shows "linebuf_deinit buf' = None"
proof -
  have "\<exists>b. linebuf_recycle_oldest_lines buf c = Some b \<and> lb_wf b"
    using linebuf_recycle_some [OF assms(1), of c] assms(2,3) by auto
  then have "lb_wf buf'" using assms(4) by auto
  then show ?thesis using recycle_leaves_freed [OF assms] linebuf_deinit_iff(2) by blast
qed

theorem linebuf_deinit_double_free_witness:
  "\<exists>buf buf'. lb_size buf = 2 \<and> linebuf_recycle_oldest_lines buf 1 = Some buf' \<and> linebuf_deinit buf' = None"
proof -
  let ?e = "\<lparr>env_ok = (\<lambda>_. True), env_junk = (\<lambda>_. NUL)\<rparr>"
  obtain b0 where b0: "lb_wf b0" "lb_texts b0 = []" "lb_capacity b0 = 3"
    using linebuf_init_spec [of 3 ?e linebuf_zero 100] by auto
  obtain b1 where b1: "lb_wf b1" "lb_texts b1 = [[]]" "lb_capacity b1 = 3"
    using linebuf_newline_spec [OF b0(1), of ?e] b0(2,3) by auto
  obtain b2 where b2: "lb_wf b2" "lb_texts b2 = [[], []]" "0 < lb_size b2"
    using linebuf_newline_spec [OF b1(1), of ?e] b1(2,3) by auto
  have "length (lb_texts b2) = nat (lb_size b2)" using b2(3) by (auto simp: lb_texts_def lb_frozen_def)
  then have sz: "lb_size b2 = 2" using b2(2) by simp
  obtain b3 where b3: "linebuf_recycle_oldest_lines b2 1 = Some b3"
    using linebuf_recycle_some [OF b2(1), of 1] sz by auto
  show ?thesis using linebuf_deinit_double_free [OF b2(1) _ _ b3] sz b3 by auto
qed

end
