(* ===== verification/Console.thy ===== *)
theory Console
  imports LineBuf
begin

text \<open>
  The terminal emulator of \<open>ports/sh/console.c\<close> on top of the rotating line storage: writing
  with line splitting and escape sequences, cursor movement, the locked prompt, layout for a
  view, scrolling and rendering.  gint's text measurement (\<open>drsize\<close>, \<open>dsize\<close>, \<open>dnsize\<close>) is not
  part of the repository and is an argument, one \<open>gint_font\<close> per font; drawing calls are
  collected as a list of commands.

  Shown here: \<open>cons_wf\<close> (a well-formed ring that is never empty and a cursor inside the last
  line) is kept by every operation; a short write is an insertion at the cursor; newline
  bounds the memory held; deletion never touches the locked prompt; clamping keeps the
  scroll position inside the view.
\<close>

section \<open>State\<close>

record console =
  c_lines :: linebuf
  c_cursor :: int
  c_render_needed :: bool
  c_render_font :: int
  c_render_width :: int
  c_render_lines :: int

text \<open>
  Text measurement for one font: how many bytes of a string fit in a width, the height of an
  empty string, and the size of the first \<open>n\<close> bytes.
\<close>

record gint_font =
  drsize :: "bytes \<Rightarrow> int \<Rightarrow> int"
  dsize_h :: int
  dnsize :: "bytes \<Rightarrow> int \<Rightarrow> int \<times> int"

datatype draw = DText int int bytes int | DLine int int int int | DRect int int int int bool

section \<open>Layout of one line\<close>

text \<open>Horizontal layout on the fx-CG50: text width, spacing left of the scrollbar, scrollbar width.\<close>

definition view_params :: "int \<Rightarrow> int \<times> int \<times> int" where
  "view_params w = (w - 4, 2, 2)"

text \<open>
  The loop of \<open>console_fline_update_render_lines\<close>: one render line per call of \<open>drsize\<close>.
  A call that makes no progress on a non-empty rest would repeat forever.
\<close>

function render_count :: "gint_font \<Rightarrow> bytes \<Rightarrow> int \<Rightarrow> int \<Rightarrow> int option" where
  "render_count g s w k =
     (let n = drsize g s w in
      if n < 0 \<or> n > int (length s) then None
      else if drop (nat n) s = [] then Some (k + 1)
      else if n = 0 then None
      else render_count g (drop (nat n) s) w (k + 1))"
  by pat_completeness auto
termination
  by (relation "measure (\<lambda>(g, s, w, k). length s)") auto

declare render_count.simps [simp del]

definition console_fline_update_render_lines :: "gint_font \<Rightarrow> bytes \<Rightarrow> int \<Rightarrow> bytes option" where
  "console_fline_update_render_lines g b width = do {
     k \<leftarrow> render_count g (c_str (drop 3 b)) width 0;
     fline_set_render_lines b k
   }"

function fline_render_loop ::
  "gint_font \<Rightarrow> int \<Rightarrow> int \<Rightarrow> bytes \<Rightarrow> int \<Rightarrow> int \<Rightarrow> int \<Rightarrow> int \<Rightarrow> int \<Rightarrow> int \<Rightarrow> int \<Rightarrow> int \<Rightarrow>
     (int \<times> draw list) option" where
  "fline_render_loop g x y txt tsize w dy show_from show_until cursor line_offset line_number =
     (if line_offset \<ge> tsize then Some (y, [])
      else
        let s = c_str (drop (nat line_offset) txt); seglen = drsize g s w in
        if seglen \<le> 0 \<or> seglen > int (length s) then None
        else
          let shown = (line_number \<ge> show_from \<and> line_number < show_until);
              cmds = (if shown then
                DText x y s seglen #
                (if cursor \<ge> line_offset \<and> cursor \<le> line_offset + seglen
                 then (case dnsize g s (cursor - line_offset) of
                         (cw, ch) \<Rightarrow> [DLine (x + cw) y (x + cw) (y + ch - 1)])
                 else []) else [])
          in do {
            (y', rest) \<leftarrow> fline_render_loop g x (if shown then y + dy else y) txt tsize w dy
              show_from show_until cursor (line_offset + seglen) (line_number + 1);
            Some (y', cmds @ rest)
          })"
  by pat_completeness auto
termination
  by (relation "measure (\<lambda>(g, x, y, txt, tsize, w, dy, a, b, c, off, ln). nat (tsize - off))") auto

declare fline_render_loop.simps [simp del]

definition console_fline_render ::
  "gint_font \<Rightarrow> int \<Rightarrow> int \<Rightarrow> bytes \<Rightarrow> int \<Rightarrow> int \<Rightarrow> int \<Rightarrow> int \<Rightarrow> int \<Rightarrow> (int \<times> draw list) option" where
  "console_fline_render g x y b w dy show_from show_until cursor = do {
     tsize \<leftarrow> fline_get_size b;
     let caret = (if tsize = 0 \<and> cursor = 0 then [DLine x y x (y + dsize_h g - 1)] else []);
     (y', cmds) \<leftarrow> fline_render_loop g x y (drop 3 b) tsize w dy show_from show_until cursor 0 0;
     Some (y', caret @ cmds)
   }"

fun update_loop :: "gint_font \<Rightarrow> int \<Rightarrow> nat \<Rightarrow> int \<Rightarrow> linebuf \<Rightarrow> linebuf option" where
  "update_loop g text_w 0 n buf = Some buf"
| "update_loop g text_w (Suc k) n buf = do {
     FL \<leftarrow> linebuf_get_nth_line buf (n - lb_absolute buf);
     if FL = Null then update_loop g text_w k (n + 1) buf
     else do {
       b \<leftarrow> deref FL;
       rl \<leftarrow> fline_get_render_lines b;
       let buf = buf\<lparr>lb_total_rendered := s16 (lb_total_rendered buf - rl)\<rparr>;
       b \<leftarrow> console_fline_update_render_lines g b text_w;
       buf \<leftarrow> linebuf_put_nth_line buf (n - lb_absolute buf) (Block b);
       rl \<leftarrow> fline_get_render_lines b;
       let buf = buf\<lparr>lb_total_rendered := s16 (lb_total_rendered buf + rl)\<rparr>;
       update_loop g text_w k (n + 1) buf
     }
   }"

definition linebuf_update_render :: "gint_font \<Rightarrow> linebuf \<Rightarrow> int \<Rightarrow> bool \<Rightarrow> linebuf option" where
  "linebuf_update_render g buf width lazy = do {
     let start = linebuf_start buf;
     let stop = linebuf_end buf;
     let start = (if lazy then max start (lb_absolute_rendered buf + 1) else start);
     let (text_w, _, _) = view_params width;
     buf \<leftarrow> update_loop g text_w (nat (stop - start)) start buf;
     Some (buf\<lparr>lb_absolute_rendered := max (lb_absolute_rendered buf) (stop - 2)\<rparr>)
   }"

section \<open>Terminal emulator\<close>

definition console_newline :: "alloc_env \<Rightarrow> console \<Rightarrow> console option" where
  "console_newline e cons = do {
     buf \<leftarrow> linebuf_newline e (c_lines cons);
     let cons = cons\<lparr>c_lines := buf, c_cursor := 0, c_render_needed := True\<rparr>;
     buf \<leftarrow> linebuf_clean_backlog (c_lines cons);
     Some (cons\<lparr>c_lines := buf\<rparr>)
   }"

text \<open>
  The outer option is a missing result: the structure's own allocation (56 bytes) is not
  checked before it is written to.  The inner one is the null pointer the C code returns.
\<close>

definition console_create :: "alloc_env \<Rightarrow> int \<Rightarrow> int \<Rightarrow> console option option" where
  "console_create e backlog_size maximum_line_count = do {
     let backlog_size = max backlog_size PE_CONSOLE_LINE_MAX_LENGTH;
     let maximum_line_count = max maximum_line_count 1;
     if \<not> env_ok e 56 then None
     else do {
       (ok, buf) \<leftarrow> linebuf_init e linebuf_zero maximum_line_count backlog_size;
       if \<not> ok then Some None
       else do {
         cons \<leftarrow> console_newline e \<lparr>c_lines = buf, c_cursor = -1, c_render_needed = True,
           c_render_font = 0, c_render_width = 0, c_render_lines = 0\<rparr>;
         Some (Some cons)
       }
     }
   }"

definition console_clear_render_flag :: "console \<Rightarrow> console" where
  "console_clear_render_flag cons = cons\<lparr>c_render_needed := False\<rparr>"

definition console_destroy :: "console \<Rightarrow> unit option" where
  "console_destroy cons = do { _ \<leftarrow> linebuf_deinit (c_lines cons); Some () }"

section \<open>Views and rendering\<close>

definition console_compute_view ::
  "(int \<Rightarrow> gint_font) \<Rightarrow> console \<Rightarrow> int \<Rightarrow> int \<Rightarrow> int \<Rightarrow> console option" where
  "console_compute_view fonts cons font width lines = do {
     let lazy = (width \<noteq> 0 \<and> c_render_width cons = width);
     let cons = cons\<lparr>c_render_font := font, c_render_width := s16 width, c_render_lines := s16 lines\<rparr>;
     buf \<leftarrow> linebuf_update_render (fonts font) (c_lines cons) width lazy;
     Some (cons\<lparr>c_lines := buf\<rparr>)
   }"

definition console_clamp_scrollpos :: "console \<Rightarrow> int \<Rightarrow> int" where
  "console_clamp_scrollpos cons pos =
     (if lb_total_rendered (c_lines cons) < c_render_lines cons then 0
      else max 0 (min pos (lb_total_rendered (c_lines cons) - c_render_lines cons)))"

text \<open>Going up from the end until the view is filled: the first line shown and its offset.\<close>

fun view_up :: "linebuf \<Rightarrow> nat \<Rightarrow> int \<Rightarrow> int \<Rightarrow> (int \<times> int) option" where
  "view_up buf 0 i line_y = Some (i, line_y)"
| "view_up buf (Suc k) i line_y =
     (if line_y > 0 then do {
        FL \<leftarrow> linebuf_get_line buf (i - 1);
        b \<leftarrow> deref FL;
        rl \<leftarrow> fline_get_render_lines b;
        view_up buf k (i - 1) (line_y - rl)
      } else Some (i, line_y))"

fun view_down ::
  "gint_font \<Rightarrow> linebuf \<Rightarrow> int \<Rightarrow> int \<Rightarrow> int \<Rightarrow> int \<Rightarrow> int \<Rightarrow> nat \<Rightarrow> int \<Rightarrow> int \<Rightarrow> int \<Rightarrow> draw list option" where
  "view_down g buf x text_w dy visible_lines cursor 0 i line_y y = Some []"
| "view_down g buf x text_w dy visible_lines cursor (Suc k) i line_y y =
     (if line_y < visible_lines then do {
        FL \<leftarrow> linebuf_get_line buf i;
        b \<leftarrow> deref FL;
        let show_cursor = (i = linebuf_end buf - 1);
        (y, cmds) \<leftarrow> console_fline_render g x y b text_w dy (- line_y) (visible_lines - line_y)
          (if show_cursor then cursor else -1);
        rl \<leftarrow> fline_get_render_lines b;
        rest \<leftarrow> view_down g buf x text_w dy visible_lines cursor k (i + 1) (line_y + rl) y;
        Some (cmds @ rest)
      } else Some [])"

definition console_render ::
  "(int \<Rightarrow> gint_font) \<Rightarrow> int \<Rightarrow> int \<Rightarrow> console \<Rightarrow> int \<Rightarrow> int \<Rightarrow> (console \<times> draw list) option" where
  "console_render fonts x y0 cons dy pos = do {
     let buf = c_lines cons;
     let total_lines = lb_total_rendered buf;
     let visible_lines = c_render_lines cons;
     let (text_w, scroll_spacing, scroll_w) = view_params (c_render_width cons);
     case linebuf_get_last_line buf of
       None \<Rightarrow> Some (cons, [])
     | Some ed \<Rightarrow> do {
         b \<leftarrow> deref (ed_raw ed);
         b \<leftarrow> fline_set_size b (ed_size ed);
         let buf = buf\<lparr>lb_edit := ed\<lparr>ed_raw := Block b\<rparr>\<rparr>;
         (i, line_y) \<leftarrow> view_up buf (nat (linebuf_end buf - linebuf_start buf)) (linebuf_end buf)
           (visible_lines + pos);
         let line_y = min line_y pos;
         cmds \<leftarrow> view_down (fonts (c_render_font cons)) buf x text_w dy visible_lines (c_cursor cons)
           (nat (linebuf_end buf - i)) i line_y y0;
         let bar = (if total_lines > visible_lines then
             let first_shown = total_lines - visible_lines - pos;
                 h = dy * visible_lines;
                 y1 = y0 + c_div (h * first_shown) total_lines;
                 y2 = y0 + c_div (h * (first_shown + visible_lines)) total_lines
             in [DRect (x + text_w + scroll_spacing) y1
                   (x + text_w + scroll_spacing + scroll_w - 1) y2 (pos = 0)]
           else []);
         Some (cons\<lparr>c_lines := buf\<rparr>, cmds @ bar)
       }
   }"

section \<open>Edition\<close>

definition last_line :: "console \<Rightarrow> stredit option" where
  "last_line cons = linebuf_get_last_line (c_lines cons)"

text \<open>Storing the editor back after an operation on the last line.\<close>

definition set_last_line :: "console \<Rightarrow> stredit \<Rightarrow> console" where
  "set_last_line cons ed = cons\<lparr>c_lines := (c_lines cons)\<lparr>lb_edit := ed\<rparr>\<rparr>"

definition console_set_cursor :: "console \<Rightarrow> int \<Rightarrow> bool \<times> console" where
  "console_set_cursor cons pos = (case last_line cons of
       None \<Rightarrow> (False, cons)
     | Some ed \<Rightarrow> if pos < ed_prefix ed \<or> pos > ed_size ed then (False, cons)
                  else (True, cons\<lparr>c_cursor := s16 pos\<rparr>))"

definition console_move_cursor :: "console \<Rightarrow> int \<Rightarrow> bool \<times> console" where
  "console_move_cursor cons cursor_movement =
     console_set_cursor cons (c_cursor cons + cursor_movement)"

text \<open>The current line without its prefix; \<open>Some None\<close> is the null pointer.\<close>

definition console_get_line :: "console \<Rightarrow> bytes option option" where
  "console_get_line cons = (case last_line cons of
       None \<Rightarrow> Some None
     | Some ed \<Rightarrow> do { b \<leftarrow> deref (ed_raw ed);
                       Some (Some (c_str (drop (nat (ed_reserved ed + ed_prefix ed)) b))) })"

text \<open>
  The chunking loop of \<open>console_write_raw\<close>.  As in the source, \<open>str\<close> is not advanced from
  one round to the next.  The fuel bounds the number of rounds: a round either writes at
  least one byte or opens an empty line first.
\<close>

fun write_raw_loop :: "alloc_env \<Rightarrow> nat \<Rightarrow> console \<Rightarrow> bytes \<Rightarrow> int \<Rightarrow> (bool \<times> console) option" where
  "write_raw_loop e 0 cons str n = None"
| "write_raw_loop e (Suc fuel) cons str n =
     (if n \<le> 0 then Some (True, cons)
      else do {
        ed \<leftarrow> last_line cons;
        let capacity = stredit_capacity ed;
        let round_size = min n capacity;
        (ok, ed) \<leftarrow> stredit_insert e ed (c_cursor cons) str round_size;
        let cons = set_last_line cons ed;
        if \<not> ok then Some (False, cons)
        else do {
          let cons = cons\<lparr>c_cursor := s16 (c_cursor cons + round_size), c_render_needed := True\<rparr>;
          cons \<leftarrow> (if round_size < n then console_newline e cons else Some cons);
          write_raw_loop e fuel cons str (n - round_size)
        }
      })"

definition console_write_raw :: "alloc_env \<Rightarrow> console \<Rightarrow> bytes \<Rightarrow> int \<Rightarrow> (bool \<times> console) option" where
  "console_write_raw e cons str n = do {
     cons \<leftarrow> (if lb_size (c_lines cons) = 0 then console_newline e cons else Some cons);
     write_raw_loop e (2 * nat n + 2) cons str n
   }"

text \<open>
  One pass of \<open>console_write\<close> over what is left of the buffer: plain bytes up to the next
  newline, escape or backspace, then that control byte.
\<close>

definition is_ctrl :: "char \<Rightarrow> bool" where
  "is_ctrl c \<longleftrightarrow> c = CHR 0x0A \<or> c = CHR 0x1B \<or> c = CHR 0x08"

definition write_backspace :: "console \<Rightarrow> console option" where
  "write_backspace cons =
     (if c_cursor cons > 0 then do {
        ed \<leftarrow> last_line cons;
        (_, ed) \<leftarrow> stredit_delete ed (c_cursor cons - 1) 1;
        let cons = set_last_line cons ed;
        Some (cons\<lparr>c_cursor := s16 (c_cursor cons - 1)\<rparr>)
      } else Some cons)"

text \<open>The bytes after an escape; the result says how many of them were consumed.\<close>

definition write_escape :: "console \<Rightarrow> bytes \<Rightarrow> (console \<times> bytes) option" where
  "write_escape cons rest = do {
     (cons, rest) \<leftarrow> (if take 2 rest = ''[K'' then do {
         ed \<leftarrow> last_line cons;
         (_, ed) \<leftarrow> stredit_delete ed (c_cursor cons) (ed_size ed - c_cursor cons);
         Some (set_last_line cons ed, drop 2 rest)
       } else Some (cons, rest));
     cons \<leftarrow> (if take 2 rest = [CHR 0x01, CHR ''D'']
       then Some (cons\<lparr>c_cursor := s16 (c_cursor cons - (if c_cursor cons > 0 then 1 else 0))\<rparr>)
       else Some cons);
     cons \<leftarrow> (if take 2 rest = [CHR 0x01, CHR ''C'']
       then do {
         ed \<leftarrow> last_line cons;
         Some (cons\<lparr>c_cursor := s16 (c_cursor cons + (if c_cursor cons < ed_size ed then 1 else 0))\<rparr>)
       } else Some cons);
     Some (cons, rest)
   }"

lemma write_escape_rest: "write_escape cons rest = Some (cons', rest') \<Longrightarrow> length rest' \<le> length rest"
  by (auto simp: write_escape_def Let_def split: if_splits Option.bind_splits)

lemma drop_Cons_length: "drop n s = c # rest \<Longrightarrow> length rest < length s"
  by (metis length_Cons length_drop diff_le_self Suc_le_lessD)

function write_loop :: "alloc_env \<Rightarrow> console \<Rightarrow> bytes \<Rightarrow> (bool \<times> console) option" where
  "write_loop e cons s =
     (if s = [] then Some (True, cons)
      else do {
        let plain = takeWhile (\<lambda>c. \<not> is_ctrl c) s;
        (ok, cons) \<leftarrow> console_write_raw e cons s (int (length plain));
        if \<not> ok then Some (False, cons)
        else case drop (length plain) s of
          [] \<Rightarrow> Some (True, cons)
        | c # rest \<Rightarrow>
            if c = CHR 0x0A then do {
              cons \<leftarrow> console_newline e cons;
              write_loop e (cons\<lparr>c_render_needed := True\<rparr>) rest
            }
            else if c = CHR 0x08 then do {
              cons \<leftarrow> write_backspace cons;
              write_loop e (cons\<lparr>c_render_needed := True\<rparr>) rest
            }
            else (case write_escape cons rest of
                None \<Rightarrow> None
              | Some (cons, rest) \<Rightarrow> write_loop e (cons\<lparr>c_render_needed := True\<rparr>) rest)
      })"
  by pat_completeness auto
termination
  by (relation "measure (\<lambda>(e, cons, s). length s)")
    (auto simp only: in_measure case_prod_conv dest: drop_Cons_length write_escape_rest
       intro: le_less_trans)

declare write_loop.simps [simp del]

definition console_write :: "alloc_env \<Rightarrow> console \<Rightarrow> bytes \<Rightarrow> int \<Rightarrow> (bool \<times> console) option" where
  "console_write e cons buf n = do {
     let n = (if n < 0 then int (length (c_str buf)) else n);
     s \<leftarrow> mem_read buf 0 n;
     write_loop e cons s
   }"

definition console_lock_prefix :: "console \<Rightarrow> console option" where
  "console_lock_prefix cons = (case last_line cons of
       None \<Rightarrow> Some cons
     | Some ed \<Rightarrow> Some (set_last_line cons (stredit_set_prefix ed (c_cursor cons))))"

definition console_delete_at_cursor :: "console \<Rightarrow> int \<Rightarrow> console option" where
  "console_delete_at_cursor cons n = do {
     ed \<leftarrow> last_line cons;
     (real_n, ed) \<leftarrow> stredit_delete ed (c_cursor cons - n) n;
     let cons = set_last_line cons ed;
     Some (cons\<lparr>c_cursor := s16 (c_cursor cons - real_n), c_render_needed := True\<rparr>)
   }"

definition console_clear_current_line :: "console \<Rightarrow> console option" where
  "console_clear_current_line cons = (case last_line cons of
       None \<Rightarrow> Some cons
     | Some ed \<Rightarrow> do {
         (_, ed) \<leftarrow> stredit_delete ed (ed_prefix ed) (ed_size ed - ed_prefix ed);
         let cons = set_last_line cons ed;
         Some (cons\<lparr>c_cursor := s16 (ed_prefix ed), c_render_needed := True\<rparr>)
       })"

section \<open>Invariant\<close>

text \<open>
  A console always has a current line, its cursor lies inside it, and the frozen lines fit
  the backlog.
\<close>

abbreviation cur :: "console \<Rightarrow> stredit" where
  "cur cons \<equiv> lb_edit (c_lines cons)"

definition cons_wf :: "console \<Rightarrow> bool" where
  "cons_wf cons \<longleftrightarrow> lb_wf (c_lines cons) \<and> 0 < lb_size (c_lines cons) \<and>
     0 \<le> c_cursor cons \<and> c_cursor cons \<le> ed_size (cur cons) \<and>
     lb_total_size_except_last (c_lines cons) \<le> lb_backlog_size (c_lines cons) \<and>
     0 \<le> lb_backlog_size (c_lines cons)"

abbreviation granting :: "alloc_env \<Rightarrow> bool" where
  "granting e \<equiv> env_ok e = (\<lambda>_. True)"

text \<open>The text of the current line, and of the lines above it.\<close>

abbreviation cur_text :: "console \<Rightarrow> bytes" where
  "cur_text cons \<equiv> ed_text (cur cons)"

definition history :: "console \<Rightarrow> bytes list" where
  "history cons = map fl_text (lb_frozen (c_lines cons))"

lemma last_line_wf: "cons_wf cons \<Longrightarrow> last_line cons = Some (cur cons)"
  by (simp add: cons_wf_def last_line_def linebuf_get_last_line_def)

lemma cons_wf_edit:
  assumes "cons_wf cons"
  shows "ed_wf (cur cons)" and "ed_reserved (cur cons) = 3" and "ed_max_size (cur cons) = 1024"
  using assms by (simp_all add: cons_wf_def lb_wf_def lb_edit_ok_def)

lemma cons_wf_sizes:
  assumes "cons_wf cons"
  shows "0 \<le> ed_prefix (cur cons)" and "ed_prefix (cur cons) \<le> ed_size (cur cons)"
    and "0 \<le> ed_size (cur cons)" and "ed_size (cur cons) \<le> 1024"
    and "0 \<le> c_cursor cons" and "c_cursor cons \<le> ed_size (cur cons)"
    and "int (length (cur_text cons)) = ed_size (cur cons)"
  using cons_wf_edit [OF assms] assms by (auto simp: ed_shape_def cons_wf_def elim!: ed_wfE)

lemma texts_history:
  "0 < lb_size (c_lines cons) \<Longrightarrow> lb_texts (c_lines cons) = history cons @ [cur_text cons]"
  by (simp add: lb_texts_def history_def)

text \<open>An edited last line may be stored back: nothing else of the buffer depends on it.\<close>

lemma edit_render_lines_set:
  assumes "ed_wf ed" and "ed_reserved ed = 3" and "0 < lb_size buf"
  shows "edit_render_lines (buf\<lparr>lb_edit := ed\<rparr>) = of_char (ed_header ed ! 2)"
  using assms by (auto simp: edit_render_lines_def fl_render_lines_def ed_header_def ed_shape_def elim!: ed_wfE)

lemma lb_set_edit:
  assumes "lb_wf buf" and "0 < lb_size buf" and "ed_wf ed" and "ed_reserved ed = 3"
    and "ed_max_size ed = 1024" and "ed_header ed = ed_header (lb_edit buf)"
  shows "lb_wf (buf\<lparr>lb_edit := ed\<rparr>)"
proof -
  have "edit_render_lines (buf\<lparr>lb_edit := ed\<rparr>) = edit_render_lines buf"
    using edit_render_lines_set [OF assms(3,4,2)] edit_header(2) [OF assms(1,2)] assms(6) by simp
  then show ?thesis using assms(1,3-5)
    by (simp add: lb_wf_def lb_geometry_def lb_lines_ok_def lb_edit_ok_def lb_slot_def lb_frozen_def)
qed

lemma set_last_wf:
  assumes "cons_wf cons" and "ed_wf ed" and "ed_reserved ed = ed_reserved (cur cons)"
    and "ed_max_size ed = ed_max_size (cur cons)" and "ed_header ed = ed_header (cur cons)"
    and "0 \<le> c" and "c \<le> ed_size ed"
  shows "cons_wf ((set_last_line cons ed)\<lparr>c_cursor := c\<rparr>)" (is "cons_wf ?c")
    and "history (set_last_line cons ed) = history cons"
proof -
  have "lb_wf ((c_lines cons)\<lparr>lb_edit := ed\<rparr>)"
    using lb_set_edit [of "c_lines cons" ed] assms(1-5) cons_wf_edit [OF assms(1)] by (simp add: cons_wf_def)
  then show "cons_wf ?c" using assms(1,6,7) by (simp add: cons_wf_def set_last_line_def)
  show "history (set_last_line cons ed) = history cons"
    by (simp add: history_def set_last_line_def lb_frozen_def lb_slot_def)
qed

lemma set_last_sel [simp]:
  "cur (set_last_line cons ed) = ed" "c_cursor (set_last_line cons ed) = c_cursor cons"
  "lb_size (c_lines (set_last_line cons ed)) = lb_size (c_lines cons)"
  "lb_capacity (c_lines (set_last_line cons ed)) = lb_capacity (c_lines cons)"
  "lb_backlog_size (c_lines (set_last_line cons ed)) = lb_backlog_size (c_lines cons)"
  by (simp_all add: set_last_line_def)

lemma history_upd [simp]:
  "history (cons\<lparr>c_cursor := x\<rparr>) = history cons"
  "history (cons\<lparr>c_render_needed := r\<rparr>) = history cons"
  by (simp_all add: history_def)

lemma cons_wf_flag [simp]: "cons_wf (cons\<lparr>c_render_needed := r\<rparr>) = cons_wf cons"
  by (simp add: cons_wf_def)

lemma set_cursor_self [simp]: "cons\<lparr>c_cursor := c_cursor cons\<rparr> = (cons :: console)"
  by simp

section \<open>Newline\<close>

text \<open>Memory held by a console: the lines, and the bytes of the frozen ones.\<close>

definition cons_dims :: "console \<Rightarrow> int \<times> int" where
  "cons_dims cons = (lb_capacity (c_lines cons), lb_backlog_size (c_lines cons))"

lemma cons_dims_upd [simp]:
  "cons_dims (cons\<lparr>c_cursor := x\<rparr>) = cons_dims cons"
  "cons_dims (cons\<lparr>c_render_needed := r\<rparr>) = cons_dims cons"
  "cons_dims (set_last_line cons ed) = cons_dims cons"
  by (simp_all add: cons_dims_def)

lemma console_newline_lb:
  assumes "lb_wf (c_lines cons)" and "granting e" and "0 \<le> lb_backlog_size (c_lines cons)"
  shows "\<exists>cons' k. console_newline e cons = Some cons' \<and> cons_wf cons' \<and> c_cursor cons' = 0 \<and>
     cur_text cons' = [] \<and> ed_size (cur cons') = 0 \<and> ed_prefix (cur cons') = 0 \<and>
     history cons' = drop k (lb_texts (c_lines cons)) \<and> c_render_needed cons' \<and>
     cons_dims cons' = cons_dims cons"
proof -
  from linebuf_newline_spec [OF assms(1,2)] obtain b1 where b1:
    "linebuf_newline e (c_lines cons) = Some b1" "lb_wf b1"
    "lb_texts b1 = drop (length (lb_texts (c_lines cons)) + 1 - nat (lb_capacity (c_lines cons))) (lb_texts (c_lines cons)) @ [[]]"
    "0 < lb_size b1" "ed_size (lb_edit b1) = 0" "ed_prefix (lb_edit b1) = 0"
    "lb_capacity b1 = lb_capacity (c_lines cons)" "lb_backlog_size b1 = lb_backlog_size (c_lines cons)" by blast
  from linebuf_clean_backlog_spec [OF b1(2,4)] obtain b2 c where b2:
    "linebuf_clean_backlog b1 = Some b2" "lb_wf b2" "lb_texts b2 = drop c (lb_texts b1)"
    "int c < lb_size b1" "lb_edit b2 = lb_edit b1" "lb_size b2 = lb_size b1 - int c"
    "lb_capacity b2 = lb_capacity b1" "lb_backlog_size b2 = lb_backlog_size b1"
    "lb_size b2 = 1 \<or> lb_total_size_except_last b2 + ed_size (lb_edit b2) \<le> lb_backlog_size b2" by blast
  let ?c = "cons\<lparr>c_lines := b2, c_cursor := 0, c_render_needed := True\<rparr>"
  have n: "console_newline e cons = Some ?c" using b1(1) b2(1) by (simp add: console_newline_def Let_def)
  have "lb_total_size_except_last b2 \<le> lb_backlog_size b2"
  proof (cases "lb_size b2 = 1")
    case True
    then show ?thesis using b2(2,8) b1(8) assms(3) by (simp add: lb_wf_def lb_frozen_def)
  qed (use b2(9,5) b1(5) in simp)
  then have w: "cons_wf ?c" using b2 b1 assms(3) by (simp add: cons_wf_def)
  have f: "history ?c @ [cur_text ?c] = drop c (lb_texts b1)"
    using texts_history [of ?c] b2(3,4,6) by simp
  let ?k = "length (lb_texts (c_lines cons)) + 1 - nat (lb_capacity (c_lines cons))"
  have "length (lb_texts b1) = nat (lb_size b1)" using b1(4) by (auto simp: lb_texts_def lb_frozen_def)
  then have "c \<le> length (drop ?k (lb_texts (c_lines cons)))" using b2(4) b1(3,4) by auto
  then have h: "history ?c = drop (c + ?k) (lb_texts (c_lines cons))" "cur_text ?c = []"
    using f unfolding b1(3) by auto
  show ?thesis
    by (rule exI [of _ ?c], rule exI [of _ "c + ?k"])
      (use n w h b1 b2 in \<open>simp add: cons_dims_def\<close>)
qed

lemma console_newline_spec:
  assumes "cons_wf cons" and "granting e"
  shows "\<exists>cons' k. console_newline e cons = Some cons' \<and> cons_wf cons' \<and> c_cursor cons' = 0 \<and>
     cur_text cons' = [] \<and> ed_size (cur cons') = 0 \<and> ed_prefix (cur cons') = 0 \<and>
     history cons' = drop k (history cons @ [cur_text cons]) \<and> c_render_needed cons' \<and>
     cons_dims cons' = cons_dims cons"
  using console_newline_lb [of cons e] texts_history [of cons] assms by (simp add: cons_wf_def)

section \<open>Writing\<close>

lemma realloc_ptr_granted:
  "granting e \<Longrightarrow> p \<noteq> Freed \<Longrightarrow> \<exists>b. realloc_ptr e p n = Some (Block b)"
  by (cases p) (auto simp: realloc_ptr_def c_malloc_def c_realloc_def)

lemma stredit_insert_granted:
  assumes "ed_wf ed" and "granting e" and "0 \<le> n" and "n \<le> int (length s)"
    and "0 \<le> p" and "p \<le> ed_size ed" and "ed_size ed + n \<le> ed_max_size ed"
  shows "\<exists>ed'. stredit_insert e ed p s n = Some (True, ed') \<and> ed_wf ed' \<and>
     ed_prefix ed' = ed_prefix ed \<and> ed_header ed' = ed_header ed \<and>
     ed_max_size ed' = ed_max_size ed \<and> ed_reserved ed' = ed_reserved ed \<and>
     ed_size ed' = ed_size ed + n \<and>
     ed_text ed' = take (nat p) (ed_text ed) @ take (nat n) s @ drop (nat p) (ed_text ed)"
proof -
  from stredit_insert_spec [OF assms(1,3,4)] obtain ok ed' where
    i: "stredit_insert e ed p s n = Some (ok, ed')" "ed_wf ed'" "ed_prefix ed' = ed_prefix ed"
      "ed_header ed' = ed_header ed" "ed_max_size ed' = ed_max_size ed" "ed_reserved ed' = ed_reserved ed"
      "ok \<longrightarrow> ed_size ed' = ed_size ed + n \<and>
         ed_text ed' = take (nat p) (ed_text ed) @ take (nat n) s @ drop (nat p) (ed_text ed)"
    by (smt (verit))
  have nf: "ed_raw ed \<noteq> Freed" using assms(1) by (auto elim: ed_wfE)
  have "\<exists>ed1. stredit_alloc e ed (ed_size ed + n) = Some (True, ed1)"
    using realloc_ptr_granted [OF assms(2) nf,
        of "max (ed_alloc_size ed + 16) (ed_reserved ed + (ed_size ed + n) + 1)"]
    by (auto simp: stredit_alloc_def Let_def)
  then obtain ed1 where a: "stredit_alloc e ed (ed_size ed + n) = Some (True, ed1)" by blast
  then have "ok" using i(1) assms(5-7)
    by (auto simp: stredit_insert_def Let_def split: Option.bind_splits)
  then show ?thesis using i by auto
qed

text \<open>One round: what fits the current line goes to the cursor.\<close>

lemma write_round:
  assumes "cons_wf cons" and "granting e" and "0 \<le> n" and "n \<le> stredit_capacity (cur cons)"
    and "n \<le> int (length str)"
  shows "\<exists>ed. stredit_insert e (cur cons) (c_cursor cons) str n = Some (True, ed) \<and>
     (let cons' = (set_last_line cons ed)\<lparr>c_cursor := s16 (c_cursor cons + n), c_render_needed := True\<rparr> in
        cons_wf cons' \<and> history cons' = history cons \<and> cons_dims cons' = cons_dims cons \<and>
        ed_prefix (cur cons') = ed_prefix (cur cons) \<and> c_cursor cons' = c_cursor cons + n \<and>
        cur_text cons' = take (nat (c_cursor cons)) (cur_text cons) @ take (nat n) str @
          drop (nat (c_cursor cons)) (cur_text cons))"
proof -
  note E = cons_wf_edit [OF assms(1)] and S = cons_wf_sizes [OF assms(1)]
  have cap: "ed_size (cur cons) + n \<le> ed_max_size (cur cons)"
    using assms(4) by (simp add: stredit_capacity_def)
  from stredit_insert_granted [OF E(1) assms(2,3,5) S(5,6) cap] obtain ed where
    ed: "stredit_insert e (cur cons) (c_cursor cons) str n = Some (True, ed)" "ed_wf ed"
      "ed_prefix ed = ed_prefix (cur cons)" "ed_header ed = ed_header (cur cons)"
      "ed_max_size ed = ed_max_size (cur cons)" "ed_reserved ed = ed_reserved (cur cons)"
      "ed_size ed = ed_size (cur cons) + n"
      "ed_text ed = take (nat (c_cursor cons)) (cur_text cons) @ take (nat n) str @
          drop (nat (c_cursor cons)) (cur_text cons)" by blast
  have c: "s16 (c_cursor cons + n) = c_cursor cons + n"
    using S cap E(3) assms(3) by (intro s16_id) simp_all
  have b: "0 \<le> c_cursor cons + n" "c_cursor cons + n \<le> ed_size ed" using S(5,6) assms(3) ed(7) by simp_all
  note W = set_last_wf [OF assms(1) ed(2,6,5,4) b]
  show ?thesis by (rule exI [of _ ed]) (use W ed c in \<open>simp add: Let_def\<close>)
qed

definition fresh_line :: "console \<Rightarrow> bool" where
  "fresh_line cons \<longleftrightarrow> cons_wf cons \<and> c_cursor cons = 0 \<and> ed_size (cur cons) = 0"

lemma fresh_line_text: "fresh_line cons \<Longrightarrow> cur_text cons = []"
  using cons_wf_sizes(7) [of cons] by (simp add: fresh_line_def)

lemma write_raw_fit:
  assumes "cons_wf cons" and "granting e" and "0 \<le> n" and "n \<le> stredit_capacity (cur cons)"
    and "n \<le> int (length str)" and "2 \<le> fuel"
  shows "\<exists>cons'. write_raw_loop e fuel cons str n = Some (True, cons') \<and> cons_wf cons' \<and>
     history cons' = history cons \<and> cons_dims cons' = cons_dims cons \<and>
     ed_prefix (cur cons') = ed_prefix (cur cons) \<and> c_cursor cons' = c_cursor cons + n \<and>
     cur_text cons' = take (nat (c_cursor cons)) (cur_text cons) @ take (nat n) str @
       drop (nat (c_cursor cons)) (cur_text cons)"
proof -
  from assms(6) obtain f where f: "fuel = Suc (Suc f)" by (metis Suc_le_D numeral_2_eq_2 Suc_le_mono)
  show ?thesis
  proof (cases "n = 0")
    case True
    then show ?thesis using assms(1) f by simp
  next
    case False
    have m: "min n (stredit_capacity (cur cons)) = n" using assms(4) by simp
    from write_round [OF assms(1-5)] obtain ed where
      r: "stredit_insert e (cur cons) (c_cursor cons) str n = Some (True, ed)" and
      w: "let cons' = (set_last_line cons ed)\<lparr>c_cursor := s16 (c_cursor cons + n), c_render_needed := True\<rparr> in
        cons_wf cons' \<and> history cons' = history cons \<and> cons_dims cons' = cons_dims cons \<and>
        ed_prefix (cur cons') = ed_prefix (cur cons) \<and> c_cursor cons' = c_cursor cons + n \<and>
        cur_text cons' = take (nat (c_cursor cons)) (cur_text cons) @ take (nat n) str @
          drop (nat (c_cursor cons)) (cur_text cons)" by blast
    let ?c = "(set_last_line cons ed)\<lparr>c_cursor := s16 (c_cursor cons + n), c_render_needed := True\<rparr>"
    have "write_raw_loop e fuel cons str n = Some (True, ?c)"
      using False assms(3) f r m last_line_wf [OF assms(1)] by (simp add: Let_def)
    then show ?thesis using w unfolding Let_def by blast
  qed
qed

text \<open>A round that does not fit fills the line and goes on, with the same source, on a fresh one.\<close>

lemma write_raw_spill:
  assumes "cons_wf cons" and "granting e" and "stredit_capacity (cur cons) < n"
    and "n \<le> int (length str)"
  shows "\<exists>cons'. fresh_line cons' \<and> cons_dims cons' = cons_dims cons \<and>
     (\<exists>k. history cons' = drop k (history cons @ [take (nat (c_cursor cons)) (cur_text cons) @
        take (nat (stredit_capacity (cur cons))) str @ drop (nat (c_cursor cons)) (cur_text cons)])) \<and>
     (\<forall>fuel. write_raw_loop e (Suc fuel) cons str n =
       write_raw_loop e fuel cons' str (n - stredit_capacity (cur cons)))"
proof -
  let ?n = "stredit_capacity (cur cons)"
  note S = cons_wf_sizes [OF assms(1)]
  have z: "0 \<le> ?n" using S(4) cons_wf_edit(3) [OF assms(1)] by (simp add: stredit_capacity_def)
  have l: "?n \<le> int (length str)" "min n ?n = ?n" using assms(3,4) by simp_all
  from write_round [OF assms(1,2) z order_refl l(1)] obtain ed where
    r: "stredit_insert e (cur cons) (c_cursor cons) str ?n = Some (True, ed)" and
    w: "let cons' = (set_last_line cons ed)\<lparr>c_cursor := s16 (c_cursor cons + ?n), c_render_needed := True\<rparr> in
      cons_wf cons' \<and> history cons' = history cons \<and> cons_dims cons' = cons_dims cons \<and>
      ed_prefix (cur cons') = ed_prefix (cur cons) \<and> c_cursor cons' = c_cursor cons + ?n \<and>
      cur_text cons' = take (nat (c_cursor cons)) (cur_text cons) @ take (nat ?n) str @
        drop (nat (c_cursor cons)) (cur_text cons)" by blast
  let ?c = "(set_last_line cons ed)\<lparr>c_cursor := s16 (c_cursor cons + ?n), c_render_needed := True\<rparr>"
  have wc: "cons_wf ?c" using w unfolding Let_def by (rule conjunct1)
  from console_newline_spec [OF wc assms(2)] obtain c' k where
    c': "console_newline e ?c = Some c'" "cons_wf c'" "c_cursor c' = 0" "ed_size (cur c') = 0"
      "history c' = drop k (history ?c @ [cur_text ?c])" "cons_dims c' = cons_dims ?c" by blast
  have "write_raw_loop e (Suc fuel) cons str n = write_raw_loop e fuel c' str (n - ?n)" for fuel
    using assms(3) z r l(2) c'(1) last_line_wf [OF assms(1)] by (simp add: Let_def)
  moreover have "fresh_line c'" using c' by (simp add: fresh_line_def)
  moreover have "cons_dims c' = cons_dims cons" using c'(6) w by (simp add: Let_def)
  moreover have "history c' = drop k (history cons @ [take (nat (c_cursor cons)) (cur_text cons) @
        take (nat ?n) str @ drop (nat (c_cursor cons)) (cur_text cons)])"
    using c'(5) w by (simp add: Let_def)
  ultimately show ?thesis by blast
qed

text \<open>On fresh lines a write of \<open>n\<close> bytes ends with a line that holds the start of the source again.\<close>

lemma write_raw_fresh:
  assumes "fresh_line cons" and "granting e" and "0 < n" and "n \<le> int (length str)"
    and "nat n + 1 \<le> fuel"
  shows "\<exists>cons'. write_raw_loop e fuel cons str n = Some (True, cons') \<and> cons_wf cons' \<and>
     cons_dims cons' = cons_dims cons \<and> cur_text cons' = take (nat ((n - 1) mod 1024 + 1)) str"
  using assms
proof (induction "nat n" arbitrary: n cons fuel rule: less_induct)
  case less
  have wf: "cons_wf cons" and cap: "stredit_capacity (cur cons) = 1024"
    using less.prems(1) cons_wf_edit(3) [of cons] by (simp_all add: fresh_line_def stredit_capacity_def)
  show ?case
  proof (cases "n \<le> 1024")
    case True
    have "\<exists>cons'. write_raw_loop e fuel cons str n = Some (True, cons') \<and> cons_wf cons' \<and>
     history cons' = history cons \<and> cons_dims cons' = cons_dims cons \<and>
     ed_prefix (cur cons') = ed_prefix (cur cons) \<and> c_cursor cons' = c_cursor cons + n \<and>
     cur_text cons' = take (nat (c_cursor cons)) (cur_text cons) @ take (nat n) str @
       drop (nat (c_cursor cons)) (cur_text cons)"
      by (rule write_raw_fit [OF wf less.prems(2)]) (use less.prems True cap in simp_all)
    moreover have "(n - 1) mod 1024 + 1 = n" using True less.prems(3) by simp
    ultimately show ?thesis using fresh_line_text [OF less.prems(1)] less.prems(1)
      by (auto simp: fresh_line_def)
  next
    case False
    then have "stredit_capacity (cur cons) < n" using cap by simp
    from write_raw_spill [OF wf less.prems(2) this less.prems(4)] cap obtain c' where
      c': "fresh_line c'" "cons_dims c' = cons_dims cons"
        "\<forall>fuel. write_raw_loop e (Suc fuel) cons str n = write_raw_loop e fuel c' str (n - 1024)" by auto
    obtain f where f: "fuel = Suc f" using less.prems(5) by (cases fuel) auto
    have "\<exists>cons'. write_raw_loop e f c' str (n - 1024) = Some (True, cons') \<and> cons_wf cons' \<and>
      cons_dims cons' = cons_dims c' \<and> cur_text cons' = take (nat ((n - 1024 - 1) mod 1024 + 1)) str"
      by (rule less.hyps) (use c'(1) less.prems False f in auto)
    moreover have "(n - 1024 - 1) mod 1024 = (n - 1) mod 1024"
      using mod_diff_right_eq [of "n - 1" 1024 1024] by (simp add: algebra_simps)
    ultimately show ?thesis using c'(2,3) f by auto
  qed
qed

lemma console_write_raw_fit:
  assumes "cons_wf cons" and "granting e" and "0 \<le> n" and "n \<le> stredit_capacity (cur cons)"
    and "n \<le> int (length str)"
  shows "\<exists>cons'. console_write_raw e cons str n = Some (True, cons') \<and> cons_wf cons' \<and>
     history cons' = history cons \<and> cons_dims cons' = cons_dims cons \<and>
     ed_prefix (cur cons') = ed_prefix (cur cons) \<and> c_cursor cons' = c_cursor cons + n \<and>
     cur_text cons' = take (nat (c_cursor cons)) (cur_text cons) @ take (nat n) str @
       drop (nat (c_cursor cons)) (cur_text cons)"
proof -
  have "console_write_raw e cons str n = write_raw_loop e (2 * nat n + 2) cons str n"
    using assms(1) by (simp add: console_write_raw_def cons_wf_def)
  then show ?thesis using write_raw_fit [OF assms, of "2 * nat n + 2"] by simp
qed

lemma console_write_raw_spill:
  assumes "cons_wf cons" and "granting e" and "stredit_capacity (cur cons) < n"
    and "n \<le> int (length str)"
  shows "\<exists>cons'. console_write_raw e cons str n = Some (True, cons') \<and> cons_wf cons' \<and>
     cons_dims cons' = cons_dims cons \<and>
     cur_text cons' = take (nat ((n - stredit_capacity (cur cons) - 1) mod 1024 + 1)) str"
proof -
  let ?n = "stredit_capacity (cur cons)"
  have z: "0 \<le> ?n" using cons_wf_sizes(4) [OF assms(1)] cons_wf_edit(3) [OF assms(1)]
    by (simp add: stredit_capacity_def)
  from write_raw_spill [OF assms] obtain c' where c': "fresh_line c'" "cons_dims c' = cons_dims cons"
    "\<forall>fuel. write_raw_loop e (Suc fuel) cons str n = write_raw_loop e fuel c' str (n - ?n)" by blast
  have "console_write_raw e cons str n = write_raw_loop e (2 * nat n + 1) c' str (n - ?n)"
    using assms(1) c'(3) by (simp add: console_write_raw_def cons_wf_def)
  moreover have "\<exists>cons'. write_raw_loop e (2 * nat n + 1) c' str (n - ?n) = Some (True, cons') \<and>
    cons_wf cons' \<and> cons_dims cons' = cons_dims c' \<and> cur_text cons' = take (nat ((n - ?n - 1) mod 1024 + 1)) str"
    by (rule write_raw_fresh [OF c'(1) assms(2)]) (use assms(3,4) z in auto)
  ultimately show ?thesis using c'(2) by auto
qed

lemma console_write_raw_total:
  assumes "cons_wf cons" and "granting e" and "0 \<le> n" and "n \<le> int (length str)"
  shows "\<exists>cons'. console_write_raw e cons str n = Some (True, cons') \<and> cons_wf cons' \<and>
     cons_dims cons' = cons_dims cons"
  using console_write_raw_fit [OF assms(1-3) _ assms(4)] console_write_raw_spill [OF assms(1,2) _ assms(4)]
  by (metis linorder_not_less)

section \<open>Deleting and moving\<close>

text \<open>A deletion on the current line: what it removes lies behind the locked prefix.\<close>

lemma delete_last:
  fixes p n :: int and cons :: console
  assumes "cons_wf cons"
  defines "q \<equiv> max p (ed_prefix (cur cons))"
  defines "k \<equiv> max 0 (min (n - (q - p)) (ed_size (cur cons) - q))"
  shows "\<exists>ed. stredit_delete (cur cons) p n = Some (k, ed) \<and> ed_size ed = ed_size (cur cons) - k \<and>
     ed_prefix ed = ed_prefix (cur cons) \<and>
     ed_text ed = take (nat q) (cur_text cons) @ drop (nat (q + k)) (cur_text cons) \<and>
     (\<forall>c. 0 \<le> c \<longrightarrow> c \<le> ed_size ed \<longrightarrow> cons_wf ((set_last_line cons ed)\<lparr>c_cursor := c\<rparr>)) \<and>
     history (set_last_line cons ed) = history cons"
proof -
  note E = cons_wf_edit [OF assms(1)]
  from stredit_delete_spec [OF E(1), of p n, folded q_def, folded k_def] obtain ed where
    ed: "stredit_delete (cur cons) p n = Some (k, ed)" "ed_wf ed" "ed_prefix ed = ed_prefix (cur cons)"
      "ed_header ed = ed_header (cur cons)" "ed_max_size ed = ed_max_size (cur cons)"
      "ed_reserved ed = ed_reserved (cur cons)" "ed_size ed = ed_size (cur cons) - k"
      "ed_text ed = take (nat q) (cur_text cons) @ drop (nat (q + k)) (cur_text cons)" by blast
  have s: "0 \<le> ed_size ed" using ed(2) by (auto simp: ed_shape_def elim!: ed_wfE)
  have "cons_wf ((set_last_line cons ed)\<lparr>c_cursor := c\<rparr>)" if "0 \<le> c" "c \<le> ed_size ed" for c
    by (rule set_last_wf(1) [OF assms(1) ed(2,6,5,4) that])
  moreover have "history (set_last_line cons ed) = history cons"
    by (rule set_last_wf(2) [OF assms(1) ed(2,6,5,4) order_refl s])
  ultimately show ?thesis using ed by blast
qed

lemma console_delete_at_cursor_spec:
  fixes cons :: console and n :: int
  assumes "cons_wf cons"
  defines "k \<equiv> max 0 (min n (c_cursor cons - ed_prefix (cur cons)))"
  shows "\<exists>cons'. console_delete_at_cursor cons n = Some cons' \<and> cons_wf cons' \<and>
     history cons' = history cons \<and> cons_dims cons' = cons_dims cons \<and> c_render_needed cons' \<and>
     c_cursor cons' = c_cursor cons - k \<and> ed_prefix (cur cons') = ed_prefix (cur cons) \<and>
     cur_text cons' = take (nat (c_cursor cons - k)) (cur_text cons) @ drop (nat (c_cursor cons)) (cur_text cons)"
proof -
  note S = cons_wf_sizes [OF assms(1)]
  let ?p = "c_cursor cons - n"
  define q where "q = max ?p (ed_prefix (cur cons))"
  have k: "max 0 (min (n - (q - ?p)) (ed_size (cur cons) - q)) = k" "0 \<le> k" "k \<le> c_cursor cons"
    using S by (simp_all add: k_def q_def)
  have qk: "k = 0 \<or> q = c_cursor cons - k" by (auto simp: k_def q_def)
  from delete_last [OF assms(1), of ?p n, folded q_def, unfolded k(1)] obtain ed where
    ed: "stredit_delete (cur cons) ?p n = Some (k, ed)" "ed_size ed = ed_size (cur cons) - k"
      "ed_prefix ed = ed_prefix (cur cons)"
      "ed_text ed = take (nat q) (cur_text cons) @ drop (nat (q + k)) (cur_text cons)"
      "\<forall>c. 0 \<le> c \<longrightarrow> c \<le> ed_size ed \<longrightarrow> cons_wf ((set_last_line cons ed)\<lparr>c_cursor := c\<rparr>)"
      "history (set_last_line cons ed) = history cons" by blast
  have t: "ed_text ed = take (nat (c_cursor cons - k)) (cur_text cons) @ drop (nat (c_cursor cons)) (cur_text cons)"
    using qk by (elim disjE) (simp_all add: ed(4))
  have c: "s16 (c_cursor cons - k) = c_cursor cons - k" using S k by (intro s16_id) simp_all
  let ?c = "(set_last_line cons ed)\<lparr>c_cursor := c_cursor cons - k, c_render_needed := True\<rparr>"
  have "console_delete_at_cursor cons n = Some ?c"
    using last_line_wf [OF assms(1)] ed(1) c by (simp add: console_delete_at_cursor_def Let_def)
  moreover have "cons_wf ((set_last_line cons ed)\<lparr>c_cursor := c_cursor cons - k\<rparr>)"
    using ed(2,5) k S(6) by simp
  ultimately show ?thesis using ed(3,6) t by (intro exI [of _ ?c]) simp
qed

lemma console_clear_current_line_spec:
  assumes "cons_wf cons"
  shows "\<exists>cons'. console_clear_current_line cons = Some cons' \<and> cons_wf cons' \<and>
     history cons' = history cons \<and> cons_dims cons' = cons_dims cons \<and>
     c_cursor cons' = ed_prefix (cur cons) \<and> ed_prefix (cur cons') = ed_prefix (cur cons) \<and>
     cur_text cons' = take (nat (ed_prefix (cur cons))) (cur_text cons)"
proof -
  note S = cons_wf_sizes [OF assms]
  let ?p = "ed_prefix (cur cons)" and ?s = "ed_size (cur cons)"
  have k: "max 0 (min (?s - ?p - (max ?p ?p - ?p)) (?s - max ?p ?p)) = ?s - ?p" using S by simp
  from delete_last [OF assms, of ?p "?s - ?p"] obtain ed where
    ed: "stredit_delete (cur cons) ?p (?s - ?p) = Some (?s - ?p, ed)" "ed_size ed = ?p" "ed_prefix ed = ?p"
      "ed_text ed = take (nat ?p) (cur_text cons) @ drop (nat ?s) (cur_text cons)"
      "\<forall>c. 0 \<le> c \<longrightarrow> c \<le> ed_size ed \<longrightarrow> cons_wf ((set_last_line cons ed)\<lparr>c_cursor := c\<rparr>)"
      "history (set_last_line cons ed) = history cons"
    unfolding k by auto
  have c: "s16 ?p = ?p" using S by (intro s16_id) simp_all
  have d: "drop (nat ?s) (cur_text cons) = []" using S(7) by simp
  let ?c = "(set_last_line cons ed)\<lparr>c_cursor := ?p, c_render_needed := True\<rparr>"
  have "console_clear_current_line cons = Some ?c"
    using last_line_wf [OF assms] ed(1,3) c by (simp add: console_clear_current_line_def Let_def)
  moreover have "cons_wf ((set_last_line cons ed)\<lparr>c_cursor := ?p\<rparr>)" using ed(2,5) S(1) by simp
  ultimately show ?thesis using ed d by (intro exI [of _ ?c]) simp
qed

lemma console_set_cursor_spec:
  assumes "cons_wf cons" and "console_set_cursor cons pos = (ok, cons')"
  shows "ok \<longleftrightarrow> ed_prefix (cur cons) \<le> pos \<and> pos \<le> ed_size (cur cons)"
    and "cons' = (if ok then cons\<lparr>c_cursor := pos\<rparr> else cons)" and "cons_wf cons'"
proof -
  note S = cons_wf_sizes [OF assms(1)]
  show ok: "ok \<longleftrightarrow> ed_prefix (cur cons) \<le> pos \<and> pos \<le> ed_size (cur cons)"
    using assms last_line_wf [OF assms(1)] by (auto simp: console_set_cursor_def split: if_splits)
  have "s16 pos = pos" if ok using that S ok by (intro s16_id) simp_all
  then show c: "cons' = (if ok then cons\<lparr>c_cursor := pos\<rparr> else cons)"
    using assms last_line_wf [OF assms(1)] by (auto simp: console_set_cursor_def split: if_splits)
  show "cons_wf cons'" using c ok S assms(1) by (auto simp: cons_wf_def)
qed

lemma console_lock_prefix_spec:
  assumes "cons_wf cons"
  shows "\<exists>cons'. console_lock_prefix cons = Some cons' \<and> cons_wf cons' \<and> history cons' = history cons \<and>
     ed_prefix (cur cons') = c_cursor cons \<and> cur_text cons' = cur_text cons \<and> c_cursor cons' = c_cursor cons \<and>
     cons_dims cons' = cons_dims cons"
proof -
  note E = cons_wf_edit [OF assms] and S = cons_wf_sizes [OF assms]
  let ?ed = "stredit_set_prefix (cur cons) (c_cursor cons)"
  note P = stredit_set_prefix_spec [OF E(1), of "c_cursor cons"]
  have f: "ed_reserved ?ed = ed_reserved (cur cons)" "ed_max_size ?ed = ed_max_size (cur cons)"
    "ed_header ?ed = ed_header (cur cons)" "ed_size ?ed = ed_size (cur cons)"
    by (simp_all add: stredit_set_prefix_def ed_header_def split: ptr.split)
  have b: "c_cursor cons \<le> ed_size ?ed" using S(6) f(4) by simp
  note W = set_last_wf [OF assms P(1) f(1-3) S(5) b]
  have self: "(set_last_line cons ?ed)\<lparr>c_cursor := c_cursor cons\<rparr> = set_last_line cons ?ed"
    by (simp add: set_last_line_def)
  show ?thesis using W(1) [unfolded self] W(2) P S last_line_wf [OF assms]
    by (intro exI [of _ "set_last_line cons ?ed"]) (simp add: console_lock_prefix_def)
qed

section \<open>The write loop\<close>

lemma write_backspace_wf:
  assumes "cons_wf cons"
  shows "\<exists>cons'. write_backspace cons = Some cons' \<and> cons_wf cons' \<and> cons_dims cons' = cons_dims cons \<and>
    history cons' = history cons \<and> ed_prefix (cur cons') = ed_prefix (cur cons) \<and>
    c_cursor cons' = max 0 (c_cursor cons - 1) \<and>
    cur_text cons' = (if ed_prefix (cur cons) < c_cursor cons
       then take (nat (c_cursor cons - 1)) (cur_text cons) @ drop (nat (c_cursor cons)) (cur_text cons)
       else cur_text cons)"
proof (cases "c_cursor cons > 0")
  case True
  note S = cons_wf_sizes [OF assms]
  let ?p = "c_cursor cons - 1"
  define q where "q = max ?p (ed_prefix (cur cons))"
  define k where "k = max 0 (min (1 - (q - ?p)) (ed_size (cur cons) - q))"
  from delete_last [OF assms, of ?p 1, folded q_def, folded k_def] obtain ed where
    ed: "stredit_delete (cur cons) ?p 1 = Some (k, ed)" "ed_size ed = ed_size (cur cons) - k"
      "ed_prefix ed = ed_prefix (cur cons)"
      "ed_text ed = take (nat q) (cur_text cons) @ drop (nat (q + k)) (cur_text cons)"
      "\<forall>c. 0 \<le> c \<longrightarrow> c \<le> ed_size ed \<longrightarrow> cons_wf ((set_last_line cons ed)\<lparr>c_cursor := c\<rparr>)"
      "history (set_last_line cons ed) = history cons" by blast
  have k: "k \<le> 1" "0 \<le> k" by (simp_all add: k_def q_def)
  have qk: "if ed_prefix (cur cons) < c_cursor cons then q = ?p \<and> k = 1 else k = 0"
    using S True by (auto simp: q_def k_def)
  have c: "s16 ?p = ?p" using S True by (intro s16_id) simp_all
  have "write_backspace cons = Some ((set_last_line cons ed)\<lparr>c_cursor := ?p\<rparr>)"
    using True last_line_wf [OF assms] ed(1) c by (simp add: write_backspace_def Let_def)
  moreover have "cons_wf ((set_last_line cons ed)\<lparr>c_cursor := ?p\<rparr>)"
    using ed(2,5) k S True by simp
  moreover have "ed_text ed = (if ed_prefix (cur cons) < c_cursor cons
       then take (nat ?p) (cur_text cons) @ drop (nat (c_cursor cons)) (cur_text cons) else cur_text cons)"
    using ed(4) qk by (auto split: if_splits)
  ultimately show ?thesis using ed(3,6) True by (intro exI [of _ "(set_last_line cons ed)\<lparr>c_cursor := ?p\<rparr>"]) simp
next
  case False
  then show ?thesis using assms cons_wf_sizes [OF assms] by (simp add: write_backspace_def)
qed

lemma erase_to_end_wf:
  assumes "cons_wf cons"
  shows "\<exists>ed k. stredit_delete (cur cons) (c_cursor cons) (ed_size (cur cons) - c_cursor cons) = Some (k, ed) \<and>
    cons_wf (set_last_line cons ed)"
proof -
  note S = cons_wf_sizes [OF assms]
  let ?p = "c_cursor cons" and ?n = "ed_size (cur cons) - c_cursor cons"
  define q where "q = max ?p (ed_prefix (cur cons))"
  define k where "k = max 0 (min (?n - (q - ?p)) (ed_size (cur cons) - q))"
  from delete_last [OF assms, of ?p ?n, folded q_def, folded k_def] obtain ed where
    ed: "stredit_delete (cur cons) ?p ?n = Some (k, ed)" "ed_size ed = ed_size (cur cons) - k"
      "\<forall>c. 0 \<le> c \<longrightarrow> c \<le> ed_size ed \<longrightarrow> cons_wf ((set_last_line cons ed)\<lparr>c_cursor := c\<rparr>)" by blast
  have "?p \<le> ed_size ed" using S unfolding ed(2) k_def q_def by simp
  then have "cons_wf ((set_last_line cons ed)\<lparr>c_cursor := ?p\<rparr>)" using ed(3) S(5) by blast
  moreover have "(set_last_line cons ed)\<lparr>c_cursor := ?p\<rparr> = set_last_line cons ed"
    by (simp add: set_last_line_def)
  ultimately show ?thesis using ed(1) by auto
qed

lemma cons_wf_cursor:
  "cons_wf cons \<Longrightarrow> 0 \<le> c \<Longrightarrow> c \<le> ed_size (cur cons) \<Longrightarrow> cons_wf (cons\<lparr>c_cursor := s16 c\<rparr>)"
  using cons_wf_sizes(4) [of cons] s16_id [of c] by (simp add: cons_wf_def)

lemma write_escape_wf:
  assumes "cons_wf cons"
  shows "\<exists>cons' rest'. write_escape cons rest = Some (cons', rest') \<and> cons_wf cons' \<and>
    cons_dims cons' = cons_dims cons"
proof -
  let ?left = "\<lambda>c rest. if take 2 rest = [CHR 0x01, CHR ''D'']
       then c\<lparr>c_cursor := s16 (c_cursor c - (if c_cursor c > 0 then 1 else 0))\<rparr> else c"
  let ?right = "\<lambda>c rest. if take 2 rest = [CHR 0x01, CHR ''C'']
       then c\<lparr>c_cursor := s16 (c_cursor c + (if c_cursor c < ed_size (cur c) then 1 else 0))\<rparr> else c"
  obtain c1 r1 where c1: "cons_wf c1" "cons_dims c1 = cons_dims cons" and
    e1: "(if take 2 rest = ''[K'' then do {
         ed \<leftarrow> last_line cons;
         (_, ed) \<leftarrow> stredit_delete ed (c_cursor cons) (ed_size ed - c_cursor cons);
         Some (set_last_line cons ed, drop 2 rest)
       } else Some (cons, rest)) = Some (c1, r1)"
  proof (cases "take 2 rest = ''[K''")
    case True
    then show ?thesis using erase_to_end_wf [OF assms] last_line_wf [OF assms] that by fastforce
  next
    case False
    then show ?thesis using assms that by (simp (no_asm_simp))
  qed
  have l: "cons_wf (?left c r)" "cons_dims (?left c r) = cons_dims c" if "cons_wf c" for c :: console and r
    using that cons_wf_sizes [OF that] by (auto intro: cons_wf_cursor)
  have r: "cons_wf (?right c r)" "cons_dims (?right c r) = cons_dims c" if "cons_wf c" for c :: console and r
    using that cons_wf_sizes [OF that] by (auto intro: cons_wf_cursor)
  have "write_escape cons rest = Some (?right (?left c1 r1) r1, r1)"
    unfolding write_escape_def e1
    using last_line_wf [OF l(1) [OF c1(1), of r1]] last_line_wf [OF c1(1)] by simp
  then show ?thesis using r [OF l(1) [OF c1(1), of r1], of r1] l [OF c1(1), of r1] c1(2) by simp
qed

lemma takeWhile_length_int: "int (length (takeWhile P s)) \<le> int (length s)"
  by (simp add: length_takeWhile_le)

lemma write_loop_total:
  assumes "cons_wf cons" and "granting e"
  shows "\<exists>cons'. write_loop e cons s = Some (True, cons') \<and> cons_wf cons' \<and> cons_dims cons' = cons_dims cons"
  using assms
proof (induction "length s" arbitrary: s cons rule: less_induct)
  case less
  show ?case
  proof (cases "s = []")
    case True
    then show ?thesis using less.prems by (simp add: write_loop.simps)
  next
    case False
    let ?plain = "takeWhile (\<lambda>c. \<not> is_ctrl c) s"
    from console_write_raw_total [OF less.prems, of "int (length ?plain)" s] takeWhile_length_int
    obtain c1 where c1: "console_write_raw e cons s (int (length ?plain)) = Some (True, c1)" "cons_wf c1"
      "cons_dims c1 = cons_dims cons" by (metis of_nat_0_le_iff)
    have step: "write_loop e cons s = (case drop (length ?plain) s of
          [] \<Rightarrow> Some (True, c1)
        | c # rest \<Rightarrow>
            if c = CHR 0x0A then do { cons \<leftarrow> console_newline e c1; write_loop e (cons\<lparr>c_render_needed := True\<rparr>) rest }
            else if c = CHR 0x08 then do { cons \<leftarrow> write_backspace c1; write_loop e (cons\<lparr>c_render_needed := True\<rparr>) rest }
            else (case write_escape c1 rest of
                None \<Rightarrow> None
              | Some (cons, rest) \<Rightarrow> write_loop e (cons\<lparr>c_render_needed := True\<rparr>) rest))"
      using False c1(1) by (simp add: write_loop.simps [of e cons s] Let_def)
    show ?thesis
    proof (cases "drop (length ?plain) s")
      case Nil
      then show ?thesis using step c1 by simp
    next
      case (Cons c rest)
      have len: "length rest < length s" using drop_Cons_length [OF Cons] .
      have IH: "\<exists>cons'. write_loop e (c2\<lparr>c_render_needed := True\<rparr>) r = Some (True, cons') \<and> cons_wf cons' \<and>
          cons_dims cons' = cons_dims cons"
        if "length r \<le> length rest" "cons_wf c2" "cons_dims c2 = cons_dims c1" for c2 r
        using less.hyps [of r "c2\<lparr>c_render_needed := True\<rparr>"] that len less.prems(2) c1(3) by auto
      obtain c2 where n: "console_newline e c1 = Some c2" "cons_wf c2" "cons_dims c2 = cons_dims c1"
        using console_newline_spec [OF c1(2) less.prems(2)] by blast
      obtain c3 where b: "write_backspace c1 = Some c3" "cons_wf c3" "cons_dims c3 = cons_dims c1"
        using write_backspace_wf [OF c1(2)] by blast
      obtain c4 r4 where x: "write_escape c1 rest = Some (c4, r4)" "cons_wf c4" "cons_dims c4 = cons_dims c1"
        using write_escape_wf [OF c1(2)] by blast
      show ?thesis using step Cons IH [OF order_refl n(2,3)] IH [OF order_refl b(2,3)]
          IH [OF write_escape_rest [OF x(1)] x(2,3)] n(1) b(1) x(1) by simp
    qed
  qed
qed

section \<open>Creation\<close>

lemma console_create_spec:
  assumes "granting e" and "count < 32768"
  shows "\<exists>cons. console_create e backlog count = Some (Some cons) \<and> cons_wf cons \<and>
     history cons = [] \<and> cur_text cons = [] \<and> c_cursor cons = 0 \<and>
     cons_dims cons = (max count 1, max backlog 1024)"
proof -
  let ?b = "max backlog PE_CONSOLE_LINE_MAX_LENGTH" and ?m = "max count 1"
  have m: "0 < ?m" "?m < 32768" using assms(2) by simp_all
  from linebuf_init_spec [OF m assms(1), of linebuf_zero ?b] obtain b where b:
    "linebuf_init e linebuf_zero ?m ?b = Some (True, b)" "lb_wf b" "lb_texts b = []"
    "lb_capacity b = ?m" "lb_backlog_size b = ?b" by blast
  let ?c = "\<lparr>c_lines = b, c_cursor = -1, c_render_needed = True, c_render_font = 0,
    c_render_width = 0, c_render_lines = 0\<rparr>"
  have "lb_wf (c_lines ?c)" "0 \<le> lb_backlog_size (c_lines ?c)"
    using b by (simp_all add: PE_CONSOLE_LINE_MAX_LENGTH_def)
  from console_newline_lb [OF this(1) assms(1) this(2)] obtain c k where c:
    "console_newline e ?c = Some c" "cons_wf c" "c_cursor c = 0" "cur_text c = []"
    "history c = drop k (lb_texts (c_lines ?c))" "cons_dims c = cons_dims ?c" by blast
  have "console_create e backlog count = Some (Some c)"
    using b(1) c(1) assms(1) by (simp add: console_create_def Let_def)
  then show ?thesis using c b by (simp add: cons_dims_def PE_CONSOLE_LINE_MAX_LENGTH_def)
qed

section \<open>Layout\<close>

text \<open>
  What the layout code relies on in gint: \<open>drsize\<close> stops at the end of the string and fits at
  least one character of a non-empty one.
\<close>

definition font_advances :: "gint_font \<Rightarrow> int \<Rightarrow> bool" where
  "font_advances g w \<longleftrightarrow> (\<forall>s. 0 \<le> drsize g s w \<and> drsize g s w \<le> int (length s) \<and>
     (s \<noteq> [] \<longrightarrow> 0 < drsize g s w))"

lemma render_count_total:
  assumes "font_advances g w"
  shows "\<exists>m. render_count g s w k = Some m \<and> k + 1 \<le> m \<and> m \<le> k + 1 + int (length s)"
  using assms
proof (induction g s w k rule: render_count.induct)
  case (1 g s w k)
  let ?n = "drsize g s w"
  have n: "0 \<le> ?n" "?n \<le> int (length s)" "s \<noteq> [] \<longrightarrow> 0 < ?n"
    using 1(2) by (simp_all add: font_advances_def)
  show ?case
  proof (cases "drop (nat ?n) s = []")
    case True
    then show ?thesis using n by (simp add: render_count.simps [of g s] Let_def)
  next
    case False
    then have s: "s \<noteq> []" by auto
    have "\<exists>m. render_count g (drop (nat ?n) s) w (k + 1) = Some m \<and> k + 1 + 1 \<le> m \<and>
        m \<le> k + 1 + 1 + int (length (drop (nat ?n) s))"
      by (rule 1(1)) (use n s False 1(2) in auto)
    moreover have "render_count g s w k = render_count g (drop (nat ?n) s) w (k + 1)"
      using n s False by (simp add: render_count.simps [of g s] Let_def)
    ultimately show ?thesis using n s by auto
  qed
qed

lemma set_render_lines_block:
  assumes "3 \<le> length b"
  shows "fline_set_render_lines b k = Some (b[2 := char_of (u8 k)])"
    and "fl_size (b[2 := c]) = fl_size b" and "fl_text (b[2 := c]) = fl_text b"
    and "fline_ok b \<Longrightarrow> fline_ok (b[2 := c])"
  using assms fl_size_nonneg [of b]
  by (auto simp: fline_set_render_lines_def mem_write_single fl_size_def fl_text_def fline_ok_def)

lemma sum_list_set_int:
  fixes f :: "'a \<Rightarrow> int"
  assumes "i < length xs"
  shows "sum_list (map f (xs[i := y])) = sum_list (map f xs) - f (xs ! i) + f y"
proof -
  have "xs = take i xs @ xs ! i # drop (Suc i) xs" using assms by (simp add: id_take_nth_drop)
  then have "sum_list (map f xs) = sum_list (map f (take i xs)) + (f (xs ! i) + sum_list (map f (drop (Suc i) xs)))"
    by (metis list.simps(9) map_append sum_list.Cons sum_list_append)
  then show ?thesis using assms by (simp add: upd_conv_take_nth_drop)
qed

text \<open>Recording a new number of render lines for one line: texts, sizes and positions stay.\<close>

definition same_texts :: "linebuf \<Rightarrow> linebuf \<Rightarrow> bool" where
  "same_texts buf buf' \<longleftrightarrow> lb_wf buf' \<and> map fl_text (lb_frozen buf') = map fl_text (lb_frozen buf) \<and>
     lb_size buf' = lb_size buf \<and> lb_absolute buf' = lb_absolute buf \<and>
     lb_capacity buf' = lb_capacity buf \<and> lb_backlog_size buf' = lb_backlog_size buf \<and>
     lb_total_size_except_last buf' = lb_total_size_except_last buf \<and>
     ed_text (lb_edit buf') = ed_text (lb_edit buf) \<and> ed_size (lb_edit buf') = ed_size (lb_edit buf) \<and>
     ed_prefix (lb_edit buf') = ed_prefix (lb_edit buf)"

lemma same_texts_refl: "lb_wf buf \<Longrightarrow> same_texts buf buf"
  by (simp add: same_texts_def)

lemma same_texts_trans: "same_texts a b \<Longrightarrow> same_texts b c \<Longrightarrow> same_texts a c"
  by (simp add: same_texts_def)

lemma s16_replace: "s16 (s16 (s16 x - a) + b) = s16 (x - a + b)"
  by (simp add: s16_cong s16_diff_cong)

lemma set_render_lines_frozen:
  fixes c :: char and b :: bytes
  assumes "lb_wf buf" and "int i < lb_size buf - 1" and "lb_slot buf i = Block b"
  defines "b' \<equiv> b[2 := c]"
  shows "\<exists>ls. lines_put (buf\<lparr>lb_total_rendered := t\<rparr>) (linebuf_nth_to_index buf (int i)) (Block b') =
       Some (buf\<lparr>lb_total_rendered := t, lb_lines := ls\<rparr>) \<and>
     same_texts buf (buf\<lparr>lb_lines := ls, lb_total_rendered := s16 (s16 (lb_total_rendered buf -
        fl_render_lines b) + fl_render_lines b')\<rparr>)"
proof -
  have W: "lb_geometry buf" "lb_lines_ok buf" "lb_edit_ok buf"
    "lb_total_size_except_last buf = sum_list (map fl_size (lb_frozen buf))"
    "lb_total_rendered buf = s16 (sum_list (map fl_render_lines (lb_frozen buf)) + edit_render_lines buf)"
    using assms(1) by (simp_all add: lb_wf_def)
  let ?t = "buf\<lparr>lb_total_rendered := t\<rparr>"
  have G: "lb_geometry ?t" "int i < lb_capacity ?t" using W(1) assms(2) by (simp_all add: lb_geometry_def)
  from lines_put_slot [OF G, of "Block b'"] obtain ls where
    put: "lines_put ?t (linebuf_nth_to_index ?t (int i)) (Block b') = Some (?t\<lparr>lb_lines := ls\<rparr>)"
      "length ls = length (lb_lines ?t)"
    and slot: "\<And>(buf' :: linebuf) j. lb_lines buf' = ls \<Longrightarrow> lb_start buf' = lb_start ?t \<Longrightarrow>
           lb_capacity buf' = lb_capacity ?t \<Longrightarrow> int j < lb_capacity ?t \<Longrightarrow>
           lb_slot buf' j = (if j = i then Block b' else lb_slot ?t j)" by blast
  let ?r = "s16 (s16 (lb_total_rendered buf - fl_render_lines b) + fl_render_lines b')"
  let ?n = "buf\<lparr>lb_lines := ls, lb_total_rendered := ?r\<rparr>"
  have st: "lb_slot ?t j = lb_slot buf j" for j by (simp add: lb_slot_def)
  have S: "lb_slot ?n j = (if j = i then Block b' else lb_slot buf j)" if "int j < lb_capacity buf" for j
    using slot [of ?n j] that st by simp
  have "line_live (lb_slot buf i)" using W(2) assms(2) by (simp add: lb_lines_ok_def)
  then have b: "fline_ok b" using assms(3) by (simp add: line_live_def)
  then have l: "3 \<le> length b" using fline_okD by fastforce
  note B = set_render_lines_block(2-4) [OF l, of c, folded b'_def]
  have il: "i < length (lb_frozen buf)" using assms(2) by (auto simp: lb_frozen_def)
  have sz: "lb_size buf \<le> lb_capacity buf" using W(1) by (simp add: lb_geometry_def)
  have fz: "lb_frozen ?n = (lb_frozen buf)[i := b']"
    by (rule nth_equalityI) (use S sz il in \<open>auto simp: lb_frozen_def nth_list_update\<close>)
  have fi: "lb_frozen buf ! i = b" using assms(3) il by (simp add: lb_frozen_def)
  have sums: "map fl_size (lb_frozen ?n) = map fl_size (lb_frozen buf)"
    "map fl_text (lb_frozen ?n) = map fl_text (lb_frozen buf)"
    unfolding fz map_update using B(1,2) il fi by (simp_all add: list_update_same_conv)
  have er: "edit_render_lines ?n = edit_render_lines buf" by (simp add: edit_render_lines_def)
  have "lb_geometry ?n" using W(1) put(2) by (simp add: lb_geometry_def)
  moreover have "lb_lines_ok ?n" using W(2) S sz B(3) [OF b] by (auto simp: lb_lines_ok_def line_live_def)
  moreover have "lb_edit_ok ?n"
    using W(3) S [of "nat (lb_size buf - 1)"] sz assms(2) by (auto simp: lb_edit_ok_def)
  moreover have "?r = s16 (sum_list (map fl_render_lines (lb_frozen ?n)) + edit_render_lines ?n)"
    unfolding er fz sum_list_set_int [OF il] fi unfolding W(5) s16_replace by (simp add: algebra_simps)
  ultimately have "lb_wf ?n" using W(4) sums(1) by (simp add: lb_wf_def)
  then have "same_texts buf ?n" using sums(2) by (simp add: same_texts_def)
  moreover have "linebuf_nth_to_index ?t (int i) = linebuf_nth_to_index buf (int i)"
    by (simp add: linebuf_nth_to_index_def)
  ultimately show ?thesis using put(1) by (intro exI [of _ ls]) simp
qed

lemma set_render_lines_edit:
  fixes c :: char and b :: bytes
  assumes "lb_wf buf" and "0 < lb_size buf" and "ed_raw (lb_edit buf) = Block b"
  defines "b' \<equiv> b[2 := c]"
  shows "4 \<le> length b" and "same_texts buf (buf\<lparr>lb_edit := (lb_edit buf)\<lparr>ed_raw := Block b'\<rparr>,
     lb_total_rendered := s16 (s16 (lb_total_rendered buf - fl_render_lines b) + fl_render_lines b')\<rparr>)"
proof -
  let ?ed = "(lb_edit buf)\<lparr>ed_raw := Block b'\<rparr>"
  let ?r = "s16 (s16 (lb_total_rendered buf - fl_render_lines b) + fl_render_lines b')"
  let ?n = "buf\<lparr>lb_edit := ?ed, lb_total_rendered := ?r\<rparr>"
  have W: "lb_geometry buf" "lb_lines_ok buf" "lb_edit_ok buf"
    "lb_total_rendered buf = s16 (sum_list (map fl_render_lines (lb_frozen buf)) + edit_render_lines buf)"
    using assms(1) by (simp_all add: lb_wf_def)
  have E: "ed_shape b (lb_edit buf)" "ed_reserved (lb_edit buf) = 3"
    using W(3) assms(2,3) by (simp_all add: lb_edit_ok_def ed_wf_def)
  show l: "4 \<le> length b" using E by (auto simp: ed_shape_def)
  have "ed_shape b' ?ed" using E l by (auto simp: ed_shape_def b'_def nth_list_update)
  then have ed: "ed_wf ?ed" by (simp add: ed_wf_def)
  have tx: "ed_text ?ed = ed_text (lb_edit buf)" using assms(3) E(2) by (simp add: ed_text_def b'_def)
  have fz: "lb_frozen ?n = lb_frozen buf" by (simp add: lb_frozen_def lb_slot_def)
  have er: "edit_render_lines ?n = fl_render_lines b'" "edit_render_lines buf = fl_render_lines b"
    using assms(2,3) by (simp_all add: edit_render_lines_def)
  have "?r = s16 (sum_list (map fl_render_lines (lb_frozen ?n)) + edit_render_lines ?n)"
    unfolding er(1) fz unfolding W(4) s16_replace er(2) by (simp add: algebra_simps)
  moreover have "lb_geometry ?n" "lb_lines_ok ?n" "lb_edit_ok ?n" using W(1-3) ed
    by (simp_all add: lb_geometry_def lb_lines_ok_def lb_edit_ok_def lb_slot_def)
  ultimately have "lb_wf ?n" using assms(1) fz by (simp add: lb_wf_def)
  then show "same_texts buf ?n" using fz tx by (simp add: same_texts_def)
qed

lemma update_step:
  assumes "lb_wf buf" and "font_advances g w" and "lb_absolute buf \<le> n" and "n < linebuf_end buf"
  shows "\<exists>buf'. same_texts buf buf' \<and> (\<forall>k. update_loop g w (Suc k) n buf = update_loop g w k (n + 1) buf')"
proof -
  define i where "i = nat (n - lb_absolute buf)"
  have i: "int i = n - lb_absolute buf" "int i < lb_size buf"
    using assms(3,4) by (simp_all add: i_def linebuf_end_def)
  have G: "lb_geometry buf" "lb_lines_ok buf" "lb_edit_ok buf" using assms(1) by (simp_all add: lb_wf_def)
  show ?thesis
  proof (cases "int i = lb_size buf - 1")
    case False
    then have "line_live (lb_slot buf i)" using G(2) i(2) by (simp add: lb_lines_ok_def)
    then obtain b where b: "lb_slot buf i = Block b" "fline_ok b"
      by (auto simp: line_live_def split: ptr.splits)
    have l: "3 \<le> length b" using fline_okD [OF b(2)] by auto
    obtain m where m: "render_count g (c_str (drop 3 b)) w 0 = Some m"
      using render_count_total [OF assms(2)] by blast
    let ?b = "b[2 := char_of (u8 m)]" and ?t = "s16 (lb_total_rendered buf - fl_render_lines b)"
    have "int i < lb_size buf - 1" using False i(2) by simp
    from set_render_lines_frozen [OF assms(1) this b(1), of ?t "char_of (u8 m)"] obtain ls where
      ls: "lines_put (buf\<lparr>lb_total_rendered := ?t\<rparr>) (linebuf_nth_to_index buf (int i)) (Block ?b) =
         Some (buf\<lparr>lb_total_rendered := ?t, lb_lines := ls\<rparr>)"
      "same_texts buf (buf\<lparr>lb_lines := ls, lb_total_rendered := s16 (?t + fl_render_lines ?b)\<rparr>)" by blast
    have idx: "linebuf_nth_to_index (buf\<lparr>lb_total_rendered := ?t\<rparr>) (int i) = linebuf_nth_to_index buf (int i)"
      by (simp add: linebuf_nth_to_index_def)
    have "update_loop g w (Suc k) n buf =
        update_loop g w k (n + 1) (buf\<lparr>lb_lines := ls, lb_total_rendered := s16 (?t + fl_render_lines ?b)\<rparr>)" for k
      using i False b(1) l m ls(1) idx lines_at_slot [OF G(1), of i]
      by (simp add: linebuf_get_nth_line_def linebuf_put_nth_line_def console_fline_update_render_lines_def
          fline_get_render_lines_eq set_render_lines_block(1) Let_def flip: i(1))
    then show ?thesis using ls(2) by blast
  next
    case True
    have sz: "0 < lb_size buf" using True by simp
    obtain b where b: "ed_raw (lb_edit buf) = Block b"
      using G(3) sz by (auto simp: lb_edit_ok_def elim: ed_wfE)
    obtain m where m: "render_count g (c_str (drop 3 b)) w 0 = Some m"
      using render_count_total [OF assms(2)] by blast
    note R = set_render_lines_edit(2) [OF assms(1) sz b, where c = "char_of (u8 m)"]
    have l: "3 \<le> length b" using set_render_lines_edit(1) [OF assms(1) sz b] by simp
    have "update_loop g w (Suc k) n buf = update_loop g w k (n + 1)
       (buf\<lparr>lb_edit := (lb_edit buf)\<lparr>ed_raw := Block (b[2 := char_of (u8 m)])\<rparr>,
         lb_total_rendered := s16 (s16 (lb_total_rendered buf - fl_render_lines b) +
           fl_render_lines (b[2 := char_of (u8 m)]))\<rparr>)" for k
      using i True b l m
      by (simp add: linebuf_get_nth_line_def linebuf_put_nth_line_def console_fline_update_render_lines_def
          fline_get_render_lines_eq set_render_lines_block(1) Let_def flip: i(1))
    then show ?thesis using R by blast
  qed
qed

lemma update_loop_spec:
  assumes "lb_wf buf" and "font_advances g w" and "lb_absolute buf \<le> n" and "n + int k \<le> linebuf_end buf"
  shows "\<exists>buf'. update_loop g w k n buf = Some buf' \<and> same_texts buf buf'"
  using assms
proof (induction k arbitrary: n buf)
  case 0
  then show ?case by (simp add: same_texts_refl)
next
  case (Suc k)
  then have "n < linebuf_end buf" by simp
  from update_step [OF Suc.prems(1-3) this] obtain b where
    b: "same_texts buf b" "\<forall>k. update_loop g w (Suc k) n buf = update_loop g w k (n + 1) b" by blast
  have "\<exists>buf'. update_loop g w k (n + 1) b = Some buf' \<and> same_texts b buf'"
    by (rule Suc.IH) (use b(1) Suc.prems in \<open>simp_all add: same_texts_def linebuf_end_def\<close>)
  then show ?case using b same_texts_trans by metis
qed

lemma lb_absolute_rendered_upd [simp]:
  "lb_frozen (b\<lparr>lb_absolute_rendered := x\<rparr>) = lb_frozen b"
  "lb_wf (b\<lparr>lb_absolute_rendered := x\<rparr>) = lb_wf b"
  by (simp_all add: lb_frozen_def lb_slot_def lb_wf_def lb_geometry_def lb_lines_ok_def lb_edit_ok_def
      edit_render_lines_def)

lemma console_compute_view_spec:
  assumes "cons_wf cons" and "font_advances (fonts font) (width - 4)"
  shows "\<exists>cons'. console_compute_view fonts cons font width ls = Some cons' \<and> cons_wf cons' \<and>
    history cons' = history cons \<and> cur_text cons' = cur_text cons \<and>
    c_cursor cons' = c_cursor cons \<and> cons_dims cons' = cons_dims cons"
proof -
  let ?buf = "c_lines cons" and ?lazy = "width \<noteq> 0 \<and> c_render_width cons = width"
  have W: "lb_wf ?buf" "0 < lb_size ?buf" using assms(1) by (simp_all add: cons_wf_def)
  define st where "st = (if ?lazy then max (linebuf_start ?buf) (lb_absolute_rendered ?buf + 1) else linebuf_start ?buf)"
  have "\<exists>b. update_loop (fonts font) (width - 4) (nat (linebuf_end ?buf - st)) st ?buf = Some b \<and> same_texts ?buf b"
  proof (cases "st \<le> linebuf_end ?buf")
    case True
    show ?thesis by (rule update_loop_spec [OF W(1) assms(2)]) (use True in \<open>auto simp: st_def linebuf_start_def\<close>)
  qed (use W(1) in \<open>simp add: same_texts_refl\<close>)
  then obtain b where b: "update_loop (fonts font) (width - 4) (nat (linebuf_end ?buf - st)) st ?buf = Some b"
    "same_texts ?buf b" by blast
  let ?b = "b\<lparr>lb_absolute_rendered := max (lb_absolute_rendered b) (linebuf_end ?buf - 2)\<rparr>"
  have u: "linebuf_update_render (fonts font) ?buf width ?lazy = Some ?b"
    using b(1) unfolding linebuf_update_render_def view_params_def Let_def st_def by simp
  have same: "same_texts ?buf ?b" using b(2) by (simp add: same_texts_def)
  let ?c = "cons\<lparr>c_lines := ?b, c_render_font := font, c_render_width := s16 width, c_render_lines := s16 ls\<rparr>"
  have "console_compute_view fonts cons font width ls = Some ?c"
    using u by (simp add: console_compute_view_def Let_def)
  moreover have "cons_wf ?c" using same assms(1) by (simp add: same_texts_def cons_wf_def)
  ultimately show ?thesis using same
    by (intro exI [of _ ?c]) (simp add: same_texts_def history_def cons_dims_def)
qed

section \<open>The terminal as a log\<close>

text \<open>
  What a user of the console relies on: editing touches the current line only, a newline
  appends the current line to the log and may forget the oldest entries.
\<close>

datatype 'op cons_act = Feed | Edit 'op

text \<open>A run stops with \<open>None\<close> at an edit that is not allowed where it stands.\<close>

fun run_acts :: "('s \<Rightarrow> 's option) \<Rightarrow> ('op \<Rightarrow> 's \<Rightarrow> bool) \<Rightarrow> ('op \<Rightarrow> 's \<Rightarrow> 's option) \<Rightarrow>
    'op cons_act list \<Rightarrow> 's \<Rightarrow> 's option" where
  "run_acts feed allowed edit [] s = Some s"
| "run_acts feed allowed edit (Feed # as) s = do { s \<leftarrow> feed s; run_acts feed allowed edit as s }"
| "run_acts feed allowed edit (Edit a # as) s =
     (if allowed a s then do { s \<leftarrow> edit a s; run_acts feed allowed edit as s } else None)"

text \<open>The lines finished by the newlines of a run, in order.\<close>

fun finished :: "('s \<Rightarrow> 's option) \<Rightarrow> ('op \<Rightarrow> 's \<Rightarrow> 's option) \<Rightarrow> ('s \<Rightarrow> 'l) \<Rightarrow>
    'op cons_act list \<Rightarrow> 's \<Rightarrow> 'l list" where
  "finished feed edit current [] s = []"
| "finished feed edit current (Feed # as) s =
     current s # (case feed s of None \<Rightarrow> [] | Some s' \<Rightarrow> finished feed edit current as s')"
| "finished feed edit current (Edit a # as) s =
     (case edit a s of None \<Rightarrow> [] | Some s' \<Rightarrow> finished feed edit current as s')"

lemma drop_append_drop: "drop k (drop j xs @ ys) = drop (k + min j (length xs)) (xs @ ys)"
proof -
  have "drop j xs = drop (min j (length xs)) xs" by (simp add: min_def)
  then show ?thesis by simp
qed

locale terminal_log =
  fixes inv :: "'s \<Rightarrow> bool"
    and older :: "'s \<Rightarrow> 'l list"
    and current :: "'s \<Rightarrow> 'l"
    and blank :: 'l
    and feed :: "'s \<Rightarrow> 's option"
    and allowed :: "'op \<Rightarrow> 's \<Rightarrow> bool"
    and edit :: "'op \<Rightarrow> 's \<Rightarrow> 's option"
  assumes feed_ok: "inv s \<Longrightarrow> \<exists>s' k. feed s = Some s' \<and> inv s' \<and> current s' = blank \<and>
      older s' = drop k (older s @ [current s])"
    and edit_ok: "inv s \<Longrightarrow> allowed a s \<Longrightarrow> \<exists>s'. edit a s = Some s' \<and> inv s' \<and> older s' = older s"
begin

text \<open>After a run the log is a suffix of the old log followed by the lines finished since.\<close>

lemma run_log:
  "inv s \<Longrightarrow> run_acts feed allowed edit as s = Some s' \<Longrightarrow>
     inv s' \<and> (\<exists>k. older s' = drop k (older s @ finished feed edit current as s))"
proof (induction as arbitrary: s)
  case (Cons a as)
  show ?case
  proof (cases a)
    case Feed
    obtain s1 j where s1: "feed s = Some s1" "inv s1" "older s1 = drop j (older s @ [current s])"
      using feed_ok [OF Cons.prems(1)] by blast
    have "run_acts feed allowed edit as s1 = Some s'" using Cons.prems(2) Feed s1(1) by simp
    from Cons.IH [OF s1(2) this] obtain k where s2: "inv s'"
      "older s' = drop k (older s1 @ finished feed edit current as s1)" by blast
    have "older s' = drop (k + min j (length (older s @ [current s])))
        ((older s @ [current s]) @ finished feed edit current as s1)"
      unfolding s2(2) s1(3) by (rule drop_append_drop)
    then show ?thesis using Feed s1(1) s2(1) by auto
  next
    case (Edit b)
    then have b: "allowed b s" using Cons.prems(2) by (simp split: if_splits)
    obtain s1 where s1: "edit b s = Some s1" "inv s1" "older s1 = older s"
      using edit_ok [OF Cons.prems(1) b] by blast
    then show ?thesis using Cons.IH [OF s1(2)] Cons.prems(2) Edit b by auto
  qed
qed (auto intro: exI [of _ 0])

text \<open>Allowed edits and newlines always have a result.\<close>

lemma run_total:
  "inv s \<Longrightarrow> (\<And>a s. Edit a \<in> set as \<Longrightarrow> inv s \<Longrightarrow> allowed a s) \<Longrightarrow>
     \<exists>s'. run_acts feed allowed edit as s = Some s'"
proof (induction as arbitrary: s)
  case (Cons a as)
  show ?case
  proof (cases a)
    case Feed
    obtain s1 where "feed s = Some s1" "inv s1" using feed_ok [OF Cons.prems(1)] by blast
    then show ?thesis using Cons.IH [of s1] Cons.prems(2) Feed by auto
  next
    case (Edit b)
    have b: "allowed b s" using Cons.prems Edit by simp
    obtain s1 where "edit b s = Some s1" "inv s1" using edit_ok [OF Cons.prems(1) b] by blast
    then show ?thesis using Cons.IH [of s1] Cons.prems(2) Edit b by auto
  qed
qed simp

end

text \<open>The edits made between two newlines.\<close>

datatype cons_edit =
    Type bytes | SetCursor int | MoveCursor int | DeleteAtCursor int | ClearLine | LockPrefix
  | Layout "int \<Rightarrow> gint_font" int int int

fun cons_edit_allowed :: "cons_edit \<Rightarrow> console \<Rightarrow> bool" where
  "cons_edit_allowed (Type s) cons = (int (length s) \<le> stredit_capacity (cur cons))"
| "cons_edit_allowed (Layout fonts f w ls) cons = font_advances (fonts f) (w - 4)"
| "cons_edit_allowed _ cons = True"

fun cons_edit_run :: "alloc_env \<Rightarrow> cons_edit \<Rightarrow> console \<Rightarrow> console option" where
  "cons_edit_run e (Type s) cons = do {
     (ok, cons) \<leftarrow> console_write_raw e cons s (int (length s)); if ok then Some cons else None }"
| "cons_edit_run e (SetCursor p) cons = Some (snd (console_set_cursor cons p))"
| "cons_edit_run e (MoveCursor d) cons = Some (snd (console_move_cursor cons d))"
| "cons_edit_run e (DeleteAtCursor n) cons = console_delete_at_cursor cons n"
| "cons_edit_run e ClearLine cons = console_clear_current_line cons"
| "cons_edit_run e LockPrefix cons = console_lock_prefix cons"
| "cons_edit_run e (Layout fonts f w ls) cons = console_compute_view fonts cons f w ls"

lemma cons_cursor_history:
  assumes "cons_wf cons"
  shows "cons_wf (snd (console_set_cursor cons p)) \<and> history (snd (console_set_cursor cons p)) = history cons"
proof -
  obtain ok c where c: "console_set_cursor cons p = (ok, c)" by fastforce
  show ?thesis using console_set_cursor_spec [OF assms c] c by simp
qed

lemma cons_edit_ok:
  assumes "cons_wf cons" and "granting e" and "cons_edit_allowed a cons"
  shows "\<exists>cons'. cons_edit_run e a cons = Some cons' \<and> cons_wf cons' \<and> history cons' = history cons"
proof (cases a)
  case (Type s)
  then have "int (length s) \<le> stredit_capacity (cur cons)" using assms(3) by simp
  from console_write_raw_fit [OF assms(1,2) of_nat_0_le_iff this order_refl] show ?thesis
    using Type by auto
next
  case (SetCursor p)
  then show ?thesis using cons_cursor_history [OF assms(1)] by simp
next
  case (MoveCursor d)
  then show ?thesis using cons_cursor_history [OF assms(1)] by (simp add: console_move_cursor_def)
next
  case (DeleteAtCursor n)
  then show ?thesis using console_delete_at_cursor_spec [OF assms(1), of n] by auto
next
  case ClearLine
  then show ?thesis using console_clear_current_line_spec [OF assms(1)] by auto
next
  case LockPrefix
  then show ?thesis using console_lock_prefix_spec [OF assms(1)] by auto
next
  case (Layout fonts f w ls)
  then show ?thesis using console_compute_view_spec [OF assms(1), of fonts f w ls] assms(3) by auto
qed

text \<open>The allocator that grants every request; what fresh memory holds is arbitrary.\<close>

definition env_all :: "(nat \<Rightarrow> char) \<Rightarrow> alloc_env" where
  "env_all junk = \<lparr>env_ok = (\<lambda>_. True), env_junk = junk\<rparr>"

lemma granting_env_all [simp]: "granting (env_all junk)"
  by (simp add: env_all_def)

interpretation tl: terminal_log cons_wf history cur_text "[]" "console_newline (env_all junk)"
  cons_edit_allowed "cons_edit_run (env_all junk)"
proof
  fix s a assume W: "cons_wf s"
  show "\<exists>s' k. console_newline (env_all junk) s = Some s' \<and> cons_wf s' \<and> cur_text s' = [] \<and>
      history s' = drop k (history s @ [cur_text s])"
    using console_newline_spec [OF W granting_env_all] by blast
  show "\<exists>s'. cons_edit_run (env_all junk) a s = Some s' \<and> cons_wf s' \<and> history s' = history s"
    if "cons_edit_allowed a s"
    by (rule cons_edit_ok [OF W granting_env_all that])
qed

text \<open>What the invariant says about memory.\<close>

lemma fl_text_length: "fline_ok b \<Longrightarrow> int (length (fl_text b)) = fl_size b"
  using fl_size_nonneg [of b] by (auto simp: fl_text_def fline_ok_def)

lemma history_bounds:
  assumes "cons_wf cons"
  shows "int (length (history cons)) < lb_capacity (c_lines cons)"
    and "sum_list (map (\<lambda>l. int (length l)) (history cons)) \<le> lb_backlog_size (c_lines cons)"
proof -
  let ?b = "c_lines cons"
  have W: "lb_geometry ?b" "lb_lines_ok ?b" "lb_total_size_except_last ?b = sum_list (map fl_size (lb_frozen ?b))"
    "lb_total_size_except_last ?b \<le> lb_backlog_size ?b" "0 < lb_size ?b"
    using assms by (simp_all add: cons_wf_def lb_wf_def)
  show "int (length (history cons)) < lb_capacity ?b"
    using W(1,5) by (simp add: history_def lb_frozen_def lb_geometry_def)
  have "int (length (fl_text b)) = fl_size b" if mem: "b \<in> set (lb_frozen ?b)" for b
  proof -
    obtain i where i: "i < nat (lb_size ?b - 1)" "b = block_of (lb_slot ?b i)"
      using mem by (auto simp: lb_frozen_def)
    then have "line_live (lb_slot ?b i)" using W(2) by (simp add: lb_lines_ok_def)
    then show ?thesis using i(2) by (simp add: line_live_def fl_text_length split: ptr.splits)
  qed
  then have "map (\<lambda>l. int (length l)) (history cons) = map fl_size (lb_frozen ?b)"
    by (simp add: history_def)
  then show "sum_list (map (\<lambda>l. int (length l)) (history cons)) \<le> lb_backlog_size ?b" using W(3,4) by simp
qed

text \<open>Writing text without control bytes that fits.\<close>

lemma console_write_plain:
  assumes "cons_wf cons" and "granting e" and "int (length s) \<le> stredit_capacity (cur cons)"
    and "\<forall>c \<in> set s. \<not> is_ctrl c"
  shows "\<exists>cons'. console_write e cons s (int (length s)) = Some (True, cons') \<and> cons_wf cons' \<and>
     history cons' = history cons \<and> c_cursor cons' = c_cursor cons + int (length s) \<and>
     ed_prefix (cur cons') = ed_prefix (cur cons) \<and>
     cur_text cons' = take (nat (c_cursor cons)) (cur_text cons) @ s @ drop (nat (c_cursor cons)) (cur_text cons)"
proof (cases "s = []")
  case True
  then show ?thesis using assms(1) by (simp add: console_write_def mem_read_def write_loop.simps)
next
  case False
  have t: "takeWhile (\<lambda>c. \<not> is_ctrl c) s = s" using assms(4) by (simp add: takeWhile_eq_all_conv)
  from console_write_raw_fit [OF assms(1,2) of_nat_0_le_iff assms(3) order_refl] obtain c where
    c: "console_write_raw e cons s (int (length s)) = Some (True, c)" "cons_wf c" "history c = history cons"
      "c_cursor c = c_cursor cons + int (length s)" "ed_prefix (cur c) = ed_prefix (cur cons)"
      "cur_text c = take (nat (c_cursor cons)) (cur_text cons) @ s @ drop (nat (c_cursor cons)) (cur_text cons)"
    by auto
  have "console_write e cons s (int (length s)) = Some (True, c)"
    using False c(1) by (simp add: console_write_def mem_read_def write_loop.simps t Let_def)
  then show ?thesis using c by blast
qed

section \<open>Properties\<close>



text \<open>C11: any sequence of newlines and edits of the current line (typing that fits, cursor moves,
  deletions, clearing, locking the prompt, laying out) leaves above the current line a suffix of the
  lines that were there followed by the lines finished since: finished lines are never altered,
  reordered or duplicated, only the oldest are forgotten.\<close>

theorem console_log_refines:
  assumes "cons_wf cons"
    and "run_acts (console_newline (env_all junk)) cons_edit_allowed (cons_edit_run (env_all junk)) as cons = Some cons'"
  shows "cons_wf cons' \<and> (\<exists>k. history cons' = drop k (history cons @
     finished (console_newline (env_all junk)) (cons_edit_run (env_all junk)) cur_text as cons))"
  using assms by (rule tl.run_log)

theorem console_log_refines_witness:
  "\<exists>cons cons'. console_create (env_all (\<lambda>_. NUL)) 2048 4 = Some (Some cons) \<and>
     run_acts (console_newline (env_all (\<lambda>_. NUL))) cons_edit_allowed (cons_edit_run (env_all (\<lambda>_. NUL)))
       [Edit ClearLine, Feed, Edit (DeleteAtCursor 3), Feed] cons = Some cons' \<and> cons_wf cons'"
proof -
  obtain cons where c: "console_create (env_all (\<lambda>_. NUL)) 2048 4 = Some (Some cons)" "cons_wf cons"
    using console_create_spec [of "env_all (\<lambda>_. NUL)" 4 2048] by auto
  obtain cons' where c': "run_acts (console_newline (env_all (\<lambda>_. NUL))) cons_edit_allowed
      (cons_edit_run (env_all (\<lambda>_. NUL))) [Edit ClearLine, Feed, Edit (DeleteAtCursor 3), Feed] cons = Some cons'"
    using tl.run_total [OF c(2), of "[Edit ClearLine, Feed, Edit (DeleteAtCursor 3), Feed]" "\<lambda>_. NUL"]
    by (metis cons_act.distinct(1) cons_act.inject cons_edit_allowed.simps(5,6) set_ConsD empty_iff list.set(1))
  show ?thesis using c console_log_refines [OF c(2) c'] c' by blast
qed

text \<open>C23: a write without control bytes that fits the current line inserts it at the cursor and
  moves the cursor behind it; the lines above and the locked prompt are not touched.\<close>

theorem console_write_fits:
  assumes "cons_wf cons" and "granting e" and "int (length s) \<le> stredit_capacity (cur cons)"
    and "\<forall>c \<in> set s. \<not> is_ctrl c"
  shows "\<exists>cons'. console_write e cons s (int (length s)) = Some (True, cons') \<and> cons_wf cons' \<and>
     history cons' = history cons \<and> c_cursor cons' = c_cursor cons + int (length s) \<and>
     ed_prefix (cur cons') = ed_prefix (cur cons) \<and>
     cur_text cons' = take (nat (c_cursor cons)) (cur_text cons) @ s @ drop (nat (c_cursor cons)) (cur_text cons)"
  by (rule console_write_plain [OF assms])

theorem console_write_fits_witness:
  "\<exists>cons cons'. console_create (env_all (\<lambda>_. NUL)) 2048 4 = Some (Some cons) \<and>
     console_write (env_all (\<lambda>_. NUL)) cons ''1+1'' 3 = Some (True, cons') \<and> cur_text cons' = ''1+1'' \<and>
     c_cursor cons' = 3"
proof -
  obtain cons where c: "console_create (env_all (\<lambda>_. NUL)) 2048 4 = Some (Some cons)" "cons_wf cons"
    "cur_text cons = []" "c_cursor cons = 0"
    using console_create_spec [of "env_all (\<lambda>_. NUL)" 4 2048] by auto
  have "stredit_capacity (cur cons) = 1024"
    using cons_wf_edit(3) [OF c(2)] cons_wf_sizes(7) [OF c(2)] c(3) by (simp add: stredit_capacity_def)
  then show ?thesis using c console_write_fits [OF c(2) granting_env_all, of "''1+1''"]
    by (auto simp: is_ctrl_def)
qed



text \<open>C29: deleting at the cursor removes exactly the characters before it, but never one of the
  locked prompt; clearing leaves exactly the prompt with the cursor behind it.\<close>

theorem console_delete_keeps_prompt:
  assumes "cons_wf cons" and "ed_prefix (cur cons) \<le> c_cursor cons" and "0 \<le> n"
  shows "\<exists>cons'. console_delete_at_cursor cons n = Some cons' \<and> cons_wf cons' \<and> history cons' = history cons \<and>
     c_cursor cons' = max (ed_prefix (cur cons)) (c_cursor cons - n) \<and>
     cur_text cons' = take (nat (c_cursor cons')) (cur_text cons) @ drop (nat (c_cursor cons)) (cur_text cons) \<and>
     (\<exists>cons''. console_clear_current_line cons' = Some cons'' \<and>
        cur_text cons'' = take (nat (ed_prefix (cur cons))) (cur_text cons) \<and> c_cursor cons'' = ed_prefix (cur cons))"
proof -
  let ?k = "max 0 (min n (c_cursor cons - ed_prefix (cur cons)))"
  from console_delete_at_cursor_spec [OF assms(1), of n] obtain c where c:
    "console_delete_at_cursor cons n = Some c" "cons_wf c" "history c = history cons"
    "c_cursor c = c_cursor cons - ?k" "ed_prefix (cur c) = ed_prefix (cur cons)"
    "cur_text c = take (nat (c_cursor cons - ?k)) (cur_text cons) @ drop (nat (c_cursor cons)) (cur_text cons)" by blast
  have k: "c_cursor cons - ?k = max (ed_prefix (cur cons)) (c_cursor cons - n)" using assms(2,3) by auto
  note S = cons_wf_sizes [OF assms(1)]
  have "nat (ed_prefix (cur cons)) \<le> nat (c_cursor cons - ?k)" unfolding k by simp
  moreover have "nat (c_cursor cons - ?k) \<le> length (cur_text cons)" using S by auto
  ultimately have "take (nat (ed_prefix (cur cons))) (cur_text c) = take (nat (ed_prefix (cur cons))) (cur_text cons)"
    unfolding c(6) by (simp add: min_def)
  then show ?thesis using c k console_clear_current_line_spec [OF c(2)] by auto
qed

theorem console_delete_keeps_prompt_witness:
  "\<exists>cons cons'. console_create (env_all (\<lambda>_. NUL)) 2048 4 = Some (Some cons) \<and>
     console_delete_at_cursor cons 5 = Some cons' \<and> c_cursor cons' = 0"
proof -
  obtain cons where c: "console_create (env_all (\<lambda>_. NUL)) 2048 4 = Some (Some cons)" "cons_wf cons"
    "cur_text cons = []" "c_cursor cons = 0"
    using console_create_spec [of "env_all (\<lambda>_. NUL)" 4 2048] by auto
  have "ed_prefix (cur cons) = 0" using cons_wf_sizes [OF c(2)] c(3) by simp
  then show ?thesis using c console_delete_keeps_prompt [OF c(2), of 5] by auto
qed

text \<open>The backspace byte written to the console does move the cursor into the locked prompt
  although nothing is deleted there.\<close>

theorem write_backspace_enters_prompt:
  assumes "cons_wf cons" and "0 < c_cursor cons" and "c_cursor cons \<le> ed_prefix (cur cons)"
  shows "\<exists>cons'. write_backspace cons = Some cons' \<and> cur_text cons' = cur_text cons \<and>
     c_cursor cons' < ed_prefix (cur cons')"
  using write_backspace_wf [OF assms(1)] assms(2,3) by auto

theorem write_backspace_enters_prompt_witness:
  "\<exists>cons cons'. cur_text cons = ''>>> '' \<and> write_backspace cons = Some cons' \<and>
     c_cursor cons' < ed_prefix (cur cons')"
proof -
  let ?e = "env_all (\<lambda>_. NUL)"
  obtain c0 where c0: "console_create ?e 2048 4 = Some (Some c0)" "cons_wf c0"
    "cur_text c0 = []" "c_cursor c0 = 0"
    using console_create_spec [of ?e 4 2048] by auto
  have cap: "int (length ''>>> '') \<le> stredit_capacity (cur c0)"
    using cons_wf_edit(3) [OF c0(2)] cons_wf_sizes(7) [OF c0(2)] c0(3) by (simp add: stredit_capacity_def)
  from console_write_raw_fit [OF c0(2) granting_env_all of_nat_0_le_iff cap order_refl] c0 obtain c1 where
    c1: "cons_wf c1" "cur_text c1 = ''>>> ''" "c_cursor c1 = 4" by auto
  from console_lock_prefix_spec [OF c1(1)] obtain c2 where
    c2: "cons_wf c2" "cur_text c2 = ''>>> ''" "c_cursor c2 = 4" "ed_prefix (cur c2) = 4" using c1 by auto
  show ?thesis using write_backspace_enters_prompt [OF c2(1)] c2 by auto
qed

text \<open>The clamped scroll position lies between the bottom of the log and its top line.\<close>

lemma console_clamp_scrollpos_range:
  "console_clamp_scrollpos cons pos \<in> {0 .. max 0 (lb_total_rendered (c_lines cons) - c_render_lines cons)} \<and>
   (pos \<in> {0 .. lb_total_rendered (c_lines cons) - c_render_lines cons} \<longrightarrow> console_clamp_scrollpos cons pos = pos)"
  by (auto simp: console_clamp_scrollpos_def)

end
