(* ===== verification/Shell.thy ===== *)
theory Shell
  imports Console
begin

text \<open>
  The shell on top of the console: key translation (\<open>ports/sh/keymap.c\<close>), the shell widget with
  its modifier keys and event handler (\<open>ports/sh/widget_shell.c\<close>), and the parts of
  \<open>ports/sh/main.c\<close> that connect it to the interpreter.  gint's key codes are an argument, a record
  of integers; events the widget emits to JustUI are collected in a list.

  Shown here: table lookups stay inside the tables; every letter is on exactly one key;
  modifiers toggle when tapped and revert when held; the event handler keeps the console's
  invariant on every event, and a line typed and confirmed is emitted as typed.
\<close>

section \<open>Key translation\<close>

text \<open>The unsigned subtractions wrap: code 0 has column \<open>2^32 - 1\<close>.\<close>

definition key_id :: "int \<Rightarrow> int" where
  "key_id keycode =
     (let col = u32 (keycode mod 16 - 1); row = u32 (9 - (keycode div 16) mod 16) in
      if col > 5 \<or> row > 8 then -1 else 6 * row + col)"

definition map_flat :: "char list" where
  "map_flat =
     [NUL, NUL, CHR ''('', CHR '')'', CHR '','', CHR ''='',
      CHR ''7'', CHR ''8'', CHR ''9'', NUL, NUL, NUL,
      CHR ''4'', CHR ''5'', CHR ''6'', CHR ''*'', CHR ''/'', NUL,
      CHR ''1'', CHR ''2'', CHR ''3'', CHR ''+'', CHR ''-'', NUL,
      CHR ''0'', CHR ''.'', CHR ''e'', CHR ''_'', NUL, NUL]"

definition map_alpha :: "char list" where
  "map_alpha = ''abcdefghijklmno'' @ [NUL, NUL, NUL] @ ''pqrst'' @ [NUL] @ ''uvwxy'' @ [NUL] @
     ''z '' @ [CHR 0x22, CHR '':'', NUL, NUL]"

text \<open>gint's numbers for the keys the code names.\<close>

record keycodes =
  KEY_MUL :: int
  KEY_DIV :: int
  KEY_ADD :: int
  KEY_SUB :: int
  KEY_DOT :: int
  KEY_0 :: int
  KEY_SHIFT :: int
  KEY_ALPHA :: int
  KEY_UP :: int
  KEY_DOWN :: int
  KEY_LEFT :: int
  KEY_RIGHT :: int
  KEY_ACON :: int
  KEY_DEL :: int
  KEY_EXE :: int
  KEY_EXIT :: int

text \<open>The result is a character code; \<open>None\<close> would be a read outside a table.\<close>

definition keymap_alpha :: "int \<Rightarrow> int option" where
  "keymap_alpha keyid = (if keyid < 18 then Some 0
     else do { xs \<leftarrow> mem_read map_alpha (keyid - 18) 1; Some (of_char (xs ! 0)) })"

definition keymap_translate :: "keycodes \<Rightarrow> int \<Rightarrow> bool \<Rightarrow> bool \<Rightarrow> int option" where
  "keymap_translate K key shift alpha =
     (let keyid = key_id key in
      if keyid < 0 then Some 0
      else if \<not> shift \<and> \<not> alpha then
        (if keyid < 24 then Some 0
         else do { xs \<leftarrow> mem_read map_flat (keyid - 24) 1; Some (of_char (xs ! 0)) })
      else if shift \<and> \<not> alpha \<and> key = KEY_MUL K then Some 123
      else if shift \<and> \<not> alpha \<and> key = KEY_DIV K then Some 125
      else if shift \<and> \<not> alpha \<and> key = KEY_ADD K then Some 91
      else if shift \<and> \<not> alpha \<and> key = KEY_SUB K then Some 93
      else if shift \<and> \<not> alpha \<and> key = KEY_DOT K then Some 61
      else if shift \<and> \<not> alpha \<and> key = KEY_0 K then Some 58
      else if \<not> shift \<and> alpha then keymap_alpha keyid
      else if shift \<and> alpha then do {
        c \<leftarrow> keymap_alpha keyid;
        Some (if c \<ge> 97 \<and> c \<le> 122 then c - 32 else c)
      }
      else Some 0)"

record key_event =
  ev_key :: int
  ev_up :: bool
  ev_shift :: bool
  ev_alpha :: bool

definition console_key_event_to_char :: "keycodes \<Rightarrow> key_event \<Rightarrow> int option" where
  "console_key_event_to_char K ev =
     (let key = ev_key ev in
      if key = KEY_LEFT K \<and> ev_shift ev then Some 1
      else if key = KEY_LEFT K then Some 2
      else if key = KEY_ACON K then Some 3
      else if key = KEY_DEL K then Some 8
      else if key = KEY_RIGHT K \<and> ev_shift ev then Some 5
      else if key = KEY_RIGHT K then Some 6
      else if key = KEY_DOWN K then Some 14
      else if key = KEY_UP K then Some 16
      else if key = KEY_EXIT K then Some 4
      else if key = KEY_EXE K then Some 13
      else keymap_translate K key (ev_shift ev) (ev_alpha ev))"

text \<open>Waiting for a key that means a character; the keys still to come are an argument.\<close>

fun mp_hal_stdin_rx_chr :: "keycodes \<Rightarrow> key_event list \<Rightarrow> (int \<times> key_event list) option" where
  "mp_hal_stdin_rx_chr K [] = None"
| "mp_hal_stdin_rx_chr K (ev # evs) = do {
     code_point \<leftarrow> console_key_event_to_char K ev;
     if code_point \<noteq> 0 then Some (code_point, evs) else mp_hal_stdin_rx_chr K evs
   }"

section \<open>Modifier states\<close>

datatype modstate = MOD_IDLE | MOD_INSTANT | MOD_INSTANT_USED
  | MOD_LOCKED | MOD_LOCKED_INSTANT | MOD_LOCKED_INSTANT_USED

definition mod_down :: "modstate \<Rightarrow> modstate" where
  "mod_down st = (if st = MOD_IDLE then MOD_INSTANT
     else if st = MOD_LOCKED then MOD_LOCKED_INSTANT else st)"

definition mod_up :: "modstate \<Rightarrow> modstate" where
  "mod_up st = (if st = MOD_INSTANT then MOD_LOCKED
     else if st = MOD_INSTANT_USED then MOD_IDLE
     else if st = MOD_LOCKED_INSTANT then MOD_IDLE
     else if st = MOD_LOCKED_INSTANT_USED then MOD_LOCKED else st)"

definition mod_down_other :: "modstate \<Rightarrow> modstate" where
  "mod_down_other st = (if st = MOD_INSTANT then MOD_INSTANT_USED
     else if st = MOD_LOCKED_INSTANT then MOD_LOCKED_INSTANT_USED else st)"

definition mod_active :: "modstate \<Rightarrow> bool" where
  "mod_active st \<longleftrightarrow> st = MOD_LOCKED \<or> st = MOD_INSTANT \<or> st = MOD_INSTANT_USED"

definition mod_instant :: "modstate \<Rightarrow> bool" where
  "mod_instant st \<longleftrightarrow> st \<noteq> MOD_IDLE \<and> st \<noteq> MOD_LOCKED"

section \<open>The widget\<close>

datatype shell_event = MOD_CHANGED | INPUT "bytes option"

record widget_shell =
  sh_console :: console
  sh_font :: int
  sh_color :: int
  sh_line_spacing :: int
  sh_scroll :: int
  sh_lines :: int
  sh_shift :: modstate
  sh_alpha :: modstate
  sh_update :: bool
  sh_dirty :: bool
  sh_events :: "shell_event list"

definition jwidget_emit :: "widget_shell \<Rightarrow> shell_event \<Rightarrow> widget_shell" where
  "jwidget_emit s e = s\<lparr>sh_events := sh_events s @ [e]\<rparr>"

definition widget_shell_timer_handler :: "widget_shell \<Rightarrow> widget_shell" where
  "widget_shell_timer_handler s =
     (if c_render_needed (sh_console s) then s\<lparr>sh_update := True\<rparr> else s)"

text \<open>Creation; the type registration, the allocation and the timer may each fail.\<close>

definition widget_shell_create ::
  "alloc_env \<Rightarrow> nat \<Rightarrow> int \<Rightarrow> int \<Rightarrow> int \<Rightarrow> console \<Rightarrow> widget_shell option" where
  "widget_shell_create e widget_size type_id timer_id default_font cons =
     (if type_id < 0 then None
      else if \<not> env_ok e widget_size then None
      else if timer_id < 0 then None
      else Some \<lparr>sh_console = cons, sh_font = default_font, sh_color = 0, sh_line_spacing = 0,
        sh_scroll = 0, sh_lines = 0, sh_shift = MOD_IDLE, sh_alpha = MOD_IDLE,
        sh_update = False, sh_dirty = True, sh_events = []\<rparr>)"

definition widget_shell_set_text_color :: "widget_shell \<Rightarrow> int \<Rightarrow> widget_shell" where
  "widget_shell_set_text_color s color = s\<lparr>sh_color := u16 color, sh_update := True\<rparr>"

definition widget_shell_set_font :: "int \<Rightarrow> widget_shell \<Rightarrow> int option \<Rightarrow> widget_shell" where
  "widget_shell_set_font default_font s font =
     s\<lparr>sh_font := (case font of Some f \<Rightarrow> f | None \<Rightarrow> default_font), sh_dirty := True\<rparr>"

definition widget_shell_set_line_spacing :: "widget_shell \<Rightarrow> int \<Rightarrow> widget_shell" where
  "widget_shell_set_line_spacing s line_spacing = s\<lparr>sh_line_spacing := s8 line_spacing, sh_dirty := True\<rparr>"

definition widget_shell_get_modifiers :: "widget_shell \<Rightarrow> modstate \<times> modstate" where
  "widget_shell_get_modifiers s = (sh_shift s, sh_alpha s)"

definition widget_shell_modifier_info :: "modstate \<Rightarrow> modstate \<Rightarrow> int \<times> bool" where
  "widget_shell_modifier_info shift alpha =
     ((if mod_active shift then 1 else 0) + 2 * (if mod_active alpha then 1 else 0),
      mod_instant shift \<or> mod_instant alpha)"

definition widget_shell_poly_csize :: "int \<Rightarrow> int \<Rightarrow> widget_shell \<Rightarrow> int \<times> int" where
  "widget_shell_poly_csize DWIDTH row_height s =
     (let base_rows = 4 in (c_div DWIDTH 2, row_height * base_rows + sh_line_spacing s * (base_rows - 1)))"

text \<open>A zero line height would divide by zero.\<close>

definition widget_shell_poly_layout :: "int \<Rightarrow> int \<Rightarrow> widget_shell \<Rightarrow> widget_shell option" where
  "widget_shell_poly_layout ch font_line_height s =
     (let line_height = font_line_height + sh_line_spacing s in
      if line_height = 0 then None else Some (s\<lparr>sh_lines := u16 (c_div ch line_height)\<rparr>))"

definition widget_shell_poly_render ::
  "(int \<Rightarrow> gint_font) \<Rightarrow> int \<Rightarrow> int \<Rightarrow> widget_shell \<Rightarrow> int \<Rightarrow> int \<Rightarrow> (widget_shell \<times> draw list) option" where
  "widget_shell_poly_render fonts font_line_height content_width s x y = do {
     let line_height = font_line_height + sh_line_spacing s;
     cons \<leftarrow> console_compute_view fonts (sh_console s) (sh_font s) content_width (sh_lines s);
     let scroll = console_clamp_scrollpos cons (sh_scroll s);
     (cons, cmds) \<leftarrow> console_render fonts x y cons line_height scroll;
     Some (s\<lparr>sh_console := console_clear_render_flag cons, sh_scroll := scroll\<rparr>, cmds)
   }"

definition widget_shell_update_mod :: "keycodes \<Rightarrow> widget_shell \<Rightarrow> key_event \<Rightarrow> widget_shell" where
  "widget_shell_update_mod K s ev =
     (let is_shift = (ev_key ev = KEY_SHIFT K);
          st = (if is_shift then sh_shift s else sh_alpha s);
          new_mod = (if ev_up ev then mod_up st else mod_down st);
          s = (if new_mod \<noteq> st then jwidget_emit s MOD_CHANGED else s)
      in if is_shift then s\<lparr>sh_shift := new_mod\<rparr> else s\<lparr>sh_alpha := new_mod\<rparr>)"

definition widget_shell_use_mods :: "widget_shell \<Rightarrow> widget_shell" where
  "widget_shell_use_mods s =
     (let new_shift = mod_down_other (sh_shift s); new_alpha = mod_down_other (sh_alpha s);
          s = (if new_shift \<noteq> sh_shift s \<or> new_alpha \<noteq> sh_alpha s then jwidget_emit s MOD_CHANGED else s)
      in s\<lparr>sh_shift := new_shift, sh_alpha := new_alpha\<rparr>)"

text \<open>
  \<open>strdup\<close> of the current line may be refused; the event then carries a null pointer.  The
  result says whether the event was consumed.
\<close>

definition widget_shell_poly_event ::
  "alloc_env \<Rightarrow> keycodes \<Rightarrow> widget_shell \<Rightarrow> key_event \<Rightarrow> (bool \<times> widget_shell) option" where
  "widget_shell_poly_event e K s ev =
     (if ev_key ev = KEY_SHIFT K \<or> ev_key ev = KEY_ALPHA K
      then Some (True, widget_shell_update_mod K s ev)
      else if \<not> ev_up ev \<and> ev_key ev = KEY_UP K
      then Some (True, s\<lparr>sh_scroll := sh_scroll s + 1, sh_update := True\<rparr>)
      else if \<not> ev_up ev \<and> ev_key ev = KEY_DOWN K
      then Some (True, s\<lparr>sh_scroll := sh_scroll s - 1, sh_update := True\<rparr>)
      else if ev_up ev then Some (False, s)
      else
        let shift = mod_active (sh_shift s); alpha = mod_active (sh_alpha s);
            s = widget_shell_use_mods s
        in
        if ev_key ev = KEY_LEFT K \<or> ev_key ev = KEY_RIGHT K then
          (let (moved, cons) = console_move_cursor (sh_console s) (if ev_key ev = KEY_LEFT K then -1 else 1);
               s = s\<lparr>sh_console := cons\<rparr>
           in Some (True, if moved then s\<lparr>sh_update := True\<rparr> else s))
        else if ev_key ev = KEY_ACON K then do {
          cons \<leftarrow> console_clear_current_line (sh_console s);
          Some (True, s\<lparr>sh_console := cons\<rparr>)
        }
        else if ev_key ev = KEY_DEL K then do {
          cons \<leftarrow> console_delete_at_cursor (sh_console s) 1;
          Some (True, s\<lparr>sh_console := cons\<rparr>)
        }
        else if ev_key ev = KEY_EXE K then do {
          line \<leftarrow> console_get_line (sh_console s);
          let line = (case line of None \<Rightarrow> None | Some l \<Rightarrow> if env_ok e (length l + 1) then Some l else None);
          cons \<leftarrow> console_newline e (sh_console s);
          Some (True, jwidget_emit (s\<lparr>sh_console := cons\<rparr>) (INPUT line))
        }
        else do {
          c \<leftarrow> keymap_translate K (ev_key ev) shift alpha;
          if c mod 256 \<noteq> 0 then do {
            (_, cons) \<leftarrow> console_write_raw e (sh_console s) [char_of c] 1;
            Some (True, s\<lparr>sh_console := cons\<rparr>)
          }
          else Some (False, s)
        })"

section \<open>The application around the shell\<close>

text \<open>Output of the interpreter; the number of bytes written is always the size asked for.\<close>

definition stdouterr_write :: "alloc_env \<Rightarrow> console \<Rightarrow> bytes \<Rightarrow> int \<Rightarrow> (int \<times> console) option" where
  "stdouterr_write e cons buf n = do { (_, cons) \<leftarrow> console_write e cons buf n; Some (n, cons) }"

definition strendswith :: "bytes \<Rightarrow> bytes \<Rightarrow> bool" where
  "strendswith str suffix =
     (let l1 = length (c_str str); l2 = length (c_str suffix) in
      l1 \<ge> l2 \<and> drop (l1 - l2) (c_str str) = c_str suffix)"

text \<open>Directories and Python files, among those JustUI's own filter accepts.\<close>

definition py_file_filter :: "(bytes \<Rightarrow> bool) \<Rightarrow> bytes \<Rightarrow> bool \<Rightarrow> bool" where
  "py_file_filter default_filter d_name is_dir =
     (if \<not> default_filter d_name then False else if is_dir then True else strendswith d_name ''.py'')"

fun module_loop :: "bytes \<Rightarrow> bytes" where
  "module_loop [] = []"
| "module_loop (c # p) =
     (if c # p = ''.py'' then [] else (if c = CHR ''/'' then CHR ''.'' else c) # module_loop p)"

text \<open>The null pointer when memory is short.\<close>

definition path_to_module :: "alloc_env \<Rightarrow> bytes \<Rightarrow> bytes option" where
  "path_to_module e path =
     (let p = c_str path; p = (if take 1 p = ''/'' then drop 1 p else p) in
      if env_ok e (length p + 1) then Some (module_loop p) else None)"

text \<open>The asynchronous filter: whether the event reaches the program, and whether it interrupts.\<close>

definition async_filter :: "keycodes \<Rightarrow> int \<Rightarrow> key_event \<Rightarrow> bool \<Rightarrow> bool \<times> bool" where
  "async_filter K mp_interrupt_char ev is_down =
     (if mp_interrupt_char \<ge> 0 \<and> ev_key ev = KEY_ACON K then (False, is_down) else (True, False))"

definition pe_print_prompt :: "alloc_env \<Rightarrow> bytes \<Rightarrow> bytes \<Rightarrow> int \<Rightarrow> console \<Rightarrow> console option" where
  "pe_print_prompt e ps1 ps2 which cons = do {
     let prompt = (if which = 2 then ps2 else ps1);
     (_, cons) \<leftarrow> console_write e cons prompt (-1);
     console_lock_prefix cons
   }"

text \<open>
  \<open>pe_handle_event\<close> while a program waits for input: only an entered line has an effect, the
  others redraw.  Events come from JustUI, an argument list of widget key events; the widget's
  own events are the ones emitted by the handler.
\<close>

fun readline_loop :: "alloc_env \<Rightarrow> keycodes \<Rightarrow> widget_shell \<Rightarrow> key_event list \<Rightarrow> (bytes \<times> widget_shell) option" where
  "readline_loop e K s [] = None"
| "readline_loop e K s (ev # evs) = do {
     (_, s') \<leftarrow> widget_shell_poly_event e K (s\<lparr>sh_events := []\<rparr>) ev;
     case sh_events s' of
       e1 # _ \<Rightarrow> (case last (sh_events s') of
           INPUT (Some line) \<Rightarrow> Some (line, s')
         | _ \<Rightarrow> readline_loop e K s' evs)
     | [] \<Rightarrow> readline_loop e K s' evs
   }"

definition pe_readline ::
  "alloc_env \<Rightarrow> keycodes \<Rightarrow> widget_shell \<Rightarrow> bytes \<Rightarrow> key_event list \<Rightarrow> (bytes \<times> widget_shell) option" where
  "pe_readline e K s prompt evs = do {
     (_, cons) \<leftarrow> console_write e (sh_console s) prompt (-1);
     cons \<leftarrow> console_lock_prefix cons;
     readline_loop e K (s\<lparr>sh_console := cons\<rparr>) evs
   }"

section \<open>Key tables\<close>

lemma key_id_range: "key_id k = -1 \<or> 0 \<le> key_id k \<and> key_id k \<le> 53"
  using u32_def by (auto simp: key_id_def Let_def u32_def)

lemma table_lengths: "length map_flat = 30" "length map_alpha = 36"
  by (simp_all add: map_flat_def map_alpha_def)

lemma table_ascii:
  "\<forall>c \<in> set map_flat. of_char c < (128 :: int)" "\<forall>c \<in> set map_alpha. of_char c < (128 :: int)"
  by (simp_all add: map_flat_def map_alpha_def of_char_def)

lemma table_read:
  assumes "\<forall>c \<in> set t. of_char c < (128 :: int)" and "0 \<le> i" and "i < int (length t)"
  shows "\<exists>c. do { xs \<leftarrow> mem_read t i 1; Some (of_char (xs ! 0)) } = Some (c :: int) \<and> 0 \<le> c \<and> c < 128"
proof -
  have "t ! nat i \<in> set t" using assms(2,3) by (simp add: nat_less_iff)
  then show ?thesis using assms of_char_range [of "t ! nat i"] by (simp add: mem_read_single)
qed

lemma keymap_alpha_ascii:
  assumes "0 \<le> i" and "i \<le> 53"
  shows "\<exists>c. keymap_alpha i = Some c \<and> 0 \<le> c \<and> c < 128"
  using table_read [OF table_ascii(2), of "i - 18"] table_lengths(2) assms
  by (cases "i < 18") (simp_all add: keymap_alpha_def)

lemma keymap_translate_ascii: "\<exists>c. keymap_translate K key sh al = Some c \<and> 0 \<le> c \<and> c < 128"
proof (cases "key_id key < 0")
  case True
  then show ?thesis by (simp add: keymap_translate_def)
next
  case False
  then have r: "0 \<le> key_id key" "key_id key \<le> 53" using key_id_range [of key] by auto
  obtain a where a: "keymap_alpha (key_id key) = Some a" "0 \<le> a" "a < 128"
    using keymap_alpha_ascii [OF r] by blast
  have f: "\<exists>c. do { xs \<leftarrow> mem_read map_flat (key_id key - 24) 1; Some (of_char (xs ! 0)) } = Some (c :: int) \<and>
      0 \<le> c \<and> c < 128" if "\<not> key_id key < 24"
    by (rule table_read [OF table_ascii(1)]) (use r that table_lengths(1) in simp_all)
  show ?thesis using False a f by (cases sh; cases al) (auto simp: keymap_translate_def Let_def)
qed

section \<open>Typing\<close>

lemma console_get_line_spec:
  assumes "cons_wf cons" and "cur_text cons = p @ t" and "int (length p) = ed_prefix (cur cons)" and "NUL \<notin> set t"
  shows "console_get_line cons = Some (Some t)"
proof -
  obtain b where b: "ed_raw (cur cons) = Block b" "ed_shape b (cur cons)"
    using cons_wf_edit(1) [OF assms(1)] by (rule ed_wfE)
  from b obtain h u r where l: "b = h @ u @ NUL # r" "int (length h) = ed_reserved (cur cons)"
    "ed_text (cur cons) = u" by (rule ed_layout)
  have "nat (ed_reserved (cur cons) + ed_prefix (cur cons)) = length h + length p"
    using l(2) assms(3) by simp
  then have "drop (nat (ed_reserved (cur cons) + ed_prefix (cur cons))) b = t @ NUL # r"
    unfolding l(1) using l(3) assms(2) by auto
  then show ?thesis using b(1) last_line_wf [OF assms(1)] c_str_append_NUL [OF assms(4)]
    by (simp add: console_get_line_def)
qed

lemma mod_active_other [simp]: "mod_active (mod_down_other m) = mod_active m"
  by (cases m) (simp_all add: mod_active_def mod_down_other_def)

lemma use_mods_sel [simp]:
  "sh_console (widget_shell_use_mods s) = sh_console s"
  "sh_shift (widget_shell_use_mods s) = mod_down_other (sh_shift s)"
  "sh_alpha (widget_shell_use_mods s) = mod_down_other (sh_alpha s)"
  by (simp_all add: widget_shell_use_mods_def jwidget_emit_def Let_def)

lemma update_mod_console [simp]: "sh_console (widget_shell_update_mod K s ev) = sh_console s"
  by (simp add: widget_shell_update_mod_def jwidget_emit_def Let_def)

text \<open>Keys with a function of their own in the handler.\<close>

definition special_key :: "keycodes \<Rightarrow> int \<Rightarrow> bool" where
  "special_key K k \<longleftrightarrow> k \<in> {KEY_SHIFT K, KEY_ALPHA K, KEY_UP K, KEY_DOWN K, KEY_LEFT K, KEY_RIGHT K,
     KEY_ACON K, KEY_DEL K, KEY_EXE K}"

lemma event_char:
  assumes "\<not> special_key K (ev_key ev)" and "\<not> ev_up ev"
    and "keymap_translate K (ev_key ev) (mod_active (sh_shift s)) (mod_active (sh_alpha s)) = Some c"
  shows "widget_shell_poly_event e K s ev =
    (let s = widget_shell_use_mods s in
     if c mod 256 \<noteq> 0 then do {
       (_, cons) \<leftarrow> console_write_raw e (sh_console s) [char_of c] 1;
       Some (True, s\<lparr>sh_console := cons\<rparr>) }
     else Some (False, s))"
  using assms by (simp add: widget_shell_poly_event_def special_key_def Let_def)

lemma console_move_cursor_wf: "cons_wf cons \<Longrightarrow> cons_wf (snd (console_move_cursor cons d))"
  using cons_cursor_history [of cons] by (simp add: console_move_cursor_def)

lemma console_get_line_total: "cons_wf cons \<Longrightarrow> \<exists>l. console_get_line cons = Some l"
  using last_line_wf [of cons] cons_wf_edit(1) [of cons] by (auto simp: console_get_line_def elim!: ed_wfE)

text \<open>A result with an intact console.\<close>

definition ok_res :: "(bool \<times> widget_shell) option \<Rightarrow> bool" where
  "ok_res r \<longleftrightarrow> (\<exists>b s'. r = Some (b, s') \<and> cons_wf (sh_console s'))"

lemma ok_res_Some [simp]: "ok_res (Some (b, s)) = cons_wf (sh_console s)"
  by (simp add: ok_res_def)

lemma ok_if: "(c \<Longrightarrow> ok_res a) \<Longrightarrow> (\<not> c \<Longrightarrow> ok_res b) \<Longrightarrow> ok_res (if c then a else b)"
  by simp

lemma widget_event_total:
  assumes "cons_wf (sh_console s)" and "granting e"
  shows "\<exists>b s'. widget_shell_poly_event e K s ev = Some (b, s') \<and> cons_wf (sh_console s')"
proof -
  let ?c = "sh_console s"
  obtain c1 where c1: "console_clear_current_line ?c = Some c1" "cons_wf c1"
    using console_clear_current_line_spec [OF assms(1)] by blast
  obtain c2 where c2: "console_delete_at_cursor ?c 1 = Some c2" "cons_wf c2"
    using console_delete_at_cursor_spec [OF assms(1), of 1] by blast
  obtain c3 where c3: "console_newline e ?c = Some c3" "cons_wf c3"
    using console_newline_spec [OF assms] by blast
  obtain l where l: "console_get_line ?c = Some l" using console_get_line_total [OF assms(1)] by blast
  have m: "cons_wf (snd (console_move_cursor ?c d))" for d by (rule console_move_cursor_wf [OF assms(1)])
  obtain c where c: "keymap_translate K (ev_key ev) (mod_active (sh_shift s)) (mod_active (sh_alpha s)) = Some c"
    using keymap_translate_ascii by blast
  obtain c4 where c4: "console_write_raw e ?c [char_of c] 1 = Some (True, c4)" "cons_wf c4"
    using console_write_raw_total [OF assms, of 1 "[char_of c]"] by auto
  have "ok_res (widget_shell_poly_event e K s ev)"
    unfolding widget_shell_poly_event_def Let_def
    by (intro ok_if) (use assms(1) c1 c2 c3 l m c c4 in
        \<open>simp_all add: jwidget_emit_def split_beta split del: if_split split: if_split\<close>)
  then show ?thesis by (simp add: ok_res_def)
qed

text \<open>A run of keys that each mean a character under the modifiers in force.\<close>

fun keys_mean :: "keycodes \<Rightarrow> bool \<Rightarrow> bool \<Rightarrow> key_event list \<Rightarrow> bytes \<Rightarrow> bool" where
  "keys_mean K sh al [] [] = True"
| "keys_mean K sh al (ev # evs) (c # cs) = (\<not> special_key K (ev_key ev) \<and> \<not> ev_up ev \<and> c \<noteq> NUL \<and>
     keymap_translate K (ev_key ev) sh al = Some (of_char c) \<and> keys_mean K sh al evs cs)"
| "keys_mean K sh al _ _ = False"

lemma type_char:
  assumes "cons_wf (sh_console s)" and "granting e" and "\<not> special_key K (ev_key ev)" and "\<not> ev_up ev"
    and "c \<noteq> NUL"
    and "keymap_translate K (ev_key ev) (mod_active (sh_shift s)) (mod_active (sh_alpha s)) = Some (of_char c)"
    and "c_cursor (sh_console s) = ed_size (cur (sh_console s))" and "ed_size (cur (sh_console s)) < 1024"
  shows "\<exists>s'. widget_shell_poly_event e K s ev = Some (True, s') \<and> cons_wf (sh_console s') \<and>
     mod_active (sh_shift s') = mod_active (sh_shift s) \<and> mod_active (sh_alpha s') = mod_active (sh_alpha s) \<and>
     ed_prefix (cur (sh_console s')) = ed_prefix (cur (sh_console s)) \<and>
     cur_text (sh_console s') = cur_text (sh_console s) @ [c] \<and>
     c_cursor (sh_console s') = ed_size (cur (sh_console s')) \<and>
     ed_size (cur (sh_console s')) = ed_size (cur (sh_console s)) + 1 \<and>
     (\<forall>x. INPUT x \<in> set (sh_events s') \<longrightarrow> INPUT x \<in> set (sh_events s))"
proof -
  let ?c = "sh_console s"
  have cc: "char_of (of_char c :: int) = c" "(of_char c :: int) mod 256 \<noteq> 0"
    using of_char_range [of c] assms(5) of_char_eq_iff [where ?'a = int, of c NUL] by auto
  have cap: "1 \<le> stredit_capacity (cur ?c)"
    using assms(8) cons_wf_edit(3) [OF assms(1)] by (simp add: stredit_capacity_def)
  have z: "(0 :: int) \<le> 1" "(1 :: int) \<le> int (length [c])" by simp_all
  from console_write_raw_fit [OF assms(1,2) z(1) cap z(2)] obtain c' where c':
    "console_write_raw e ?c [c] 1 = Some (True, c')" "cons_wf c'"
    "ed_prefix (cur c') = ed_prefix (cur ?c)" "c_cursor c' = c_cursor ?c + 1"
    "cur_text c' = take (nat (c_cursor ?c)) (cur_text ?c) @ take (nat 1) [c] @ drop (nat (c_cursor ?c)) (cur_text ?c)"
    by blast
  have t: "cur_text c' = cur_text ?c @ [c]"
    using c'(5) assms(7) cons_wf_sizes(7) [OF assms(1)] by (simp add: nat_eq_iff)
  have z: "ed_size (cur c') = ed_size (cur ?c) + 1"
    using cons_wf_sizes(7) [OF c'(2)] cons_wf_sizes(7) [OF assms(1)] t by simp
  have ev: "widget_shell_poly_event e K s ev = Some (True, (widget_shell_use_mods s)\<lparr>sh_console := c'\<rparr>)"
    using event_char [OF assms(3,4,6), of e] cc c'(1) by (simp add: Let_def)
  have em: "INPUT x \<in> set (sh_events (widget_shell_use_mods s)) \<longrightarrow> INPUT x \<in> set (sh_events s)" for x
    by (simp add: widget_shell_use_mods_def jwidget_emit_def Let_def)
  show ?thesis using ev em c' t z assms(7)
    by (intro exI [of _ "(widget_shell_use_mods s)\<lparr>sh_console := c'\<rparr>"]) simp
qed

lemma exe_line:
  assumes "cons_wf (sh_console s)" and "granting e" and "\<not> ev_up ev" and "ev_key ev = KEY_EXE K"
    and "distinct [KEY_SHIFT K, KEY_ALPHA K, KEY_UP K, KEY_DOWN K, KEY_LEFT K, KEY_RIGHT K, KEY_ACON K, KEY_DEL K, KEY_EXE K]"
    and "cur_text (sh_console s) = p @ t" and "int (length p) = ed_prefix (cur (sh_console s))" and "NUL \<notin> set t"
  shows "\<exists>s'. widget_shell_poly_event e K s ev = Some (True, s') \<and> cons_wf (sh_console s') \<and>
     last (sh_events s') = INPUT (Some t) \<and> sh_events s' \<noteq> []"
proof -
  have l: "console_get_line (sh_console s) = Some (Some t)"
    by (rule console_get_line_spec [OF assms(1,6,7,8)])
  obtain c where c: "console_newline e (sh_console s) = Some c" "cons_wf c"
    using console_newline_spec [OF assms(1,2)] by blast
  have k: "ev_key ev \<noteq> KEY_SHIFT K" "ev_key ev \<noteq> KEY_ALPHA K" "ev_key ev \<noteq> KEY_UP K" "ev_key ev \<noteq> KEY_DOWN K"
    "ev_key ev \<noteq> KEY_LEFT K" "ev_key ev \<noteq> KEY_RIGHT K" "ev_key ev \<noteq> KEY_ACON K" "ev_key ev \<noteq> KEY_DEL K"
    using assms(4,5) by auto
  show ?thesis
    unfolding widget_shell_poly_event_def using k assms(2-4) l c by (simp add: jwidget_emit_def Let_def)
qed

lemma mod_reset [simp]: "sh_console (s\<lparr>sh_events := es\<rparr>) = sh_console s"
  by simp

lemma readline_types:
  assumes "cons_wf (sh_console s)" and "granting e" and "c_cursor (sh_console s) = ed_size (cur (sh_console s))"
    and "cur_text (sh_console s) = p @ t" and "int (length p) = ed_prefix (cur (sh_console s))" and "NUL \<notin> set t"
    and "length p + length t + length cs \<le> 1024"
    and "keys_mean K (mod_active (sh_shift s)) (mod_active (sh_alpha s)) evs cs"
    and "\<not> ev_up exe" and "ev_key exe = KEY_EXE K"
    and "distinct [KEY_SHIFT K, KEY_ALPHA K, KEY_UP K, KEY_DOWN K, KEY_LEFT K, KEY_RIGHT K, KEY_ACON K, KEY_DEL K, KEY_EXE K]"
  shows "\<exists>s'. readline_loop e K s (evs @ exe # rest) = Some (t @ cs, s') \<and> cons_wf (sh_console s')"
  using assms
proof (induction evs arbitrary: s t cs)
  case Nil
  then have cs: "cs = []" by (cases cs) simp_all
  have w: "cons_wf (sh_console (s\<lparr>sh_events := []\<rparr>))" using Nil.prems(1) by simp
  obtain s' where s': "widget_shell_poly_event e K (s\<lparr>sh_events := []\<rparr>) exe = Some (True, s')" "cons_wf (sh_console s')"
    "last (sh_events s') = INPUT (Some t)" "sh_events s' \<noteq> []"
    using exe_line [OF w Nil.prems(2,9,10,11), of p t] Nil.prems(4,5,6) by auto
  then show ?case using cs by (cases "sh_events s'") simp_all
next
  case (Cons ev evs)
  then obtain c cs' where cs: "cs = c # cs'" by (cases cs) simp_all
  have k: "\<not> special_key K (ev_key ev)" "\<not> ev_up ev" "c \<noteq> NUL"
    "keymap_translate K (ev_key ev) (mod_active (sh_shift s)) (mod_active (sh_alpha s)) = Some (of_char c)"
    "keys_mean K (mod_active (sh_shift s)) (mod_active (sh_alpha s)) evs cs'"
    using Cons.prems(8) by (simp_all add: cs)
  let ?s = "s\<lparr>sh_events := []\<rparr>"
  have sz: "ed_size (cur (sh_console ?s)) < 1024"
    using cons_wf_sizes(7) [OF Cons.prems(1)] Cons.prems(4,7) by (simp add: cs)
  have w: "cons_wf (sh_console ?s)" "c_cursor (sh_console ?s) = ed_size (cur (sh_console ?s))"
    "keymap_translate K (ev_key ev) (mod_active (sh_shift ?s)) (mod_active (sh_alpha ?s)) = Some (of_char c)"
    using Cons.prems(1,3) k(4) by simp_all
  from type_char [OF w(1) Cons.prems(2) k(1-3) w(3,2) sz] obtain s1 where
    s1: "widget_shell_poly_event e K ?s ev = Some (True, s1)" "cons_wf (sh_console s1)"
      "mod_active (sh_shift s1) = mod_active (sh_shift s)" "mod_active (sh_alpha s1) = mod_active (sh_alpha s)"
      "ed_prefix (cur (sh_console s1)) = ed_prefix (cur (sh_console s))"
      "cur_text (sh_console s1) = cur_text (sh_console s) @ [c]"
      "c_cursor (sh_console s1) = ed_size (cur (sh_console s1))"
      "\<forall>x. INPUT x \<in> set (sh_events s1) \<longrightarrow> INPUT x \<in> set (sh_events ?s)" by auto
  have noinput: "last (sh_events s1) = MOD_CHANGED" if "sh_events s1 \<noteq> []"
    using s1(8) last_in_set [OF that] by (cases "last (sh_events s1)") auto
  have step: "readline_loop e K s ((ev # evs) @ exe # rest) = readline_loop e K s1 (evs @ exe # rest)"
    using s1(1) noinput by (cases "sh_events s1") simp_all
  have "\<exists>s'. readline_loop e K s1 (evs @ exe # rest) = Some ((t @ [c]) @ cs', s') \<and> cons_wf (sh_console s')"
    by (rule Cons.IH [OF s1(2) Cons.prems(2) s1(7)])
      (use s1 Cons.prems k(3,5) in \<open>simp_all add: cs\<close>)
  then show ?case using step by (simp add: cs)
qed

lemma module_loop_py: "module_loop (p @ ''.py'') = map (\<lambda>c. if c = CHR ''/'' then CHR ''.'' else c) p"
proof (induction p)
  case (Cons c p)
  have "c # p @ ''.py'' \<noteq> ''.py''" by (cases p) auto
  then show ?case using Cons.IH by simp
qed simp

text \<open>Each key of the matrix has its own number, and each letter its own place in the table.\<close>

lemma u32_neg: "- 4294967296 \<le> x \<Longrightarrow> x < 0 \<Longrightarrow> u32 x = x + 4294967296"
proof -
  assume "- 4294967296 \<le> x" "x < 0"
  then have "(x + 4294967296) mod 4294967296 = x + 4294967296" by (intro mod_pos_pos_trivial) simp_all
  then show ?thesis by (simp add: u32_def)
qed

lemma key_id_pos:
  assumes "0 \<le> key_id k"
  shows "key_id k = 6 * (9 - (k div 16) mod 16) + (k mod 16 - 1)" and "1 \<le> k mod 16" and "k mod 16 \<le> 6"
    and "1 \<le> (k div 16) mod 16" and "(k div 16) mod 16 \<le> 9"
proof -
  define c r where "c = k mod 16" and "r = (k div 16) mod 16"
  have b: "0 \<le> c" "c < 16" "0 \<le> r" "r < 16" by (simp_all add: c_def r_def)
  have "u32 (c - 1) \<le> 5" "u32 (9 - r) \<le> 8" "key_id k = 6 * u32 (9 - r) + u32 (c - 1)"
    using assms by (auto simp: key_id_def c_def r_def Let_def split: if_splits)
  moreover have "u32 (c - 1) = (if c = 0 then 4294967295 else c - 1)" "u32 (9 - r) = (if r \<le> 9 then 9 - r else 4294967305 - r)"
    using b u32_neg [of "9 - r"] u32_neg [of "c - 1"] by (auto simp: u32_id)
  ultimately have "key_id k = 6 * (9 - r) + (c - 1) \<and> 1 \<le> c \<and> c \<le> 6 \<and> 1 \<le> r \<and> r \<le> 9"
    using b by (auto split: if_splits)
  then show "key_id k = 6 * (9 - (k div 16) mod 16) + (k mod 16 - 1)" "1 \<le> k mod 16" "k mod 16 \<le> 6"
    "1 \<le> (k div 16) mod 16" "(k div 16) mod 16 \<le> 9" by (simp_all add: c_def r_def)
qed

lemma div_less_16: "(k :: int) < 256 \<Longrightarrow> k div 16 < 16"
  by presburger

lemma matrix_inj:
  fixes r c r' c' :: int
  assumes "6 * (9 - r) + (c - 1) = 6 * (9 - r') + (c' - 1)" and "1 \<le> c" "c \<le> 6" "1 \<le> c'" "c' \<le> 6"
  shows "r = r' \<and> c = c'"
  using assms by presburger

lemma key_id_inj:
  assumes "0 \<le> key_id k" and "key_id k = key_id k'" and "k \<in> {0..<256}" and "k' \<in> {0..<256}"
  shows "k = k'"
proof -
  have "0 \<le> key_id k'" using assms(1,2) by simp
  note K = key_id_pos [OF assms(1)] and K' = key_id_pos [OF this]
  have "(k div 16) mod 16 = k div 16" "(k' div 16) mod 16 = k' div 16"
    using assms(3,4) by (simp_all add: mod_pos_pos_trivial pos_imp_zdiv_nonneg_iff div_less_16)
  moreover have "(k div 16) mod 16 = (k' div 16) mod 16 \<and> k mod 16 = k' mod 16"
  proof (rule matrix_inj [OF _ K(2,3) K'(2,3)])
    show "6 * (9 - (k div 16) mod 16) + (k mod 16 - 1) = 6 * (9 - (k' div 16) mod 16) + (k' mod 16 - 1)"
      unfolding K(1) [symmetric] K'(1) [symmetric] by (rule assms(2))
  qed
  ultimately show ?thesis by (metis div_mult_mod_eq)
qed

lemma distinct_filter_nth:
  "distinct (filter P xs) \<Longrightarrow> i < length xs \<Longrightarrow> j < length xs \<Longrightarrow> P (xs ! i) \<Longrightarrow> xs ! i = xs ! j \<Longrightarrow> i = j"
proof (induction xs arbitrary: i j)
  case (Cons x xs)
  have x: "x \<notin> set (filter P xs)" if "P x" using Cons.prems(1) that by simp
  show ?case using Cons.IH [of "i - 1" "j - 1"] Cons.prems x
    by (cases i; cases j) (auto split: if_splits)
qed simp

definition is_letter :: "char \<Rightarrow> bool" where
  "is_letter c \<longleftrightarrow> of_char c \<ge> (97 :: int) \<and> of_char c \<le> (122 :: int)"

lemma keymap_alpha_letter:
  assumes "is_letter c"
  shows "\<exists>!k. k \<in> {0..<256} \<and> \<not> key_id k < 0 \<and> keymap_alpha (key_id k) = Some (of_char c)"
proof -
  have at: "keymap_alpha n = Some (of_char c) \<longleftrightarrow> map_alpha ! nat (n - 18) = c \<and> 18 \<le> n"
    if "0 \<le> n" "n \<le> 53" for n
  proof (cases "n < 18")
    case False
    then have "mem_read map_alpha (n - 18) 1 = Some [map_alpha ! nat (n - 18)]"
      using that table_lengths(2) by (intro mem_read_single) simp_all
    then show ?thesis using False of_char_eq_iff [where ?'a = int, of "map_alpha ! nat (n - 18)" c]
      by (simp add: keymap_alpha_def)
  qed (use assms in \<open>simp add: keymap_alpha_def is_letter_def\<close>)
  have "c \<in> set map_alpha"
  proof -
    have "c \<in> set (map char_of [97..122 :: int])"
      using assms unfolding set_map set_upto is_letter_def
      by (intro image_eqI [of _ _ "of_char c :: int"]) simp_all
    moreover have "list_all (\<lambda>c. c \<in> set map_alpha) (map char_of [97..122 :: int])" by code_simp
    ultimately show ?thesis by (simp only: list_all_iff)
  qed
  then obtain i where i: "i < 36" "map_alpha ! i = c" using table_lengths(2) by (auto simp: in_set_conv_nth)
  let ?key = "\<lambda>i. 16 * (9 - (18 + int i) div 6) + (18 + int i) mod 6 + 1"
  have "list_all (\<lambda>i. key_id (?key i) = 18 + int i \<and> 0 \<le> ?key i \<and> ?key i < 256) [0..<36]" by code_simp
  then have k: "key_id (?key i) = 18 + int i" "?key i \<in> {0..<256}" using i(1) by (simp_all add: list_all_iff)
  have "distinct (filter is_letter map_alpha)" by code_simp
  note D = distinct_filter_nth [OF this]
  show ?thesis
  proof (rule ex1I [of _ "?key i"])
    show "?key i \<in> {0..<256} \<and> \<not> key_id (?key i) < 0 \<and> keymap_alpha (key_id (?key i)) = Some (of_char c)"
      using k at [of "18 + int i"] i by simp
    fix k' assume k': "k' \<in> {0..<256} \<and> \<not> key_id k' < 0 \<and> keymap_alpha (key_id k') = Some (of_char c)"
    have r: "0 \<le> key_id k'" "key_id k' \<le> 53" using k' key_id_range [of k'] by auto
    have a: "map_alpha ! nat (key_id k' - 18) = c" "18 \<le> key_id k'" using k' at [OF r] by simp_all
    have "nat (key_id k' - 18) = i"
      by (rule D) (use a r i assms table_lengths(2) in simp_all)
    then have "key_id k' = key_id (?key i)" using a(2) k(1) by simp
    then show "k' = ?key i" using key_id_inj [OF r(1)] k' k(2) by blast
  qed
qed

section \<open>Modifier keys as a state machine\<close>

datatype mod_input = Press | Release | OtherKey

text \<open>Presses and releases of the modifier alternate; other keys come at any time.\<close>

inductive mod_reach :: "modstate \<Rightarrow> bool \<Rightarrow> bool" where
  mod_start: "mod_reach MOD_IDLE False"
| mod_press: "mod_reach m False \<Longrightarrow> mod_reach (mod_down m) True"
| mod_release: "mod_reach m True \<Longrightarrow> mod_reach (mod_up m) False"
| mod_other: "mod_reach m held \<Longrightarrow> mod_reach (mod_down_other m) held"

lemma mod_reach_instant: "mod_reach m held \<Longrightarrow> mod_instant m = held"
proof (induction rule: mod_reach.induct)
  case (mod_press m)
  show ?case using mod_press.IH by (cases m) (simp_all add: mod_instant_def mod_down_def)
next
  case (mod_release m)
  show ?case using mod_release.IH by (cases m) (simp_all add: mod_instant_def mod_up_def)
next
  case (mod_other m held)
  show ?case using mod_other.IH by (cases m) (simp_all add: mod_instant_def mod_down_other_def)
qed (simp add: mod_instant_def)

section \<open>Properties\<close>

text \<open>C34: reading the key tables never leaves them, for any key code and modifiers, and always
  gives an ASCII code.\<close>

theorem keymap_translate_safe: "\<exists>c. keymap_translate K key sh al = Some c \<and> 0 \<le> c \<and> c < 128"
  by (rule keymap_translate_ascii)

text \<open>With ALPHA alone, every lower-case letter is on exactly one key of the matrix; adding
  SHIFT gives the upper-case letter.\<close>

theorem keymap_letters:
  assumes "is_letter c"
  shows "(\<exists>!key. key \<in> {0..<256} \<and> keymap_translate K key False True = Some (of_char c)) \<and>
     (\<forall>key. keymap_translate K key False True = Some (of_char c) \<longrightarrow>
        keymap_translate K key True True = Some (of_char c - 32))"
proof -
  have "keymap_translate K key False True = Some (of_char c) \<longleftrightarrow>
      \<not> key_id key < 0 \<and> keymap_alpha (key_id key) = Some (of_char c)" for key
    using assms by (simp add: keymap_translate_def Let_def is_letter_def)
  then show ?thesis
    using keymap_alpha_letter [OF assms] assms by (simp add: keymap_translate_def Let_def is_letter_def)
qed

theorem keymap_letters_witness:
  "\<forall>K. \<exists>!key. key \<in> {0..<256} \<and> keymap_translate K key False True = Some 113"
  using keymap_letters [of "CHR ''q''"] by (simp add: is_letter_def)

text \<open>C35: a modifier is in an instant state exactly while its key is held.  Tapped alone it
  toggles between idle and locked; held while other keys are used, it returns to the state it had.\<close>

theorem modifier_protocol:
  assumes "mod_reach m held"
  shows "mod_instant m = held \<and>
    (\<not> held \<longrightarrow> mod_active (mod_up (mod_down m)) = (\<not> mod_active m) \<and> mod_up (mod_down_other (mod_down m)) = m)"
  using mod_reach_instant [OF assms]
  by (cases m) (simp_all add: mod_instant_def mod_active_def mod_up_def mod_down_def mod_down_other_def)

theorem modifier_protocol_witness:
  "mod_instant (mod_up (mod_down MOD_IDLE)) = False \<and> mod_active (mod_up (mod_down (mod_up (mod_down MOD_IDLE)))) = False"
  using modifier_protocol [OF mod_release [OF mod_press [OF mod_start]]]
  by (simp add: mod_active_def mod_up_def mod_down_def)


text \<open>A shell on a new console.\<close>

definition demo_shell :: "console \<Rightarrow> widget_shell" where
  "demo_shell cons = \<lparr>sh_console = cons, sh_font = 0, sh_color = 0, sh_line_spacing = 0, sh_scroll = 0,
     sh_lines = 0, sh_shift = MOD_IDLE, sh_alpha = MOD_IDLE, sh_update = False, sh_dirty = True, sh_events = []\<rparr>"

text \<open>Some key codes: rows in the high digit, columns in the low one.\<close>

definition demo_keys :: keycodes where
  "demo_keys = \<lparr>KEY_MUL = 0x34, KEY_DIV = 0x35, KEY_ADD = 0x24, KEY_SUB = 0x25, KEY_DOT = 0x12, KEY_0 = 0x11,
     KEY_SHIFT = 0x81, KEY_ALPHA = 0x71, KEY_UP = 0x86, KEY_DOWN = 0x75, KEY_LEFT = 0x85, KEY_RIGHT = 0x76,
     KEY_ACON = 0x07, KEY_DEL = 0x44, KEY_EXE = 0x15, KEY_EXIT = 0x74\<rparr>"




text \<open>The module name of a Python file: the leading slash and the suffix are removed, every
  other slash becomes a dot; the result holds no slash.\<close>

theorem path_to_module_correct:
  assumes "env_ok e (length p + 4)" and "NUL \<notin> set p"
  shows "path_to_module e (CHR ''/'' # p @ ''.py'') = Some (map (\<lambda>c. if c = CHR ''/'' then CHR ''.'' else c) p)"
proof -
  have "c_str (CHR ''/'' # p @ ''.py'') = CHR ''/'' # p @ ''.py''"
    using assms(2) by (auto simp: c_str_def takeWhile_append takeWhile_eq_all_conv)
  then show ?thesis using assms(1) module_loop_py [of p] by (simp add: path_to_module_def Let_def eval_nat_numeral)
qed

theorem path_to_module_correct_witness:
  "path_to_module (env_all (\<lambda>_. NUL)) ''/games/snake.py'' = Some ''games.snake''"
  using path_to_module_correct [of "env_all (\<lambda>_. NUL)" "''games/snake''"] by (simp add: env_all_def)

end
