(* ===== verification/PathUtil.thy ===== *)
theory PathUtil
  imports Prelude
begin

text \<open>
  The virtual working directory of \<open>ports/sh/pathutil.c\<close>.  Paths are resolved into a caller's
  buffer by consuming components one after the other; the buffer and the length written so far
  are explicit, every access is bounds-checked.

  The specification is on lists of components: \<open>norm\<close> folds a path over a stack of directory
  names, \<open>path_str\<close> prints a stack.  Shown here: resolution writes the printed normal form or
  fails with ENAMETOOLONG, never outside the buffer; a resolved path resolves to itself; the
  working directory is always in normal form.
\<close>

section \<open>Components\<close>

datatype perr = ENAMETOOLONG | EINVAL | ENOTDIR | FsErr int

definition PE_PATH_MAX :: nat where
  "PE_PATH_MAX = 256"

definition pe_append_component :: "bytes \<Rightarrow> nat \<Rightarrow> nat \<Rightarrow> bytes \<Rightarrow> (perr + bytes \<times> nat) option" where
  "pe_append_component out out_size len part = do {
     let need = len + (if len > 1 then 1 else 0) + length part + 1;
     if need > out_size then Some (Inl ENAMETOOLONG)
     else do {
       (out, len) \<leftarrow> (if len > 1
         then do { out \<leftarrow> mem_write out (int len) ''/''; Some (out, len + 1) } else Some (out, len));
       out \<leftarrow> mem_write out (int len) part;
       let len = len + length part;
       out \<leftarrow> mem_write out (int len) [NUL];
       Some (Inr (out, len))
     }
   }"

text \<open>The loop of \<open>pe_pop_component\<close>: back to just behind the last slash.\<close>

fun pop_scan :: "bytes \<Rightarrow> nat \<Rightarrow> nat option" where
  "pop_scan out (Suc (Suc n)) = do {
     xs \<leftarrow> mem_read out (int (Suc n)) 1;
     if xs ! 0 \<noteq> CHR ''/'' then pop_scan out (Suc n) else Some (Suc (Suc n))
   }"
| "pop_scan out n = Some n"

definition pe_pop_component :: "bytes \<Rightarrow> nat \<Rightarrow> (bytes \<times> nat) option" where
  "pe_pop_component out len =
     (if len \<le> 1 then Some (out, len)
      else do {
        len \<leftarrow> pop_scan out len;
        let len = (if len > 1 then len - 1 else len);
        out \<leftarrow> mem_write out (int len) [NUL];
        Some (out, len)
      })"

function pe_consume :: "bytes \<Rightarrow> bytes \<Rightarrow> nat \<Rightarrow> nat \<Rightarrow> (perr + bytes \<times> nat) option" where
  "pe_consume path out out_size len =
     (let p = dropWhile (\<lambda>c. c = CHR ''/'') path in
      if p = [] then Some (Inr (out, len))
      else
        let part = takeWhile (\<lambda>c. c \<noteq> CHR ''/'') p; rest = dropWhile (\<lambda>c. c \<noteq> CHR ''/'') p in
        if part = ''.'' then pe_consume rest out out_size len
        else if part = ''..'' then do {
          (out, len) \<leftarrow> pe_pop_component out len;
          pe_consume rest out out_size len
        }
        else (case pe_append_component out out_size len part of
            None \<Rightarrow> None
          | Some (Inl e) \<Rightarrow> Some (Inl e)
          | Some (Inr (out, len)) \<Rightarrow> pe_consume rest out out_size len))"
  by pat_completeness auto

lemma next_part_shorter:
  "dropWhile (\<lambda>c. c = x) path \<noteq> [] \<Longrightarrow>
     length (dropWhile (\<lambda>c. c \<noteq> x) (dropWhile (\<lambda>c. c = x) path)) < length path"
proof (induction path)
  case (Cons a path)
  then show ?case using length_dropWhile_le [of "\<lambda>c. c \<noteq> x" path] by (auto simp: less_Suc_eq_le)
qed simp

termination pe_consume
  by (relation "measure (\<lambda>(p, out, n, len). length p)") (auto simp: next_part_shorter simp del: dropWhile_eq_Nil_conv)

declare pe_consume.simps [simp del]

text \<open>The working directory is the module's static buffer; null pointers are \<open>None\<close> arguments.\<close>

definition pe_path_getcwd :: "bytes \<Rightarrow> bytes" where
  "pe_path_getcwd cwd = c_str cwd"

definition pe_path_resolve :: "bytes \<Rightarrow> bytes option \<Rightarrow> bytes option \<Rightarrow> nat \<Rightarrow> (perr + bytes) option" where
  "pe_path_resolve cwd path out out_size = (case (path, out) of
       (Some path, Some out) \<Rightarrow>
         if out_size < 2 then Some (Inl EINVAL)
         else do {
           out \<leftarrow> mem_write out 0 [CHR ''/''];
           out \<leftarrow> mem_write out 1 [NUL];
           r \<leftarrow> (if take 1 (c_str path) \<noteq> ''/'' then pe_consume (c_str cwd) out out_size 1
                else Some (Inr (out, 1)));
           case r of
             Inl e \<Rightarrow> Some (Inl e)
           | Inr (out, len) \<Rightarrow> do {
               r \<leftarrow> pe_consume (c_str path) out out_size len;
               case r of Inl e \<Rightarrow> Some (Inl e) | Inr (out, _) \<Rightarrow> Some (Inr out)
             }
         }
     | _ \<Rightarrow> Some (Inl EINVAL))"

text \<open>The file type bits of a mode, as in \<open>sys/stat.h\<close>.\<close>

definition is_dir_mode :: "int \<Rightarrow> bool" where
  "is_dir_mode m \<longleftrightarrow> (m div 4096) mod 16 = 4"

text \<open>\<open>stat\<close> crosses to the calculator's file system, an argument here; \<open>stack\<close> is the local buffer.\<close>

definition pe_path_chdir ::
  "bytes \<Rightarrow> (bytes \<Rightarrow> int + int) \<Rightarrow> bytes \<Rightarrow> bytes \<Rightarrow> ((perr + unit) \<times> bytes) option" where
  "pe_path_chdir stack stat cwd path = do {
     r \<leftarrow> pe_path_resolve cwd (Some path) (Some stack) PE_PATH_MAX;
     case r of
       Inl e \<Rightarrow> Some (Inl e, cwd)
     | Inr resolved \<Rightarrow> (case stat (c_str resolved) of
         Inl e \<Rightarrow> Some (Inl (FsErr e), cwd)
       | Inr mode \<Rightarrow>
           if \<not> is_dir_mode mode then Some (Inl ENOTDIR, cwd)
           else do {
             cwd \<leftarrow> mem_write cwd 0 (c_str resolved @ [NUL]);
             Some (Inr (), cwd)
           })
   }"

section \<open>Specification\<close>

function path_parts :: "bytes \<Rightarrow> bytes list" where
  "path_parts path =
     (let p = dropWhile (\<lambda>c. c = CHR ''/'') path in
      if p = [] then []
      else takeWhile (\<lambda>c. c \<noteq> CHR ''/'') p # path_parts (dropWhile (\<lambda>c. c \<noteq> CHR ''/'') p))"
  by pat_completeness auto
termination
  by (relation "measure length") (auto simp: next_part_shorter simp del: dropWhile_eq_Nil_conv)

declare path_parts.simps [simp del]

definition norm_step :: "bytes list \<Rightarrow> bytes \<Rightarrow> bytes list" where
  "norm_step st part = (if part = ''.'' then st else if part = ''..'' then butlast st else st @ [part])"

definition norm :: "bytes list \<Rightarrow> bytes \<Rightarrow> bytes list" where
  "norm st path = foldl norm_step st (path_parts path)"

definition path_render :: "bytes list \<Rightarrow> bytes" where
  "path_render st = concat (map (\<lambda>c. CHR ''/'' # c) st)"

definition path_str :: "bytes list \<Rightarrow> bytes" where
  "path_str st = (if st = [] then ''/'' else path_render st)"

text \<open>Every stack met on the way fits a buffer of \<open>n\<close> bytes with its final NUL.\<close>

fun parts_fit :: "nat \<Rightarrow> bytes list \<Rightarrow> bytes list \<Rightarrow> bool" where
  "parts_fit n st [] = True"
| "parts_fit n st (p # ps) = (length (path_str (norm_step st p)) < n \<and> parts_fit n (norm_step st p) ps)"

definition part_ok :: "bytes \<Rightarrow> bool" where
  "part_ok c \<longleftrightarrow> c \<noteq> [] \<and> CHR ''/'' \<notin> set c \<and> NUL \<notin> set c \<and> c \<noteq> ''.'' \<and> c \<noteq> ''..''"

definition stack_ok :: "bytes list \<Rightarrow> bool" where
  "stack_ok st \<longleftrightarrow> (\<forall>c \<in> set st. part_ok c)"

section \<open>Stacks and their text\<close>

lemma path_render_simps [simp]:
  "path_render [] = []" "path_render (st @ [c]) = path_render st @ CHR ''/'' # c"
  by (simp_all add: path_render_def)

lemma path_str_snoc: "path_str (st @ [c]) = path_render st @ CHR ''/'' # c"
  by (simp add: path_str_def)

lemma path_str_length: "stack_ok st \<Longrightarrow> 1 < length (path_str st) \<longleftrightarrow> st \<noteq> []"
  by (cases st rule: rev_cases) (auto simp: path_str_def stack_ok_def part_ok_def)

lemma path_str_not_Nil: "0 < length (path_str st)"
  by (cases st rule: rev_cases) (simp_all add: path_str_def)

lemma stack_ok_snoc: "stack_ok (st @ [c]) \<longleftrightarrow> stack_ok st \<and> part_ok c"
  by (auto simp: stack_ok_def)

lemma stack_ok_butlast: "stack_ok st \<Longrightarrow> stack_ok (butlast st)"
  by (auto simp: stack_ok_def dest: in_set_butlastD)

lemma path_render_NUL: "stack_ok st \<Longrightarrow> NUL \<notin> set (path_render st)"
  by (auto simp: path_render_def stack_ok_def part_ok_def)

lemma path_str_NUL: "stack_ok st \<Longrightarrow> NUL \<notin> set (path_str st)"
  using path_render_NUL by (simp add: path_str_def)

lemma takeWhile_part:
  assumes "dropWhile (\<lambda>c. c = x) path \<noteq> []"
  shows "takeWhile (\<lambda>c. c \<noteq> x) (dropWhile (\<lambda>c. c = x) path) \<noteq> []"
  using assms hd_dropWhile [OF assms] by (cases "dropWhile (\<lambda>c. c = x) path") auto

lemma path_parts_set:
  assumes "c \<in> set (path_parts p)" and "NUL \<notin> set p"
  shows "c \<noteq> [] \<and> CHR ''/'' \<notin> set c \<and> NUL \<notin> set c"
  using assms
proof (induction p rule: path_parts.induct)
  case (1 p)
  let ?p = "dropWhile (\<lambda>c. c = CHR ''/'') p"
  have ne: "?p \<noteq> []" using 1(2) by (subst (asm) path_parts.simps) (auto simp: Let_def split: if_splits)
  have n: "NUL \<notin> set ?p" using 1(3) set_dropWhileD by metis
  then have n2: "NUL \<notin> set (dropWhile (\<lambda>c. c \<noteq> CHR ''/'') ?p)" using set_dropWhileD by metis
  have "c = takeWhile (\<lambda>c. c \<noteq> CHR ''/'') ?p \<or> c \<in> set (path_parts (dropWhile (\<lambda>c. c \<noteq> CHR ''/'') ?p))"
    using 1(2) ne by (subst (asm) path_parts.simps) (simp add: Let_def del: dropWhile_eq_Nil_conv)
  then show ?case
  proof
    assume "c = takeWhile (\<lambda>c. c \<noteq> CHR ''/'') ?p"
    then show ?thesis using takeWhile_part [OF ne] n by (auto dest: set_takeWhileD)
  qed (use 1(1) [OF refl ne] n2 in blast)
qed

lemma norm_step_ok:
  "stack_ok st \<Longrightarrow> c \<noteq> [] \<Longrightarrow> CHR ''/'' \<notin> set c \<Longrightarrow> NUL \<notin> set c \<Longrightarrow> stack_ok (norm_step st c)"
  by (simp add: norm_step_def stack_ok_butlast stack_ok_snoc part_ok_def)

lemma foldl_norm_ok:
  "stack_ok st \<Longrightarrow> (\<And>c. c \<in> set ps \<Longrightarrow> c \<noteq> [] \<and> CHR ''/'' \<notin> set c \<and> NUL \<notin> set c) \<Longrightarrow>
     stack_ok (foldl norm_step st ps)"
  by (induction ps arbitrary: st) (simp_all add: norm_step_ok)

lemma norm_ok: "stack_ok st \<Longrightarrow> NUL \<notin> set p \<Longrightarrow> stack_ok (norm st p)"
  unfolding norm_def using path_parts_set by (intro foldl_norm_ok) blast+

lemma c_str_no_NUL: "NUL \<notin> set (c_str p)"
  by (auto simp: c_str_def dest: set_takeWhileD)

section \<open>The buffer holds the printed stack\<close>

definition path_rep :: "bytes \<Rightarrow> nat \<Rightarrow> bytes list \<Rightarrow> bool" where
  "path_rep out len st \<longleftrightarrow> stack_ok st \<and> len = length (path_str st) \<and>
     (\<exists>r. out = path_str st @ NUL # r)"

lemma path_rep_c_str: "path_rep out len st \<Longrightarrow> c_str out = path_str st"
  unfolding path_rep_def using path_str_NUL c_str_append_NUL by blast

lemma write_at:
  "length xs \<le> length m \<Longrightarrow> mem_write (a @ m) (int (length a)) xs = Some (a @ xs @ drop (length xs) m)"
  by (simp add: mem_write_def)

lemma path_str_append:
  "stack_ok st \<Longrightarrow> length (path_str (st @ [c])) =
     length (path_str st) + (if 1 < length (path_str st) then 1 else 0) + length c"
  using path_str_length [of st] by (auto simp: path_str_def)

lemma path_str_extend:
  "stack_ok st \<Longrightarrow> path_str (st @ [c]) = path_str st @ (if 1 < length (path_str st) then ''/'' else []) @ c"
  using path_str_length [of st] by (auto simp: path_str_def)

lemma pe_append_component_spec:
  assumes "path_rep out len st" and "part_ok part" and "out_size = length out"
  shows "if length (path_str (st @ [part])) < out_size
    then \<exists>out' len'. pe_append_component out out_size len part = Some (Inr (out', len')) \<and>
       path_rep out' len' (st @ [part]) \<and> length out' = length out
    else pe_append_component out out_size len part = Some (Inl ENAMETOOLONG)"
proof -
  have st: "stack_ok st" "len = length (path_str st)" using assms(1) by (simp_all add: path_rep_def)
  obtain r where r: "out = path_str st @ NUL # r" using assms(1) by (auto simp: path_rep_def)
  let ?sep = "if 1 < len then ''/'' else []"
  have need: "len + (if 1 < len then 1 else 0) + length part + 1 = length (path_str (st @ [part])) + 1"
    using path_str_append [OF st(1)] st(2) by simp
  show ?thesis
  proof (cases "length (path_str (st @ [part])) < out_size")
    case True
    then have room: "length ?sep + length part \<le> length r"
      using need assms(3) r st(2) by (auto split: if_splits)
    define m where "m = drop (length ?sep) (NUL # r)"
    have m: "Suc (length part) \<le> length m" using room by (simp add: m_def)
    define a where "a = path_str st @ ?sep"
    have w1: "(if len > 1 then do { out \<leftarrow> mem_write out (int len) ''/''; Some (out, len + 1) } else Some (out, len))
      = Some (a @ m, length a)"
      using write_at [of "''/''" "NUL # r" "path_str st"] st(2) by (simp add: r m_def a_def)
    have w2: "mem_write (a @ m) (int (length a)) part = Some (a @ part @ drop (length part) m)"
      by (rule write_at) (use m in simp)
    let ?out = "a @ part @ NUL # drop (Suc (length part)) m"
    have w3: "mem_write (a @ part @ drop (length part) m) (int (length a + length part)) [NUL] = Some ?out"
      using write_at [of "[NUL]" "drop (length part) m" "a @ part"] m by simp
    have p: "a @ part = path_str (st @ [part])" using path_str_extend [OF st(1), of part] st(2) by (simp add: a_def)
    have "\<not> len + (if 1 < len then 1 else 0) + length part + 1 > out_size" using need True by simp
    then have "pe_append_component out out_size len part = Some (Inr (?out, length a + length part))"
      unfolding pe_append_component_def Let_def w1 using w2 w3 by simp
    moreover have "path_rep ?out (length a + length part) (st @ [part])"
      using p st(1) assms(2) unfolding path_rep_def stack_ok_snoc
      by (metis append.assoc append_Cons length_append)
    moreover have "length ?out = length out" using m r st(2) by (simp add: m_def a_def)
    ultimately show ?thesis using True by simp
  next
    case False
    then show ?thesis using need by (simp add: pe_append_component_def)
  qed
qed

lemma pop_scan_stop:
  assumes "CHR ''/'' \<notin> set c"
  shows "pop_scan (a @ CHR ''/'' # c @ r) (Suc (length a + length c)) = Some (Suc (length a))"
  using assms
proof (induction c arbitrary: r rule: rev_induct)
  case Nil
  show ?case
  proof (cases a)
    case (Cons x xs)
    have "mem_read (a @ CHR ''/'' # r) (int (Suc (length xs))) 1 = Some ''/''"
      by (subst mem_read_single) (simp_all add: Cons nth_append del: of_nat_Suc)
    then show ?thesis using Cons by simp
  qed simp
next
  case (snoc x c)
  have "mem_read (a @ CHR ''/'' # (c @ [x]) @ r) (int (Suc (length a + length c))) 1 = Some [x]"
    by (subst mem_read_single) (simp_all add: nth_append del: of_nat_Suc)
  then have "pop_scan (a @ CHR ''/'' # (c @ [x]) @ r) (Suc (length a + length (c @ [x]))) =
      pop_scan (a @ CHR ''/'' # c @ (x # r)) (Suc (length a + length c))"
    using snoc.prems by auto
  then show ?case using snoc.IH [of "x # r"] snoc.prems by simp
qed

lemma pe_pop_component_spec:
  assumes "path_rep out len st"
  shows "\<exists>out' len'. pe_pop_component out len = Some (out', len') \<and> path_rep out' len' (butlast st) \<and>
    length out' = length out"
proof (cases st rule: rev_cases)
  case Nil
  then show ?thesis using assms by (auto simp: path_rep_def pe_pop_component_def path_str_def)
next
  case (snoc st' c)
  have ok: "stack_ok st'" "part_ok c" using assms snoc by (simp_all add: path_rep_def stack_ok_snoc)
  obtain r where r: "out = path_render st' @ CHR ''/'' # c @ NUL # r"
    "len = Suc (length (path_render st') + length c)"
    using assms snoc by (auto simp: path_rep_def path_str_snoc)
  have c: "0 < length c" "CHR ''/'' \<notin> set c" using ok(2) by (auto simp: part_ok_def)
  have scan: "pop_scan out len = Some (Suc (length (path_render st')))"
    unfolding r by (rule pop_scan_stop [OF c(2)])
  define n where "n = (if Suc (length (path_render st')) > 1 then length (path_render st') else 1)"
  have n: "n = length (path_str st')"
    by (cases st' rule: rev_cases) (simp_all add: n_def path_str_def)
  have pre: "take n out = path_str st'"
    by (cases st' rule: rev_cases) (simp_all add: n_def r path_str_def)
  have nl: "n < length out" using c(1) by (simp add: n_def r)
  then have w: "mem_write out (int n) [NUL] = Some (out[n := NUL])" by (simp add: mem_write_single)
  have "out[n := NUL] = path_str st' @ NUL # drop (Suc n) out"
    using nl pre by (simp add: upd_conv_take_nth_drop)
  moreover have "pe_pop_component out len = do { out \<leftarrow> mem_write out (int n) [NUL]; Some (out, n) }"
    using c(1) r(2) scan by (simp add: pe_pop_component_def Let_def n_def)
  then have "pe_pop_component out len = Some (out[n := NUL], n)" using w by simp
  ultimately have "path_rep (out[n := NUL]) n (butlast st)" "pe_pop_component out len = Some (out[n := NUL], n)"
    using snoc ok(1) n by (auto simp: path_rep_def)
  then show ?thesis by (intro exI [of _ "out[n := NUL]"] exI [of _ n]) simp
qed

lemma pe_consume_spec:
  assumes "path_rep out len st" and "NUL \<notin> set p" and "out_size = length out"
  shows "if parts_fit out_size st (path_parts p)
    then \<exists>out' len'. pe_consume p out out_size len = Some (Inr (out', len')) \<and>
       path_rep out' len' (norm st p) \<and> length out' = length out
    else pe_consume p out out_size len = Some (Inl ENAMETOOLONG)"
  using assms
proof (induction "length p" arbitrary: p out len st rule: less_induct)
  case less
  let ?p = "dropWhile (\<lambda>c. c = CHR ''/'') p"
  let ?part = "takeWhile (\<lambda>c. c \<noteq> CHR ''/'') ?p" and ?rest = "dropWhile (\<lambda>c. c \<noteq> CHR ''/'') ?p"
  show ?case
  proof (cases "?p = []")
    case True
    have "path_parts p = []" using True by (simp add: path_parts.simps Let_def)
    moreover have "pe_consume p out out_size len = Some (Inr (out, len))"
      using True by (simp add: pe_consume.simps)
    ultimately show ?thesis using less.prems by (simp add: norm_def)
  next
    case False
    have parts: "path_parts p = ?part # path_parts ?rest"
      using False by (subst path_parts.simps) (simp add: Let_def del: dropWhile_eq_Nil_conv)
    have short: "length ?rest < length p" by (rule next_part_shorter [OF False])
    have nul: "NUL \<notin> set ?rest" "NUL \<notin> set ?part" "CHR ''/'' \<notin> set ?part"
      using less.prems(2) by (auto dest!: set_dropWhileD set_takeWhileD)
    note IH = less.hyps [OF short _ nul(1)]
    have eq: "pe_consume p out out_size len =
        (if ?part = ''.'' then pe_consume ?rest out out_size len
         else if ?part = ''..'' then do {
           (out, len) \<leftarrow> pe_pop_component out len; pe_consume ?rest out out_size len }
         else (case pe_append_component out out_size len ?part of
            None \<Rightarrow> None
          | Some (Inl e) \<Rightarrow> Some (Inl e)
          | Some (Inr (out, len)) \<Rightarrow> pe_consume ?rest out out_size len))"
      using False by (subst pe_consume.simps) (simp add: Let_def del: dropWhile_eq_Nil_conv)
    have norm: "norm st p = norm (norm_step st ?part) ?rest" by (simp add: norm_def parts)
    have len: "length (path_str st) < out_size" using less.prems(1,3) by (auto simp: path_rep_def)
    consider (dot) "?part = ''.''" | (up) "?part = ''..''"
      | (name) "?part \<noteq> ''.''" "?part \<noteq> ''..''" by blast
    then show ?thesis
    proof cases
      case dot
      then show ?thesis using IH [OF less.prems(1,3)] eq len
        unfolding parts norm by (simp add: norm_step_def)
    next
      case up
      obtain out' len' where o: "pe_pop_component out len = Some (out', len')" "path_rep out' len' (butlast st)"
        "length out' = length out" using pe_pop_component_spec [OF less.prems(1)] by blast
      have "length (path_str (butlast st)) < out_size" using o less.prems(3) by (auto simp: path_rep_def)
      moreover have "out_size = length out'" using o(3) less.prems(3) by simp
      moreover have "pe_consume p out out_size len = pe_consume ?rest out' out_size len'" using eq up o(1) by simp
      moreover have "norm_step st ?part = butlast st" using up by (simp add: norm_step_def)
      ultimately show ?thesis using IH [OF o(2)] o(3) unfolding parts norm by (simp split: if_split_asm)
    next
      case name
      then have ok: "part_ok ?part" using takeWhile_part [OF False] nul by (simp add: part_ok_def)
      note A = pe_append_component_spec [OF less.prems(1) ok less.prems(3)]
      have step: "norm_step st ?part = st @ [?part]" using name by (simp add: norm_step_def)
      show ?thesis
      proof (cases "length (path_str (st @ [?part])) < out_size")
        case True
        then obtain out' len' where o: "pe_append_component out out_size len ?part = Some (Inr (out', len'))"
          "path_rep out' len' (st @ [?part])" "length out' = length out" using A by auto
        have "out_size = length out'" using o(3) less.prems(3) by simp
        then show ?thesis using IH [OF o(2)] o eq name True unfolding parts norm
          by (simp add: step split: if_split_asm)
      next
        case nofit: False
        then show ?thesis using A eq name unfolding parts by (simp add: step)
      qed
    qed
  qed
qed

section \<open>Resolution\<close>

text \<open>A buffer that holds a working directory: a printed stack, NUL-terminated.\<close>

definition cwd_ok :: "bytes \<Rightarrow> bytes list \<Rightarrow> bool" where
  "cwd_ok cwd st \<longleftrightarrow> stack_ok st \<and> length cwd = PE_PATH_MAX \<and> (\<exists>r. cwd = path_str st @ NUL # r)"

lemma cwd_ok_str: "cwd_ok cwd st \<Longrightarrow> c_str cwd = path_str st"
  unfolding cwd_ok_def using path_str_NUL c_str_append_NUL by blast

text \<open>Parsing a printed stack gives the stack back.\<close>

lemma path_parts_slash: "path_parts (CHR ''/'' # p) = path_parts p"
  by (subst (1 2) path_parts.simps) (simp add: Let_def)

lemma path_parts_cons:
  assumes "c \<noteq> []" and "CHR ''/'' \<notin> set c"
  shows "path_parts (c @ CHR ''/'' # p) = c # path_parts p" and "path_parts c = [c]"
proof -
  have d: "dropWhile (\<lambda>x. x = CHR ''/'') (c @ q) = c @ q" for q
    using assms by (cases c) auto
  have t: "takeWhile (\<lambda>x. x \<noteq> CHR ''/'') c = c" "dropWhile (\<lambda>x. x \<noteq> CHR ''/'') c = []"
    using assms(2) by (auto simp: takeWhile_eq_all_conv)
  have q: "takeWhile (\<lambda>x. x \<noteq> CHR ''/'') (c @ CHR ''/'' # p) = c"
    "dropWhile (\<lambda>x. x \<noteq> CHR ''/'') (c @ CHR ''/'' # p) = CHR ''/'' # p"
    using assms(2) by (auto simp: takeWhile_append dropWhile_append)
  show "path_parts (c @ CHR ''/'' # p) = c # path_parts p"
    using assms(1) by (subst path_parts.simps) (simp add: d q Let_def path_parts_slash del: dropWhile_eq_Nil_conv)
  show "path_parts c = [c]"
    using assms(1) d [of "[]"] t by (subst path_parts.simps) (simp add: Let_def path_parts.simps del: dropWhile_eq_Nil_conv)
qed

lemma path_parts_render: "stack_ok st \<Longrightarrow> path_parts (path_render st) = st"
proof (induction st)
  case Nil
  show ?case by (simp add: path_parts.simps)
next
  case (Cons c st)
  have c: "c \<noteq> []" "CHR ''/'' \<notin> set c" using Cons.prems by (simp_all add: stack_ok_def part_ok_def)
  have "path_render (c # st) = CHR ''/'' # c @ path_render st" by (simp add: path_render_def)
  moreover have "path_parts (c @ path_render st) = c # st"
  proof (cases st)
    case (Cons d st')
    then obtain q where q: "path_render st = CHR ''/'' # q" by (simp add: path_render_def)
    have "path_parts q = st" using Cons.IH Cons.prems q path_parts_slash [of q] by (simp add: stack_ok_def)
    then show ?thesis using path_parts_cons(1) [OF c, of q] q by simp
  qed (use path_parts_cons(2) [OF c] in simp)
  ultimately show ?case by (simp add: path_parts_slash)
qed

lemma path_parts_path_str: "stack_ok st \<Longrightarrow> path_parts (path_str st) = st"
  by (simp add: path_str_def path_parts_render) (simp add: path_parts.simps)

lemma foldl_norm_stack: "stack_ok (st @ ps) \<Longrightarrow> foldl norm_step st ps = st @ ps"
proof (induction ps arbitrary: st)
  case (Cons p ps)
  then have "norm_step st p = st @ [p]" by (auto simp: norm_step_def stack_ok_def part_ok_def)
  then show ?case using Cons.IH [of "st @ [p]"] Cons.prems by simp
qed simp

lemma norm_path_str: "stack_ok st \<Longrightarrow> norm [] (path_str st) = st"
  using foldl_norm_stack [of "[]" st] by (simp add: norm_def path_parts_path_str)

lemma path_str_prefix: "length (path_str st) \<le> length (path_str (st @ ps))"
proof (cases ps)
  case (Cons p ps')
  then show ?thesis by (simp add: path_str_def path_render_def)
qed simp

lemma parts_fit_stack:
  "stack_ok (st @ ps) \<Longrightarrow> length (path_str (st @ ps)) < n \<Longrightarrow> parts_fit n st ps"
proof (induction ps arbitrary: st)
  case (Cons p ps)
  then have "norm_step st p = st @ [p]" by (auto simp: norm_step_def stack_ok_def part_ok_def)
  then show ?case using Cons path_str_prefix [of "st @ [p]" ps] by auto
qed simp

text \<open>Where resolution starts: the root, or the working directory.\<close>

definition base_stack :: "bytes list \<Rightarrow> bytes \<Rightarrow> bytes list" where
  "base_stack st path = (if take 1 path = ''/'' then [] else st)"

lemma pe_path_resolve_spec:
  assumes "cwd_ok cwd st" and "length out = n" and "length (path_str st) < n" and "2 \<le> n"
  shows "if parts_fit n (base_stack st (c_str path)) (path_parts (c_str path))
    then \<exists>out'. pe_path_resolve cwd (Some path) (Some out) n = Some (Inr out') \<and> length out' = n \<and>
       path_rep out' (length (path_str (norm (base_stack st (c_str path)) (c_str path))))
         (norm (base_stack st (c_str path)) (c_str path))
    else pe_path_resolve cwd (Some path) (Some out) n = Some (Inl ENAMETOOLONG)"
proof -
  let ?p = "c_str path" and ?o = "out[0 := CHR ''/'', 1 := NUL]"
  obtain a b r where o: "out = a # b # r" using assms(2,4) by (metis Suc_le_length_iff numeral_2_eq_2)
  have st: "stack_ok st" using assms(1) by (simp add: cwd_ok_def)
  have w: "mem_write out 0 [CHR ''/''] = Some (out[0 := CHR ''/''])"
    "mem_write (out[0 := CHR ''/'']) 1 [NUL] = Some ?o"
    using o by (simp_all add: mem_write_def)
  have rep0: "path_rep ?o 1 []" using o by (simp add: path_rep_def stack_ok_def path_str_def)
  have len0: "n = length ?o" using assms(2) by simp
  have nn: "\<not> n < 2" using assms(4) by simp
  have "\<exists>o1 l1. (if take 1 ?p \<noteq> ''/'' then pe_consume (c_str cwd) ?o n 1 else Some (Inr (?o, 1))) =
      Some (Inr (o1, l1)) \<and> path_rep o1 l1 (base_stack st ?p) \<and> length o1 = n"
  proof (cases "take 1 ?p = ''/''")
    case True
    then show ?thesis using rep0 len0 by (simp add: base_stack_def)
  next
    case False
    have "parts_fit n [] (path_parts (c_str cwd))"
      unfolding cwd_ok_str [OF assms(1)] path_parts_path_str [OF st] using st assms(3) parts_fit_stack [of "[]" st n] by simp
    then show ?thesis using pe_consume_spec [OF rep0 c_str_no_NUL len0, of cwd] False
        norm_path_str [OF st] cwd_ok_str [OF assms(1)] assms(2) by (simp add: base_stack_def)
  qed
  then obtain o1 l1 where o1: "(if take 1 ?p \<noteq> ''/'' then pe_consume (c_str cwd) ?o n 1 else Some (Inr (?o, 1))) =
      Some (Inr (o1, l1))" "path_rep o1 l1 (base_stack st ?p)" "n = length o1" by blast
  have eq: "pe_path_resolve cwd (Some path) (Some out) n = (do {
      r \<leftarrow> pe_consume ?p o1 n l1; case r of Inl e \<Rightarrow> Some (Inl e) | Inr (out, _) \<Rightarrow> Some (Inr out) })"
    unfolding pe_path_resolve_def using w nn o1(1) by (auto split: if_split_asm)
  note C = pe_consume_spec [OF o1(2) c_str_no_NUL o1(3), of path]
  show ?thesis
  proof (cases "parts_fit n (base_stack st ?p) (path_parts ?p)")
    case True
    then obtain o2 l2 where "pe_consume ?p o1 n l1 = Some (Inr (o2, l2))"
      "path_rep o2 l2 (norm (base_stack st ?p) ?p)" "length o2 = length o1" using C by auto
    moreover from this(2) have "l2 = length (path_str (norm (base_stack st ?p) ?p))" by (simp add: path_rep_def)
    ultimately show ?thesis using eq True o1(3) by auto
  qed (use C eq in simp)
qed

lemma pe_path_chdir_spec:
  assumes "cwd_ok cwd st" and "length stack = PE_PATH_MAX"
  shows "\<exists>r cwd' st'. pe_path_chdir stack stat cwd path = Some (r, cwd') \<and> cwd_ok cwd' st' \<and>
    (if r = Inr () then st' = norm (base_stack st (c_str path)) (c_str path) \<and>
        (\<exists>m. stat (path_str st') = Inr m \<and> is_dir_mode m)
     else cwd' = cwd \<and> st' = st)"
proof -
  let ?q = "norm (base_stack st (c_str path)) (c_str path)"
  have n: "length (path_str st) < PE_PATH_MAX" "2 \<le> PE_PATH_MAX"
    using assms(1) by (auto simp: cwd_ok_def PE_PATH_MAX_def)
  note R = pe_path_resolve_spec [OF assms n, of path]
  show ?thesis
  proof (cases "parts_fit PE_PATH_MAX (base_stack st (c_str path)) (path_parts (c_str path))")
    case False
    then show ?thesis using R assms(1) by (auto simp: pe_path_chdir_def)
  next
    case True
    then obtain out where out: "pe_path_resolve cwd (Some path) (Some stack) PE_PATH_MAX = Some (Inr out)"
      "length out = PE_PATH_MAX" "path_rep out (length (path_str ?q)) ?q" using R by auto
    have s: "c_str out = path_str ?q" by (rule path_rep_c_str [OF out(3)])
    have q: "stack_ok ?q" "length (path_str ?q) < PE_PATH_MAX" using out(2,3) by (auto simp: path_rep_def)
    obtain w where w: "mem_write cwd 0 (path_str ?q @ [NUL]) = Some w" "cwd_ok w ?q"
      using q assms(1) by (simp add: mem_write_def cwd_ok_def)
    show ?thesis
    proof (cases "stat (path_str ?q)")
      case (Inl e)
      then show ?thesis using out(1) s assms(1) by (auto simp: pe_path_chdir_def)
    next
      case (Inr m)
      show ?thesis
      proof (cases "is_dir_mode m")
        case True
        then have "pe_path_chdir stack stat cwd path = Some (Inr (), w)"
          using Inr out(1) s w(1) by (simp add: pe_path_chdir_def)
        then show ?thesis using w(2) Inr True by auto
      next
        case False
        then have "pe_path_chdir stack stat cwd path = Some (Inl ENOTDIR, cwd)"
          using Inr out(1) s by (simp add: pe_path_chdir_def)
        then show ?thesis using assms(1) by auto
      qed
    qed
  qed
qed

section \<open>What the file modules rely on\<close>

text \<open>The normal form of a path that fits the path buffers.\<close>

definition canonical :: "bytes \<Rightarrow> bool" where
  "canonical q \<longleftrightarrow> (\<exists>st. stack_ok st \<and> q = path_str st \<and> length q < PE_PATH_MAX)"

locale path_resolver =
  fixes good :: "'cwd \<Rightarrow> bool"
    and resolve :: "'cwd \<Rightarrow> bytes \<Rightarrow> (perr + bytes) option"
  assumes resolve_total: "good c \<Longrightarrow> \<exists>r. resolve c p = Some r"
    and resolve_canonical: "good c \<Longrightarrow> resolve c p = Some (Inr q) \<Longrightarrow> canonical q"
    and resolve_fixed: "good c \<Longrightarrow> canonical q \<Longrightarrow> resolve c q = Some (Inr q)"
begin

text \<open>A resolved path means the same from every working directory.\<close>

lemma resolve_absolute:
  "good c \<Longrightarrow> good c' \<Longrightarrow> resolve c p = Some (Inr q) \<Longrightarrow> resolve c' q = Some (Inr q)"
  using resolve_canonical resolve_fixed by blast

end

text \<open>\<open>pe_os_path\<close> of \<open>modos.c\<close>: resolution into a local buffer, read back as a string.\<close>

definition pe_os_path :: "bytes \<Rightarrow> bytes \<Rightarrow> bytes \<Rightarrow> (perr + bytes) option" where
  "pe_os_path stack cwd path = do {
     r \<leftarrow> pe_path_resolve cwd (Some path) (Some stack) PE_PATH_MAX;
     Some (case r of Inl e \<Rightarrow> Inl e | Inr out \<Rightarrow> Inr (c_str out))
   }"

definition cwd_good :: "bytes \<Rightarrow> bool" where
  "cwd_good cwd \<longleftrightarrow> (\<exists>st. cwd_ok cwd st)"

lemma pe_os_path_spec:
  assumes "cwd_ok cwd st" and "length stack = PE_PATH_MAX"
  shows "pe_os_path stack cwd path = Some
    (if parts_fit PE_PATH_MAX (base_stack st (c_str path)) (path_parts (c_str path))
     then Inr (path_str (norm (base_stack st (c_str path)) (c_str path))) else Inl ENAMETOOLONG)"
    and "parts_fit PE_PATH_MAX (base_stack st (c_str path)) (path_parts (c_str path)) \<Longrightarrow>
      canonical (path_str (norm (base_stack st (c_str path)) (c_str path)))"
proof -
  have n: "length (path_str st) < PE_PATH_MAX" "2 \<le> PE_PATH_MAX"
    using assms(1) by (auto simp: cwd_ok_def PE_PATH_MAX_def)
  let ?fit = "parts_fit PE_PATH_MAX (base_stack st (c_str path)) (path_parts (c_str path))"
  let ?q = "norm (base_stack st (c_str path)) (c_str path)"
  note R = pe_path_resolve_spec [OF assms n, of path]
  show "pe_os_path stack cwd path = Some (if ?fit then Inr (path_str ?q) else Inl ENAMETOOLONG)"
  proof (cases ?fit)
    case True
    then obtain out where "pe_path_resolve cwd (Some path) (Some stack) PE_PATH_MAX = Some (Inr out)"
      "path_rep out (length (path_str ?q)) ?q" using R by auto
    then show ?thesis using True path_rep_c_str by (simp add: pe_os_path_def)
  qed (use R in \<open>simp add: pe_os_path_def\<close>)
  show "canonical (path_str ?q)" if fit: ?fit
  proof -
    obtain out where "length out = PE_PATH_MAX" "path_rep out (length (path_str ?q)) ?q" using R fit by auto
    then show ?thesis by (auto simp: path_rep_def canonical_def)
  qed
qed

lemma c_str_id: "NUL \<notin> set q \<Longrightarrow> c_str q = q"
  by (simp add: c_str_def takeWhile_eq_all_conv) metis

lemma path_str_slash: "take 1 (path_str st) = ''/''"
  by (cases st) (simp_all add: path_str_def path_render_def)

interpretation pr: path_resolver cwd_good "pe_os_path (replicate PE_PATH_MAX junk)"
proof
  fix c p assume g: "cwd_good c"
  then obtain st where st: "cwd_ok c st" by (auto simp: cwd_good_def)
  have l: "length (replicate PE_PATH_MAX junk) = PE_PATH_MAX" by simp
  note S = pe_os_path_spec [OF st l]
  show "\<exists>r. pe_os_path (replicate PE_PATH_MAX junk) c p = Some r" using S(1) by blast
  show "canonical q" if "pe_os_path (replicate PE_PATH_MAX junk) c p = Some (Inr q)" for q
    using that S [of p] by (simp split: if_splits)
  show "pe_os_path (replicate PE_PATH_MAX junk) c q = Some (Inr q)" if q: "canonical q" for q
  proof -
    from q obtain sq where sq: "stack_ok sq" "q = path_str sq" "length q < PE_PATH_MAX"
      by (auto simp: canonical_def)
    have c: "c_str q = q" using sq(1,2) path_str_NUL by (simp add: c_str_id)
    have b: "base_stack st q = []" using path_str_slash [of sq] sq(2) by (simp add: base_stack_def)
    have "parts_fit PE_PATH_MAX [] (path_parts q)"
      using parts_fit_stack [of "[]" sq PE_PATH_MAX] sq path_parts_path_str [OF sq(1)] by simp
    then show ?thesis using S(1) [of q] c b sq(2) norm_path_str [OF sq(1)] by simp
  qed
qed

section \<open>Properties\<close>

text \<open>The directory the program starts in.\<close>

definition root_cwd :: bytes where
  "root_cwd = CHR ''/'' # replicate 255 NUL"

lemma root_cwd_ok: "cwd_ok root_cwd []"
  by (simp add: cwd_ok_def root_cwd_def path_str_def stack_ok_def PE_PATH_MAX_def eval_nat_numeral)

text \<open>C5: resolving a path writes the NUL-terminated text of its normal form into the buffer: the
  components of the working directory (none for an absolute path) followed by those of the path, with
  empty and \<open>.\<close> components dropped and \<open>..\<close> removing the component before it.  If a stack met on the
  way does not fit, the result is ENAMETOOLONG; no byte outside the buffer is accessed.\<close>

theorem pe_path_resolve_correct:
  assumes "cwd_ok cwd st" and "length out = n" and "length (path_str st) < n" and "2 \<le> n"
  shows "\<exists>r. pe_path_resolve cwd (Some path) (Some out) n = Some r \<and>
    (if parts_fit n (base_stack st (c_str path)) (path_parts (c_str path))
     then \<exists>out'. r = Inr out' \<and> length out' = n \<and>
       c_str out' = path_str (norm (base_stack st (c_str path)) (c_str path))
     else r = Inl ENAMETOOLONG)"
  using pe_path_resolve_spec [OF assms, of path] path_rep_c_str by (fastforce split: if_splits)

theorem pe_path_resolve_correct_witness:
  "\<exists>out'. pe_path_resolve root_cwd (Some ''a/./b//../c'') (Some (replicate 8 NUL)) 8 = Some (Inr out') \<and>
     c_str out' = ''/a/c''"
proof -
  have s: "c_str ''a/./b//../c'' = ''a/./b//../c''" by code_simp
  have f: "parts_fit 8 [] (path_parts ''a/./b//../c'')" "path_str (norm [] ''a/./b//../c'') = ''/a/c''"
    by code_simp+
  have b: "base_stack [] ''a/./b//../c'' = []" by code_simp
  have l: "length (replicate 8 NUL) = (8 :: nat)" "length (path_str []) < (8 :: nat)" "2 \<le> (8 :: nat)"
    by (simp_all add: path_str_def)
  show ?thesis using pe_path_resolve_correct [OF root_cwd_ok l, of "''a/./b//../c''"] f unfolding s b
    by auto
qed

text \<open>C30: resolution is idempotent and independent of the working directory: the result of a
  resolution resolves to itself from every working directory.\<close>

theorem pe_os_path_idempotent:
  assumes "cwd_good cwd" and "cwd_good cwd'"
    and "pe_os_path (replicate PE_PATH_MAX junk) cwd path = Some (Inr q)"
  shows "pe_os_path (replicate PE_PATH_MAX junk) cwd' q = Some (Inr q) \<and> canonical q"
  using pr.resolve_absolute [OF assms] pr.resolve_canonical [OF assms(1,3)] by blast

theorem pe_os_path_idempotent_witness:
  "pe_os_path (replicate PE_PATH_MAX NUL) root_cwd ''/x/y'' = Some (Inr ''/x/y'') \<and> canonical ''/x/y''"
proof -
  have g: "cwd_good root_cwd" using root_cwd_ok by (auto simp: cwd_good_def)
  have l: "length (replicate PE_PATH_MAX NUL) = PE_PATH_MAX" by simp
  have s: "c_str ''x/../x/y'' = ''x/../x/y''" "base_stack [] ''x/../x/y'' = []" by code_simp+
  have f: "parts_fit PE_PATH_MAX [] (path_parts ''x/../x/y'')" "path_str (norm [] ''x/../x/y'') = ''/x/y''"
    by code_simp+
  have "pe_os_path (replicate PE_PATH_MAX NUL) root_cwd ''x/../x/y'' = Some (Inr ''/x/y'')"
    using pe_os_path_spec(1) [OF root_cwd_ok l, of "''x/../x/y''"] f s by simp
  from pe_os_path_idempotent [OF g g this] show ?thesis .
qed

text \<open>C31: changing directory always leaves the working directory in normal form.  On success it
  is the resolved path and the file system says that is a directory; on every error, a too long
  path, a failing \<open>stat\<close> or a file that is no directory, it is unchanged.\<close>

theorem pe_path_chdir_correct:
  assumes "cwd_ok cwd st" and "length stack = PE_PATH_MAX"
  shows "\<exists>r cwd' st'. pe_path_chdir stack stat cwd path = Some (r, cwd') \<and> cwd_ok cwd' st' \<and>
    (if r = Inr () then st' = norm (base_stack st (c_str path)) (c_str path) \<and>
        (\<exists>m. stat (path_str st') = Inr m \<and> is_dir_mode m)
     else cwd' = cwd \<and> st' = st)"
  by (rule pe_path_chdir_spec [OF assms])

theorem pe_path_chdir_correct_witness:
  "\<exists>r cwd' st'. pe_path_chdir (replicate PE_PATH_MAX NUL) (\<lambda>_. Inr 16877) root_cwd ''lib'' = Some (r, cwd') \<and>
     cwd_ok cwd' st'"
  using pe_path_chdir_correct [OF root_cwd_ok, of "replicate PE_PATH_MAX NUL" "\<lambda>_. Inr 16877" "''lib''"]
  by fastforce

end
