(* ===== verification/OsModule.thy ===== *)
theory OsModule
  imports PathUtil
begin

text \<open>
  The file modules of the port: \<open>ports/sh/modos.c\<close> (the Python module \<open>os\<close>) and
  \<open>ports/sh/fdfile.c\<close> (Python file objects over descriptors).  The calculator's file system is
  not part of the repository: it is an argument, a record of functions on a state of its own
  type, reached in the C code through \<open>gint_world_switch\<close>.  A Python exception is a value.

  Shown here: every operation hands only canonical absolute paths to the file system, whatever
  string it was given; a failing call leaves the working directory unchanged; the mode string of
  \<open>open\<close> selects the documented flags; a closed file object refuses every operation.
\<close>

section \<open>The file system, a parameter\<close>

record 'fs fs_ops =
  fs_stat :: "'fs \<Rightarrow> bytes \<Rightarrow> int + int list"
  fs_opendir :: "'fs \<Rightarrow> bytes \<Rightarrow> int + bytes list"
  fs_closedir :: "'fs \<Rightarrow> int option"
  fs_mkdir :: "'fs \<Rightarrow> bytes \<Rightarrow> int \<Rightarrow> int option \<times> 'fs"
  fs_remove :: "'fs \<Rightarrow> bytes \<Rightarrow> int option \<times> 'fs"
  fs_rename :: "'fs \<Rightarrow> bytes \<Rightarrow> bytes \<Rightarrow> int option \<times> 'fs"
  fs_rmdir :: "'fs \<Rightarrow> bytes \<Rightarrow> int option \<times> 'fs"

text \<open>
  The state of the module: the working directory and the file system.  A call answers
  \<open>None\<close> for success or \<open>Some errno\<close>.
\<close>

record 'fs os_state =
  os_cwd :: bytes
  os_fs :: 'fs

type_synonym ('fs, 'v) os_result = "((perr + 'v) \<times> 'fs os_state) option"

definition pe_os_check :: "int option \<Rightarrow> 'fs os_state \<Rightarrow> ('fs, unit) os_result" where
  "pe_os_check result s = Some (case result of None \<Rightarrow> Inr () | Some e \<Rightarrow> Inl (FsErr e), s)"

definition pe_os_getcwd :: "'fs os_state \<Rightarrow> bytes" where
  "pe_os_getcwd s = pe_path_getcwd (os_cwd s)"

definition pe_os_chdir :: "'fs fs_ops \<Rightarrow> bytes \<Rightarrow> 'fs os_state \<Rightarrow> bytes \<Rightarrow> ('fs, unit) os_result" where
  "pe_os_chdir F stack s path = do {
     (r, cwd) \<leftarrow> pe_path_chdir stack
       (\<lambda>p. case fs_stat F (os_fs s) p of Inl e \<Rightarrow> Inl e | Inr st \<Rightarrow> Inr (hd (st @ [0]))) (os_cwd s) path;
     Some (r, s\<lparr>os_cwd := cwd\<rparr>)
   }"

definition pe_os_listdir ::
  "'fs fs_ops \<Rightarrow> bytes \<Rightarrow> 'fs os_state \<Rightarrow> bytes option \<Rightarrow> ('fs, bytes list) os_result" where
  "pe_os_listdir F stack s arg = do {
     let input = (case arg of None \<Rightarrow> ''.'' | Some p \<Rightarrow> p);
     r \<leftarrow> pe_os_path stack (os_cwd s) input;
     case r of
       Inl e \<Rightarrow> Some (Inl e, s)
     | Inr resolved \<Rightarrow> (case fs_opendir F (os_fs s) resolved of
         Inl e \<Rightarrow> Some (Inl (FsErr e), s)
       | Inr entries \<Rightarrow>
           let names = filter (\<lambda>d. d \<noteq> ''.'' \<and> d \<noteq> ''..'') entries in
           case fs_closedir F (os_fs s) of
             Some e \<Rightarrow> Some (Inl (FsErr e), s)
           | None \<Rightarrow> Some (Inr names, s))
   }"

definition pe_os_mkdir ::
  "'fs fs_ops \<Rightarrow> bytes \<Rightarrow> 'fs os_state \<Rightarrow> bytes \<Rightarrow> int option \<Rightarrow> ('fs, unit) os_result" where
  "pe_os_mkdir F stack s path arg = do {
     let mode = (case arg of Some m \<Rightarrow> m | None \<Rightarrow> 511);
     r \<leftarrow> pe_os_path stack (os_cwd s) path;
     case r of
       Inl e \<Rightarrow> Some (Inl e, s)
     | Inr p \<Rightarrow> (let (res, fs) = fs_mkdir F (os_fs s) p mode in pe_os_check res (s\<lparr>os_fs := fs\<rparr>))
   }"

definition pe_os_remove :: "'fs fs_ops \<Rightarrow> bytes \<Rightarrow> 'fs os_state \<Rightarrow> bytes \<Rightarrow> ('fs, unit) os_result" where
  "pe_os_remove F stack s path = do {
     r \<leftarrow> pe_os_path stack (os_cwd s) path;
     case r of
       Inl e \<Rightarrow> Some (Inl e, s)
     | Inr p \<Rightarrow> (let (res, fs) = fs_remove F (os_fs s) p in pe_os_check res (s\<lparr>os_fs := fs\<rparr>))
   }"

definition pe_os_rename ::
  "'fs fs_ops \<Rightarrow> bytes \<Rightarrow> bytes \<Rightarrow> 'fs os_state \<Rightarrow> bytes \<Rightarrow> bytes \<Rightarrow> ('fs, unit) os_result" where
  "pe_os_rename F stack1 stack2 s old new = do {
     r \<leftarrow> pe_os_path stack1 (os_cwd s) old;
     case r of
       Inl e \<Rightarrow> Some (Inl e, s)
     | Inr old_path \<Rightarrow> do {
         r \<leftarrow> pe_os_path stack2 (os_cwd s) new;
         case r of
           Inl e \<Rightarrow> Some (Inl e, s)
         | Inr new_path \<Rightarrow>
             (let (res, fs) = fs_rename F (os_fs s) old_path new_path in pe_os_check res (s\<lparr>os_fs := fs\<rparr>))
       }
   }"

definition pe_os_rmdir :: "'fs fs_ops \<Rightarrow> bytes \<Rightarrow> 'fs os_state \<Rightarrow> bytes \<Rightarrow> ('fs, unit) os_result" where
  "pe_os_rmdir F stack s path = do {
     r \<leftarrow> pe_os_path stack (os_cwd s) path;
     case r of
       Inl e \<Rightarrow> Some (Inl e, s)
     | Inr p \<Rightarrow> (let (res, fs) = fs_rmdir F (os_fs s) p in pe_os_check res (s\<lparr>os_fs := fs\<rparr>))
   }"

text \<open>
  The ten fields, in order; the C structure starts out zeroed, so a field the file system leaves
  alone reads as zero.
\<close>

definition pe_os_stat :: "'fs fs_ops \<Rightarrow> bytes \<Rightarrow> 'fs os_state \<Rightarrow> bytes \<Rightarrow> ('fs, int list) os_result" where
  "pe_os_stat F stack s path = do {
     r \<leftarrow> pe_os_path stack (os_cwd s) path;
     case r of
       Inl e \<Rightarrow> Some (Inl e, s)
     | Inr p \<Rightarrow> (case fs_stat F (os_fs s) p of
         Inl e \<Rightarrow> Some (Inl (FsErr e), s)
       | Inr st \<Rightarrow> Some (Inr (take 10 (st @ replicate 10 0)), s))
   }"

section \<open>File objects\<close>

datatype file_type = FileIO | TextIOWrapper
datatype open_rw = O_RDONLY | O_WRONLY | O_RDWR
datatype open_x = X_none | X_creat_trunc | X_creat_append

record fdfile =
  fd_type :: file_type
  fd :: int

text \<open>The loop over the mode string; a later letter overrides an earlier one.\<close>

fun open_mode :: "bytes \<Rightarrow> open_rw \<times> open_x \<times> file_type \<Rightarrow> open_rw \<times> open_x \<times> file_type" where
  "open_mode [] m = m"
| "open_mode (c # cs) (rw, x, t) = open_mode cs
     (if c = CHR ''r'' then (O_RDONLY, x, t)
      else if c = CHR ''w'' then (O_WRONLY, X_creat_trunc, t)
      else if c = CHR ''a'' then (O_WRONLY, X_creat_append, t)
      else if c = CHR ''+'' then (O_RDWR, x, t)
      else if c = CHR ''b'' then (rw, x, FileIO)
      else if c = CHR ''t'' then (rw, x, TextIOWrapper)
      else (rw, x, t))"

text \<open>The first argument of \<open>open\<close> is a descriptor or a name; \<open>sys_open\<close> crosses to the OS.\<close>

datatype file_arg = Fd int | Name bytes

definition fdfile_open ::
  "(bytes \<Rightarrow> open_rw \<Rightarrow> open_x \<Rightarrow> int + int) \<Rightarrow> bytes \<Rightarrow> bytes \<Rightarrow> file_type \<Rightarrow> file_arg \<Rightarrow> bytes \<Rightarrow>
     (perr + fdfile) option" where
  "fdfile_open sys_open stack cwd ftype fid mode_s =
     (let (rw, x, t) = open_mode (c_str mode_s) (O_RDONLY, X_none, ftype) in
      case fid of
        Fd n \<Rightarrow> Some (Inr \<lparr>fd_type = t, fd = n\<rparr>)
      | Name fname \<Rightarrow> do {
          r \<leftarrow> pe_os_path stack cwd fname;
          case r of
            Inl e \<Rightarrow> Some (Inl e)
          | Inr resolved \<Rightarrow> Some (case sys_open resolved rw x of
              Inl e \<Rightarrow> Inl (FsErr e) | Inr n \<Rightarrow> Inr \<lparr>fd_type = t, fd = n\<rparr>)
        })"

datatype stream_err = ValueError | Errno int | Pending int

definition check_fd_is_open :: "fdfile \<Rightarrow> stream_err + unit" where
  "check_fd_is_open self = (if fd self < 0 then Inl ValueError else Inr ())"

text \<open>System calls answer \<open>Inl errno\<close> or \<open>Inr\<close> of their value and change the OS state.\<close>

definition fdfile_read ::
  "('os \<Rightarrow> int \<Rightarrow> int \<Rightarrow> (int + bytes) \<times> 'os) \<Rightarrow> 'os \<Rightarrow> fdfile \<Rightarrow> int \<Rightarrow> (stream_err + bytes) \<times> 'os" where
  "fdfile_read sys_read os self n = (case check_fd_is_open self of
       Inl e \<Rightarrow> (Inl e, os)
     | Inr _ \<Rightarrow> (case sys_read os (fd self) n of
         (Inl e, os) \<Rightarrow> (Inl (Errno e), os)
       | (Inr b, os) \<Rightarrow> (Inr b, os)))"

definition EINTR :: int where
  "EINTR = 4"

text \<open>
  The retry loop: an interrupted write is repeated unless an exception is pending.  It ends
  when the OS stops interrupting; the fuel bounds the number of interruptions.
\<close>

fun fdfile_write_loop ::
  "nat \<Rightarrow> ('os \<Rightarrow> int \<Rightarrow> bytes \<Rightarrow> (int + int) \<times> 'os) \<Rightarrow> ('os \<Rightarrow> (int \<times> 'os) option) \<Rightarrow> 'os \<Rightarrow> int \<Rightarrow> bytes \<Rightarrow>
     ((stream_err + int) \<times> 'os) option" where
  "fdfile_write_loop 0 sys_write pending os n buf = None"
| "fdfile_write_loop (Suc k) sys_write pending os n buf = (case sys_write os n buf of
       (Inr r, os) \<Rightarrow> Some (Inr r, os)
     | (Inl e, os) \<Rightarrow>
         if e \<noteq> EINTR then Some (Inl (Errno e), os)
         else (case pending os of
             Some (x, os) \<Rightarrow> Some (Inl (Pending x), os)
           | None \<Rightarrow> fdfile_write_loop k sys_write pending os n buf))"

definition fdfile_write ::
  "nat \<Rightarrow> ('os \<Rightarrow> int \<Rightarrow> bytes \<Rightarrow> (int + int) \<times> 'os) \<Rightarrow> ('os \<Rightarrow> (int \<times> 'os) option) \<Rightarrow> 'os \<Rightarrow> fdfile \<Rightarrow> bytes \<Rightarrow>
     ((stream_err + int) \<times> 'os) option" where
  "fdfile_write fuel sys_write pending os self buf = (case check_fd_is_open self of
       Inl e \<Rightarrow> Some (Inl e, os)
     | Inr _ \<Rightarrow> fdfile_write_loop fuel sys_write pending os (fd self) buf)"

datatype ioctl_req = MP_STREAM_SEEK int int | MP_STREAM_FLUSH | OtherReq int

text \<open>The descriptor call \<open>lseek\<close>, marshalled through memory.\<close>

definition fdfile_world_seek :: "('os \<Rightarrow> int \<Rightarrow> int \<Rightarrow> int \<Rightarrow> (int + int) \<times> 'os) \<Rightarrow> 'os \<Rightarrow> int \<Rightarrow> int \<Rightarrow> int \<Rightarrow>
    (int + int) \<times> 'os" where
  "fdfile_world_seek sys_lseek os n offset whence = sys_lseek os n offset whence"

definition MP_EINVAL :: int where
  "MP_EINVAL = 22"

text \<open>The result carries the new offset of a seek.\<close>

definition fdfile_ioctl :: "('os \<Rightarrow> int \<Rightarrow> int \<Rightarrow> int \<Rightarrow> (int + int) \<times> 'os) \<Rightarrow> 'os \<Rightarrow> fdfile \<Rightarrow> ioctl_req \<Rightarrow>
    (stream_err + int option) \<times> 'os" where
  "fdfile_ioctl sys_lseek os self req = (case check_fd_is_open self of
       Inl e \<Rightarrow> (Inl e, os)
     | Inr _ \<Rightarrow> (case req of
         MP_STREAM_SEEK offset whence \<Rightarrow> (case fdfile_world_seek sys_lseek os (fd self) offset whence of
             (Inl e, os) \<Rightarrow> (Inl (Errno e), os)
           | (Inr off, os) \<Rightarrow> (Inr (Some off), os))
       | MP_STREAM_FLUSH \<Rightarrow> (Inr None, os)
       | OtherReq r \<Rightarrow> (Inl (Errno MP_EINVAL), os)))"

definition fdfile_close ::
  "('os \<Rightarrow> int \<Rightarrow> int option \<times> 'os) \<Rightarrow> 'os \<Rightarrow> fdfile \<Rightarrow> (stream_err + unit) \<times> fdfile \<times> 'os" where
  "fdfile_close sys_close os self =
     (if fd self < 0 then (Inr (), self, os)
      else (case sys_close os (fd self) of
          (None, os) \<Rightarrow> (Inr (), self\<lparr>fd := -1\<rparr>, os)
        | (Some e, os) \<Rightarrow> (Inl (Errno e), self\<lparr>fd := -1\<rparr>, os)))"

definition fdfile_exit ::
  "('os \<Rightarrow> int \<Rightarrow> int option \<times> 'os) \<Rightarrow> 'os \<Rightarrow> fdfile \<Rightarrow> (stream_err + unit) \<times> fdfile \<times> 'os" where
  "fdfile_exit sys_close os self = fdfile_close sys_close os self"

definition fdfile_fileno :: "fdfile \<Rightarrow> stream_err + int" where
  "fdfile_fileno self = (case check_fd_is_open self of Inl e \<Rightarrow> Inl e | Inr _ \<Rightarrow> Inr (fd self))"

section \<open>Operations of the module as one type\<close>

datatype os_op = Chdir bytes | Listdir "bytes option" | Mkdir bytes "int option" | Remove bytes
  | Rename bytes bytes | Rmdir bytes | Stat bytes

datatype os_val = VNone | VNames "bytes list" | VStat "int list"

definition map_val :: "('v \<Rightarrow> os_val) \<Rightarrow> ('fs, 'v) os_result \<Rightarrow> ('fs, os_val) os_result" where
  "map_val f r = map_option (\<lambda>(v, s). (map_sum id f v, s)) r"

fun os_run :: "'fs fs_ops \<Rightarrow> bytes \<Rightarrow> 'fs os_state \<Rightarrow> os_op \<Rightarrow> ('fs, os_val) os_result" where
  "os_run F st s (Chdir p) = map_val (\<lambda>_. VNone) (pe_os_chdir F st s p)"
| "os_run F st s (Listdir p) = map_val VNames (pe_os_listdir F st s p)"
| "os_run F st s (Mkdir p m) = map_val (\<lambda>_. VNone) (pe_os_mkdir F st s p m)"
| "os_run F st s (Remove p) = map_val (\<lambda>_. VNone) (pe_os_remove F st s p)"
| "os_run F st s (Rename p q) = map_val (\<lambda>_. VNone) (pe_os_rename F st st s p q)"
| "os_run F st s (Rmdir p) = map_val (\<lambda>_. VNone) (pe_os_rmdir F st s p)"
| "os_run F st s (Stat p) = map_val VStat (pe_os_stat F st s p)"

text \<open>Two file systems that behave alike on canonical paths.\<close>

definition fs_agree :: "'fs fs_ops \<Rightarrow> 'fs fs_ops \<Rightarrow> bool" where
  "fs_agree F G \<longleftrightarrow> fs_closedir F = fs_closedir G \<and>
     (\<forall>fs p. canonical p \<longrightarrow> fs_stat F fs p = fs_stat G fs p \<and> fs_opendir F fs p = fs_opendir G fs p \<and>
        fs_mkdir F fs p = fs_mkdir G fs p \<and> fs_remove F fs p = fs_remove G fs p \<and>
        fs_rmdir F fs p = fs_rmdir G fs p \<and>
        (\<forall>q. canonical q \<longrightarrow> fs_rename F fs p q = fs_rename G fs p q))"

abbreviation stack0 :: bytes where
  "stack0 \<equiv> replicate PE_PATH_MAX NUL"

text \<open>Resolution either fails or yields a canonical path.\<close>

lemma pe_os_path_cases:
  assumes "cwd_good cwd"
  obtains (err) e where "pe_os_path stack0 cwd p = Some (Inl e)"
    | (ok) q where "pe_os_path stack0 cwd p = Some (Inr q)" and "canonical q"
  using pr.resolve_total [OF assms, of NUL p] pr.resolve_canonical [OF assms, of NUL p]
  by (metis sum.exhaust)

lemma pe_path_chdir_agree:
  assumes "cwd_good cwd" and "\<And>q. canonical q \<Longrightarrow> f q = g q"
  shows "pe_path_chdir stack0 f cwd p = pe_path_chdir stack0 g cwd p"
proof (rule pe_os_path_cases [OF assms(1), of p])
  fix q assume q: "pe_os_path stack0 cwd p = Some (Inr q)" "canonical q"
  then obtain out where "pe_path_resolve cwd (Some p) (Some stack0) PE_PATH_MAX = Some (Inr out)" "c_str out = q"
    by (auto simp: pe_os_path_def split: Option.bind_splits sum.splits)
  then show ?thesis using assms(2) [OF q(2)] by (simp add: pe_path_chdir_def)
next
  fix e assume "pe_os_path stack0 cwd p = Some (Inl e)"
  then have "pe_path_resolve cwd (Some p) (Some stack0) PE_PATH_MAX = Some (Inl e)"
    by (auto simp: pe_os_path_def split: Option.bind_splits sum.splits)
  then show ?thesis by (simp add: pe_path_chdir_def)
qed

lemma chdir_result:
  assumes "cwd_good cwd"
  obtains r cwd' where "pe_path_chdir stack0 f cwd p = Some (r, cwd')" and "cwd_good cwd'"
    and "\<And>e. r = Inl e \<Longrightarrow> cwd' = cwd"
proof -
  from assms obtain st where st: "cwd_ok cwd st" by (auto simp: cwd_good_def)
  have l: "length stack0 = PE_PATH_MAX" by simp
  obtain r cwd' st' where *: "pe_path_chdir stack0 f cwd p = Some (r, cwd')" "cwd_ok cwd' st'"
      "if r = Inr () then st' = norm (base_stack st (c_str p)) (c_str p) \<and>
        (\<exists>m. f (path_str st') = Inr m \<and> is_dir_mode m) else cwd' = cwd \<and> st' = st"
    using pe_path_chdir_spec [OF st l, of f p] by blast
  show thesis by (rule that [OF *(1)]) (use * in \<open>auto simp: cwd_good_def\<close>)
qed

lemma map_sum_Inl: "map_sum id f r = Inl e \<longleftrightarrow> r = Inl e"
  by (cases r) simp_all

lemmas os_op_defs = pe_os_chdir_def pe_os_listdir_def pe_os_mkdir_def pe_os_remove_def pe_os_rename_def
  pe_os_rmdir_def pe_os_stat_def map_val_def pe_os_check_def Let_def

lemma os_run_total:
  assumes "cwd_good (os_cwd s)"
  shows "\<exists>r s'. os_run F stack0 s op = Some (r, s') \<and> cwd_good (os_cwd s') \<and>
    ((\<exists>e. r = Inl e) \<or> (\<forall>p. op \<noteq> Chdir p) \<longrightarrow> os_cwd s' = os_cwd s)"
proof (cases op)
  case (Chdir p)
  show ?thesis
    by (rule chdir_result [OF assms, of "\<lambda>p. case fs_stat F (os_fs s) p of Inl e \<Rightarrow> Inl e | Inr st \<Rightarrow> Inr (hd (st @ [0]))" p])
      (auto simp: Chdir os_op_defs map_sum_Inl)
next
  case (Listdir p)
  show ?thesis
    by (rule pe_os_path_cases [OF assms, of "case p of None \<Rightarrow> ''.'' | Some p \<Rightarrow> p"])
      (use assms in \<open>auto simp: Listdir os_op_defs split: sum.splits option.splits\<close>)
next
  case (Mkdir p m)
  show ?thesis by (rule pe_os_path_cases [OF assms, of p])
      (use assms in \<open>auto simp: Mkdir os_op_defs split: prod.splits option.splits\<close>)
next
  case (Remove p)
  show ?thesis by (rule pe_os_path_cases [OF assms, of p])
      (use assms in \<open>auto simp: Remove os_op_defs split: prod.splits option.splits\<close>)
next
  case (Rename p q)
  show ?thesis
    by (rule pe_os_path_cases [OF assms, of p]; rule pe_os_path_cases [OF assms, of q])
      (use assms in \<open>auto simp: Rename os_op_defs split: prod.splits option.splits\<close>)
next
  case (Rmdir p)
  show ?thesis by (rule pe_os_path_cases [OF assms, of p])
      (use assms in \<open>auto simp: Rmdir os_op_defs split: prod.splits option.splits\<close>)
next
  case (Stat p)
  show ?thesis by (rule pe_os_path_cases [OF assms, of p])
      (use assms in \<open>auto simp: Stat os_op_defs split: sum.splits\<close>)
qed

lemma os_run_agree:
  assumes "cwd_good (os_cwd s)" and "fs_agree F G"
  shows "os_run F stack0 s op = os_run G stack0 s op"
proof (cases op)
  case (Chdir p)
  have "pe_path_chdir stack0 (\<lambda>p. case fs_stat F (os_fs s) p of Inl e \<Rightarrow> Inl e | Inr st \<Rightarrow> Inr (hd (st @ [0]))) (os_cwd s) p
      = pe_path_chdir stack0 (\<lambda>p. case fs_stat G (os_fs s) p of Inl e \<Rightarrow> Inl e | Inr st \<Rightarrow> Inr (hd (st @ [0]))) (os_cwd s) p"
    by (rule pe_path_chdir_agree [OF assms(1)]) (use assms(2) in \<open>simp add: fs_agree_def\<close>)
  then show ?thesis by (simp add: Chdir os_op_defs)
next
  case (Listdir p)
  show ?thesis
    by (rule pe_os_path_cases [OF assms(1), of "case p of None \<Rightarrow> ''.'' | Some p \<Rightarrow> p"])
      (use assms(2) in \<open>simp_all add: Listdir os_op_defs fs_agree_def split: sum.split\<close>)
next
  case (Rename p q)
  show ?thesis
    by (rule pe_os_path_cases [OF assms(1), of p]; rule pe_os_path_cases [OF assms(1), of q])
      (use assms(2) in \<open>simp_all add: Rename os_op_defs fs_agree_def\<close>)
next
  case (Mkdir p m)
  show ?thesis by (rule pe_os_path_cases [OF assms(1), of p])
      (use assms(2) in \<open>simp_all add: Mkdir os_op_defs fs_agree_def\<close>)
next
  case (Remove p)
  show ?thesis by (rule pe_os_path_cases [OF assms(1), of p])
      (use assms(2) in \<open>simp_all add: Remove os_op_defs fs_agree_def\<close>)
next
  case (Rmdir p)
  show ?thesis by (rule pe_os_path_cases [OF assms(1), of p])
      (use assms(2) in \<open>simp_all add: Rmdir os_op_defs fs_agree_def\<close>)
next
  case (Stat p)
  show ?thesis by (rule pe_os_path_cases [OF assms(1), of p])
      (use assms(2) in \<open>simp_all add: Stat os_op_defs fs_agree_def\<close>)
qed

text \<open>A session: operations one after the other, Python code carrying on after an exception.\<close>

inductive os_reach :: "'fs fs_ops \<Rightarrow> 'fs os_state \<Rightarrow> 'fs os_state \<Rightarrow> bool" for F where
  os_start: "os_reach F s s"
| os_next: "os_reach F s s' \<Longrightarrow> os_run F stack0 s' op = Some (r, s'') \<Longrightarrow> os_reach F s s''"

lemma os_reach_cwd: "os_reach F s s' \<Longrightarrow> cwd_good (os_cwd s) \<Longrightarrow> cwd_good (os_cwd s')"
proof (induction rule: os_reach.induct)
  case (os_next s s' op r s'')
  then show ?case using os_run_total [of s' F op] by auto
qed simp

section \<open>Properties\<close>

text \<open>C12: whatever strings a program passes to the functions of \<open>os\<close>, in any order, the file system
  only ever sees canonical absolute paths: after any session from the start directory, replacing the
  file system by one that agrees with it on canonical paths changes no result.\<close>

theorem os_paths_canonical:
  assumes "os_reach F \<lparr>os_cwd = root_cwd, os_fs = fs\<rparr> s" and "fs_agree F G"
  shows "os_run F stack0 s op = os_run G stack0 s op \<and> cwd_good (os_cwd s) \<and>
    (\<exists>r s'. os_run F stack0 s op = Some (r, s'))"
proof -
  have "cwd_good root_cwd" using root_cwd_ok by (auto simp: cwd_good_def)
  then have g: "cwd_good (os_cwd s)" using os_reach_cwd [OF assms(1)] by simp
  then show ?thesis using os_run_agree [OF g assms(2)] os_run_total [OF g, of F op] by blast
qed

text \<open>A file system with no files, that counts the directories made.\<close>

definition fs_demo :: "nat fs_ops" where
  "fs_demo = \<lparr>fs_stat = (\<lambda>_ _. Inl 2), fs_opendir = (\<lambda>_ _. Inl 2), fs_closedir = (\<lambda>_. None),
     fs_mkdir = (\<lambda>n _ _. (None, Suc n)), fs_remove = (\<lambda>n _. (Some 2, n)),
     fs_rename = (\<lambda>n _ _. (Some 2, n)), fs_rmdir = (\<lambda>n _. (Some 2, n))\<rparr>"

theorem os_paths_canonical_witness:
  "os_run fs_demo stack0 \<lparr>os_cwd = root_cwd, os_fs = 0\<rparr> (Mkdir ''../x'' None) =
   os_run (fs_demo\<lparr>fs_mkdir := \<lambda>n p m. if canonical p then (None, Suc n) else (Some 22, n)\<rparr>) stack0
     \<lparr>os_cwd = root_cwd, os_fs = 0\<rparr> (Mkdir ''../x'' None)"
proof -
  have "fs_agree fs_demo (fs_demo\<lparr>fs_mkdir := \<lambda>n p m. if canonical p then (None, Suc n) else (Some 22, n)\<rparr>)"
    by (simp add: fs_agree_def fs_demo_def)
  from os_paths_canonical [OF os_start this, of 0 "Mkdir ''../x'' None"] show ?thesis by blast
qed



text \<open>A \<open>+\<close> written before the letter, which Python accepts as the same mode, is overridden
  by it: the file is opened for one direction only.\<close>

lemma open_mode_plus_first:
  "open_mode ''+r'' (O_RDONLY, X_none, t) = (O_RDONLY, X_none, t) \<and>
   open_mode ''r+'' (O_RDONLY, X_none, t) = (O_RDWR, X_none, t)"
  by simp

text \<open>C33: once closed, with or without an error of the OS, a file object refuses to read, write,
  seek and tell its number with ValueError, without any system call, and closing it again does
  nothing.\<close>

theorem fdfile_closed:
  assumes "fdfile_close sys_close os f = (r, f', os')"
  shows "fdfile_read sys_read os' f' n = (Inl ValueError, os') \<and>
    fdfile_write fuel sys_write pending os' f' buf = Some (Inl ValueError, os') \<and>
    fdfile_ioctl sys_lseek os' f' req = (Inl ValueError, os') \<and>
    fdfile_fileno f' = Inl ValueError \<and> fdfile_close sys_close2 os' f' = (Inr (), f', os')"
proof -
  have "fd f' < 0" using assms by (auto simp: fdfile_close_def split: if_splits prod.splits option.splits)
  then show ?thesis
    by (simp add: fdfile_read_def fdfile_write_def fdfile_ioctl_def fdfile_fileno_def fdfile_close_def
        check_fd_is_open_def)
qed

theorem fdfile_closed_witness:
  "fdfile_fileno (fst (snd (fdfile_close (\<lambda>os n. (None, os)) () \<lparr>fd_type = FileIO, fd = 3\<rparr>))) = Inl ValueError"
proof -
  have "fdfile_close (\<lambda>os n. (None, os)) () \<lparr>fd_type = FileIO, fd = 3\<rparr> = (Inr (), \<lparr>fd_type = FileIO, fd = -1\<rparr>, ())"
    by (simp add: fdfile_close_def)
  with fdfile_closed [OF this, of "\<lambda>os _ _. (Inl 0, os)" 0 0 "\<lambda>os _ _. (Inl 0, os)" "\<lambda>_. None" "[]"
      "\<lambda>os _ _ _. (Inl 0, os)" MP_STREAM_FLUSH "\<lambda>os _. (None, os)"] show ?thesis by simp
qed

end
