(* ===== verification/ShaStandard.thy ===== *)
theory ShaStandard
  imports Main "HOL-Library.Word"
begin

text \<open>
  The secure hash standard (FIPS 180-4), SHA-1 and SHA-256, as the digests of the module
  \<open>checksum\<close> have to follow it.  Nothing here is taken from the C code: the rotations are those of
  the word library, words are read from bytes as numbers in base 256, the round constants and the
  initial hash value of SHA-256 are the leading bits of the fractional parts of the cube and square roots
  of the first primes, the round constants of SHA-1 are scaled square roots, and a message is
  padded as a whole before it is cut into blocks.
\<close>

unbundle bit_operations_syntax

type_synonym byte = "8 word"
type_synonym word32 = "32 word"

section \<open>Roots and primes\<close>

text \<open>The integer part of a square and of a cube root, one binary digit after the other.\<close>

definition next_digit :: "nat \<Rightarrow> int \<Rightarrow> int \<Rightarrow> int" where
  "next_digit m n r = (if (r + 1) ^ m \<le> n then r + 1 else r)"

fun isqrt :: "nat \<Rightarrow> int \<Rightarrow> int" where
  "isqrt 0 n = 0"
| "isqrt (Suc k) n = next_digit 2 n (2 * isqrt k (n div 4))"

fun icbrt :: "nat \<Rightarrow> int \<Rightarrow> int" where
  "icbrt 0 n = 0"
| "icbrt (Suc k) n = next_digit 3 n (2 * icbrt k (n div 8))"

lemma isqrt_correct: "0 \<le> n \<Longrightarrow> n < 4 ^ k \<Longrightarrow> 0 \<le> isqrt k n \<and> (isqrt k n)\<^sup>2 \<le> n \<and> n < (isqrt k n + 1)\<^sup>2"
proof (induction k arbitrary: n)
  case (Suc k)
  define q where "q = isqrt k (n div 4)"
  have "0 \<le> q" "q\<^sup>2 \<le> n div 4" "n div 4 < (q + 1)\<^sup>2" using Suc.IH [of "n div 4"] Suc.prems by (auto simp: q_def)
  then have "0 \<le> q" "(2 * q)\<^sup>2 \<le> n" "n < (2 * q + 2)\<^sup>2" by (simp_all add: power2_eq_square algebra_simps)
  then show ?case by (auto simp: q_def [symmetric] next_digit_def add.commute)
qed simp

lemma icbrt_correct: "0 \<le> n \<Longrightarrow> n < 8 ^ k \<Longrightarrow> 0 \<le> icbrt k n \<and> icbrt k n ^ 3 \<le> n \<and> n < (icbrt k n + 1) ^ 3"
proof (induction k arbitrary: n)
  case (Suc k)
  define q where "q = icbrt k (n div 8)"
  have "0 \<le> q" "q ^ 3 \<le> n div 8" "n div 8 < (q + 1) ^ 3" using Suc.IH [of "n div 8"] Suc.prems by (auto simp: q_def)
  then have "0 \<le> q" "(2 * q) ^ 3 \<le> n" "n < (2 * q + 2) ^ 3" by (simp_all add: power3_eq_cube algebra_simps)
  then show ?case by (auto simp: q_def [symmetric] next_digit_def add.commute)
qed simp

lemma icbrt_unique:
  assumes "0 \<le> c" "c ^ 3 \<le> n" "n < (c + 1) ^ 3" "n < 8 ^ k"
  shows "icbrt k n = c"
proof -
  have "0 \<le> c ^ 3" using assms(1) by simp
  then have "0 \<le> n" using assms(2) by linarith
  note i = icbrt_correct [OF this assms(4)]
  have "icbrt k n < c + 1" using i assms by (intro power_less_imp_less_base [of "icbrt k n" 3 "c + 1"]) auto
  moreover have "c < icbrt k n + 1" using i assms by (intro power_less_imp_less_base [of c 3 "icbrt k n + 1"]) auto
  ultimately show ?thesis by simp
qed

text \<open>The primes below a bound of at most \<open>18\<^sup>2\<close>, by trial division.\<close>

definition trial_division :: "int \<Rightarrow> bool" where
  "trial_division p \<longleftrightarrow> list_all (\<lambda>d. d < p \<longrightarrow> p mod d \<noteq> 0) [2..17]"

definition primes_upto :: "int \<Rightarrow> int list" where
  "primes_upto m = filter trial_division [2..m]"

lemma trial_division_alt: "trial_division p \<longleftrightarrow> (\<forall>d. 1 < d \<and> d < 18 \<and> d < p \<longrightarrow> \<not> d dvd p)"
proof -
  have "{2..17} = {d :: int. 1 < d \<and> d < 18}" by auto
  then have "set [2..17] = {d :: int. 1 < d \<and> d < 18}" by (simp only: set_upto)
  then show ?thesis unfolding trial_division_def list_all_iff by (simp only: mem_Collect_eq Ball_def dvd_eq_mod_eq_0 not_False_eq_True conj_assoc imp_conjL)
qed

lemma trial_division_iff:
  assumes "1 < p" "p < 324"
  shows "trial_division p \<longleftrightarrow> (\<forall>d. 1 < d \<and> d < p \<longrightarrow> \<not> d dvd p)"
proof
  assume p: "trial_division p"
  show "\<forall>d. 1 < d \<and> d < p \<longrightarrow> \<not> d dvd p"
  proof (intro allI impI notI)
    fix d assume d: "1 < d \<and> d < p" "d dvd p"
    obtain e where e: "p = d * e" using d(2) by blast
    then have e1: "1 < e" using d(1) assms(1) by (smt (verit) mult_less_cancel_left1 zero_less_mult_pos)
    define f where "f = min d e"
    have "f < 18"
    proof (rule ccontr)
      assume "\<not> f < 18"
      then have "18 * 18 \<le> d * e" using d e1 by (intro mult_mono) (auto simp: f_def)
      then show False using e assms(2) by simp
    qed
    moreover have "1 < f" "f < p" "f dvd p" using d e e1 by (simp_all add: f_def min_def)
    ultimately show False using p unfolding trial_division_alt by blast
  qed
qed (simp add: trial_division_alt)

section \<open>Constants\<close>

text \<open>The first 32 bits of a fractional part are the last 32 bits of the root of the number times \<open>2 ^ 32\<close>.\<close>

definition cbrt_word :: "int \<Rightarrow> word32" where
  "cbrt_word p = word_of_int (icbrt 36 (p * 2 ^ 96))"

definition sqrt_word :: "int \<Rightarrow> word32" where
  "sqrt_word p = word_of_int (isqrt 36 (p * 2 ^ 64))"

definition K256 :: "nat \<Rightarrow> word32" where
  "K256 t = map cbrt_word (primes_upto 311) ! t"

definition H256 :: "word32 list" where
  "H256 = map sqrt_word (primes_upto 19)"

text \<open>The constants of SHA-1 are the square roots of 2, 3, 5 and 10 times \<open>2 ^ 30\<close>.\<close>

definition K1 :: "nat \<Rightarrow> word32" where
  "K1 t = word_of_int (isqrt 36 ((if t < 20 then 2 else if t < 40 then 3 else if t < 60 then 5 else 10) * 2 ^ 60))"

definition H1 :: "word32 list" where
  "H1 = map (\<lambda>bs. word_rcat (bs :: byte list))
     [[0x67, 0x45, 0x23, 0x01], [0xef, 0xcd, 0xab, 0x89], [0x98, 0xba, 0xdc, 0xfe], [0x10, 0x32, 0x54, 0x76], [0xc3, 0xd2, 0xe1, 0xf0]]"

text \<open>A table of the leading bits of cube roots is right when the cubes of its entries enclose the numbers.\<close>

definition cube_part :: "int \<Rightarrow> int" where
  "cube_part p = (if p < 8 then 1 else if p < 27 then 2 else if p < 64 then 3 else if p < 125 then 4 else if p < 216 then 5 else 6)"

definition between_cubes :: "int \<Rightarrow> int \<Rightarrow> bool" where
  "between_cubes c n \<longleftrightarrow> c ^ 3 \<le> n \<and> n < (c + 1) ^ 3"

definition cbrt_entry :: "int \<Rightarrow> word32 \<Rightarrow> bool" where
  "cbrt_entry p w \<longleftrightarrow> p < 4096 \<and> between_cubes (cube_part (p) * 2 ^ 32 + uint w) (p * 2 ^ 96)"

lemma cbrt_entry_correct:
  assumes "cbrt_entry p w"
  shows "cbrt_word p = w"
proof -
  define c where "c = cube_part (p) * 2 ^ 32 + uint w"
  have "icbrt 36 (p * 2 ^ 96) = c"
    by (rule icbrt_unique) (use assms in \<open>simp_all add: cbrt_entry_def between_cubes_def c_def cube_part_def\<close>)
  moreover have "(word_of_int c :: word32) = word_of_int (cube_part p) * word_of_int (2 ^ 32) + w" by (simp add: c_def)
  moreover have "(word_of_int (2 ^ 32) :: word32) = 0" by simp
  ultimately show ?thesis by (simp only: cbrt_word_def mult_zero_right add_0)
qed

lemma cbrt_table: "list_all2 cbrt_entry ps ws \<Longrightarrow> map cbrt_word ps = ws"
  by (induction ps ws rule: list_all2_induct) (simp_all add: cbrt_entry_correct)

section \<open>Functions on words\<close>

definition Ch :: "word32 \<Rightarrow> word32 \<Rightarrow> word32 \<Rightarrow> word32" where
  "Ch x y z = (x AND y) XOR (NOT x AND z)"

definition Maj :: "word32 \<Rightarrow> word32 \<Rightarrow> word32 \<Rightarrow> word32" where
  "Maj x y z = (x AND y) XOR (x AND z) XOR (y AND z)"

definition Parity :: "word32 \<Rightarrow> word32 \<Rightarrow> word32 \<Rightarrow> word32" where
  "Parity x y z = x XOR y XOR z"

definition Sum0 :: "word32 \<Rightarrow> word32" where
  "Sum0 x = word_rotr 2 x XOR word_rotr 13 x XOR word_rotr 22 x"

definition Sum1 :: "word32 \<Rightarrow> word32" where
  "Sum1 x = word_rotr 6 x XOR word_rotr 11 x XOR word_rotr 25 x"

definition sigma0 :: "word32 \<Rightarrow> word32" where
  "sigma0 x = word_rotr 7 x XOR word_rotr 18 x XOR drop_bit 3 x"

definition sigma1 :: "word32 \<Rightarrow> word32" where
  "sigma1 x = word_rotr 17 x XOR word_rotr 19 x XOR drop_bit 10 x"

definition F1 :: "nat \<Rightarrow> word32 \<Rightarrow> word32 \<Rightarrow> word32 \<Rightarrow> word32" where
  "F1 t = (if t < 20 then Ch else if t < 40 then Parity else if t < 60 then Maj else Parity)"

section \<open>Compression of a block\<close>

text \<open>The word at a place of a block, most significant byte first.\<close>

definition block_word :: "byte list \<Rightarrow> nat \<Rightarrow> word32" where
  "block_word block t = word_rcat (map (\<lambda>j. block ! (4 * t + j)) [0..<4])"

fun W256 :: "byte list \<Rightarrow> nat \<Rightarrow> word32" where
  "W256 block t =
     (if t < 16 then block_word block t
      else sigma1 (W256 block (t - 2)) + W256 block (t - 7) + sigma0 (W256 block (t - 15)) + W256 block (t - 16))"

fun W1 :: "byte list \<Rightarrow> nat \<Rightarrow> word32" where
  "W1 block t =
     (if t < 16 then block_word block t
      else word_rotl 1 (W1 block (t - 3) XOR W1 block (t - 8) XOR W1 block (t - 14) XOR W1 block (t - 16)))"

declare W256.simps [simp del] W1.simps [simp del]

text \<open>The working variables after a number of rounds, from the hash value so far.\<close>

fun vars256 :: "word32 list \<Rightarrow> byte list \<Rightarrow> nat \<Rightarrow> word32 list" where
  "vars256 H block 0 = H"
| "vars256 H block (Suc t) =
     (case vars256 H block t of
        [a, b, c, d, e, f, g, h] \<Rightarrow>
          let T1 = h + Sum1 e + Ch e f g + K256 t + W256 block t;
              T2 = Sum0 a + Maj a b c
          in [T1 + T2, a, b, c, d + T1, e, f, g]
      | vs \<Rightarrow> vs)"

fun vars1 :: "word32 list \<Rightarrow> byte list \<Rightarrow> nat \<Rightarrow> word32 list" where
  "vars1 H block 0 = H"
| "vars1 H block (Suc t) =
     (case vars1 H block t of
        [a, b, c, d, e] \<Rightarrow> [word_rotl 5 a + F1 t b c d + e + K1 t + W1 block t, a, word_rotl 30 b, c, d]
      | vs \<Rightarrow> vs)"

definition sha256_compress :: "word32 list \<Rightarrow> byte list \<Rightarrow> word32 list" where
  "sha256_compress H block = map2 (+) H (vars256 H block 64)"

definition sha1_compress :: "word32 list \<Rightarrow> byte list \<Rightarrow> word32 list" where
  "sha1_compress H block = map2 (+) H (vars1 H block 80)"

section \<open>Messages\<close>

fun digest_blocks :: "('s \<Rightarrow> byte list \<Rightarrow> 's) \<Rightarrow> 's \<Rightarrow> byte list \<Rightarrow> 's" where
  "digest_blocks f st msg = (if length msg < 64 then st else digest_blocks f (f st (take 64 msg)) (drop 64 msg))"

declare digest_blocks.simps [simp del]

definition length_bytes :: "64 word \<Rightarrow> byte list" where
  "length_bytes n = map (\<lambda>j. ucast (drop_bit (56 - j * 8) n)) [0..<8]"

definition padding :: "nat \<Rightarrow> byte list" where
  "padding n = 0x80 # replicate (nat ((55 - int n) mod 64)) 0 @ length_bytes (of_nat (8 * n))"

definition word_bytes :: "word32 \<Rightarrow> byte list" where
  "word_bytes w = map (\<lambda>j. ucast (drop_bit (24 - j * 8) w)) [0..<4]"

definition digest_of :: "(word32 list \<Rightarrow> byte list \<Rightarrow> word32 list) \<Rightarrow> word32 list \<Rightarrow> byte list \<Rightarrow> byte list" where
  "digest_of f st msg = concat (map word_bytes (digest_blocks f st (msg @ padding (length msg))))"

definition sha256_spec :: "byte list \<Rightarrow> byte list" where
  "sha256_spec = digest_of sha256_compress H256"

definition sha1_spec :: "byte list \<Rightarrow> byte list" where
  "sha1_spec = digest_of sha1_compress H1"

text \<open>A digest as text: two hexadecimal digits for each byte.\<close>

definition hex_char :: "nat \<Rightarrow> char" where
  "hex_char n = char_of (if n < 10 then of_char (CHR ''0'') + n else of_char (CHR ''a'') + (n - 10))"

definition hex_string :: "byte list \<Rightarrow> string" where
  "hex_string bs = concat (map (\<lambda>b. [hex_char (unat b div 16), hex_char (unat b mod 16)]) bs)"

end
