(* ===== verification/Sha.thy ===== *)
theory Sha
  imports Prelude ShaStandard
begin

text \<open>
  The digests of the module \<open>checksum\<close>: SHA-256 and SHA-1 (\<open>lib/crypto-algorithms/sha256.c\<close> and
  \<open>sha1.c\<close>).  Both collect the bytes they are given in a block of 64 and transform their state for each
  full block; the end of the message is padded and its length in bits appended.  The counter of
  bits has 64 bits and wraps around as the standard has it; the array for a block is not
  initialised.  Stores are checked against the array, \<open>None\<close> is a store outside of it.

  The specification is the theory \<open>ShaStandard\<close>, which shares no definition with the code.
  Shown here: the rotations, tables, functions, schedules and rounds of the code are the
  standard's, and, in the locale \<open>block_digest\<close> of a transformation and its specification: feeding a
  message in any pieces and finishing gives the digest of the whole message.
\<close>

unbundle bit_operations_syntax

section \<open>Contexts\<close>

record sha_ctx =
  c_data :: "byte list"
  c_datalen :: nat
  c_bitlen :: "64 word"
  c_state :: "32 word list"

definition put :: "byte list \<Rightarrow> nat \<Rightarrow> byte \<Rightarrow> byte list option" where
  "put data i b = (if i < length data then Some (data[i := b]) else None)"

text \<open>Zeros in \<open>n\<close> places from \<open>i\<close> on.\<close>

fun zeros :: "nat \<Rightarrow> nat \<Rightarrow> byte list \<Rightarrow> byte list option" where
  "zeros 0 i data = Some data"
| "zeros (Suc n) i data = do { data \<leftarrow> put data i 0; zeros n (Suc i) data }"

fun put_all_bytes :: "byte list \<Rightarrow> (nat \<times> byte) list \<Rightarrow> byte list option" where
  "put_all_bytes data [] = Some data"
| "put_all_bytes data ((i, b) # bs) = do { data \<leftarrow> put data i b; put_all_bytes data bs }"

text \<open>The words of a block and the bytes of a state, in big-endian order.\<close>

definition load_word :: "byte list \<Rightarrow> nat \<Rightarrow> 32 word" where
  "load_word data j =
     push_bit 24 (ucast (data ! j)) OR push_bit 16 (ucast (data ! (j + 1))) OR push_bit 8 (ucast (data ! (j + 2))) OR ucast (data ! (j + 3))"

text \<open>Both algorithms take in bytes in the same way.\<close>

fun update_with :: "(32 word list \<Rightarrow> byte list \<Rightarrow> 32 word list) \<Rightarrow> sha_ctx \<Rightarrow> byte list \<Rightarrow> sha_ctx option" where
  "update_with transform ctx [] = Some ctx"
| "update_with transform ctx (b # bs) =
     do {
       data \<leftarrow> put (c_data ctx) (c_datalen ctx) b;
       let ctx = ctx\<lparr>c_data := data, c_datalen := c_datalen ctx + 1\<rparr>;
       let ctx = (if c_datalen ctx = 64
         then ctx\<lparr>c_state := transform (c_state ctx) data, c_bitlen := c_bitlen ctx + 512, c_datalen := 0\<rparr>
         else ctx);
       update_with transform ctx bs
     }"

section \<open>SHA-256\<close>

definition ROTRIGHT :: "32 word \<Rightarrow> nat \<Rightarrow> 32 word" where
  "ROTRIGHT a b = (drop_bit b a OR push_bit (32 - b) a)"

definition CH :: "32 word \<Rightarrow> 32 word \<Rightarrow> 32 word \<Rightarrow> 32 word" where
  "CH x y z = ((x AND y) XOR (NOT x AND z))"

definition MAJ :: "32 word \<Rightarrow> 32 word \<Rightarrow> 32 word \<Rightarrow> 32 word" where
  "MAJ x y z = ((x AND y) XOR (x AND z) XOR (y AND z))"

definition EP0 :: "32 word \<Rightarrow> 32 word" where
  "EP0 x = (ROTRIGHT x 2 XOR ROTRIGHT x 13 XOR ROTRIGHT x 22)"

definition EP1 :: "32 word \<Rightarrow> 32 word" where
  "EP1 x = (ROTRIGHT x 6 XOR ROTRIGHT x 11 XOR ROTRIGHT x 25)"

definition SIG0 :: "32 word \<Rightarrow> 32 word" where
  "SIG0 x = (ROTRIGHT x 7 XOR ROTRIGHT x 18 XOR drop_bit 3 x)"

definition SIG1 :: "32 word \<Rightarrow> 32 word" where
  "SIG1 x = (ROTRIGHT x 17 XOR ROTRIGHT x 19 XOR drop_bit 10 x)"

text \<open>The constants of the rounds, in the eight rows of the source.\<close>

definition sha256_k :: "32 word list" where
  "sha256_k = concat [
    [0x428a2f98, 0x71374491, 0xb5c0fbcf, 0xe9b5dba5, 0x3956c25b, 0x59f111f1, 0x923f82a4, 0xab1c5ed5],
    [0xd807aa98, 0x12835b01, 0x243185be, 0x550c7dc3, 0x72be5d74, 0x80deb1fe, 0x9bdc06a7, 0xc19bf174],
    [0xe49b69c1, 0xefbe4786, 0x0fc19dc6, 0x240ca1cc, 0x2de92c6f, 0x4a7484aa, 0x5cb0a9dc, 0x76f988da],
    [0x983e5152, 0xa831c66d, 0xb00327c8, 0xbf597fc7, 0xc6e00bf3, 0xd5a79147, 0x06ca6351, 0x14292967],
    [0x27b70a85, 0x2e1b2138, 0x4d2c6dfc, 0x53380d13, 0x650a7354, 0x766a0abb, 0x81c2c92e, 0x92722c85],
    [0xa2bfe8a1, 0xa81a664b, 0xc24b8b70, 0xc76c51a3, 0xd192e819, 0xd6990624, 0xf40e3585, 0x106aa070],
    [0x19a4c116, 0x1e376c08, 0x2748774c, 0x34b0bcb5, 0x391c0cb3, 0x4ed8aa4a, 0x5b9cca4f, 0x682e6ff3],
    [0x748f82ee, 0x78a5636f, 0x84c87814, 0x8cc70208, 0x90befffa, 0xa4506ceb, 0xbef9a3f7, 0xc67178f2]]"

text \<open>The loop that fills the schedule behind the sixteen words of the block.\<close>

fun sha256_extend :: "nat \<Rightarrow> 32 word list \<Rightarrow> 32 word list" where
  "sha256_extend 0 m = m"
| "sha256_extend (Suc n) m =
     (let i = length m in
      sha256_extend n (m @ [SIG1 (m ! (i - 2)) + m ! (i - 7) + SIG0 (m ! (i - 15)) + m ! (i - 16)]))"

type_synonym vars8 = "32 word \<times> 32 word \<times> 32 word \<times> 32 word \<times> 32 word \<times> 32 word \<times> 32 word \<times> 32 word"

fun sha256_round :: "32 word \<times> 32 word \<Rightarrow> vars8 \<Rightarrow> vars8" where
  "sha256_round (ki, mi) (a, b, c, d, e, f, g, h) =
     (let t1 = h + EP1 e + CH e f g + ki + mi;
          t2 = EP0 a + MAJ a b c
      in (t1 + t2, a, b, c, d + t1, e, f, g))"

definition sha256_rounds :: "32 word list \<Rightarrow> 32 word list \<Rightarrow> 32 word list" where
  "sha256_rounds state m =
     (case state of
        [s0, s1, s2, s3, s4, s5, s6, s7] \<Rightarrow>
          (case fold sha256_round (zip sha256_k m) (s0, s1, s2, s3, s4, s5, s6, s7) of
             (a, b, c, d, e, f, g, h) \<Rightarrow> [s0 + a, s1 + b, s2 + c, s3 + d, s4 + e, s5 + f, s6 + g, s7 + h])
      | _ \<Rightarrow> state)"

definition sha256_transform :: "32 word list \<Rightarrow> byte list \<Rightarrow> 32 word list" where
  "sha256_transform state data =
     sha256_rounds state (sha256_extend 48 (map (\<lambda>i. load_word data (4 * i)) [0..<16]))"

definition sha256_init :: "sha_ctx \<Rightarrow> sha_ctx" where
  "sha256_init ctx = ctx\<lparr>c_datalen := 0, c_bitlen := 0,
     c_state := [0x6a09e667, 0xbb67ae85, 0x3c6ef372, 0xa54ff53a, 0x510e527f, 0x9b05688c, 0x1f83d9ab, 0x5be0cd19]\<rparr>"

definition sha256_update :: "sha_ctx \<Rightarrow> byte list \<Rightarrow> sha_ctx option" where
  "sha256_update = update_with sha256_transform"

definition sha256_final :: "sha_ctx \<Rightarrow> byte list option" where
  "sha256_final ctx =
     do {
       (data, state) \<leftarrow>
         (if c_datalen ctx < 56 then
            do {
              data \<leftarrow> put (c_data ctx) (c_datalen ctx) 0x80;
              data \<leftarrow> zeros (56 - Suc (c_datalen ctx)) (Suc (c_datalen ctx)) data;
              Some (data, c_state ctx)
            }
          else
            do {
              data \<leftarrow> put (c_data ctx) (c_datalen ctx) 0x80;
              data \<leftarrow> zeros (64 - Suc (c_datalen ctx)) (Suc (c_datalen ctx)) data;
              let state = sha256_transform (c_state ctx) data;
              data \<leftarrow> zeros 56 0 data;
              Some (data, state)
            });
       let bitlen = c_bitlen ctx + of_nat (c_datalen ctx * 8);
       data \<leftarrow> put_all_bytes data
         [(63, ucast bitlen), (62, ucast (drop_bit 8 bitlen)), (61, ucast (drop_bit 16 bitlen)), (60, ucast (drop_bit 24 bitlen)),
          (59, ucast (drop_bit 32 bitlen)), (58, ucast (drop_bit 40 bitlen)), (57, ucast (drop_bit 48 bitlen)), (56, ucast (drop_bit 56 bitlen))];
       let state = sha256_transform state data;
       Some (map (\<lambda>p. ucast (drop_bit (24 - (p mod 4) * 8) (state ! (p div 4)) AND 0xff)) [0..<32])
     }"

section \<open>SHA-1\<close>

definition rol32 :: "32 word \<Rightarrow> nat \<Rightarrow> 32 word" where
  "rol32 v count = (push_bit count v OR drop_bit (32 - count) v)"

fun sha1_extend :: "nat \<Rightarrow> 32 word list \<Rightarrow> 32 word list" where
  "sha1_extend 0 w = w"
| "sha1_extend (Suc n) w =
     (let i = length w in
      sha1_extend n (w @ [rol32 (w ! (i - 3) XOR w ! (i - 8) XOR w ! (i - 14) XOR w ! (i - 16)) 1]))"

definition sha1_fk :: "nat \<Rightarrow> 32 word \<Rightarrow> 32 word \<Rightarrow> 32 word \<Rightarrow> 32 word \<times> 32 word" where
  "sha1_fk i b c d =
     (if i < 20 then ((b AND c) OR (NOT b AND d), 0x5a827999)
      else if i < 40 then (b XOR c XOR d, 0x6ed9eba1)
      else if i < 60 then ((b AND c) OR (b AND d) OR (c AND d), 0x8f1bbcdc)
      else (b XOR c XOR d, 0xca62c1d6))"

type_synonym vars5 = "32 word \<times> 32 word \<times> 32 word \<times> 32 word \<times> 32 word"

fun sha1_round :: "nat \<times> 32 word \<Rightarrow> vars5 \<Rightarrow> vars5" where
  "sha1_round (i, wi) (a, b, c, d, e) =
     (let (f, k) = sha1_fk i b c d;
          temp = rol32 a 5 + f + e + k + wi
      in (temp, a, rol32 b 30, c, d))"

definition sha1_rounds :: "32 word list \<Rightarrow> 32 word list \<Rightarrow> 32 word list" where
  "sha1_rounds state w =
     (case state of
        [s0, s1, s2, s3, s4] \<Rightarrow>
          (case fold sha1_round (zip [0..<80] w) (s0, s1, s2, s3, s4) of
             (a, b, c, d, e) \<Rightarrow> [s0 + a, s1 + b, s2 + c, s3 + d, s4 + e])
      | _ \<Rightarrow> state)"

definition sha1_transform :: "32 word list \<Rightarrow> byte list \<Rightarrow> 32 word list" where
  "sha1_transform state data =
     sha1_rounds state (sha1_extend 64 (map (\<lambda>i. load_word data (4 * i)) [0..<16]))"

definition sha1_init :: "sha_ctx \<Rightarrow> sha_ctx" where
  "sha1_init ctx = ctx\<lparr>c_datalen := 0, c_bitlen := 0,
     c_state := [0x67452301, 0xefcdab89, 0x98badcfe, 0x10325476, 0xc3d2e1f0]\<rparr>"

definition sha1_update :: "sha_ctx \<Rightarrow> byte list \<Rightarrow> sha_ctx option" where
  "sha1_update = update_with sha1_transform"

definition sha1_final :: "sha_ctx \<Rightarrow> byte list option" where
  "sha1_final ctx =
     do {
       data \<leftarrow> put (c_data ctx) (c_datalen ctx) 0x80;
       let i = Suc (c_datalen ctx);
       (data, state, i) \<leftarrow>
         (if i > 56 then
            do {
              data \<leftarrow> zeros (64 - i) i data;
              Some (data, sha1_transform (c_state ctx) data, 0)
            }
          else Some (data, c_state ctx, i));
       data \<leftarrow> zeros (56 - i) i data;
       let bitlen = c_bitlen ctx + of_nat (c_datalen ctx) * 8;
       data \<leftarrow> put_all_bytes data (map (\<lambda>j. (63 - j, ucast (drop_bit (j * 8) bitlen))) [0..<8]);
       let state = sha1_transform state data;
       Some (map (\<lambda>p. ucast (drop_bit (24 - (p mod 4) * 8) (state ! (p div 4)))) [0..<20])
     }"

section \<open>Words, tables and functions are the standard's\<close>

lemma ROTRIGHT_standard: "0 < n \<Longrightarrow> n < 32 \<Longrightarrow> ROTRIGHT w n = word_rotr n w"
  unfolding ROTRIGHT_def
proof (rule bit_word_eqI)
  fix i assume n: "0 < n" "n < 32" and "i < LENGTH(32)"
  then have i: "i < 32" by simp
  show "bit (drop_bit n w OR push_bit (32 - n) w) i = bit (word_rotr n w) i"
  proof (cases "n + i < 32")
    case True
    then show ?thesis using i n by (auto simp: bit_simps add.commute)
  next
    case False
    then have "(i + n) mod 32 = i - (32 - n)" using i n by (simp add: le_mod_geq)
    moreover have "\<not> bit w (n + i)" using False bit_imp_le_length [of w "n + i"] by auto
    ultimately show ?thesis using i n False by (auto simp: bit_simps)
  qed
qed

lemma rol32_standard: "0 < n \<Longrightarrow> n < 32 \<Longrightarrow> rol32 w n = word_rotl n w"
  using ROTRIGHT_standard [of "32 - n" w] by (simp add: ROTRIGHT_def rol32_def word_rotl_eq_word_rotr or.commute)

lemma load_word_standard: "load_word data (4 * t) = block_word data t"
proof (rule bit_word_eqI)
  fix i assume "i < LENGTH(32)"
  then have i: "i < 32" by simp
  define ws where "ws = map (\<lambda>j. data ! (4 * t + j)) [0..<4]"
  have ws: "rev ws = [data ! (4 * t + 3), data ! (4 * t + 2), data ! (4 * t + 1), data ! (4 * t)]"
    by (simp add: ws_def upt_rec numeral_eq_Suc)
  have far: "\<not> bit b k" if "8 \<le> k" for b :: byte and k using bit_imp_le_length [of b k] that by auto
  have d4: "i div 8 < Suc (Suc (Suc (Suc 0)))" using i by linarith
  have "bit (block_word data t) i = bit (horner_sum uint (2 ^ 8) (rev ws)) i"
    using i by (simp add: block_word_def word_rcat_def ws_def bit_simps)
  also have "\<dots> = bit (rev ws ! (i div 8)) (i mod 8)"
    using d4 bit_horner_sum_uint_exp_iff [of "rev ws" i] ws by simp
  also have "\<dots> = bit (load_word data (4 * t)) i"
  proof -
    have "i = 8 * (i div 8) + i mod 8" by simp
    moreover have "i mod 8 < 8" by simp
    moreover have "i div 8 \<in> {0, 1, 2, 3}" using d4 by auto
    ultimately obtain m where m: "m < 8" "i mod 8 = m" "i = m \<and> i div 8 = 0 \<or> i = 8 + m \<and> i div 8 = 1 \<or> i = 16 + m \<and> i div 8 = 2 \<or> i = 24 + m \<and> i div 8 = 3"
      by fastforce
    from m(3) show ?thesis using m(1,2) by (elim disjE conjE) (simp_all add: ws load_word_def bit_simps far)
  qed
  finally show "bit (load_word data (4 * t)) i = bit (block_word data t) i" ..
qed

lemma sha256_functions:
  "CH = Ch" "MAJ = Maj" "EP0 = Sum0" "EP1 = Sum1" "SIG0 = sigma0" "SIG1 = sigma1"
  by (simp_all add: fun_eq_iff CH_def Ch_def MAJ_def Maj_def EP0_def Sum0_def EP1_def Sum1_def SIG0_def sigma0_def SIG1_def sigma1_def
      ROTRIGHT_standard)

lemma sha256_k_standard: "sha256_k = map K256 [0..<64]"
proof -
  have "map cbrt_word (primes_upto 311) = sha256_k" unfolding sha256_k_def by (rule cbrt_table) code_simp
  moreover have "length sha256_k = 64" by (simp add: sha256_k_def)
  ultimately show ?thesis using map_nth [of sha256_k] by (simp add: K256_def [abs_def])
qed

lemma H256_values: "H256 = [0x6a09e667, 0xbb67ae85, 0x3c6ef372, 0xa54ff53a, 0x510e527f, 0x9b05688c, 0x1f83d9ab, 0x5be0cd19]"
  by code_simp

lemma H1_values: "H1 = [0x67452301, 0xefcdab89, 0x98badcfe, 0x10325476, 0xc3d2e1f0]"
  by code_simp

lemma K1_values: "t < 20 \<Longrightarrow> K1 t = 0x5a827999" "20 \<le> t \<Longrightarrow> t < 40 \<Longrightarrow> K1 t = 0x6ed9eba1"
    "40 \<le> t \<Longrightarrow> t < 60 \<Longrightarrow> K1 t = 0x8f1bbcdc" "60 \<le> t \<Longrightarrow> K1 t = 0xca62c1d6"
proof -
  have "K1 0 = 0x5a827999" "K1 20 = 0x6ed9eba1" "K1 40 = 0x8f1bbcdc" "K1 60 = 0xca62c1d6" by code_simp+
  then show "t < 20 \<Longrightarrow> K1 t = 0x5a827999" "20 \<le> t \<Longrightarrow> t < 40 \<Longrightarrow> K1 t = 0x6ed9eba1"
      "40 \<le> t \<Longrightarrow> t < 60 \<Longrightarrow> K1 t = 0x8f1bbcdc" "60 \<le> t \<Longrightarrow> K1 t = 0xca62c1d6"
    by (simp_all add: K1_def)
qed

lemma Ch_or: "(b AND c) OR (NOT b AND d) = Ch b c d"
  by (rule bit_word_eqI) (auto simp: Ch_def bit_simps)

lemma Maj_or: "(b AND c) OR (b AND d) OR (c AND d) = Maj b c d"
  by (rule bit_word_eqI) (auto simp: Maj_def bit_simps)

lemma sha1_fk_standard: "sha1_fk t b c d = (F1 t b c d, K1 t)"
  by (simp add: sha1_fk_def F1_def Ch_or Maj_or Parity_def K1_values xor.assoc)

section \<open>Schedules and rounds\<close>

lemma sha256_extend_W: "16 \<le> k \<Longrightarrow> sha256_extend n (map (W256 data) [0..<k]) = map (W256 data) [0..<k + n]"
proof (induction n arbitrary: k)
  case (Suc n)
  have "sha256_extend (Suc n) (map (W256 data) [0..<k]) = sha256_extend n (map (W256 data) [0..<Suc k])"
    using Suc.prems W256.simps [of data k] by (simp add: Let_def sha256_functions)
  then show ?case using Suc.IH [of "Suc k"] Suc.prems by simp
qed simp

lemma sha1_extend_W: "16 \<le> k \<Longrightarrow> sha1_extend n (map (W1 data) [0..<k]) = map (W1 data) [0..<k + n]"
proof (induction n arbitrary: k)
  case (Suc n)
  have "sha1_extend (Suc n) (map (W1 data) [0..<k]) = sha1_extend n (map (W1 data) [0..<Suc k])"
    using Suc.prems W1.simps [of data k] by (simp add: Let_def rol32_standard)
  then show ?case using Suc.IH [of "Suc k"] Suc.prems by simp
qed simp

lemma schedule_start: "map (\<lambda>i. load_word data (4 * i)) [0..<16] = map (W256 data) [0..<16]"
    "map (\<lambda>i. load_word data (4 * i)) [0..<16] = map (W1 data) [0..<16]"
  by (intro map_cong, simp_all add: W256.simps W1.simps load_word_standard)+

lemma vars8E:
  fixes x :: vars8
  obtains a b c d e f g h where "(a, b, c, d, e, f, g, h) = x"
  by (cases x) auto

lemma vars5E:
  fixes x :: vars5
  obtains a b c d e where "(a, b, c, d, e) = x"
  by (cases x) auto

lemma sha256_rounds_standard:
  assumes "(a, b, c, d, e, f, g, h) = fold sha256_round (map (\<lambda>t. (K256 t, W256 data t)) [0..<n]) (s0, s1, s2, s3, s4, s5, s6, s7)"
  shows "vars256 [s0, s1, s2, s3, s4, s5, s6, s7] data n = [a, b, c, d, e, f, g, h]"
  using assms
proof (induction n arbitrary: a b c d e f g h)
  case (Suc n)
  obtain a' b' c' d' e' f' g' h' where
    p: "(a', b', c', d', e', f', g', h') = fold sha256_round (map (\<lambda>t. (K256 t, W256 data t)) [0..<n]) (s0, s1, s2, s3, s4, s5, s6, s7)"
    by (rule vars8E)
  have "(a, b, c, d, e, f, g, h) = sha256_round (K256 n, W256 data n) (a', b', c', d', e', f', g', h')"
    using Suc.prems p by simp
  then show ?case using Suc.IH [OF p] by (simp add: Let_def sha256_functions)
qed simp

lemma sha1_rounds_standard:
  assumes "(a, b, c, d, e) = fold sha1_round (map (\<lambda>t. (t, W1 data t)) [0..<n]) (s0, s1, s2, s3, s4)"
  shows "vars1 [s0, s1, s2, s3, s4] data n = [a, b, c, d, e]"
  using assms
proof (induction n arbitrary: a b c d e)
  case (Suc n)
  obtain a' b' c' d' e' where p: "(a', b', c', d', e') = fold sha1_round (map (\<lambda>t. (t, W1 data t)) [0..<n]) (s0, s1, s2, s3, s4)"
    by (rule vars5E)
  have "(a, b, c, d, e) = sha1_round (n, W1 data n) (a', b', c', d', e')"
    using Suc.prems p by simp
  then show ?case using Suc.IH [OF p] by (simp add: Let_def sha1_fk_standard rol32_standard)
qed simp

lemma zip_maps: "zip (map f xs) (map g xs) = map (\<lambda>x. (f x, g x)) xs"
  by (induction xs) simp_all

lemma sha256_transform_spec:
  assumes "length state = 8"
  shows "sha256_transform state data = sha256_compress state data"
proof -
  obtain s0 s1 s2 s3 s4 s5 s6 s7 where st: "state = [s0, s1, s2, s3, s4, s5, s6, s7]"
    using assms by (auto simp: length_Suc_conv numeral_eq_Suc)
  obtain a b c d e f g h where
    r: "(a, b, c, d, e, f, g, h) = fold sha256_round (map (\<lambda>t. (K256 t, W256 data t)) [0..<64]) (s0, s1, s2, s3, s4, s5, s6, s7)"
    by (rule vars8E)
  have "zip sha256_k (sha256_extend 48 (map (\<lambda>i. load_word data (4 * i)) [0..<16])) = map (\<lambda>t. (K256 t, W256 data t)) [0..<64]"
    unfolding sha256_k_standard schedule_start(1) using sha256_extend_W [of 16 48 data] by (simp add: zip_maps)
  then show ?thesis
    unfolding sha256_transform_def sha256_compress_def sha256_rounds_def st sha256_rounds_standard [OF r] by (simp flip: r)
qed

lemma sha1_transform_spec:
  assumes "length state = 5"
  shows "sha1_transform state data = sha1_compress state data"
proof -
  obtain s0 s1 s2 s3 s4 where st: "state = [s0, s1, s2, s3, s4]"
    using assms by (auto simp: length_Suc_conv numeral_eq_Suc)
  obtain a b c d e where r: "(a, b, c, d, e) = fold sha1_round (map (\<lambda>t. (t, W1 data t)) [0..<80]) (s0, s1, s2, s3, s4)"
    by (rule vars5E)
  have "zip [0..<80] (sha1_extend 64 (map (\<lambda>i. load_word data (4 * i)) [0..<16])) = map (\<lambda>t. (t, W1 data t)) [0..<80]"
    unfolding schedule_start(2) using sha1_extend_W [of 16 64 data] zip_maps [of "\<lambda>t. t" "[0..<80]" "W1 data"] by simp
  then show ?thesis
    unfolding sha1_transform_def sha1_compress_def sha1_rounds_def st sha1_rounds_standard [OF r] by (simp flip: r)
qed

section \<open>Blocks and padding\<close>

lemma zeros_correct: "i + n \<le> length data \<Longrightarrow> zeros n i data = Some (take i data @ replicate n 0 @ drop (i + n) data)"
proof (induction n arbitrary: i data)
  case (Suc n)
  have "take (Suc i) (data[i := 0]) = take i data @ [0]" using Suc.prems by (simp add: take_Suc_conv_app_nth)
  moreover have "drop (Suc i + n) (data[i := 0]) = drop (i + Suc n) data" by simp
  ultimately show ?case using Suc.IH [of "Suc i" "data[i := 0]"] Suc.prems by (simp add: put_def)
qed simp

lemma put_last_eight:
  assumes "length data = 64"
  shows "put_all_bytes data [(63, b0), (62, b1), (61, b2), (60, b3), (59, b4), (58, b5), (57, b6), (56, b7)] =
    Some (take 56 data @ [b7, b6, b5, b4, b3, b2, b1, b0])"
proof -
  have "data[63 := b0, 62 := b1, 61 := b2, 60 := b3, 59 := b4, 58 := b5, 57 := b6, 56 := b7] =
      take 56 data @ [b7, b6, b5, b4, b3, b2, b1, b0]"
  proof (rule nth_equalityI)
    fix i assume "i < length (data[63 := b0, 62 := b1, 61 := b2, 60 := b3, 59 := b4, 58 := b5, 57 := b6, 56 := b7])"
    then have "i < 56 \<or> i \<in> {56, 57, 58, 59, 60, 61, 62, 63}" using assms by auto
    then show "data[63 := b0, 62 := b1, 61 := b2, 60 := b3, 59 := b4, 58 := b5, 57 := b6, 56 := b7] ! i =
        (take 56 data @ [b7, b6, b5, b4, b3, b2, b1, b0]) ! i"
      using assms by (auto simp: nth_append nth_list_update)
  qed (simp add: assms)
  then show ?thesis using assms by (simp add: put_def)
qed

lemma digest_blocks_append:
  "length full mod 64 = 0 \<Longrightarrow> digest_blocks f st (full @ rest) = digest_blocks f (digest_blocks f st full) rest"
proof (induction f st full rule: digest_blocks.induct)
  case (1 f st msg)
  show ?case
  proof (cases "length msg < 64")
    case True
    then have "msg = []" using 1(2) by simp
    then show ?thesis by (simp add: digest_blocks.simps [of f st "[]"])
  next
    case False
    then have "length (drop 64 msg) mod 64 = 0" using 1(2) by (simp add: mod_if)
    then show ?thesis
      using 1(1) [OF False] False digest_blocks.simps [of f st msg] digest_blocks.simps [of f st "msg @ rest"] by simp
  qed
qed

lemma digest_blocks_one: "length b = 64 \<Longrightarrow> digest_blocks f st b = f st b"
  by (simp add: digest_blocks.simps [of f st b] digest_blocks.simps [of f _ "[]"])

lemma digest_blocks_short: "length b < 64 \<Longrightarrow> digest_blocks f st b = st"
  by (simp add: digest_blocks.simps)

lemma padded_blocks:
  assumes "length full mod 64 = 0" "length rest < 64"
  shows "length rest < 56 \<Longrightarrow> (full @ rest) @ padding (length (full @ rest)) =
      full @ (rest @ 0x80 # replicate (55 - length rest) 0 @ length_bytes (of_nat (8 * length (full @ rest))))"
    and "\<not> length rest < 56 \<Longrightarrow> (full @ rest) @ padding (length (full @ rest)) =
      full @ (rest @ 0x80 # replicate (63 - length rest) 0) @ (replicate 56 0 @ length_bytes (of_nat (8 * length (full @ rest))))"
proof -
  obtain q where q: "length full = 64 * q" using assms(1) by (auto simp: mod_eq_0_iff_dvd elim: dvdE)
  have "(55 - int (length (full @ rest))) mod 64 = (55 - int (length rest)) mod 64"
    by (simp add: q mod_eq_dvd_iff)
  then have z: "nat ((55 - int (length (full @ rest))) mod 64) = nat ((55 - int (length rest)) mod 64)" by simp
  show "length rest < 56 \<Longrightarrow> (full @ rest) @ padding (length (full @ rest)) =
      full @ (rest @ 0x80 # replicate (55 - length rest) 0 @ length_bytes (of_nat (8 * length (full @ rest))))"
    unfolding padding_def z by (simp add: mod_pos_pos_trivial nat_diff_distrib)
  assume big: "\<not> length rest < 56"
  have "(55 - int (length rest)) mod 64 = 119 - int (length rest)"
    using big assms(2) mod_pos_pos_trivial [of "119 - int (length rest)" 64] by (simp add: mod_add_self2 [of "55 - int (length rest)" 64, symmetric])
  moreover have "nat (119 - int (length rest)) = (63 - length rest) + 56" using assms(2) by simp
  ultimately show "(full @ rest) @ padding (length (full @ rest)) =
      full @ (rest @ 0x80 # replicate (63 - length rest) 0) @ (replicate 56 0 @ length_bytes (of_nat (8 * length (full @ rest))))"
    unfolding padding_def z by (simp only: replicate_add append.simps append_assoc)
qed

lemma state_bytes:
  "map (\<lambda>p. g (p mod 4) (st ! (p div 4))) [0..<4 * length st] = concat (map (\<lambda>w. map (\<lambda>j. g j w) [0..<4]) st)"
proof (induction st)
  case (Cons w st)
  have split: "[0..<4 * length (w # st)] = [0..<4] @ map (\<lambda>p. p + 4) [0..<4 * length st]"
    by (simp add: map_add_upt upt_add_eq_append [symmetric] add.commute)
  have "map (\<lambda>p. g (p mod 4) ((w # st) ! (p div 4))) [0..<4] = map (\<lambda>j. g j w) [0..<4]" by (intro map_cong) auto
  moreover have "map (\<lambda>p. g (p mod 4) ((w # st) ! (p div 4))) (map (\<lambda>p. p + 4) [0..<4 * length st]) =
      map (\<lambda>p. g (p mod 4) (st ! (p div 4))) [0..<4 * length st]" by (simp add: div_add_self2)
  ultimately show ?case unfolding split using Cons.IH by simp
qed simp

section \<open>Streaming\<close>

text \<open>A context that has taken in a message: its full blocks are in the state, the rest in the array.\<close>

definition taken :: "(32 word list \<Rightarrow> byte list \<Rightarrow> 32 word list) \<Rightarrow> 32 word list \<Rightarrow> sha_ctx \<Rightarrow> byte list \<Rightarrow> bool" where
  "taken f st0 ctx msg \<longleftrightarrow>
     (\<exists>full rest. msg = full @ rest \<and> length full mod 64 = 0 \<and> length rest = c_datalen ctx \<and> c_datalen ctx < 64 \<and>
       length (c_data ctx) = 64 \<and> take (c_datalen ctx) (c_data ctx) = rest \<and>
       c_bitlen ctx = of_nat (8 * length full) \<and> c_state ctx = digest_blocks f st0 full)"

lemma takenE:
  assumes "taken f st0 ctx msg"
  obtains full rest where "msg = full @ rest" "length full mod 64 = 0" "length rest = c_datalen ctx" "c_datalen ctx < 64"
      "length (c_data ctx) = 64" "take (c_datalen ctx) (c_data ctx) = rest"
      "c_bitlen ctx = of_nat (8 * length full)" "c_state ctx = digest_blocks f st0 full"
  using assms unfolding taken_def by (elim exE conjE) (rule that)

text \<open>
  A transformation of blocks that keeps the number of words in the state and is the standard's,
  the one the digest is defined with.
\<close>

locale block_digest =
  fixes transform compress :: "32 word list \<Rightarrow> byte list \<Rightarrow> 32 word list" and st0 :: "32 word list"
  assumes transform_spec: "length st = length st0 \<Longrightarrow> transform st data = compress st data"
    and length_compress: "length st = length st0 \<Longrightarrow> length (compress st data) = length st0"
begin

lemma length_digest_blocks: "length st = length st0 \<Longrightarrow> length (digest_blocks compress st msg) = length st0"
proof (induction "length msg" arbitrary: st msg rule: less_induct)
  case less
  then show ?case using digest_blocks.simps [of compress st msg] length_compress [OF less.prems] by simp
qed

lemma update_taken:
  assumes "taken compress st0 ctx msg"
  shows "\<exists>ctx'. update_with transform ctx bs = Some ctx' \<and> taken compress st0 ctx' (msg @ bs)"
  using assms
proof (induction bs arbitrary: ctx msg)
  case (Cons b bs)
  obtain full rest where t: "msg = full @ rest" "length full mod 64 = 0" "length rest = c_datalen ctx" "c_datalen ctx < 64"
      "length (c_data ctx) = 64" "take (c_datalen ctx) (c_data ctx) = rest"
      "c_bitlen ctx = of_nat (8 * length full)" "c_state ctx = digest_blocks compress st0 full"
    by (rule takenE [OF Cons.prems])
  define data where "data = (c_data ctx)[c_datalen ctx := b]"
  have data: "take (Suc (c_datalen ctx)) data = rest @ [b]" "length data = 64"
    using t(3-6) by (simp_all add: data_def take_Suc_conv_app_nth)
  define ctx1 where "ctx1 = (if Suc (c_datalen ctx) = 64
      then ctx\<lparr>c_data := data, c_state := transform (c_state ctx) data, c_bitlen := c_bitlen ctx + 512, c_datalen := 0\<rparr>
      else ctx\<lparr>c_data := data, c_datalen := Suc (c_datalen ctx)\<rparr>)"
  have step: "update_with transform ctx (b # bs) = update_with transform ctx1 bs"
    using t(4,5) by (simp add: put_def ctx1_def data_def Let_def)
  have "taken compress st0 ctx1 (msg @ [b])"
  proof (cases "Suc (c_datalen ctx) = 64")
    case True
    then have block: "data = rest @ [b]" "length (full @ rest @ [b]) = length full + 64" using data t(3) by simp_all
    have "digest_blocks compress st0 (full @ data) = transform (c_state ctx) data"
      using digest_blocks_append [OF t(2), of compress st0 data] digest_blocks_one [OF data(2), of compress] t(8) length_digest_blocks [of st0 full]
      by (simp add: transform_spec)
    then show ?thesis
      unfolding taken_def
      by (intro exI [of _ "full @ data"] exI [of _ "[]"]) (use True t data block in \<open>simp add: ctx1_def\<close>)
  next
    case False
    then show ?thesis
      unfolding taken_def by (intro exI [of _ full] exI [of _ "rest @ [b]"]) (use t data in \<open>simp add: ctx1_def\<close>)
  qed
  from Cons.IH [OF this] show ?case unfolding step by simp
qed auto

text \<open>The state after the last blocks, in the two ways they are made.\<close>

lemma last_block:
  assumes "taken compress st0 ctx msg" "c_datalen ctx < 56"
  obtains data where "put (c_data ctx) (c_datalen ctx) 0x80 \<bind> zeros (55 - c_datalen ctx) (Suc (c_datalen ctx)) = Some data"
    "length data = 64"
    "compress (c_state ctx) (take 56 data @ length_bytes (c_bitlen ctx + of_nat (c_datalen ctx * 8))) =
      digest_blocks compress st0 (msg @ padding (length msg))"
proof -
  obtain full rest where t: "msg = full @ rest" "length full mod 64 = 0" "length rest = c_datalen ctx" "c_datalen ctx < 64"
      "length (c_data ctx) = 64" "take (c_datalen ctx) (c_data ctx) = rest"
      "c_bitlen ctx = of_nat (8 * length full)" "c_state ctx = digest_blocks compress st0 full"
    by (rule takenE [OF assms(1)])
  define data where "data = rest @ 0x80 # replicate (55 - c_datalen ctx) 0 @ drop 56 (c_data ctx)"
  define bits where "bits = length_bytes (of_nat (8 * length (full @ rest)))"
  have "take (Suc (c_datalen ctx)) ((c_data ctx)[c_datalen ctx := 0x80]) = rest @ [0x80]"
    using t(4-6) by (simp add: take_Suc_conv_app_nth)
  then have run: "put (c_data ctx) (c_datalen ctx) 0x80 \<bind> zeros (55 - c_datalen ctx) (Suc (c_datalen ctx)) = Some data"
    using t(4,5) assms(2) zeros_correct [of "Suc (c_datalen ctx)" "55 - c_datalen ctx" "(c_data ctx)[c_datalen ctx := 0x80]"]
    by (simp add: put_def data_def)
  have len: "length bits = 8" by (simp add: bits_def length_bytes_def)
  have bits: "length_bytes (c_bitlen ctx + of_nat (c_datalen ctx * 8)) = bits" using t(3,7) by (simp add: bits_def algebra_simps)
  have "56 - c_datalen ctx = Suc (55 - c_datalen ctx)" using assms(2) by simp
  then have block: "take 56 data = rest @ 0x80 # replicate (55 - length rest) 0" "length data = 64" using t(3,5) assms(2) by (simp_all add: data_def)
  have "msg @ padding (length msg) = full @ take 56 data @ bits"
    unfolding t(1) block bits_def using padded_blocks(1) [OF t(2), of rest] t(3,4) assms(2) by simp
  moreover have "length (take 56 data @ bits) = 64" using block(2) len by simp
  ultimately have "digest_blocks compress st0 (msg @ padding (length msg)) = compress (c_state ctx) (take 56 data @ bits)"
    using digest_blocks_append [OF t(2), of compress st0] digest_blocks_one [of "take 56 data @ bits" compress] t(8) by simp
  then show thesis using that [OF run block(2)] unfolding bits by simp
qed

lemma last_blocks:
  assumes "taken compress st0 ctx msg" "\<not> c_datalen ctx < 56"
  obtains data where "put (c_data ctx) (c_datalen ctx) 0x80 \<bind> zeros (63 - c_datalen ctx) (Suc (c_datalen ctx)) = Some data"
    "length data = 64"
    "compress (compress (c_state ctx) data) (replicate 56 0 @ length_bytes (c_bitlen ctx + of_nat (c_datalen ctx * 8))) =
      digest_blocks compress st0 (msg @ padding (length msg))"
proof -
  obtain full rest where t: "msg = full @ rest" "length full mod 64 = 0" "length rest = c_datalen ctx" "c_datalen ctx < 64"
      "length (c_data ctx) = 64" "take (c_datalen ctx) (c_data ctx) = rest"
      "c_bitlen ctx = of_nat (8 * length full)" "c_state ctx = digest_blocks compress st0 full"
    by (rule takenE [OF assms(1)])
  define data :: "byte list" where "data = rest @ 0x80 # replicate (63 - c_datalen ctx) 0"
  define bits where "bits = length_bytes (of_nat (8 * length (full @ rest)))"
  have "take (Suc (c_datalen ctx)) ((c_data ctx)[c_datalen ctx := 0x80]) = rest @ [0x80]"
    using t(4-6) by (simp add: take_Suc_conv_app_nth)
  then have run: "put (c_data ctx) (c_datalen ctx) 0x80 \<bind> zeros (63 - c_datalen ctx) (Suc (c_datalen ctx)) = Some data"
    using t(4,5) zeros_correct [of "Suc (c_datalen ctx)" "63 - c_datalen ctx" "(c_data ctx)[c_datalen ctx := 0x80]"]
    by (simp add: put_def data_def)
  have len: "length data = 64" "length (replicate 56 0 @ bits) = 64" using t(3,4) by (simp_all add: data_def bits_def length_bytes_def)
  have bits: "length_bytes (c_bitlen ctx + of_nat (c_datalen ctx * 8)) = bits" using t(3,7) by (simp add: bits_def algebra_simps)
  have "msg @ padding (length msg) = full @ data @ replicate 56 0 @ bits"
    unfolding t(1) data_def bits_def using padded_blocks(2) [OF t(2), of rest] t(3,4) assms(2) by simp
  then have "digest_blocks compress st0 (msg @ padding (length msg)) = compress (compress (c_state ctx) data) (replicate 56 0 @ bits)"
    using digest_blocks_append [OF t(2), of compress st0] digest_blocks_append [of data compress "c_state ctx"]
      digest_blocks_one [OF len(1), of compress] digest_blocks_one [OF len(2), of compress] len(1) t(8) by simp
  then show thesis using that [OF run len(1)] unfolding bits by simp
qed

end

lemma length_bytes_list:
  "length_bytes n = [ucast (drop_bit 56 n), ucast (drop_bit 48 n), ucast (drop_bit 40 n), ucast (drop_bit 32 n),
     ucast (drop_bit 24 n), ucast (drop_bit 16 n), ucast (drop_bit 8 n), ucast n]"
  by (simp add: length_bytes_def upt_rec)

lemma ucast_mask: "ucast (w AND 0xff :: 32 word) = (ucast w :: byte)"
proof (rule bit_word_eqI)
  fix n assume "n < LENGTH(8)"
  then have "n \<in> {0, 1, 2, 3, 4, 5, 6, 7}" by auto
  then show "bit (ucast (w AND 0xff) :: byte) n = bit (ucast w :: byte) n" by (auto simp: bit_simps)
qed

lemma length_vars256: "length (vars256 H block n) = length H"
  by (induction n) (auto simp: Let_def split: list.split)

lemma length_vars1: "length (vars1 H block n) = length H"
  by (induction n) (auto split: list.split)

lemma length_compressed: "length (sha256_compress st data) = length st" "length (sha1_compress st data) = length st"
  by (simp_all add: sha256_compress_def sha1_compress_def length_vars256 length_vars1)

lemma length_initial: "length H256 = 8" "length H1 = 5"
  by (simp_all add: H256_values H1_values)

interpretation s256: block_digest sha256_transform sha256_compress
  H256
  by unfold_locales (simp_all add: sha256_transform_spec length_compressed length_initial)

interpretation s1: block_digest sha1_transform sha1_compress H1
  by unfold_locales (simp_all add: sha1_transform_spec length_compressed length_initial)

lemma sha256_final_taken:
  assumes "taken sha256_compress H256 ctx msg"
  shows "sha256_final ctx = Some (sha256_spec msg)"
proof -
  define st where "st = digest_blocks sha256_compress
    H256 (msg @ padding (length msg))"
  have "length st = 8" using s256.length_digest_blocks [of H256]
    by (simp add: st_def length_initial)
  moreover have state: "length (c_state ctx) = 8" using assms s256.length_digest_blocks [of H256] by (auto simp: taken_def length_initial)
  ultimately have out: "map (\<lambda>p. ucast (drop_bit (24 - (p mod 4) * 8) (st ! (p div 4)) AND 0xff)) [0..<32] = sha256_spec msg"
    using state_bytes [of "\<lambda>j w. ucast (drop_bit (24 - j * 8) w) :: byte" st]
    by (simp add: ucast_mask sha256_spec_def digest_of_def word_bytes_def [abs_def] st_def)
  show ?thesis
  proof (cases "c_datalen ctx < 56")
    case True
    obtain data where data: "put (c_data ctx) (c_datalen ctx) 0x80 \<bind> zeros (55 - c_datalen ctx) (Suc (c_datalen ctx)) = Some data"
        "length data = 64"
        "sha256_compress (c_state ctx) (take 56 data @ length_bytes (c_bitlen ctx + of_nat (c_datalen ctx * 8))) = st"
      unfolding st_def by (rule s256.last_block [OF assms True])
    then obtain d where "put (c_data ctx) (c_datalen ctx) 0x80 = Some d" "zeros (55 - c_datalen ctx) (Suc (c_datalen ctx)) d = Some data"
      by (auto simp: bind_eq_Some_conv)
    then show ?thesis
      using True data(2,3) out
      by (simp add: sha256_final_def Let_def put_last_eight sha256_transform_spec state length_compressed length_bytes_list del: put_all_bytes.simps)
  next
    case False
    obtain data where data: "put (c_data ctx) (c_datalen ctx) 0x80 \<bind> zeros (63 - c_datalen ctx) (Suc (c_datalen ctx)) = Some data"
        "length data = 64"
        "sha256_compress (sha256_compress (c_state ctx) data) (replicate 56 0 @ length_bytes (c_bitlen ctx + of_nat (c_datalen ctx * 8))) = st"
      unfolding st_def by (rule s256.last_blocks [OF assms False])
    then obtain d where "put (c_data ctx) (c_datalen ctx) 0x80 = Some d" "zeros (63 - c_datalen ctx) (Suc (c_datalen ctx)) d = Some data"
      by (auto simp: bind_eq_Some_conv)
    then show ?thesis
      using False data(2,3) out zeros_correct [of 0 56 data]
      by (simp add: sha256_final_def Let_def put_last_eight sha256_transform_spec state length_compressed length_bytes_list del: put_all_bytes.simps zeros.simps)
  qed
qed

lemma sha1_final_taken:
  assumes "taken sha1_compress H1 ctx msg"
  shows "sha1_final ctx = Some (sha1_spec msg)"
proof -
  define st where "st = digest_blocks sha1_compress
    H1 (msg @ padding (length msg))"
  have "length st = 5" using s1.length_digest_blocks [of H1]
    by (simp add: st_def length_initial)
  moreover have state: "length (c_state ctx) = 5" using assms s1.length_digest_blocks [of H1] by (auto simp: taken_def length_initial)
  ultimately have out: "map (\<lambda>p. ucast (drop_bit (24 - (p mod 4) * 8) (st ! (p div 4)))) [0..<20] = sha1_spec msg"
    using state_bytes [of "\<lambda>j w. ucast (drop_bit (24 - j * 8) w) :: byte" st]
    by (simp add: sha1_spec_def digest_of_def word_bytes_def [abs_def] st_def)
  have order: "map (\<lambda>j. (63 - j, ucast (drop_bit (j * 8) n))) [0..<8] =
      [(63, ucast n), (62, ucast (drop_bit 8 n)), (61, ucast (drop_bit 16 n)), (60, ucast (drop_bit 24 n)),
       (59, ucast (drop_bit 32 n)), (58, ucast (drop_bit 40 n)), (57, ucast (drop_bit 48 n)), (56, ucast (drop_bit 56 n) :: byte)]" for n :: "64 word"
    by (simp add: upt_rec)
  show ?thesis
  proof (cases "c_datalen ctx < 56")
    case True
    obtain data where data: "put (c_data ctx) (c_datalen ctx) 0x80 \<bind> zeros (55 - c_datalen ctx) (Suc (c_datalen ctx)) = Some data"
        "length data = 64"
        "sha1_compress (c_state ctx) (take 56 data @ length_bytes (c_bitlen ctx + of_nat (c_datalen ctx * 8))) = st"
      unfolding st_def by (rule s1.last_block [OF assms True])
    then obtain d where "put (c_data ctx) (c_datalen ctx) 0x80 = Some d" "zeros (55 - c_datalen ctx) (Suc (c_datalen ctx)) d = Some data"
      by (auto simp: bind_eq_Some_conv)
    then show ?thesis
      using True data(2,3) out
      by (simp add: sha1_final_def Let_def order put_last_eight sha1_transform_spec state length_compressed length_bytes_list del: put_all_bytes.simps)
  next
    case False
    obtain data where data: "put (c_data ctx) (c_datalen ctx) 0x80 \<bind> zeros (63 - c_datalen ctx) (Suc (c_datalen ctx)) = Some data"
        "length data = 64"
        "sha1_compress (sha1_compress (c_state ctx) data) (replicate 56 0 @ length_bytes (c_bitlen ctx + of_nat (c_datalen ctx * 8))) = st"
      unfolding st_def by (rule s1.last_blocks [OF assms False])
    then obtain d where "put (c_data ctx) (c_datalen ctx) 0x80 = Some d" "zeros (63 - c_datalen ctx) (Suc (c_datalen ctx)) d = Some data"
      by (auto simp: bind_eq_Some_conv)
    then show ?thesis
      using False data(2,3) out zeros_correct [of 0 56 data]
      by (simp add: sha1_final_def Let_def order put_last_eight sha1_transform_spec state length_compressed length_bytes_list del: put_all_bytes.simps zeros.simps)
  qed
qed

end
