(* ===== verification/Checksum.thy ===== *)
theory Checksum
  imports Sha PathUtil
begin

text \<open>
  The Python module \<open>checksum\<close> (\<open>ports/sh/modchecksum.c\<close>): digests of files, read in pieces of at most
  512 bytes.  The file system is an argument; \<open>open\<close>, \<open>read\<close> and \<open>close\<close> return a result or an
  error number and the new state.  A read that returns more than the buffer holds, and a loop
  that does not end, has no result; the number of reads is bounded by an argument.

  Shown here: however the file system cuts the file into reads, the functions return the
  hexadecimal digest of its contents as the standard of the theory \<open>ShaStandard\<close> defines it, and close
  the file.
\<close>

section \<open>The file system, a parameter\<close>

record 'fs file_ops =
  f_open :: "'fs \<Rightarrow> bytes \<Rightarrow> (int + int) \<times> 'fs"
  f_read :: "'fs \<Rightarrow> int \<Rightarrow> nat \<Rightarrow> (int + byte list) \<times> 'fs"
  f_close :: "'fs \<Rightarrow> int \<Rightarrow> int option \<times> 'fs"

section \<open>The module\<close>

definition PE_CHECKSUM_BUFSIZE :: nat where
  "PE_CHECKSUM_BUFSIZE = 512"

definition pe_checksum_open :: "'fs file_ops \<Rightarrow> bytes \<Rightarrow> bytes \<Rightarrow> 'fs \<Rightarrow> bytes \<Rightarrow> ((perr + int) \<times> 'fs) option" where
  "pe_checksum_open F stack cwd fs path =
     do {
       r \<leftarrow> pe_os_path stack cwd path;
       case r of
         Inl e \<Rightarrow> Some (Inl e, fs)
       | Inr resolved \<Rightarrow>
           (case f_open F fs resolved of
              (Inl e, fs) \<Rightarrow> Some (Inl (FsErr e), fs)
            | (Inr fd, fs) \<Rightarrow> Some (Inr fd, fs))
     }"

definition pe_checksum_close :: "'fs file_ops \<Rightarrow> 'fs \<Rightarrow> int \<Rightarrow> (perr + unit) \<times> 'fs" where
  "pe_checksum_close F fs fd =
     (case f_close F fs fd of (Some e, fs) \<Rightarrow> (Inl (FsErr e), fs) | (None, fs) \<Rightarrow> (Inr (), fs))"

definition pe_checksum_read :: "'fs file_ops \<Rightarrow> 'fs \<Rightarrow> int \<Rightarrow> nat \<Rightarrow> ((perr + byte list) \<times> 'fs) option" where
  "pe_checksum_read F fs fd n =
     (case f_read F fs fd n of
        (Inl e, fs) \<Rightarrow> Some (Inl (FsErr e), fs)
      | (Inr bs, fs) \<Rightarrow> if length bs > n then None else Some (Inr bs, fs))"

definition hex_digits :: string where
  "hex_digits = ''0123456789abcdef''"

definition pe_checksum_hex :: "byte list \<Rightarrow> string" where
  "pe_checksum_hex digest = concat (map (\<lambda>b. [hex_digits ! unat (drop_bit 4 b), hex_digits ! unat (b AND 0x0f)]) digest)"

fun read_loop :: "nat \<Rightarrow> 'fs file_ops \<Rightarrow> (sha_ctx \<Rightarrow> byte list \<Rightarrow> sha_ctx option) \<Rightarrow> 'fs \<Rightarrow> int \<Rightarrow> sha_ctx \<Rightarrow> ((perr + sha_ctx) \<times> 'fs) option" where
  "read_loop 0 F update fs fd ctx = None"
| "read_loop (Suc n) F update fs fd ctx =
     (case pe_checksum_read F fs fd PE_CHECKSUM_BUFSIZE of
        None \<Rightarrow> None
      | Some (Inl e, fs) \<Rightarrow> Some (Inl e, fs)
      | Some (Inr bs, fs) \<Rightarrow>
          if bs = [] then Some (Inr ctx, fs)
          else do { ctx \<leftarrow> update ctx bs; read_loop n F update fs fd ctx })"

text \<open>The two functions are the same but for the digest; \<open>ctx\<close> is the context on the C stack.\<close>

definition checksum_file :: "nat \<Rightarrow> 'fs file_ops \<Rightarrow> (sha_ctx \<Rightarrow> sha_ctx) \<Rightarrow> (sha_ctx \<Rightarrow> byte list \<Rightarrow> sha_ctx option) \<Rightarrow> (sha_ctx \<Rightarrow> byte list option)
    \<Rightarrow> bytes \<Rightarrow> sha_ctx \<Rightarrow> bytes \<Rightarrow> 'fs \<Rightarrow> bytes \<Rightarrow> ((perr + string) \<times> 'fs) option" where
  "checksum_file n F init update final stack ctx cwd fs path =
     do {
       (r, fs) \<leftarrow> pe_checksum_open F stack cwd fs path;
       case r of
         Inl e \<Rightarrow> Some (Inl e, fs)
       | Inr fd \<Rightarrow>
           do {
             (r, fs) \<leftarrow> read_loop n F update fs fd (init ctx);
             case r of
               Inl e \<Rightarrow> Some (Inl e, fs)
             | Inr ctx \<Rightarrow>
                 (case pe_checksum_close F fs fd of
                    (Inl e, fs) \<Rightarrow> Some (Inl e, fs)
                  | (Inr _, fs) \<Rightarrow> do { digest \<leftarrow> final ctx; Some (Inr (pe_checksum_hex digest), fs) })
           }
     }"

definition pe_checksum_sha256_file :: "nat \<Rightarrow> 'fs file_ops \<Rightarrow> bytes \<Rightarrow> sha_ctx \<Rightarrow> bytes \<Rightarrow> 'fs \<Rightarrow> bytes \<Rightarrow> ((perr + string) \<times> 'fs) option" where
  "pe_checksum_sha256_file n F = checksum_file n F sha256_init sha256_update sha256_final"

definition pe_checksum_sha1_file :: "nat \<Rightarrow> 'fs file_ops \<Rightarrow> bytes \<Rightarrow> sha_ctx \<Rightarrow> bytes \<Rightarrow> 'fs \<Rightarrow> bytes \<Rightarrow> ((perr + string) \<times> 'fs) option" where
  "pe_checksum_sha1_file n F = checksum_file n F sha1_init sha1_update sha1_final"

section \<open>Reading a file to its end\<close>

text \<open>
  The reads of an open file return these pieces one after the other, each within the buffer, and then
  nothing more.
\<close>

fun delivers :: "'fs file_ops \<Rightarrow> int \<Rightarrow> 'fs \<Rightarrow> byte list list \<Rightarrow> 'fs \<Rightarrow> bool" where
  "delivers F fd fs [] fs' \<longleftrightarrow> f_read F fs fd PE_CHECKSUM_BUFSIZE = (Inr [], fs')"
| "delivers F fd fs (c # cs) fs' \<longleftrightarrow>
     (case f_read F fs fd PE_CHECKSUM_BUFSIZE of
        (Inr bs, fs1) \<Rightarrow> bs = c \<and> c \<noteq> [] \<and> length c \<le> PE_CHECKSUM_BUFSIZE \<and> delivers F fd fs1 cs fs'
      | _ \<Rightarrow> False)"

lemma init_taken:
  assumes "length (c_data ctx) = 64"
  shows "taken sha256_compress H256 (sha256_init ctx) []"
    and "taken sha1_compress H1 (sha1_init ctx) []"
  using assms by (simp_all add: taken_def sha256_init_def sha1_init_def digest_blocks_short H256_values H1_values)

context block_digest
begin

lemma read_loop_taken:
  assumes "delivers F fd fs chunks fs'" "length chunks < n" "taken compress st0 ctx msg"
  shows "\<exists>ctx'. read_loop n F (update_with transform) fs fd ctx = Some (Inr ctx', fs') \<and> taken compress st0 ctx' (msg @ concat chunks)"
  using assms
proof (induction chunks arbitrary: n fs ctx msg)
  case Nil
  then show ?case by (cases n) (simp_all add: pe_checksum_read_def)
next
  case (Cons c cs)
  then obtain n' where n: "n = Suc n'" by (cases n) auto
  obtain fs1 where fs1: "f_read F fs fd PE_CHECKSUM_BUFSIZE = (Inr c, fs1)" "c \<noteq> []" "length c \<le> PE_CHECKSUM_BUFSIZE" "delivers F fd fs1 cs fs'"
    using Cons.prems(1) by (auto split: prod.splits sum.splits)
  obtain ctx1 where ctx1: "update_with transform ctx c = Some ctx1" "taken compress st0 ctx1 (msg @ c)"
    using update_taken [OF Cons.prems(3)] by blast
  have "read_loop n F (update_with transform) fs fd ctx = read_loop n' F (update_with transform) fs1 fd ctx1"
    using n fs1(1-3) ctx1(1) by (simp add: pe_checksum_read_def)
  then show ?case using Cons.IH [OF fs1(4) _ ctx1(2), of n'] Cons.prems(2) n by simp
qed

end

lemma hex_digits_standard: "n < 16 \<Longrightarrow> hex_digits ! n = hex_char n"
proof -
  have "\<forall>n \<in> set [0..<16]. hex_digits ! n = hex_char n" by code_simp
  then show "n < 16 \<Longrightarrow> hex_digits ! n = hex_char n" by simp
qed

lemma pe_checksum_hex_standard: "pe_checksum_hex bs = hex_string bs"
proof -
  have "hex_digits ! unat (drop_bit 4 b) = hex_char (unat b div 16)" "hex_digits ! unat (b AND 0x0f) = hex_char (unat b mod 16)" for b :: byte
  proof -
    have "unat b < 256" using unsigned_less [of b] by simp
    moreover have "unat (drop_bit 4 b) = unat b div 16" unfolding unat_drop_bit_eq by (simp add: drop_bit_eq_div)
    moreover have "b AND 0x0f = take_bit 4 b" by (simp add: take_bit_eq_mask mask_eq_exp_minus_1)
    then have "unat (b AND 0x0f) = unat b mod 16" by (simp only: unsigned_take_bit_eq) (simp add: take_bit_eq_mod)
    ultimately show "hex_digits ! unat (drop_bit 4 b) = hex_char (unat b div 16)" "hex_digits ! unat (b AND 0x0f) = hex_char (unat b mod 16)"
      by (simp_all add: hex_digits_standard)
  qed
  then show ?thesis by (simp add: pe_checksum_hex_def hex_string_def)
qed

text \<open>C17: When the path resolves to a file that can be opened, read to its end and closed, the checksum
  functions return the hexadecimal SHA-256 and SHA-1 digest of its contents as FIPS 180-4 defines
  it (the theory \<open>ShaStandard\<close>, with constants, functions, schedule, rounds and padding of its own),
  however many reads deliver the file and wherever they cut it, and they close the file; every read
  stays within the buffer, and one read more than there are pieces is enough for the loop to end.\<close>

theorem checksum_file_correct:
  assumes "pe_os_path stack cwd path = Some (Inr p)" "f_open F fs p = (Inr fd, fs1)" "delivers F fd fs1 chunks fs2"
    "f_close F fs2 fd = (None, fs3)" "length chunks < n" "length (c_data ctx) = 64"
  shows "pe_checksum_sha256_file n F stack ctx cwd fs path = Some (Inr (hex_string (sha256_spec (concat chunks))), fs3) \<and>
    pe_checksum_sha1_file n F stack ctx cwd fs path = Some (Inr (hex_string (sha1_spec (concat chunks))), fs3)"
proof
  obtain c where "read_loop n F sha256_update fs1 fd (sha256_init ctx) = Some (Inr c, fs2)" "sha256_final c = Some (sha256_spec (concat chunks))"
    using s256.read_loop_taken [OF assms(3,5) init_taken(1) [OF assms(6)]] sha256_final_taken unfolding sha256_update_def by auto
  then show "pe_checksum_sha256_file n F stack ctx cwd fs path = Some (Inr (hex_string (sha256_spec (concat chunks))), fs3)"
    using assms(1,2,4) by (simp add: pe_checksum_sha256_file_def checksum_file_def pe_checksum_open_def pe_checksum_close_def pe_checksum_hex_standard)
  obtain c where "read_loop n F sha1_update fs1 fd (sha1_init ctx) = Some (Inr c, fs2)" "sha1_final c = Some (sha1_spec (concat chunks))"
    using s1.read_loop_taken [OF assms(3,5) init_taken(2) [OF assms(6)]] sha1_final_taken unfolding sha1_update_def by auto
  then show "pe_checksum_sha1_file n F stack ctx cwd fs path = Some (Inr (hex_string (sha1_spec (concat chunks))), fs3)"
    using assms(1,2,4) by (simp add: pe_checksum_sha1_file_def checksum_file_def pe_checksum_open_def pe_checksum_close_def pe_checksum_hex_standard)
qed

text \<open>A file system with one file, whose state is the pieces that are still to be read.\<close>

definition one_file :: "byte list list file_ops" where
  "one_file = \<lparr>f_open = (\<lambda>fs p. (if p = ''/f'' then Inr 3 else Inl 2, fs)),
     f_read = (\<lambda>fs fd n. case fs of [] \<Rightarrow> (Inr [], []) | c # cs \<Rightarrow> (Inr c, cs)),
     f_close = (\<lambda>fs fd. (None, fs))\<rparr>"

theorem checksum_file_correct_witness:
  "pe_checksum_sha256_file 3 one_file (replicate PE_PATH_MAX NUL) \<lparr>c_data = replicate 64 0xaa, c_datalen = 7, c_bitlen = 1, c_state = []\<rparr>
      root_cwd [[0x61], [0x62, 0x63]] ''f'' =
    Some (Inr (hex_string (sha256_spec [0x61, 0x62, 0x63])), []) \<and>
   pe_checksum_sha1_file 3 one_file (replicate PE_PATH_MAX NUL) \<lparr>c_data = replicate 64 0xaa, c_datalen = 7, c_bitlen = 1, c_state = []\<rparr>
      root_cwd [[0x61], [0x62, 0x63]] ''f'' =
    Some (Inr (hex_string (sha1_spec [0x61, 0x62, 0x63])), [])"
proof -
  have l: "length (replicate PE_PATH_MAX NUL) = PE_PATH_MAX" by simp
  have s: "c_str ''f'' = ''f''" "base_stack [] ''f'' = []" by code_simp+
  have f: "parts_fit PE_PATH_MAX [] (path_parts ''f'')" "path_str (norm [] ''f'') = ''/f''" by code_simp+
  have p: "pe_os_path (replicate PE_PATH_MAX NUL) root_cwd ''f'' = Some (Inr ''/f'')"
    using pe_os_path_spec(1) [OF root_cwd_ok l, of "''f''"] f s by simp
  let ?chunks = "[[0x61], [0x62, 0x63]] :: byte list list"
  have run: "f_open one_file ?chunks ''/f'' = (Inr 3, ?chunks)" "delivers one_file 3 ?chunks ?chunks []" "f_close one_file [] 3 = (None, [])"
    by (simp_all add: one_file_def PE_CHECKSUM_BUFSIZE_def)
  show ?thesis using checksum_file_correct [OF p run, of 3] by simp
qed

end
