(* ===== verification/Timers.thy ===== *)
theory Timers
  imports Prelude "HOL-Library.Word"
begin

text \<open>
  The timers a Python program has started (\<open>ports/sh/resources.c\<close>): a word with a bit for each of
  gint's timers in use, so that those left running can be stopped when the program ends.  gint's
  functions are an argument, on a state of their own.

  Shown here: the timers stopped at the end are exactly those that were started and not given
  up since; giving one up does not stop it, so it is never stopped; and the word is not
  cleared at the end, so that a second program's end stops the timers of the first again.
\<close>

unbundle bit_operations_syntax

record 'g timer_ops =
  timer_configure :: "'g \<Rightarrow> int \<Rightarrow> int \<times> 'g"
  timer_stop :: "'g \<Rightarrow> int \<Rightarrow> 'g"

record 'g timers =
  timer_used :: "32 word"
  gint_timers :: 'g

definition pe_timer_configure :: "'g timer_ops \<Rightarrow> 'g timers \<Rightarrow> int \<Rightarrow> int \<times> 'g timers" where
  "pe_timer_configure T s timer =
     (let (t, g) = timer_configure T (gint_timers s) timer; s = s\<lparr>gint_timers := g\<rparr> in
      if t < 0 then (t, s)
      else if t \<ge> 32 then (- 1, s\<lparr>gint_timers := timer_stop T g t\<rparr>)
      else (t, s\<lparr>timer_used := timer_used s OR push_bit (nat t) 1\<rparr>))"

definition pe_timer_stop :: "'g timers \<Rightarrow> int \<Rightarrow> 'g timers" where
  "pe_timer_stop s t =
     (if t < 0 \<or> t \<ge> 32 then s else s\<lparr>timer_used := timer_used s AND NOT (push_bit (nat t) 1)\<rparr>)"

fun autofree_from :: "'g timer_ops \<Rightarrow> nat list \<Rightarrow> 'g timers \<Rightarrow> 'g timers" where
  "autofree_from T [] s = s"
| "autofree_from T (t # ts) s =
     autofree_from T ts
       (if timer_used s AND push_bit t 1 = 0 then s else s\<lparr>gint_timers := timer_stop T (gint_timers s) (int t)\<rparr>)"

definition pe_timer_autofree :: "'g timer_ops \<Rightarrow> 'g timers \<Rightarrow> 'g timers" where
  "pe_timer_autofree T s = autofree_from T [0..<32] s"

definition pe_resources_autofree :: "'g timer_ops \<Rightarrow> 'g timers \<Rightarrow> 'g timers" where
  "pe_resources_autofree T s = pe_timer_autofree T s"

lemma autofree_from_stops:
  "autofree_from T ts s = s\<lparr>gint_timers := fold (\<lambda>t g. timer_stop T g (int t)) (filter (\<lambda>t. bit (timer_used s) t) ts) (gint_timers s)\<rparr>"
proof (induction ts arbitrary: s)
  case (Cons t ts)
  have "timer_used s AND push_bit t 1 = 0 \<longleftrightarrow> \<not> bit (timer_used s) t"
    using bit_eq_iff [of "timer_used s AND push_bit t 1" 0] bit_imp_le_length [of "timer_used s" t] by (auto simp: bit_simps)
  then show ?case using Cons.IH by simp
qed simp

lemma autofree_stops_used:
  "pe_resources_autofree T s =
     s\<lparr>gint_timers := fold (\<lambda>t g. timer_stop T g (int t)) (filter (\<lambda>t. bit (timer_used s) t) [0..<32]) (gint_timers s)\<rparr>"
  by (simp add: pe_resources_autofree_def pe_timer_autofree_def autofree_from_stops)

lemma configure_used:
  assumes "pe_timer_configure T s timer = (t, s')" "0 \<le> t" "t < 32"
  shows "bit (timer_used s') n \<longleftrightarrow> bit (timer_used s) n \<or> n = nat t"
  using assms by (auto simp: pe_timer_configure_def bit_simps Let_def split: prod.splits if_splits dest: bit_imp_le_length)

lemma stop_forgets:
  assumes "0 \<le> t" "t < 32"
  shows "gint_timers (pe_timer_stop s t) = gint_timers s"
    and "bit (timer_used (pe_timer_stop s t)) n \<longleftrightarrow> bit (timer_used s) n \<and> n \<noteq> nat t"
  using assms by (auto simp: pe_timer_stop_def bit_simps dest: bit_imp_le_length)

end
