(* ===== verification/HashTable.thy ===== *)
theory HashTable
  imports Prelude
begin

text \<open>
  The hash tables behind dictionaries and sets (\<open>py/map.c\<close>): open addressing with linear
  probing, a marker for slots whose element was deleted, and growth by rehashing.  Maps can
  also be ordered arrays that are never modified, as the tables of built-in modules are.

  Keys are of any hashable type.  Their equality and hash (\<open>mp_obj_equal\<close> and the hash operator), which
  keys are interned strings and which are other strings are an argument of the operations;
  so is \<open>room\<close>, whether an array of so many elements can be allocated.  Pointer equality of keys
  is equality in the model.  A value is \<open>None\<close> where the C code stores \<open>MP_OBJ_NULL\<close>.

  An operation returns the table, changed also when it leaves through a \<open>MemoryError\<close>, and what
  it found.  \<open>None\<close> as a whole is a failed assertion, an access outside the array of the table,
  or a loop that does not end.  Rehashing calls the lookup again, so the recursion is bounded
  by a number of levels; the keys of a table always fit the bigger one, so two are enough.

  Shown here, in the locale \<open>hash_keys\<close> of what equality and hash owe each other: a lookup
  agrees with a linear search through the table; adding and removing change the association of
  one key and no other, and a map is untouched when memory runs out; all of them keep the
  invariant that makes probing work.  A set is left broken when memory runs out.  The
  properties themselves are in \<open>IntKeys\<close>, after the interpretation of the locale.
\<close>

section \<open>Tables\<close>

datatype 'k slotkey = NullKey | SentinelKey | Key 'k

record ('k, 'v) mp_map =
  all_keys_are_qstrs :: bool
  is_fixed :: bool
  is_ordered :: bool
  m_used :: nat
  m_alloc :: nat
  m_table :: "('k slotkey \<times> 'v option) list"

record 'k key_ops =
  k_eq :: "'k \<Rightarrow> 'k \<Rightarrow> bool"
  k_hash :: "'k \<Rightarrow> nat"
  k_qstr :: "'k \<Rightarrow> bool"
  k_str :: "'k \<Rightarrow> bool"

datatype lookup_kind = LOOKUP | ADD_IF_NOT_FOUND | REMOVE_IF_FOUND

datatype 'a attempt = MemoryError | Got 'a

abbreviation (input) m_keys :: "('k, 'v) mp_map \<Rightarrow> 'k slotkey list" where
  "m_keys m \<equiv> map fst (m_table m)"

definition hash_allocation_sizes :: "nat list" where
  "hash_allocation_sizes =
     [0, 2, 4, 6, 8, 10, 12,
      17, 23, 29, 37, 47, 59, 73,
      97, 127, 167, 223, 293, 389, 521, 691, 919, 1223, 1627, 2161,
      3229, 4831, 7243, 10861, 16273, 24407, 36607, 54907]"

definition get_hash_alloc_greater_or_equal_to :: "nat \<Rightarrow> nat" where
  "get_hash_alloc_greater_or_equal_to x =
     (case find (\<lambda>n. x \<le> n) hash_allocation_sizes of
        Some n \<Rightarrow> n
      | None \<Rightarrow> let n = x + x div 2 in if even n then n + 1 else n)"

definition mp_map_init :: "nat \<Rightarrow> ('k, 'v) mp_map" where
  "mp_map_init n = \<lparr>all_keys_are_qstrs = True, is_fixed = False, is_ordered = False, m_used = 0, m_alloc = n,
     m_table = replicate n (NullKey, None)\<rparr>"

definition mp_map_init_fixed_table :: "('k \<times> 'v) list \<Rightarrow> ('k, 'v) mp_map" where
  "mp_map_init_fixed_table kvs = \<lparr>all_keys_are_qstrs = True, is_fixed = True, is_ordered = True, m_used = length kvs,
     m_alloc = length kvs, m_table = map (\<lambda>(k, v). (Key k, Some v)) kvs\<rparr>"

text \<open>Memory of a table that is freed is gone; the table of a fixed map is not freed.\<close>

definition mp_map_deinit :: "('k, 'v) mp_map \<Rightarrow> ('k, 'v) mp_map" where
  "mp_map_deinit m = m\<lparr>m_used := 0, m_alloc := 0, m_table := (if is_fixed m then m_table m else [])\<rparr>"

definition mp_map_clear :: "('k, 'v) mp_map \<Rightarrow> ('k, 'v) mp_map" where
  "mp_map_clear m = m\<lparr>m_alloc := 0, m_used := 0, all_keys_are_qstrs := True, is_fixed := False, m_table := []\<rparr>"

definition is_key :: "'k slotkey \<Rightarrow> bool" where
  "is_key k = (case k of Key _ \<Rightarrow> True | _ \<Rightarrow> False)"

definition mp_map_slot_is_filled :: "('k, 'v) mp_map \<Rightarrow> nat \<Rightarrow> bool option" where
  "mp_map_slot_is_filled m pos =
     (if pos < m_alloc m \<and> pos < length (m_table m) then Some (is_key (fst (m_table m ! pos))) else None)"

section \<open>Probing\<close>

text \<open>
  One round through the slots of a table of \<open>alloc\<close> elements.  It ends at an empty slot, at the
  key, or back at the start after \<open>n\<close> slots; the first deleted slot on the way is remembered.
  \<open>Outside\<close> is an access past the end of the array.
\<close>

datatype scan_result = EmptyAt nat "nat option" | FoundAt nat | Wrapped "nat option" | Outside

fun scan :: "('k \<Rightarrow> bool) \<Rightarrow> 'k slotkey list \<Rightarrow> nat \<Rightarrow> nat \<Rightarrow> nat \<Rightarrow> nat option \<Rightarrow> scan_result" where
  "scan found keys alloc 0 pos avail = Wrapped avail"
| "scan found keys alloc (Suc n) pos avail =
     (if pos \<ge> length keys then Outside
      else case keys ! pos of
        NullKey \<Rightarrow> EmptyAt pos avail
      | SentinelKey \<Rightarrow> scan found keys alloc n (Suc pos mod alloc) (if avail = None then Some pos else avail)
      | Key k \<Rightarrow> if found k then FoundAt pos else scan found keys alloc n (Suc pos mod alloc) avail)"

text \<open>Deleting: a slot before an empty one becomes empty, any other gets the marker.\<close>

definition deleted_key :: "'k slotkey list \<Rightarrow> nat \<Rightarrow> nat \<Rightarrow> 'k slotkey option" where
  "deleted_key keys alloc pos =
     (if Suc pos mod alloc \<ge> length keys then None
      else Some (if keys ! (Suc pos mod alloc) = NullKey then NullKey else SentinelKey))"

section \<open>Maps\<close>

definition add_slot :: "'k key_ops \<Rightarrow> ('k, 'v) mp_map \<Rightarrow> nat \<Rightarrow> 'k \<Rightarrow> ('k, 'v) mp_map" where
  "add_slot ops m pos index = m\<lparr>m_used := m_used m + 1, m_table := (m_table m)[pos := (Key index, None)],
     all_keys_are_qstrs := all_keys_are_qstrs m \<and> k_qstr ops index\<rparr>"

definition remove_slot :: "('k, 'v) mp_map \<Rightarrow> nat \<Rightarrow> ('k, 'v) mp_map option" where
  "remove_slot m pos =
     do {
       k \<leftarrow> deleted_key (map fst (m_table m)) (m_alloc m) pos;
       Some (m\<lparr>m_used := m_used m - 1, m_table := (m_table m)[pos := (k, snd (m_table m ! pos))]\<rparr>)
     }"

definition set_value :: "('k, 'v) mp_map \<Rightarrow> nat \<Rightarrow> 'v option \<Rightarrow> ('k, 'v) mp_map" where
  "set_value m pos v = m\<lparr>m_table := (m_table m)[pos := (fst (m_table m ! pos), v)]\<rparr>"

text \<open>The linear search of an ordered array.\<close>

fun ordered_find :: "('k \<Rightarrow> bool) \<Rightarrow> ('k slotkey \<times> 'v option) list \<Rightarrow> nat \<Rightarrow> nat option" where
  "ordered_find found [] i = None"
| "ordered_find found ((k, v) # elems) i =
     (case k of
        Key k' \<Rightarrow> if found k' then Some i else ordered_find found elems (Suc i)
      | _ \<Rightarrow> ordered_find found elems (Suc i))"

text \<open>
  The search of a hash table.  When there is no room left for a key to add, the table is
  rehashed and the search starts again.
\<close>

fun hash_lookup :: "nat \<Rightarrow> 'k key_ops \<Rightarrow> (('k, 'v) mp_map \<Rightarrow> (('k, 'v) mp_map \<times> unit attempt) option) \<Rightarrow> ('k \<Rightarrow> bool)
    \<Rightarrow> ('k, 'v) mp_map \<Rightarrow> 'k \<Rightarrow> lookup_kind \<Rightarrow> (('k, 'v) mp_map \<times> nat option attempt) option" where
  "hash_lookup 0 ops rehash found m index kind = None"
| "hash_lookup (Suc rounds) ops rehash found m index kind =
     (if m_alloc m = 0 then None
      else case scan found (map fst (m_table m)) (m_alloc m) (m_alloc m) (k_hash ops index mod m_alloc m) None of
        EmptyAt pos avail \<Rightarrow>
          if kind = ADD_IF_NOT_FOUND then
            let pos = (case avail of None \<Rightarrow> pos | Some p \<Rightarrow> p) in Some (add_slot ops m pos index, Got (Some pos))
          else Some (m, Got None)
      | FoundAt pos \<Rightarrow>
          if kind = REMOVE_IF_FOUND then do { m \<leftarrow> remove_slot m pos; Some (m, Got (Some pos)) }
          else Some (m, Got (Some pos))
      | Wrapped avail \<Rightarrow>
          if kind = ADD_IF_NOT_FOUND then
            (case avail of
               Some pos \<Rightarrow> Some (add_slot ops m pos index, Got (Some pos))
             | None \<Rightarrow>
                 (case rehash m of
                    Some (m, Got _) \<Rightarrow> hash_lookup rounds ops rehash found m index kind
                  | Some (m, MemoryError) \<Rightarrow> Some (m, MemoryError)
                  | None \<Rightarrow> None))
          else Some (m, Got None)
      | Outside \<Rightarrow> None)"

text \<open>
  While all keys are interned strings, a key that is not another string is compared by
  pointer only.
\<close>

definition key_matches :: "'k key_ops \<Rightarrow> ('k, 'v) mp_map \<Rightarrow> 'k \<Rightarrow> 'k \<Rightarrow> bool" where
  "key_matches ops m index k =
     (let compare_only_ptrs = (all_keys_are_qstrs m \<and> (k_qstr ops index \<or> \<not> k_str ops index)) in
      k = index \<or> \<not> compare_only_ptrs \<and> k_eq ops k index)"

definition lookup_body :: "'k key_ops \<Rightarrow> (('k, 'v) mp_map \<Rightarrow> (('k, 'v) mp_map \<times> unit attempt) option)
    \<Rightarrow> ('k, 'v) mp_map \<Rightarrow> 'k \<Rightarrow> lookup_kind \<Rightarrow> (('k, 'v) mp_map \<times> nat option attempt) option" where
  "lookup_body ops rehash m index kind =
     (if is_fixed m \<and> kind \<noteq> LOOKUP then None
      else if all_keys_are_qstrs m \<and> \<not> k_qstr ops index \<and> \<not> k_str ops index \<and> kind \<noteq> ADD_IF_NOT_FOUND then Some (m, Got None)
      else if is_ordered m then Some (m, Got (ordered_find (key_matches ops m index) (take (m_used m) (m_table m)) 0))
      else if m_alloc m = 0 then
        (if kind = ADD_IF_NOT_FOUND then
           (case rehash m of
              Some (m', Got _) \<Rightarrow> hash_lookup 2 ops rehash (key_matches ops m index) m' index kind
            | Some (m', MemoryError) \<Rightarrow> Some (m', MemoryError)
            | None \<Rightarrow> None)
         else Some (m, Got None))
      else hash_lookup 2 ops rehash (key_matches ops m index) m index kind)"

fun reinsert :: "(('k, 'v) mp_map \<Rightarrow> 'k \<Rightarrow> lookup_kind \<Rightarrow> (('k, 'v) mp_map \<times> nat option attempt) option)
    \<Rightarrow> ('k slotkey \<times> 'v option) list \<Rightarrow> ('k, 'v) mp_map \<Rightarrow> (('k, 'v) mp_map \<times> unit attempt) option" where
  "reinsert lookup [] m = Some (m, Got ())"
| "reinsert lookup ((k, v) # old) m =
     (case k of
        Key index \<Rightarrow>
          (case lookup m index ADD_IF_NOT_FOUND of
             Some (m, Got (Some pos)) \<Rightarrow> reinsert lookup old (set_value m pos v)
           | Some (m, MemoryError) \<Rightarrow> Some (m, MemoryError)
           | _ \<Rightarrow> None)
      | _ \<Rightarrow> reinsert lookup old m)"

definition rehash_with :: "(('k, 'v) mp_map \<Rightarrow> 'k \<Rightarrow> lookup_kind \<Rightarrow> (('k, 'v) mp_map \<times> nat option attempt) option)
    \<Rightarrow> (nat \<Rightarrow> bool) \<Rightarrow> ('k, 'v) mp_map \<Rightarrow> (('k, 'v) mp_map \<times> unit attempt) option" where
  "rehash_with lookup room m =
     (let new_alloc = get_hash_alloc_greater_or_equal_to (m_alloc m + 1) in
      if \<not> room new_alloc then Some (m, MemoryError)
      else reinsert lookup (m_table m)
        (m\<lparr>m_alloc := new_alloc, m_used := 0, all_keys_are_qstrs := True, m_table := replicate new_alloc (NullKey, None)\<rparr>))"

fun mp_map_lookup :: "nat \<Rightarrow> 'k key_ops \<Rightarrow> (nat \<Rightarrow> bool) \<Rightarrow> ('k, 'v) mp_map \<Rightarrow> 'k \<Rightarrow> lookup_kind
    \<Rightarrow> (('k, 'v) mp_map \<times> nat option attempt) option" where
  "mp_map_lookup 0 ops room m index kind = None"
| "mp_map_lookup (Suc level) ops room m index kind =
     lookup_body ops (rehash_with (mp_map_lookup level ops room) room) m index kind"

definition mp_map_rehash :: "nat \<Rightarrow> 'k key_ops \<Rightarrow> (nat \<Rightarrow> bool) \<Rightarrow> ('k, 'v) mp_map \<Rightarrow> (('k, 'v) mp_map \<times> unit attempt) option" where
  "mp_map_rehash level ops room = rehash_with (mp_map_lookup level ops room) room"

section \<open>Sets\<close>

record 'k mp_set =
  s_alloc :: nat
  s_used :: nat
  s_table :: "'k slotkey list"

definition mp_set_init :: "nat \<Rightarrow> 'k mp_set" where
  "mp_set_init n = \<lparr>s_alloc = n, s_used = 0, s_table = replicate n NullKey\<rparr>"

definition mp_set_slot_is_filled :: "'k mp_set \<Rightarrow> nat \<Rightarrow> bool option" where
  "mp_set_slot_is_filled s pos = (if pos < length (s_table s) then Some (is_key (s_table s ! pos)) else None)"

definition set_put :: "'k mp_set \<Rightarrow> nat \<Rightarrow> 'k \<Rightarrow> 'k mp_set" where
  "set_put s pos index = s\<lparr>s_used := s_used s + 1, s_table := (s_table s)[pos := Key index]\<rparr>"

definition set_drop :: "'k mp_set \<Rightarrow> nat \<Rightarrow> 'k mp_set option" where
  "set_drop s pos =
     do {
       k \<leftarrow> deleted_key (s_table s) (s_alloc s) pos;
       Some (s\<lparr>s_used := s_used s - 1, s_table := (s_table s)[pos := k]\<rparr>)
     }"

text \<open>The lookup kinds of sets are two bits: add a missing element, remove one that is there.\<close>

fun set_search :: "nat \<Rightarrow> 'k key_ops \<Rightarrow> ('k mp_set \<Rightarrow> ('k mp_set \<times> unit attempt) option) \<Rightarrow> 'k mp_set \<Rightarrow> 'k \<Rightarrow> bool \<Rightarrow> bool
    \<Rightarrow> ('k mp_set \<times> 'k option attempt) option" where
  "set_search 0 ops rehash s index add remove = None"
| "set_search (Suc rounds) ops rehash s index add remove =
     (if s_alloc s = 0 then None
      else case scan (\<lambda>k. k_eq ops k index) (s_table s) (s_alloc s) (s_alloc s) (k_hash ops index mod s_alloc s) None of
        EmptyAt pos avail \<Rightarrow>
          if add then
            let pos = (case avail of None \<Rightarrow> pos | Some p \<Rightarrow> p) in Some (set_put s pos index, Got (Some index))
          else Some (s, Got None)
      | FoundAt pos \<Rightarrow>
          (case s_table s ! pos of
             Key elem \<Rightarrow>
               if remove then do { s \<leftarrow> set_drop s pos; Some (s, Got (Some elem)) }
               else Some (s, Got (Some elem))
           | _ \<Rightarrow> None)
      | Wrapped avail \<Rightarrow>
          if add then
            (case avail of
               Some pos \<Rightarrow> Some (set_put s pos index, Got (Some index))
             | None \<Rightarrow>
                 (case rehash s of
                    Some (s, Got _) \<Rightarrow> set_search rounds ops rehash s index add remove
                  | Some (s, MemoryError) \<Rightarrow> Some (s, MemoryError)
                  | None \<Rightarrow> None))
          else Some (s, Got None)
      | Outside \<Rightarrow> None)"

definition set_lookup_body :: "'k key_ops \<Rightarrow> ('k mp_set \<Rightarrow> ('k mp_set \<times> unit attempt) option) \<Rightarrow> 'k mp_set \<Rightarrow> 'k \<Rightarrow> bool \<Rightarrow> bool
    \<Rightarrow> ('k mp_set \<times> 'k option attempt) option" where
  "set_lookup_body ops rehash s index add remove =
     (if s_alloc s = 0 then
        (if add then
           (case rehash s of
              Some (s, Got _) \<Rightarrow> set_search 2 ops rehash s index add remove
            | Some (s, MemoryError) \<Rightarrow> Some (s, MemoryError)
            | None \<Rightarrow> None)
         else Some (s, Got None))
      else set_search 2 ops rehash s index add remove)"

fun set_reinsert :: "('k mp_set \<Rightarrow> 'k \<Rightarrow> bool \<Rightarrow> bool \<Rightarrow> ('k mp_set \<times> 'k option attempt) option) \<Rightarrow> 'k slotkey list \<Rightarrow> 'k mp_set
    \<Rightarrow> ('k mp_set \<times> unit attempt) option" where
  "set_reinsert lookup [] s = Some (s, Got ())"
| "set_reinsert lookup (k # old) s =
     (case k of
        Key index \<Rightarrow>
          (case lookup s index True False of
             Some (s, Got _) \<Rightarrow> set_reinsert lookup old s
           | Some (s, MemoryError) \<Rightarrow> Some (s, MemoryError)
           | None \<Rightarrow> None)
      | _ \<Rightarrow> set_reinsert lookup old s)"

text \<open>The size of the table is changed before the array for it is requested.\<close>

definition set_rehash_with :: "('k mp_set \<Rightarrow> 'k \<Rightarrow> bool \<Rightarrow> bool \<Rightarrow> ('k mp_set \<times> 'k option attempt) option) \<Rightarrow> (nat \<Rightarrow> bool) \<Rightarrow> 'k mp_set
    \<Rightarrow> ('k mp_set \<times> unit attempt) option" where
  "set_rehash_with lookup room s =
     (let old_table = s_table s;
          s = s\<lparr>s_alloc := get_hash_alloc_greater_or_equal_to (s_alloc s + 1), s_used := 0\<rparr>
      in if \<not> room (s_alloc s) then Some (s, MemoryError)
         else set_reinsert lookup old_table (s\<lparr>s_table := replicate (s_alloc s) NullKey\<rparr>))"

fun mp_set_lookup :: "nat \<Rightarrow> 'k key_ops \<Rightarrow> (nat \<Rightarrow> bool) \<Rightarrow> 'k mp_set \<Rightarrow> 'k \<Rightarrow> bool \<Rightarrow> bool \<Rightarrow> ('k mp_set \<times> 'k option attempt) option" where
  "mp_set_lookup 0 ops room s index add remove = None"
| "mp_set_lookup (Suc level) ops room s index add remove =
     set_lookup_body ops (set_rehash_with (mp_set_lookup level ops room) room) s index add remove"

definition mp_set_rehash :: "nat \<Rightarrow> 'k key_ops \<Rightarrow> (nat \<Rightarrow> bool) \<Rightarrow> 'k mp_set \<Rightarrow> ('k mp_set \<times> unit attempt) option" where
  "mp_set_rehash level ops room = set_rehash_with (mp_set_lookup level ops room) room"

fun remove_first_from :: "'k mp_set \<Rightarrow> nat \<Rightarrow> nat \<Rightarrow> ('k mp_set \<times> 'k option) option" where
  "remove_first_from s 0 pos = Some (s, None)"
| "remove_first_from s (Suc n) pos =
     (if pos \<ge> length (s_table s) then None
      else case s_table s ! pos of
        Key elem \<Rightarrow> do { s \<leftarrow> set_drop s pos; Some (s, Some elem) }
      | _ \<Rightarrow> remove_first_from s n (Suc pos))"

definition mp_set_remove_first :: "'k mp_set \<Rightarrow> ('k mp_set \<times> 'k option) option" where
  "mp_set_remove_first s = remove_first_from s (s_alloc s) 0"

definition mp_set_clear :: "'k mp_set \<Rightarrow> 'k mp_set" where
  "mp_set_clear s = \<lparr>s_alloc = 0, s_used = 0, s_table = []\<rparr>"

section \<open>The order of probing\<close>

text \<open>The \<open>i\<close>-th slot probed from \<open>s\<close>.\<close>

abbreviation (input) nth_slot :: "'k slotkey list \<Rightarrow> nat \<Rightarrow> nat \<Rightarrow> 'k slotkey" where
  "nth_slot ks s i \<equiv> ks ! ((s + i) mod length ks)"

lemma probe_inj:
  fixes n :: nat
  assumes "i < n" "j < n" "(s + i) mod n = (s + j) mod n"
  shows "i = j"
proof -
  have "(int s + int i) mod int n = (int s + int j) mod int n" using assms(3) by (metis of_nat_add zmod_int)
  then show ?thesis using ring_index_inj [of "int i" "int n" "int j" "int s"] assms by simp
qed

lemma probe_surj:
  fixes n :: nat
  assumes "p < n"
  obtains j where "j < n" "p = (s + j) mod n"
proof
  show "(p + n - s mod n) mod n < n" using assms by simp
  have "(s + (p + n - s mod n) mod n) mod n = (s mod n + (p + n - s mod n)) mod n" by (simp add: mod_add_left_eq mod_add_right_eq)
  also have "\<dots> = p" using assms by (simp add: le_add_diff_inverse less_imp_le trans_le_add2)
  finally show "p = (s + (p + n - s mod n) mod n) mod n" ..
qed

text \<open>A slot where a key whose probing starts at \<open>s\<close> can be put and will be found.\<close>

definition usable :: "'k slotkey list \<Rightarrow> nat \<Rightarrow> nat \<Rightarrow> bool" where
  "usable ks s p \<longleftrightarrow> \<not> is_key (ks ! p) \<and> (\<exists>i < length ks. p = (s + i) mod length ks \<and> (\<forall>j < i. nth_slot ks s j \<noteq> NullKey))"

definition absent :: "('k \<Rightarrow> bool) \<Rightarrow> 'k slotkey list \<Rightarrow> bool" where
  "absent found ks \<longleftrightarrow> (\<forall>k. Key k \<in> set ks \<longrightarrow> \<not> found k)"

fun scan_ok :: "('k \<Rightarrow> bool) \<Rightarrow> 'k slotkey list \<Rightarrow> nat \<Rightarrow> scan_result \<Rightarrow> bool" where
  "scan_ok found ks s (EmptyAt p avail) = (absent found ks \<and> usable ks s (case avail of None \<Rightarrow> p | Some q \<Rightarrow> q))"
| "scan_ok found ks s (FoundAt p) = (p < length ks \<and> (\<exists>k. ks ! p = Key k \<and> found k))"
| "scan_ok found ks s (Wrapped avail) =
     (absent found ks \<and> (case avail of Some q \<Rightarrow> usable ks s q | None \<Rightarrow> (\<forall>k \<in> set ks. is_key k)))"
| "scan_ok found ks s Outside = False"


lemma is_key_simps [simp]: "is_key (Key k)" "\<not> is_key NullKey" "\<not> is_key SentinelKey"
  by (simp_all add: is_key_def)

lemma absent_slots:
  assumes "\<And>i k. i < length ks \<Longrightarrow> nth_slot ks s i = Key k \<Longrightarrow> \<not> found k"
  shows "absent found ks"
  unfolding absent_def
proof (intro allI impI)
  fix k assume "Key k \<in> set ks"
  then obtain p where "p < length ks" "ks ! p = Key k" by (auto simp: in_set_conv_nth)
  then show "\<not> found k" using assms probe_surj [of p "length ks" s] by metis
qed

text \<open>What is known after \<open>j\<close> slots: none was empty or held the key.\<close>

definition scanned :: "('k \<Rightarrow> bool) \<Rightarrow> 'k slotkey list \<Rightarrow> nat \<Rightarrow> nat \<Rightarrow> nat option \<Rightarrow> bool" where
  "scanned found ks s j avail \<longleftrightarrow>
     (\<forall>i < j. nth_slot ks s i \<noteq> NullKey \<and> (\<forall>k. nth_slot ks s i = Key k \<longrightarrow> \<not> found k)) \<and>
     (case avail of Some q \<Rightarrow> usable ks s q | None \<Rightarrow> \<forall>i < j. is_key (nth_slot ks s i))"

lemma scanned_Suc:
  assumes "scanned found ks s j avail" "j < length ks"
  shows "nth_slot ks s j = SentinelKey \<Longrightarrow>
      scanned found ks s (Suc j) (if avail = None then Some ((s + j) mod length ks) else avail)"
    and "nth_slot ks s j = Key k \<Longrightarrow> \<not> found k \<Longrightarrow> scanned found ks s (Suc j) avail"
  using assms by (auto simp: scanned_def usable_def less_Suc_eq split: option.splits)

lemma scan_correct:
  assumes "scanned found ks s j avail" "j + c = length ks"
    and reach: "\<And>i k. i < length ks \<Longrightarrow> nth_slot ks s i = Key k \<Longrightarrow> found k \<Longrightarrow> \<forall>i' < i. nth_slot ks s i' \<noteq> NullKey"
  shows "scan_ok found ks s (scan found ks (length ks) c ((s + j) mod length ks) avail)"
  using assms(1,2)
proof (induction c arbitrary: j avail)
  case 0
  then have "absent found ks" by (intro absent_slots [of ks s]) (auto simp: scanned_def)
  moreover have "is_key k" if none: "avail = None" and k: "k \<in> set ks" for k
  proof -
    obtain p where "p < length ks" "ks ! p = k" using k by (auto simp: in_set_conv_nth)
    then obtain i where "i < length ks" "nth_slot ks s i = k" using probe_surj [of p "length ks" s] by metis
    then show ?thesis using 0 none by (auto simp: scanned_def)
  qed
  ultimately show ?case using 0 by (auto simp: scanned_def split: option.splits)
next
  case (Suc c)
  then have j: "j < length ks" by simp
  then have inside: "(s + j) mod length ks < length ks" by (intro mod_less_divisor) linarith
  have step: "Suc ((s + j) mod length ks) mod length ks = (s + Suc j) mod length ks" by (simp add: mod_Suc_eq)
  show ?case
  proof (cases "nth_slot ks s j")
    case NullKey
    have "\<not> found k" if "i < length ks" "nth_slot ks s i = Key k" for i k
      using reach [OF that] that NullKey Suc.prems(1) by (cases i j rule: linorder_cases) (auto simp: scanned_def)
    then have "absent found ks" by (rule absent_slots)
    moreover have "usable ks s ((s + j) mod length ks)" if "avail = None"
      using Suc.prems(1) j NullKey by (auto simp: usable_def scanned_def)
    ultimately show ?thesis using NullKey inside Suc.prems(1) by (auto simp: scanned_def split: option.splits)
  next
    case SentinelKey
    then show ?thesis
      using Suc.IH [OF scanned_Suc(1) [OF Suc.prems(1) j SentinelKey]] Suc.prems(2) inside by (simp add: step)
  next
    case (Key k)
    then show ?thesis
      using Suc.IH [OF scanned_Suc(2) [OF Suc.prems(1) j Key]] Suc.prems(2) inside by (auto simp: step)
  qed
qed

lemma scan_ok_start:
  assumes "s < length ks"
    and "\<And>i k. i < length ks \<Longrightarrow> nth_slot ks s i = Key k \<Longrightarrow> found k \<Longrightarrow> \<forall>i' < i. nth_slot ks s i' \<noteq> NullKey"
  shows "scan_ok found ks s (scan found ks (length ks) (length ks) s None)"
  using scan_correct [of found ks s 0 None "length ks"] assms by (simp add: scanned_def)

lemma scan_cong:
  assumes "\<And>k. Key k \<in> set ks \<Longrightarrow> found k = found' k"
  shows "scan found ks alloc n pos avail = scan found' ks alloc n pos avail"
proof (induction n arbitrary: pos avail)
  case (Suc n)
  show ?case
  proof (cases "pos < length ks")
    case True
    then have "found k = found' k" if "ks ! pos = Key k" for k using assms that nth_mem by metis
    then show ?thesis using Suc by (auto split: slotkey.splits)
  qed simp
qed simp

section \<open>The invariant of a table\<close>

text \<open>
  Keys are valid and no two are equal, and no key is behind an empty slot on the way that a
  search for it takes.
\<close>

definition keys_inv :: "'k key_ops \<Rightarrow> ('k \<Rightarrow> bool) \<Rightarrow> 'k slotkey list \<Rightarrow> bool" where
  "keys_inv ops valid ks \<longleftrightarrow>
     (\<forall>k. Key k \<in> set ks \<longrightarrow> valid k) \<and>
     (\<forall>i < length ks. \<forall>j < length ks. \<forall>k k'. ks ! i = Key k \<and> ks ! j = Key k' \<and> k_eq ops k k' \<longrightarrow> i = j) \<and>
     (\<forall>i < length ks. \<forall>k. nth_slot ks (k_hash ops k) i = Key k \<longrightarrow> (\<forall>j < i. nth_slot ks (k_hash ops k) j \<noteq> NullKey))"

lemma keys_invD:
  assumes "keys_inv ops valid ks"
  shows "Key k \<in> set ks \<Longrightarrow> valid k"
    and "i < length ks \<Longrightarrow> j < length ks \<Longrightarrow> ks ! i = Key k \<Longrightarrow> ks ! j = Key k' \<Longrightarrow> k_eq ops k k' \<Longrightarrow> i = j"
    and "i < length ks \<Longrightarrow> nth_slot ks (k_hash ops k) i = Key k \<Longrightarrow> j < i \<Longrightarrow> nth_slot ks (k_hash ops k) j \<noteq> NullKey"
  using assms unfolding keys_inv_def by blast+

lemma keys_inv_empty: "keys_inv ops valid (replicate n NullKey)"
  by (auto simp: keys_inv_def)

text \<open>The linear search that a lookup has to agree with.\<close>

definition table_get :: "'k key_ops \<Rightarrow> ('k slotkey \<times> 'v) list \<Rightarrow> 'k \<Rightarrow> 'v option" where
  "table_get ops tbl x = map_option snd (find (\<lambda>(k, v). case k of Key k' \<Rightarrow> k_eq ops k' x | _ \<Rightarrow> False) tbl)"

lemma table_get_simps [simp]:
  "table_get ops [] x = None"
  "table_get ops ((Key k, v) # tbl) x = (if k_eq ops k x then Some v else table_get ops tbl x)"
  "table_get ops ((NullKey, v) # tbl) x = table_get ops tbl x"
  "table_get ops ((SentinelKey, v) # tbl) x = table_get ops tbl x"
  by (simp_all add: table_get_def)

lemma table_get_None: "table_get ops tbl x = None \<longleftrightarrow> absent (\<lambda>k. k_eq ops k x) (map fst tbl)"
proof (induction tbl)
  case (Cons e tbl)
  then show ?case by (cases e; cases "fst e") (auto simp: absent_def)
qed (simp add: absent_def)

lemma table_get_SomeD:
  assumes "table_get ops tbl x = Some v"
  shows "\<exists>p k. p < length tbl \<and> tbl ! p = (Key k, v) \<and> k_eq ops k x"
  using assms
proof (induction tbl)
  case (Cons e tbl)
  show ?case
  proof (cases "\<exists>k. e = (Key k, v) \<and> k_eq ops k x")
    case True
    then show ?thesis by (intro exI [of _ 0]) auto
  next
    case False
    then have "table_get ops tbl x = Some v" using Cons.prems by (cases e; cases "fst e") (auto split: if_splits)
    from Cons.IH [OF this] obtain p k where "p < length tbl" "tbl ! p = (Key k, v)" "k_eq ops k x" by blast
    then show ?thesis by (intro exI [of _ "Suc p"]) auto
  qed
qed simp

lemma option_ext: "(\<And>w. a = Some w \<longleftrightarrow> b = Some w) \<Longrightarrow> a = b"
  by (cases a; cases b) auto

lemma other_slots:
  assumes "p < length tbl" "\<And>k. fst (tbl ! p) = Key k \<Longrightarrow> \<not> k_eq ops k y" "\<And>k. fst e = Key k \<Longrightarrow> \<not> k_eq ops k y"
  shows "(\<exists>q k. q < length (tbl[p := e]) \<and> tbl[p := e] ! q = (Key k, w) \<and> k_eq ops k y) \<longleftrightarrow>
    (\<exists>q k. q < length tbl \<and> tbl ! q = (Key k, w) \<and> k_eq ops k y)"
proof -
  have "(q < length (tbl[p := e]) \<and> tbl[p := e] ! q = (Key k, w) \<and> k_eq ops k y) \<longleftrightarrow>
      (q < length tbl \<and> tbl ! q = (Key k, w) \<and> k_eq ops k y)" for q k
    using assms by (cases "q = p") auto
  then show ?thesis by simp
qed

lemma filter_update_count:
  assumes "p < length ks"
  shows "\<not> P (ks ! p) \<Longrightarrow> P e \<Longrightarrow> length (filter P (ks[p := e])) = Suc (length (filter P ks))"
    and "P (ks ! p) \<Longrightarrow> \<not> P e \<Longrightarrow> length (filter P (ks[p := e])) = length (filter P ks) - 1"
proof -
  have split: "ks = take p ks @ ks ! p # drop (Suc p) ks" using assms by (rule id_take_nth_drop)
  have "length (filter P ks) = length (filter P (take p ks @ ks ! p # drop (Suc p) ks))" using split by simp
  moreover have "ks[p := e] = take p ks @ e # drop (Suc p) ks" using assms by (rule upd_conv_take_nth_drop)
  ultimately show "\<not> P (ks ! p) \<Longrightarrow> P e \<Longrightarrow> length (filter P (ks[p := e])) = Suc (length (filter P ks))"
    and "P (ks ! p) \<Longrightarrow> \<not> P e \<Longrightarrow> length (filter P (ks[p := e])) = length (filter P ks) - 1"
    by auto
qed

definition map_inv :: "'k key_ops \<Rightarrow> ('k \<Rightarrow> bool) \<Rightarrow> ('k, 'v) mp_map \<Rightarrow> bool" where
  "map_inv ops valid m \<longleftrightarrow>
     \<not> is_fixed m \<and> \<not> is_ordered m \<and> length (m_table m) = m_alloc m \<and> keys_inv ops valid (m_keys m) \<and>
     m_used m = length (filter is_key (m_keys m)) \<and>
     (all_keys_are_qstrs m \<longrightarrow> (\<forall>k. Key k \<in> set (m_keys m) \<longrightarrow> k_qstr ops k))"

lemma map_invD:
  assumes "map_inv ops valid m"
  shows "\<not> is_fixed m" "\<not> is_ordered m" "length (m_table m) = m_alloc m" "keys_inv ops valid (m_keys m)"
    "m_used m = length (filter is_key (m_keys m))"
    "all_keys_are_qstrs m \<Longrightarrow> Key k \<in> set (m_keys m) \<Longrightarrow> k_qstr ops k"
  using assms unfolding map_inv_def by blast+

text \<open>
  Slot \<open>pos\<close> of the map \<open>m'\<close> is where the value of \<open>x\<close> is to be stored: it still has the value
  that \<open>x\<close> has in \<open>m\<close>, none if it has none, and storing one changes the value of \<open>x\<close> only.
\<close>

definition slot_for :: "'k key_ops \<Rightarrow> ('k \<Rightarrow> bool) \<Rightarrow> ('k, 'v) mp_map \<Rightarrow> 'k \<Rightarrow> ('k, 'v) mp_map \<Rightarrow> nat \<Rightarrow> bool" where
  "slot_for ops valid m x m' pos \<longleftrightarrow>
     pos < m_alloc m' \<and> (\<exists>k. fst (m_table m' ! pos) = Key k \<and> k_eq ops k x) \<and>
     snd (m_table m' ! pos) = (case table_get ops (m_table m) x of Some v \<Rightarrow> v | None \<Rightarrow> None) \<and>
     (\<forall>v. map_inv ops valid (set_value m' pos v) \<and>
       (\<forall>y. valid y \<longrightarrow>
         table_get ops (m_table (set_value m' pos v)) y = (if k_eq ops x y then Some v else table_get ops (m_table m) y)))"

lemma hash_alloc_ge: "x \<le> get_hash_alloc_greater_or_equal_to x"
proof (cases "find (\<lambda>n. x \<le> n) hash_allocation_sizes")
  case (Some n)
  then have "x \<le> n" by (auto simp: find_Some_iff)
  then show ?thesis using Some by (simp add: get_hash_alloc_greater_or_equal_to_def)
qed (simp add: get_hash_alloc_greater_or_equal_to_def Let_def)

lemma m_alloc_simps [simp]:
  "m_alloc (add_slot ops m p x) = m_alloc m" "m_used (add_slot ops m p x) = Suc (m_used m)"
  "m_alloc (set_value m p v) = m_alloc m" "m_used (set_value m p v) = m_used m"
  by (simp_all add: add_slot_def set_value_def)

text \<open>No two keys of a list are equal.\<close>

definition no_eq :: "'k key_ops \<Rightarrow> 'k slotkey list \<Rightarrow> bool" where
  "no_eq ops = sorted_wrt (\<lambda>a b. \<forall>k k'. a = Key k \<and> b = Key k' \<longrightarrow> \<not> k_eq ops k k')"

lemma keys_inv_no_eq:
  assumes "keys_inv ops valid ks"
  shows "no_eq ops ks"
  unfolding no_eq_def sorted_wrt_iff_nth_less
proof (intro allI impI notI)
  fix i j k k'
  assume "i < j" "j < length ks" "ks ! i = Key k \<and> ks ! j = Key k'" "k_eq ops k k'"
  then show False using keys_invD(2) [OF assms, of i j k k'] by simp
qed

definition set_inv :: "'k key_ops \<Rightarrow> ('k \<Rightarrow> bool) \<Rightarrow> 'k mp_set \<Rightarrow> bool" where
  "set_inv ops valid s \<longleftrightarrow>
     length (s_table s) = s_alloc s \<and> keys_inv ops valid (s_table s) \<and> s_used s = length (filter is_key (s_table s))"

lemma set_invD:
  assumes "set_inv ops valid s"
  shows "length (s_table s) = s_alloc s" "keys_inv ops valid (s_table s)" "s_used s = length (filter is_key (s_table s))"
  using assms unfolding set_inv_def by blast+

text \<open>A set is a map without values.\<close>

definition units :: "'k slotkey list \<Rightarrow> ('k slotkey \<times> unit) list" where
  "units ks = map (\<lambda>k. (k, ())) ks"

lemma units_simps [simp]:
  "map fst (units ks) = ks" "length (units ks) = length ks" "(units ks)[p := (e, ())] = units (ks[p := e])"
  "p < length ks \<Longrightarrow> units ks ! p = (ks ! p, ())"
  by (simp_all add: units_def comp_def map_update)

definition set_has :: "'k key_ops \<Rightarrow> 'k mp_set \<Rightarrow> 'k \<Rightarrow> bool" where
  "set_has ops s x \<longleftrightarrow> table_get ops (units (s_table s)) x \<noteq> None"

lemma set_has_absent: "\<not> set_has ops s x \<longleftrightarrow> absent (\<lambda>k. k_eq ops k x) (s_table s)"
  using table_get_None [of ops "units (s_table s)" x] by (simp add: set_has_def)

lemma s_simps [simp]:
  "s_alloc (set_put s p x) = s_alloc s" "s_used (set_put s p x) = Suc (s_used s)" "s_table (set_put s p x) = (s_table s)[p := Key x]"
  by (simp_all add: set_put_def)

text \<open>A value in a slot without a key means nothing.\<close>

lemma set_value_free:
  assumes "p < length (m_table m)" "\<not> is_key (fst (m_table m ! p))"
  shows "map_inv ops valid (set_value m p v) = map_inv ops valid m"
    "table_get ops (m_table (set_value m p v)) y = table_get ops (m_table m) y"
proof -
  have keys: "m_keys (set_value m p v) = m_keys m"
    using assms(1) by (simp add: set_value_def map_update) (metis list_update_id nth_map)
  then show "map_inv ops valid (set_value m p v) = map_inv ops valid m"
    unfolding map_inv_def by (simp add: set_value_def)
  have split: "m_table m = take p (m_table m) @ m_table m ! p # drop (Suc p) (m_table m)" using assms(1) by (rule id_take_nth_drop)
  obtain k w where kw: "m_table m ! p = (k, w)" by (cases "m_table m ! p")
  have skip: "table_get ops (xs @ (k, u) # ys) y = table_get ops (xs @ ys) y" for u xs ys
    using assms(2) kw by (induction xs) (cases k; auto simp: table_get_def)+
  have "table_get ops ((m_table m)[p := (k, v)]) y = table_get ops (take p (m_table m) @ drop (Suc p) (m_table m)) y"
    unfolding upd_conv_take_nth_drop [OF assms(1)] by (rule skip)
  also have "\<dots> = table_get ops (m_table m) y" using skip [of "take p (m_table m)" w "drop (Suc p) (m_table m)"] split kw by metis
  finally show "table_get ops (m_table (set_value m p v)) y = table_get ops (m_table m) y" by (simp add: set_value_def kw)
qed

text \<open>
  What the keys of a table owe it: equality is an equivalence, equal keys have equal hashes,
  and a string that is interned is equal to no other interned string and to strings only.
\<close>

locale hash_keys =
  fixes ops :: "'k key_ops" and valid :: "'k \<Rightarrow> bool"
  assumes eq_refl: "valid x \<Longrightarrow> k_eq ops x x"
    and eq_sym: "valid x \<Longrightarrow> valid y \<Longrightarrow> k_eq ops x y \<Longrightarrow> k_eq ops y x"
    and eq_trans: "valid x \<Longrightarrow> valid y \<Longrightarrow> valid z \<Longrightarrow> k_eq ops x y \<Longrightarrow> k_eq ops y z \<Longrightarrow> k_eq ops x z"
    and eq_hash: "valid x \<Longrightarrow> valid y \<Longrightarrow> k_eq ops x y \<Longrightarrow> k_hash ops x = k_hash ops y"
    and qstr_eq: "valid x \<Longrightarrow> valid y \<Longrightarrow> k_qstr ops x \<Longrightarrow> k_qstr ops y \<Longrightarrow> k_eq ops x y \<Longrightarrow> x = y"
    and qstr_only: "valid x \<Longrightarrow> valid y \<Longrightarrow> k_qstr ops x \<Longrightarrow> k_eq ops x y \<Longrightarrow> k_qstr ops y \<or> k_str ops y"
begin

lemma scan_keys:
  assumes "keys_inv ops valid ks" "ks \<noteq> []" "valid x"
    and "\<And>k. Key k \<in> set ks \<Longrightarrow> found k = k_eq ops k x"
  shows "scan_ok (\<lambda>k. k_eq ops k x) ks (k_hash ops x mod length ks)
      (scan found ks (length ks) (length ks) (k_hash ops x mod length ks) None)"
proof -
  let ?start = "k_hash ops x mod length ks"
  have eq: "scan found ks (length ks) (length ks) ?start None = scan (\<lambda>k. k_eq ops k x) ks (length ks) (length ks) ?start None"
    by (rule scan_cong) (rule assms(4))
  show ?thesis unfolding eq
proof (rule scan_ok_start)
  show "k_hash ops x mod length ks < length ks" using assms(2) by simp
  fix i k assume *: "i < length ks" "nth_slot ks (k_hash ops x mod length ks) i = Key k" "k_eq ops k x"
  have inside: "(k_hash ops x + i) mod length ks < length ks" using assms(2) by simp
  have slot: "nth_slot ks (k_hash ops x) i = Key k" using *(2) by (simp add: mod_add_left_eq)
  then have "valid k" using keys_invD(1) [OF assms(1)] nth_mem [OF inside] by simp
  then have "k_hash ops k = k_hash ops x" using eq_hash assms(3) *(3) by blast
  then show "\<forall>i' < i. nth_slot ks (k_hash ops x mod length ks) i' \<noteq> NullKey"
    using keys_invD(3) [OF assms(1) *(1), of k] slot by (simp add: mod_add_left_eq)
qed
qed

lemma keys_inv_put:
  assumes "keys_inv ops valid ks" "valid x" "absent (\<lambda>k. k_eq ops k x) ks" "usable ks (k_hash ops x mod length ks) p"
  shows "p < length ks" "keys_inv ops valid (ks[p := Key x])"
proof -
  obtain i where i: "i < length ks" "p = (k_hash ops x + i) mod length ks" "\<forall>j < i. nth_slot ks (k_hash ops x) j \<noteq> NullKey"
    using assms(4) by (auto simp: usable_def mod_add_left_eq)
  show p: "p < length ks" unfolding i(2) using i(1) by (intro mod_less_divisor) linarith
  note inv = keys_invD [OF assms(1)]
  have other: "\<not> k_eq ops k x \<and> \<not> k_eq ops x k" if "q < length ks" "ks ! q = Key k" for q k
    using that assms(2,3) inv(1) eq_sym nth_mem unfolding absent_def by metis
  show "keys_inv ops valid (ks[p := Key x])"
    unfolding keys_inv_def
  proof (intro conjI allI impI)
    fix k assume "Key k \<in> set (ks[p := Key x])"
    then show "valid k" using assms(2) inv(1) set_update_subset_insert by fastforce
  next
    fix a b k k' assume "a < length (ks[p := Key x])" "b < length (ks[p := Key x])"
      "ks[p := Key x] ! a = Key k \<and> ks[p := Key x] ! b = Key k' \<and> k_eq ops k k'"
    then show "a = b" using other inv(2) p by (auto simp: nth_list_update split: if_splits)
  next
    fix a k j assume a: "a < length (ks[p := Key x])" "nth_slot (ks[p := Key x]) (k_hash ops k) a = Key k" "j < a"
    show "nth_slot (ks[p := Key x]) (k_hash ops k) j \<noteq> NullKey"
    proof (cases "(k_hash ops k + a) mod length ks = p")
      case True
      then have "k = x" using a p by simp
      then have "a = i" using probe_inj [of a "length ks" i "k_hash ops x"] True i(1,2) a(1) by simp
      then show ?thesis using i(3) a(3) \<open>k = x\<close> p by (simp add: nth_list_update)
    next
      case False
      then have "nth_slot ks (k_hash ops k) a = Key k" using a(2) by simp
      then show ?thesis using inv(3) [of a k j] a p by (auto simp: nth_list_update)
    qed
  qed
qed

lemma keys_inv_unset:
  assumes "keys_inv ops valid ks" "p < length ks" "\<not> is_key d" "d = NullKey \<Longrightarrow> ks ! (Suc p mod length ks) = NullKey"
  shows "keys_inv ops valid (ks[p := d])"
  unfolding keys_inv_def
proof (intro conjI allI impI)
  note inv = keys_invD [OF assms(1)]
  have keep: "q \<noteq> p \<and> ks ! q = Key k" if "ks[p := d] ! q = Key k" for q k
    using that assms(2,3) by (cases "q = p") auto
  show "valid k" if "Key k \<in> set (ks[p := d])" for k
    using that keep inv(1) by (metis in_set_conv_nth length_list_update)
  show "a = b" if "a < length (ks[p := d])" "b < length (ks[p := d])"
      "ks[p := d] ! a = Key k \<and> ks[p := d] ! b = Key k' \<and> k_eq ops k k'" for a b k k'
    using that keep inv(2) by (metis length_list_update)
  fix a k j assume a: "a < length (ks[p := d])" "nth_slot (ks[p := d]) (k_hash ops k) a = Key k" "j < a"
  then have slot: "nth_slot ks (k_hash ops k) a = Key k" using keep by (metis length_list_update)
  have path: "nth_slot ks (k_hash ops k) i \<noteq> NullKey" if "i \<le> a" for i
    using inv(3) [of a k i] a slot that by (cases "i = a") auto
  have "ks ! (Suc p mod length ks) \<noteq> NullKey" if "(k_hash ops k + j) mod length ks = p"
    using path [of "Suc j"] a(3) that by (metis Suc_leI add_Suc_right mod_Suc_eq)
  then show "nth_slot (ks[p := d]) (k_hash ops k) j \<noteq> NullKey"
    using path [of j] a(3) assms(2,4) by (auto simp: nth_list_update)
qed

lemma keys_inv_drop:
  assumes "keys_inv ops valid ks" "p < length ks"
  obtains d where "deleted_key ks (length ks) p = Some d" "\<not> is_key d" "keys_inv ops valid (ks[p := d])"
proof -
  define d :: "'k slotkey" where "d = (if ks ! (Suc p mod length ks) = NullKey then NullKey else SentinelKey)"
  have "Suc p mod length ks < length ks" using assms(2) by (intro mod_less_divisor) linarith
  then have "deleted_key ks (length ks) p = Some d" by (simp add: deleted_key_def d_def)
  moreover have "\<not> is_key d" "d = NullKey \<Longrightarrow> ks ! (Suc p mod length ks) = NullKey" by (auto simp: d_def split: if_splits)
  ultimately show thesis using that keys_inv_unset [OF assms] by blast
qed

lemma table_get_iff:
  assumes "keys_inv ops valid (map fst tbl)" "valid x"
  shows "table_get ops tbl x = Some v \<longleftrightarrow> (\<exists>p k. p < length tbl \<and> tbl ! p = (Key k, v) \<and> k_eq ops k x)"
proof (rule iffI [OF table_get_SomeD])
  assume "\<exists>p k. p < length tbl \<and> tbl ! p = (Key k, v) \<and> k_eq ops k x"
  then obtain p k where p: "p < length tbl" "tbl ! p = (Key k, v)" "k_eq ops k x" by blast
  have "Key k \<in> set (map fst tbl)" using p by (metis fst_conv image_eqI nth_mem set_map)
  then have "table_get ops tbl x \<noteq> None" using p(3) by (auto simp only: table_get_None absent_def)
  then obtain w q k' where q: "table_get ops tbl x = Some w" "q < length tbl" "tbl ! q = (Key k', w)" "k_eq ops k' x"
    using table_get_SomeD by fastforce
  have "Key k' \<in> set (map fst tbl)" using q by (metis fst_conv image_eqI nth_mem set_map)
  then have "valid k'" "valid k" using keys_invD(1) [OF assms(1)] \<open>Key k \<in> _\<close> by blast+
  then have "k_eq ops k k'" using eq_trans [OF _ assms(2) _ p(3) eq_sym [OF _ assms(2) q(4)]] by blast
  then have "p = q" using keys_invD(2) [OF assms(1), of p q k k'] p q by simp
  then show "table_get ops tbl x = Some v" using p q by simp
qed auto

lemma table_get_put:
  assumes "keys_inv ops valid (map fst tbl)" "keys_inv ops valid (map fst (tbl[p := (Key x, v)]))"
    "p < length tbl" "\<not> is_key (fst (tbl ! p))" "absent (\<lambda>k. k_eq ops k x) (map fst tbl)" "valid x" "valid y"
  shows "table_get ops (tbl[p := (Key x, v)]) y = (if k_eq ops x y then Some v else table_get ops tbl y)"
proof (cases "k_eq ops x y")
  case True
  have "table_get ops (tbl[p := (Key x, v)]) y = Some v"
    unfolding table_get_iff [OF assms(2,7)] using assms(3) True by (intro exI [of _ p] exI [of _ x]) simp
  then show ?thesis using True by simp
next
  case False
  have "table_get ops (tbl[p := (Key x, v)]) y = Some w \<longleftrightarrow> table_get ops tbl y = Some w" for w
    unfolding table_get_iff [OF assms(2,7)] table_get_iff [OF assms(1,7)]
    by (rule other_slots) (use False assms(3,4) in \<open>auto simp: is_key_def\<close>)
  then show ?thesis using False by (simp add: option_ext)
qed

lemma table_get_drop:
  assumes "keys_inv ops valid (map fst tbl)" "keys_inv ops valid (map fst (tbl[p := (d, v)]))"
    "p < length tbl" "fst (tbl ! p) = Key k" "k_eq ops k x" "\<not> is_key d" "valid x" "valid y"
  shows "table_get ops (tbl[p := (d, v)]) y = (if k_eq ops x y then None else table_get ops tbl y)"
proof -
  have k: "valid k" using keys_invD(1) [OF assms(1), of k] assms(3,4) by (metis image_eqI nth_mem set_map)
  have unique: "q = p" if "q < length tbl" "tbl ! q = (Key k', w)" "k_eq ops k' y" "k_eq ops x y" for q k' w
  proof -
    have "valid k'" using keys_invD(1) [OF assms(1), of k'] that by (metis fst_conv image_eqI nth_mem set_map)
    then have "k_eq ops k' k" using that(3,4) assms(5,7,8) k eq_sym eq_trans by blast
    then show ?thesis using keys_invD(2) [OF assms(1), of q p k' k] that assms(3,4) by simp
  qed
  show ?thesis
  proof (cases "k_eq ops x y")
    case True
    have "table_get ops (tbl[p := (d, v)]) y \<noteq> Some w" for w
    proof
      assume "table_get ops (tbl[p := (d, v)]) y = Some w"
      then obtain q k' where q: "q < length tbl" "tbl[p := (d, v)] ! q = (Key k', w)" "k_eq ops k' y"
        unfolding table_get_iff [OF assms(2,8)] by auto
      then have "q \<noteq> p" using assms(3,6) by auto
      then show False using unique [of q k' w] q True by simp
    qed
    then show ?thesis using True by (meson not_Some_eq)
  next
    case False
    then have "\<not> k_eq ops k y" using assms(5,7,8) k eq_sym eq_trans by blast
    then have "table_get ops (tbl[p := (d, v)]) y = Some w \<longleftrightarrow> table_get ops tbl y = Some w" for w
      unfolding table_get_iff [OF assms(2,8)] table_get_iff [OF assms(1,8)]
      by (intro other_slots) (use assms(3,4,6) in \<open>auto simp: is_key_def\<close>)
    then show ?thesis using False by (simp add: option_ext)
  qed
qed

lemma found_agrees:
  assumes "map_inv ops valid m" "valid x" "Key k \<in> set (m_keys m)"
  shows "key_matches ops m x k = k_eq ops k x"
proof -
  have "valid k" using keys_invD(1) [OF map_invD(4) [OF assms(1)] assms(3)] .
  then show ?thesis
    using map_invD(6) [OF assms(1) _ assms(3)] eq_refl [OF assms(2)] qstr_eq [of k x] qstr_only [of k x] assms(2)
    unfolding key_matches_def Let_def by blast
qed

lemma add_slot_for:
  assumes "map_inv ops valid m" "valid x" "absent (\<lambda>k. k_eq ops k x) (m_keys m)"
    and "usable (m_keys m) (k_hash ops x mod m_alloc m) p"
  shows "slot_for ops valid m x (add_slot ops m p x) p"
proof -
  note inv = map_invD [OF assms(1)]
  have p: "p < m_alloc m" and put: "keys_inv ops valid ((m_keys m)[p := Key x])"
    using keys_inv_put [OF inv(4) assms(2,3)] assms(4) inv(3) by simp_all
  have free: "\<not> is_key (fst (m_table m ! p))" using assms(4) p inv(3) by (simp add: usable_def)
  have keys: "map fst ((m_table m)[p := (Key x, v)]) = (m_keys m)[p := Key x]" for v by (simp add: map_update)
  have eq: "set_value (add_slot ops m p x) p v =
      m\<lparr>m_used := m_used m + 1, m_table := (m_table m)[p := (Key x, v)], all_keys_are_qstrs := all_keys_are_qstrs m \<and> k_qstr ops x\<rparr>" for v
    using p inv(3) by (simp add: set_value_def add_slot_def)
  have "map_inv ops valid (set_value (add_slot ops m p x) p v)" for v
    unfolding eq map_inv_def
  proof (simp add: keys put inv(1,2,3), intro conjI impI allI)
    show "Suc (m_used m) = length (filter is_key ((m_keys m)[p := Key x]))"
      using filter_update_count(1) [of p "m_keys m" is_key "Key x"] p free inv(3,5) by simp
    fix k assume "all_keys_are_qstrs m \<and> k_qstr ops x" "Key k \<in> set ((m_keys m)[p := Key x])"
    then show "k_qstr ops k" using inv(6) set_update_subset_insert by fastforce
  qed
  moreover have "table_get ops (m_table (set_value (add_slot ops m p x) p v)) y =
      (if k_eq ops x y then Some v else table_get ops (m_table m) y)" if "valid y" for v y
    unfolding eq
    using table_get_put [of "m_table m" p x v y] inv(3,4) put keys free p assms(2,3) that by simp
  ultimately show ?thesis
    using p inv(3) eq_refl [OF assms(2)] assms(3) unfolding slot_for_def by (simp add: add_slot_def flip: table_get_None)
qed

lemma present_slot_for:
  assumes "map_inv ops valid m" "valid x" "p < m_alloc m" "fst (m_table m ! p) = Key k" "k_eq ops k x"
  shows "slot_for ops valid m x m p"
proof -
  note inv = map_invD [OF assms(1)]
  have p: "p < length (m_table m)" using assms(3) inv(3) by simp
  have k: "valid k" using keys_invD(1) [OF inv(4), of k] p assms(4) by (metis image_eqI nth_mem set_map)
  have keys: "map fst ((m_table m)[p := (Key k, v)]) = m_keys m" for v
    using assms(4) p by (metis fst_conv list_update_id map_update nth_map)
  have eq: "set_value m p v = m\<lparr>m_table := (m_table m)[p := (Key k, v)]\<rparr>" for v by (simp add: set_value_def assms(4))
  have upd: "table_get ops ((m_table m)[p := (Key k, v)]) y = (if k_eq ops x y then Some v else table_get ops (m_table m) y)"
    if y: "valid y" for v y
  proof (cases "k_eq ops x y")
    case True
    then have "k_eq ops k y" using eq_trans [OF k assms(2) y assms(5)] by blast
    then have "table_get ops ((m_table m)[p := (Key k, v)]) y = Some v"
      unfolding table_get_iff [of "(m_table m)[p := (Key k, v)]", unfolded keys, OF inv(4) y]
      using p by (intro exI [of _ p] exI [of _ k]) simp
    then show ?thesis using True by simp
  next
    case False
    have no: "\<not> k_eq ops k y" using False eq_trans [OF assms(2) k y eq_sym [OF k assms(2,5)]] by blast
    have "table_get ops ((m_table m)[p := (Key k, v)]) y = Some w \<longleftrightarrow> table_get ops (m_table m) y = Some w" for w
      unfolding table_get_iff [of "(m_table m)[p := (Key k, v)]", unfolded keys, OF inv(4) y] table_get_iff [OF inv(4) y]
      by (rule other_slots [OF p]) (use no assms(4) in auto)
    then show ?thesis using False by (simp add: option_ext)
  qed
  have "table_get ops (m_table m) x = Some (snd (m_table m ! p))"
    unfolding table_get_iff [OF inv(4) assms(2)] using p assms(4,5) by (intro exI [of _ p] exI [of _ k]) (simp add: prod_eq_iff)
  moreover have "map_inv ops valid (set_value m p v)" for v unfolding eq map_inv_def by (simp add: keys inv)
  ultimately show ?thesis using assms(3-5) upd unfolding slot_for_def by (simp add: eq)
qed

lemma unset_slot_correct:
  assumes "map_inv ops valid m" "valid x" "p < m_alloc m" "fst (m_table m ! p) = Key k" "k_eq ops k x"
    and "\<not> is_key d" "keys_inv ops valid ((m_keys m)[p := d])"
    and "m' = m\<lparr>m_used := m_used m - 1, m_table := (m_table m)[p := (d, v)]\<rparr>"
  shows "map_inv ops valid m'"
    "\<forall>y. valid y \<longrightarrow> table_get ops (m_table m') y = (if k_eq ops x y then None else table_get ops (m_table m) y)"
proof -
  note inv = map_invD [OF assms(1)]
  have p: "p < length (m_table m)" using assms(3) inv(3) by simp
  have keys: "m_keys m' = (m_keys m)[p := d]" by (simp add: assms(8) map_update)
  have sub: "Key j \<in> set (m_keys m)" if "Key j \<in> set ((m_keys m)[p := d])" for j
    using that assms(6) set_update_subset_insert by fastforce
  show "map_inv ops valid m'"
    unfolding map_inv_def keys
    using inv assms(7) sub filter_update_count(2) [of p "m_keys m" is_key d] p assms(4,6) by (auto simp: assms(8))
  show "\<forall>y. valid y \<longrightarrow> table_get ops (m_table m') y = (if k_eq ops x y then None else table_get ops (m_table m) y)"
    using table_get_drop [of "m_table m" p d v k x] inv(4) assms(2,4-7) keys p by (simp add: assms(8))
qed

lemma remove_slot_correct:
  assumes "map_inv ops valid m" "valid x" "p < m_alloc m" "fst (m_table m ! p) = Key k" "k_eq ops k x"
  obtains m' where "remove_slot m p = Some m'" "map_inv ops valid m'" "snd (m_table m' ! p) = snd (m_table m ! p)"
    "p < m_alloc m'" "\<not> is_key (fst (m_table m' ! p))"
    "\<forall>y. valid y \<longrightarrow> table_get ops (m_table m') y = (if k_eq ops x y then None else table_get ops (m_table m) y)"
proof -
  note inv = map_invD [OF assms(1)]
  have p: "p < length (m_table m)" using assms(3) inv(3) by simp
  obtain d where d: "deleted_key (m_keys m) (m_alloc m) p = Some d" "\<not> is_key d" "keys_inv ops valid ((m_keys m)[p := d])"
    using keys_inv_drop [OF inv(4), of p] p inv(3) by auto
  define m' where "m' = m\<lparr>m_used := m_used m - 1, m_table := (m_table m)[p := (d, snd (m_table m ! p))]\<rparr>"
  show thesis
    using that [of m'] unset_slot_correct [OF assms d(2,3) m'_def] p d(1,2) inv(3) by (simp add: remove_slot_def m'_def)
qed

text \<open>The ways a search of a hash table ends.\<close>

lemma hash_lookup_cases:
  assumes "map_inv ops valid m" "m_alloc m \<noteq> 0" "valid x"
    and "\<And>k. Key k \<in> set (m_keys m) \<Longrightarrow> found k = k_eq ops k x"
  obtains (found) p k where "p < m_alloc m" "fst (m_table m ! p) = Key k" "k_eq ops k x"
      "hash_lookup (Suc r) ops rehash found m x kind =
        (if kind = REMOVE_IF_FOUND then do { m \<leftarrow> remove_slot m p; Some (m, Got (Some p)) } else Some (m, Got (Some p)))"
  | (missing) "table_get ops (m_table m) x = None" "kind \<noteq> ADD_IF_NOT_FOUND"
      "hash_lookup (Suc r) ops rehash found m x kind = Some (m, Got None)"
  | (added) p where "table_get ops (m_table m) x = None" "kind = ADD_IF_NOT_FOUND" "slot_for ops valid m x (add_slot ops m p x) p"
      "hash_lookup (Suc r) ops rehash found m x kind = Some (add_slot ops m p x, Got (Some p))"
  | (full) "table_get ops (m_table m) x = None" "kind = ADD_IF_NOT_FOUND" "m_used m = m_alloc m"
      "hash_lookup (Suc r) ops rehash found m x kind =
        (case rehash m of
           Some (m, Got _) \<Rightarrow> hash_lookup r ops rehash found m x ADD_IF_NOT_FOUND
         | Some (m, MemoryError) \<Rightarrow> Some (m, MemoryError)
         | None \<Rightarrow> None)"
proof -
  note inv = map_invD [OF assms(1)]
  have ne: "m_keys m \<noteq> []" "length (m_keys m) = m_alloc m" using assms(2) inv(3) by auto
  define res where "res = scan found (m_keys m) (m_alloc m) (m_alloc m) (k_hash ops x mod m_alloc m) None"
  have ok: "scan_ok (\<lambda>k. k_eq ops k x) (m_keys m) (k_hash ops x mod m_alloc m) res"
    using scan_keys [OF inv(4) ne(1) assms(3,4)] unfolding ne(2) res_def by blast
  note add = add_slot_for [OF assms(1,3)]
  show thesis
  proof (cases res)
    case (EmptyAt p avail)
    then have a: "absent (\<lambda>k. k_eq ops k x) (m_keys m)" "slot_for ops valid m x (add_slot ops m q x) q"
      if "q = (case avail of None \<Rightarrow> p | Some q \<Rightarrow> q)" for q
      using ok add that by simp_all
    show thesis
    proof (cases "kind = ADD_IF_NOT_FOUND")
      case True
      then show thesis
        using added [of "case avail of None \<Rightarrow> p | Some q \<Rightarrow> q"] a EmptyAt assms(2) by (simp add: table_get_None res_def Let_def)
    next
      case False
      then show thesis using missing a EmptyAt assms(2) by (simp add: table_get_None res_def)
    qed
  next
    case (FoundAt p)
    then obtain k where "p < m_alloc m" "fst (m_table m ! p) = Key k" "k_eq ops k x" using ok ne(2) by auto
    then show thesis using found FoundAt assms(2) by (simp add: res_def)
  next
    case (Wrapped avail)
    then have a: "table_get ops (m_table m) x = None" using ok by (simp add: table_get_None)
    consider "kind \<noteq> ADD_IF_NOT_FOUND" | p where "kind = ADD_IF_NOT_FOUND" "avail = Some p" | "kind = ADD_IF_NOT_FOUND" "avail = None"
      by (cases avail) auto
    then show thesis
    proof cases
      case 1
      then show thesis using missing a Wrapped assms(2) by (simp add: res_def)
    next
      case 2
      then show thesis using added [of p] a add ok Wrapped assms(2) by (simp add: res_def table_get_None)
    next
      case 3
      then have "filter is_key (m_keys m) = m_keys m" using ok Wrapped by simp
      then have "m_used m = m_alloc m" using inv(5) ne(2) by simp
      then show thesis using full a 3 Wrapped assms(2) by (simp add: res_def)
    qed
  next
    case Outside
    then show thesis using ok by simp
  qed
qed

lemma hash_lookup_adds:
  assumes "map_inv ops valid m" "m_used m < m_alloc m" "valid x" "table_get ops (m_table m) x = None"
    and "\<And>k. found k \<Longrightarrow> k = x \<or> k_eq ops k x"
  obtains p where "hash_lookup (Suc r) ops rehash found m x ADD_IF_NOT_FOUND = Some (add_slot ops m p x, Got (Some p))"
    "slot_for ops valid m x (add_slot ops m p x) p"
proof -
  have none: "\<not> k_eq ops k x" if "Key k \<in> set (m_keys m)" for k
    using assms(4) that by (auto simp: table_get_None absent_def)
  have agree: "found k = k_eq ops k x" if "Key k \<in> set (m_keys m)" for k
    using none that eq_refl [OF assms(3)] assms(5) by metis
  have ne: "m_alloc m \<noteq> 0" using assms(2) by simp
  show thesis
  proof (rule hash_lookup_cases [OF assms(1) ne assms(3) agree, of r rehash ADD_IF_NOT_FOUND])
    fix p k assume "p < m_alloc m" "fst (m_table m ! p) = Key k" "k_eq ops k x"
    then show thesis using none [of k] by (metis map_invD(3) [OF assms(1)] length_map nth_map nth_mem)
  qed (use that assms(2) in simp_all)
qed

lemma key_matches_eq: "key_matches ops m x k \<Longrightarrow> k = x \<or> k_eq ops k x"
  by (auto simp: key_matches_def Let_def)

lemma map_lookup_eq:
  assumes "map_inv ops valid m" "m_alloc m \<noteq> 0"
    and "\<not> (all_keys_are_qstrs m \<and> \<not> k_qstr ops x \<and> \<not> k_str ops x \<and> kind \<noteq> ADD_IF_NOT_FOUND)"
  shows "mp_map_lookup (Suc l) ops room m x kind =
    hash_lookup (Suc 1) ops (rehash_with (mp_map_lookup l ops room) room) (key_matches ops m x) m x kind"
  using map_invD(1,2) [OF assms(1)] assms(2,3)
  unfolding mp_map_lookup.simps lookup_body_def One_nat_def numeral_2_eq_2 by (simp only: if_False simp_thms)

lemma lookup_adds:
  assumes "map_inv ops valid m" "m_used m < m_alloc m" "valid x" "table_get ops (m_table m) x = None"
  obtains p where "mp_map_lookup (Suc l) ops room m x ADD_IF_NOT_FOUND = Some (add_slot ops m p x, Got (Some p))"
    "slot_for ops valid m x (add_slot ops m p x) p"
proof -
  have ne: "m_alloc m \<noteq> 0" using assms(2) by simp
  show thesis
    using hash_lookup_adds [OF assms key_matches_eq [where m = m], where r = 1 and rehash = "rehash_with (mp_map_lookup l ops room) room"]
      map_lookup_eq [OF assms(1) ne, of x ADD_IF_NOT_FOUND l room] that by metis
qed

lemma reinsert_correct:
  assumes "map_inv ops valid m" "no_eq ops (map fst old)"
    and "\<And>k. Key k \<in> set (map fst old) \<Longrightarrow> valid k \<and> table_get ops (m_table m) k = None"
    and "m_used m + length (filter is_key (map fst old)) < m_alloc m"
  shows "\<exists>m'. reinsert (mp_map_lookup (Suc l) ops room) old m = Some (m', Got ()) \<and> map_inv ops valid m' \<and>
    m_alloc m' = m_alloc m \<and> m_used m' = m_used m + length (filter is_key (map fst old)) \<and>
    (\<forall>y. valid y \<longrightarrow> table_get ops (m_table m') y =
       (case table_get ops old y of Some v \<Rightarrow> Some v | None \<Rightarrow> table_get ops (m_table m) y))"
  using assms
proof (induction old arbitrary: m)
  case (Cons e old)
  obtain s v where e: "e = (s, v)" by (cases e)
  note [simp del] = mp_map_lookup.simps
  show ?case
  proof (cases s)
    case (Key k)
    have k: "valid k" "table_get ops (m_table m) k = None" using Cons.prems(3) [of k] e Key by simp_all
    have room: "m_used m < m_alloc m" using Cons.prems(4) by simp
    obtain p where p: "mp_map_lookup (Suc l) ops room m k ADD_IF_NOT_FOUND = Some (add_slot ops m p k, Got (Some p))"
        "slot_for ops valid m k (add_slot ops m p k) p"
      using lookup_adds [OF Cons.prems(1) room k] by blast
    define m1 where "m1 = set_value (add_slot ops m p k) p v"
    have m1: "map_inv ops valid m1"
      "valid y \<Longrightarrow> table_get ops (m_table m1) y = (if k_eq ops k y then Some v else table_get ops (m_table m) y)" for y
      using p(2) unfolding slot_for_def m1_def by blast+
    have new: "\<not> k_eq ops k k'" if "Key k' \<in> set (map fst old)" for k'
      using Cons.prems(2) that e Key unfolding no_eq_def by auto
    have "\<exists>m'. reinsert (mp_map_lookup (Suc l) ops room) old m1 = Some (m', Got ()) \<and> map_inv ops valid m' \<and>
        m_alloc m' = m_alloc m1 \<and> m_used m' = m_used m1 + length (filter is_key (map fst old)) \<and>
        (\<forall>y. valid y \<longrightarrow> table_get ops (m_table m') y =
          (case table_get ops old y of Some v \<Rightarrow> Some v | None \<Rightarrow> table_get ops (m_table m1) y))"
    proof (rule Cons.IH [OF m1(1)])
      show "no_eq ops (map fst old)" using Cons.prems(2) by (simp add: no_eq_def)
      show "m_used m1 + length (filter is_key (map fst old)) < m_alloc m1"
        using Cons.prems(4) e Key by (simp add: m1_def)
      fix k' assume "Key k' \<in> set (map fst old)"
      then show "valid k' \<and> table_get ops (m_table m1) k' = None"
        using Cons.prems(3) [of k'] m1(2) new by auto
    qed
    then obtain m' where m': "reinsert (mp_map_lookup (Suc l) ops room) old m1 = Some (m', Got ())" "map_inv ops valid m'"
      "m_alloc m' = m_alloc m1" "m_used m' = m_used m1 + length (filter is_key (map fst old))"
      "\<forall>y. valid y \<longrightarrow> table_get ops (m_table m') y =
          (case table_get ops old y of Some v \<Rightarrow> Some v | None \<Rightarrow> table_get ops (m_table m1) y)" by blast
    have "table_get ops old y = None" if "valid y" "k_eq ops k y" for y
      unfolding table_get_None absent_def
      using Cons.prems(3) new that k(1) eq_sym eq_trans e Key by (metis list.set_intros(2) list.simps(9))
    then show ?thesis using p(1) m' m1(2) e Key by (intro exI [of _ m']) (auto simp: m1_def split: option.splits)
  qed (use Cons e in \<open>auto simp: no_eq_def\<close>)
qed simp

lemma rehash_correct:
  assumes "map_inv ops valid m" "room (get_hash_alloc_greater_or_equal_to (m_alloc m + 1))"
  obtains m' where "rehash_with (mp_map_lookup (Suc l) ops room) room m = Some (m', Got ())" "map_inv ops valid m'"
    "m_used m' = m_used m" "m_used m' < m_alloc m'" "\<forall>y. valid y \<longrightarrow> table_get ops (m_table m') y = table_get ops (m_table m) y"
proof -
  note inv = map_invD [OF assms(1)]
  define n where "n = get_hash_alloc_greater_or_equal_to (m_alloc m + 1)"
  define m0 where
    "m0 = m\<lparr>m_alloc := n, m_used := 0, all_keys_are_qstrs := True, m_table := replicate n (NullKey, None)\<rparr>"
  have n: "m_alloc m < n" using hash_alloc_ge [of "m_alloc m + 1"] by (simp add: n_def)
  have used: "m_used m \<le> m_alloc m" unfolding inv(5) using length_filter_le [of is_key "m_keys m"] inv(3) by simp
  have empty: "table_get ops (m_table m0) y = None" for y
    unfolding table_get_None absent_def by (simp add: m0_def)
  have "map_inv ops valid m0" using keys_inv_empty [of ops valid n] inv(1,2) by (simp add: map_inv_def m0_def)
  from reinsert_correct [OF this keys_inv_no_eq [OF inv(4)], of l room]
  obtain m' where "reinsert (mp_map_lookup (Suc l) ops room) (m_table m) m0 = Some (m', Got ())" "map_inv ops valid m'"
      "m_alloc m' = m_alloc m0" "m_used m' = m_used m0 + length (filter is_key (m_keys m))"
      "\<forall>y. valid y \<longrightarrow> table_get ops (m_table m') y =
        (case table_get ops (m_table m) y of Some v \<Rightarrow> Some v | None \<Rightarrow> table_get ops (m_table m0) y)"
    using keys_invD(1) [OF inv(4)] empty used n inv(5) by (auto simp: m0_def)
  then show thesis
    using that [of m'] assms(2) used n inv(5) empty by (auto simp: rehash_with_def m0_def n_def Let_def split: option.splits)
qed

lemma slot_for_trans:
  assumes "\<forall>y. valid y \<longrightarrow> table_get ops (m_table m1) y = table_get ops (m_table m) y" "valid x" "slot_for ops valid m1 x m' p"
  shows "slot_for ops valid m x m' p"
  using assms by (simp add: slot_for_def)

text \<open>The lookups that end at once find nothing because there is nothing to find.\<close>

lemma early_absent:
  assumes "map_inv ops valid m" "valid x"
    and "m_alloc m = 0 \<or> all_keys_are_qstrs m \<and> \<not> k_qstr ops x \<and> \<not> k_str ops x"
  shows "table_get ops (m_table m) x = None"
  unfolding table_get_None absent_def
  using assms(3) map_invD(3,4,6) [OF assms(1)] qstr_only [OF _ assms(2)] keys_invD(1) [of ops valid "m_keys m"] by fastforce

lemma early_lookup:
  assumes "map_inv ops valid m" "kind \<noteq> ADD_IF_NOT_FOUND"
    and "m_alloc m = 0 \<or> all_keys_are_qstrs m \<and> \<not> k_qstr ops x \<and> \<not> k_str ops x"
  shows "mp_map_lookup (Suc l) ops room m x kind = Some (m, Got None)"
  using assms map_invD(1,2) [OF assms(1)] by (auto simp: lookup_body_def Let_def)

lemma slot_for_get:
  assumes "slot_for ops valid m x m p" "map_inv ops valid m" "valid x"
  shows "p < m_alloc m" "table_get ops (m_table m) x = Some (snd (m_table m ! p))"
proof -
  show "p < m_alloc m" using assms(1) by (simp add: slot_for_def)
  then have "set_value m p (snd (m_table m ! p)) = m"
    using map_invD(3) [OF assms(2)] by (simp add: set_value_def)
  then show "table_get ops (m_table m) x = Some (snd (m_table m ! p))"
    using assms(1,3) eq_refl unfolding slot_for_def by metis
qed

lemma map_lookup_finds:
  assumes "map_inv ops valid m" "valid x"
  obtains r where "mp_map_lookup (Suc l) ops room m x LOOKUP = Some (m, Got r)"
    "table_get ops (m_table m) x = map_option (\<lambda>pos. snd (m_table m ! pos)) r" "\<forall>pos. r = Some pos \<longrightarrow> pos < m_alloc m"
proof (cases "m_alloc m = 0 \<or> all_keys_are_qstrs m \<and> \<not> k_qstr ops x \<and> \<not> k_str ops x")
  case True
  then show thesis using that [of None] early_lookup [OF assms(1)] early_absent [OF assms] by simp
next
  case False
  then have ne: "m_alloc m \<noteq> 0" by simp
  have eq: "mp_map_lookup (Suc l) ops room m x LOOKUP =
    hash_lookup (Suc 1) ops (rehash_with (mp_map_lookup l ops room) room)
      (key_matches ops m x) m x LOOKUP"
    using map_lookup_eq [OF assms(1)] False by blast
  show thesis
  proof (rule hash_lookup_cases [OF assms(1) ne assms(2) found_agrees [OF assms],
        of 1 "rehash_with (mp_map_lookup l ops room) room" LOOKUP])
    fix p k assume p: "p < m_alloc m" "fst (m_table m ! p) = Key k" "k_eq ops k x"
    assume "hash_lookup (Suc 1) ops (rehash_with (mp_map_lookup l ops room) room)
      (key_matches ops m x) m x LOOKUP =
      (if LOOKUP = REMOVE_IF_FOUND then do { m \<leftarrow> remove_slot m p; Some (m, Got (Some p)) } else Some (m, Got (Some p)))"
    then show thesis
      using that [of "Some p"] slot_for_get [OF present_slot_for [OF assms p] assms] unfolding eq by simp
  qed (use that [of None] eq in simp_all)
qed

lemma map_lookup_removes:
  assumes "map_inv ops valid m" "valid x"
  obtains m' r where "mp_map_lookup (Suc l) ops room m x REMOVE_IF_FOUND = Some (m', Got r)" "map_inv ops valid m'"
    "table_get ops (m_table m) x = map_option (\<lambda>pos. snd (m_table m' ! pos)) r"
    "\<forall>pos. r = Some pos \<longrightarrow> pos < m_alloc m' \<and> \<not> is_key (fst (m_table m' ! pos))"
    "\<forall>y. valid y \<longrightarrow> table_get ops (m_table m') y = (if k_eq ops x y then None else table_get ops (m_table m) y)"
proof -
  note close = that
  have stay: thesis if "mp_map_lookup (Suc l) ops room m x REMOVE_IF_FOUND = Some (m, Got None)" "table_get ops (m_table m) x = None"
  proof (rule close [OF that(1) assms(1)])
    have "\<not> k_eq ops k y" if "valid y" "k_eq ops x y" "Key k \<in> set (m_keys m)" for k y
    proof -
      have "valid k" using keys_invD(1) [OF map_invD(4) [OF assms(1)] that(3)] .
      then have "k_eq ops k x" if "k_eq ops k y"
        using eq_trans [OF _ \<open>valid y\<close> assms(2) that eq_sym [OF assms(2) \<open>valid y\<close> \<open>k_eq ops x y\<close>]] by blast
      then show ?thesis using \<open>table_get ops (m_table m) x = None\<close> that(3) by (auto simp: table_get_None absent_def)
    qed
    then show "\<forall>y. valid y \<longrightarrow> table_get ops (m_table m) y = (if k_eq ops x y then None else table_get ops (m_table m) y)"
      by (auto simp: table_get_None absent_def)
  qed (simp_all add: that(2))
  show thesis
  proof (cases "m_alloc m = 0 \<or> all_keys_are_qstrs m \<and> \<not> k_qstr ops x \<and> \<not> k_str ops x")
    case True
    then show thesis using stay early_lookup [OF assms(1)] early_absent [OF assms] by simp
  next
    case False
    then have ne: "m_alloc m \<noteq> 0" by simp
    have eq: "mp_map_lookup (Suc l) ops room m x REMOVE_IF_FOUND = hash_lookup (Suc 1) ops
        (rehash_with (mp_map_lookup l ops room) room) (key_matches ops m x) m x REMOVE_IF_FOUND"
      using map_lookup_eq [OF assms(1)] False by blast
    show thesis
    proof (rule hash_lookup_cases [OF assms(1) ne assms(2) found_agrees [OF assms],
          of 1 "rehash_with (mp_map_lookup l ops room) room" REMOVE_IF_FOUND])
      fix p k assume p: "p < m_alloc m" "fst (m_table m ! p) = Key k" "k_eq ops k x"
      assume res: "hash_lookup (Suc 1) ops (rehash_with (mp_map_lookup l ops room) room) (key_matches ops m x) m x REMOVE_IF_FOUND =
        (if REMOVE_IF_FOUND = REMOVE_IF_FOUND then do { m \<leftarrow> remove_slot m p; Some (m, Got (Some p)) } else Some (m, Got (Some p)))"
      obtain m' where m': "remove_slot m p = Some m'" "map_inv ops valid m'" "snd (m_table m' ! p) = snd (m_table m ! p)"
        "p < m_alloc m'" "\<not> is_key (fst (m_table m' ! p))"
        "\<forall>y. valid y \<longrightarrow> table_get ops (m_table m') y = (if k_eq ops x y then None else table_get ops (m_table m) y)"
        by (rule remove_slot_correct [OF assms p])
      show thesis
        using close [of m' "Some p"] m' res slot_for_get(2) [OF present_slot_for [OF assms p] assms] unfolding eq by simp
    qed (use stay eq in simp_all)
  qed
qed

lemma map_lookup_adds:
  assumes "map_inv ops valid m" "valid x"
  obtains (raised) "mp_map_lookup (Suc (Suc l)) ops room m x ADD_IF_NOT_FOUND = Some (m, MemoryError)"
      "table_get ops (m_table m) x = None" "m_used m = m_alloc m" "\<not> room (get_hash_alloc_greater_or_equal_to (m_alloc m + 1))"
  | (slot) m' pos where "mp_map_lookup (Suc (Suc l)) ops room m x ADD_IF_NOT_FOUND = Some (m', Got (Some pos))"
      "slot_for ops valid m x m' pos"
proof -
  let ?rehash = "rehash_with (mp_map_lookup (Suc l) ops room) room"
  have grow: thesis if r: "mp_map_lookup (Suc (Suc l)) ops room m x ADD_IF_NOT_FOUND =
      (case ?rehash m of
         Some (m', Got _) \<Rightarrow> hash_lookup (Suc r) ops ?rehash (key_matches ops m x) m' x ADD_IF_NOT_FOUND
       | Some (m', MemoryError) \<Rightarrow> Some (m', MemoryError)
       | None \<Rightarrow> None)" and none: "table_get ops (m_table m) x = None" and used: "m_used m = m_alloc m" for r
  proof (cases "room (get_hash_alloc_greater_or_equal_to (m_alloc m + 1))")
    case False
    then show thesis using raised r none used by (simp add: rehash_with_def)
  next
    case True
    obtain m1 where m1: "?rehash m = Some (m1, Got ())" "map_inv ops valid m1"
        "m_used m1 < m_alloc m1" "\<forall>y. valid y \<longrightarrow> table_get ops (m_table m1) y = table_get ops (m_table m) y"
      by (rule rehash_correct [of m room l, OF assms(1) True])
    have "table_get ops (m_table m1) x = None" using m1(4) none assms(2) by simp
    then obtain p where p: "hash_lookup (Suc r) ops ?rehash (key_matches ops m x) m1 x ADD_IF_NOT_FOUND = Some (add_slot ops m1 p x, Got (Some p))"
        "slot_for ops valid m1 x (add_slot ops m1 p x) p"
      using hash_lookup_adds [OF m1(2,3) assms(2) _ key_matches_eq [where m = m], where r = r and rehash = ?rehash] by metis
    show thesis using slot [OF _ slot_for_trans [OF m1(4) assms(2) p(2)]] r m1(1) p(1) by (simp del: hash_lookup.simps)
  qed
  show thesis
  proof (cases "m_alloc m = 0")
    case True
    then have "mp_map_lookup (Suc (Suc l)) ops room m x ADD_IF_NOT_FOUND =
      (case ?rehash m of
         Some (m', Got _) \<Rightarrow> hash_lookup (Suc 1) ops ?rehash (key_matches ops m x) m' x ADD_IF_NOT_FOUND
       | Some (m', MemoryError) \<Rightarrow> Some (m', MemoryError)
       | None \<Rightarrow> None)"
      using map_invD(1,2) [OF assms(1)]
      unfolding mp_map_lookup.simps(2) [of "Suc l"] lookup_body_def One_nat_def numeral_2_eq_2 by (simp only: if_True if_False simp_thms)
    then show thesis using grow early_absent [OF assms] True map_invD(3,5) [OF assms(1)] by simp
  next
    case False
    have eq: "mp_map_lookup (Suc (Suc l)) ops room m x ADD_IF_NOT_FOUND = hash_lookup (Suc 1) ops ?rehash (key_matches ops m x) m x ADD_IF_NOT_FOUND"
      using map_lookup_eq [OF assms(1) False] by blast
    show thesis
    proof (rule hash_lookup_cases [OF assms(1) False assms(2) found_agrees [OF assms], of 1 ?rehash ADD_IF_NOT_FOUND])
      fix p k assume p: "p < m_alloc m" "fst (m_table m ! p) = Key k" "k_eq ops k x"
      assume "hash_lookup (Suc 1) ops ?rehash (key_matches ops m x) m x ADD_IF_NOT_FOUND =
        (if ADD_IF_NOT_FOUND = REMOVE_IF_FOUND then do { m \<leftarrow> remove_slot m p; Some (m, Got (Some p)) } else Some (m, Got (Some p)))"
      then show thesis using slot [OF _ present_slot_for [OF assms p]] unfolding eq by simp
    next
      assume "table_get ops (m_table m) x = None" "m_used m = m_alloc m"
        and "hash_lookup (Suc 1) ops ?rehash (key_matches ops m x) m x ADD_IF_NOT_FOUND =
          (case ?rehash m of
             Some (m', Got _) \<Rightarrow> hash_lookup 1 ops ?rehash (key_matches ops m x) m' x ADD_IF_NOT_FOUND
           | Some (m', MemoryError) \<Rightarrow> Some (m', MemoryError)
           | None \<Rightarrow> None)"
      then show thesis using grow [of 0] unfolding eq One_nat_def by blast
    qed (use slot eq in simp_all)
  qed
qed

lemma set_has_key: "set_inv ops valid s \<Longrightarrow> p < s_alloc s \<Longrightarrow> s_table s ! p = Key k \<Longrightarrow> k_eq ops k x \<Longrightarrow> set_has ops s x"
  using set_has_absent [of ops s x] nth_mem [of p "s_table s"] by (auto simp: absent_def set_inv_def)

lemma set_has_cong:
  assumes "set_inv ops valid s" "valid x" "valid y" "k_eq ops x y"
  shows "set_has ops s x = set_has ops s y"
proof -
  have "k_eq ops k x = k_eq ops k y" if "Key k \<in> set (s_table s)" for k
  proof -
    have "valid k" using keys_invD(1) [OF set_invD(2) [OF assms(1)] that] .
    then show ?thesis using eq_trans eq_sym assms(2-4) by metis
  qed
  then show ?thesis using set_has_absent [of ops s x] set_has_absent [of ops s y] unfolding absent_def by blast
qed

lemma set_put_correct:
  assumes "set_inv ops valid s" "valid x" "\<not> set_has ops s x" "usable (s_table s) (k_hash ops x mod s_alloc s) p"
  shows "set_inv ops valid (set_put s p x)" "\<forall>y. valid y \<longrightarrow> set_has ops (set_put s p x) y = (k_eq ops x y \<or> set_has ops s y)"
proof -
  note inv = set_invD [OF assms(1)]
  have p: "p < length (s_table s)" and put: "keys_inv ops valid ((s_table s)[p := Key x])"
    using keys_inv_put [OF inv(2) assms(2)] assms(3,4) inv(1) by (simp_all add: set_has_absent)
  have free: "\<not> is_key (s_table s ! p)" using assms(4) by (simp add: usable_def)
  show "set_inv ops valid (set_put s p x)"
    using put inv filter_update_count(1) [OF p, of is_key "Key x"] free by (simp add: set_inv_def)
  show "\<forall>y. valid y \<longrightarrow> set_has ops (set_put s p x) y = (k_eq ops x y \<or> set_has ops s y)"
    using table_get_put [of "units (s_table s)" p x "()"] inv(2) put p free assms(2,3)
    by (simp add: set_has_absent) (simp add: set_has_def)
qed

lemma set_drop_correct:
  assumes "set_inv ops valid s" "valid x" "p < s_alloc s" "s_table s ! p = Key k" "k_eq ops k x"
  obtains s' where "set_drop s p = Some s'" "set_inv ops valid s'"
    "\<forall>y. valid y \<longrightarrow> set_has ops s' y = (\<not> k_eq ops x y \<and> set_has ops s y)"
proof -
  note inv = set_invD [OF assms(1)]
  have p: "p < length (s_table s)" using assms(3) inv(1) by simp
  obtain d where d: "deleted_key (s_table s) (s_alloc s) p = Some d" "\<not> is_key d" "keys_inv ops valid ((s_table s)[p := d])"
    using keys_inv_drop [OF inv(2) p] inv(1) by auto
  define s' where "s' = s\<lparr>s_used := s_used s - 1, s_table := (s_table s)[p := d]\<rparr>"
  have "set_inv ops valid s'"
    using d inv filter_update_count(2) [OF p, of is_key d] assms(4) by (simp add: set_inv_def s'_def)
  moreover have "\<forall>y. valid y \<longrightarrow> set_has ops s' y = (\<not> k_eq ops x y \<and> set_has ops s y)"
    using table_get_drop [of "units (s_table s)" p d "()" k x] inv(2) d(2,3) p assms(2,4,5)
    by (simp add: set_has_def s'_def)
  ultimately show thesis using that [of s'] d(1) by (simp add: set_drop_def s'_def)
qed

lemma set_search_cases:
  assumes "set_inv ops valid s" "s_alloc s \<noteq> 0" "valid x"
  obtains (found) p k where "p < s_alloc s" "s_table s ! p = Key k" "k_eq ops k x"
      "set_search (Suc r) ops rehash s x add remove =
        (if remove then do { s \<leftarrow> set_drop s p; Some (s, Got (Some k)) } else Some (s, Got (Some k)))"
  | (missing) "\<not> set_has ops s x" "\<not> add" "set_search (Suc r) ops rehash s x add remove = Some (s, Got None)"
  | (added) p where "\<not> set_has ops s x" "add" "usable (s_table s) (k_hash ops x mod s_alloc s) p"
      "set_search (Suc r) ops rehash s x add remove = Some (set_put s p x, Got (Some x))"
  | (full) "\<not> set_has ops s x" "add" "s_used s = s_alloc s"
      "set_search (Suc r) ops rehash s x add remove =
        (case rehash s of
           Some (s, Got _) \<Rightarrow> set_search r ops rehash s x True remove
         | Some (s, MemoryError) \<Rightarrow> Some (s, MemoryError)
         | None \<Rightarrow> None)"
proof -
  note inv = set_invD [OF assms(1)]
  have ne: "s_table s \<noteq> []" using assms(2) inv(1) by auto
  define res where "res = scan (\<lambda>k. k_eq ops k x) (s_table s) (s_alloc s) (s_alloc s) (k_hash ops x mod s_alloc s) None"
  have ok: "scan_ok (\<lambda>k. k_eq ops k x) (s_table s) (k_hash ops x mod s_alloc s) res"
    using scan_keys [OF inv(2) ne assms(3) refl] unfolding inv(1) res_def .
  show thesis
  proof (cases res)
    case (EmptyAt p avail)
    then show thesis
      using added [of "case avail of None \<Rightarrow> p | Some q \<Rightarrow> q"] missing ok assms(2) by (cases add) (simp_all add: set_has_absent res_def Let_def)
  next
    case (FoundAt p)
    then obtain k where "p < s_alloc s" "s_table s ! p = Key k" "k_eq ops k x" using ok inv(1) by auto
    then show thesis using found FoundAt assms(2) by (simp add: res_def)
  next
    case (Wrapped avail)
    then have a: "\<not> set_has ops s x" using ok by (simp add: set_has_absent)
    consider "\<not> add" | p where "add" "avail = Some p" | "add" "avail = None" by (cases avail) auto
    then show thesis
    proof cases
      case 1
      then show thesis using missing a Wrapped assms(2) by (simp add: res_def)
    next
      case 2
      then show thesis using added [of p] a ok Wrapped assms(2) by (simp add: res_def)
    next
      case 3
      then have "filter is_key (s_table s) = s_table s" using ok Wrapped by simp
      then have "s_used s = s_alloc s" using inv by simp
      then show thesis using full a 3 Wrapped assms(2) by (simp add: res_def)
    qed
  next
    case Outside
    then show thesis using ok by simp
  qed
qed

lemma set_search_adds:
  assumes "set_inv ops valid s" "s_used s < s_alloc s" "valid x" "\<not> set_has ops s x"
  obtains p where "set_search (Suc r) ops rehash s x True remove = Some (set_put s p x, Got (Some x))" "set_inv ops valid (set_put s p x)"
    "\<forall>y. valid y \<longrightarrow> set_has ops (set_put s p x) y = (k_eq ops x y \<or> set_has ops s y)"
proof -
  have ne: "s_alloc s \<noteq> 0" using assms(2) by simp
  show thesis
  proof (rule set_search_cases [OF assms(1) ne assms(3), of r rehash True remove])
    fix p assume "usable (s_table s) (k_hash ops x mod s_alloc s) p"
      "set_search (Suc r) ops rehash s x True remove = Some (set_put s p x, Got (Some x))"
    then show thesis using that set_put_correct [OF assms(1,3,4)] by blast
  next
    fix p k assume "p < s_alloc s" "s_table s ! p = Key k" "k_eq ops k x"
    then show thesis using set_has_key [OF assms(1)] assms(4) by blast
  qed (use assms(2) in simp_all)
qed

lemma set_lookup_eq:
  assumes "s_alloc s \<noteq> 0"
  shows "mp_set_lookup (Suc l) ops room s x add remove =
    set_search (Suc 1) ops (set_rehash_with (mp_set_lookup l ops room) room) s x add remove"
  unfolding mp_set_lookup.simps set_lookup_body_def One_nat_def numeral_2_eq_2 using assms by (simp only: if_False simp_thms)

lemma set_reinsert_correct:
  assumes "set_inv ops valid s" "no_eq ops old" "\<And>k. Key k \<in> set old \<Longrightarrow> valid k \<and> \<not> set_has ops s k"
    and "s_used s + length (filter is_key old) < s_alloc s"
  shows "\<exists>s'. set_reinsert (mp_set_lookup (Suc l) ops room) old s = Some (s', Got ()) \<and> set_inv ops valid s' \<and>
    s_alloc s' = s_alloc s \<and> s_used s' = s_used s + length (filter is_key old) \<and>
    (\<forall>y. valid y \<longrightarrow> set_has ops s' y = (\<not> absent (\<lambda>k. k_eq ops k y) old \<or> set_has ops s y))"
  using assms
proof (induction old arbitrary: s)
  case Nil
  then show ?case by (auto simp: absent_def)
next
  case (Cons e old)
  note [simp del] = mp_set_lookup.simps set_search.simps
  show ?case
  proof (cases e)
    case (Key k)
    have k: "valid k" "\<not> set_has ops s k" using Cons.prems(3) [of k] Key by simp_all
    have used: "s_used s < s_alloc s" using Cons.prems(4) by simp
    obtain p where p: "mp_set_lookup (Suc l) ops room s k True False = Some (set_put s p k, Got (Some k))"
        "set_inv ops valid (set_put s p k)"
        "\<forall>y. valid y \<longrightarrow> set_has ops (set_put s p k) y = (k_eq ops k y \<or> set_has ops s y)"
      using set_search_adds [OF Cons.prems(1) used k] set_lookup_eq [of s l room k True False] used by (metis not_less_zero)
    have new: "\<not> k_eq ops k k'" if "Key k' \<in> set old" for k'
      using Cons.prems(2) that Key unfolding no_eq_def by auto
    have "\<exists>s'. set_reinsert (mp_set_lookup (Suc l) ops room) old (set_put s p k) = Some (s', Got ()) \<and> set_inv ops valid s' \<and>
        s_alloc s' = s_alloc (set_put s p k) \<and> s_used s' = s_used (set_put s p k) + length (filter is_key old) \<and>
        (\<forall>y. valid y \<longrightarrow> set_has ops s' y = (\<not> absent (\<lambda>k. k_eq ops k y) old \<or> set_has ops (set_put s p k) y))"
    proof (rule Cons.IH [OF p(2)])
      show "no_eq ops old" using Cons.prems(2) by (simp add: no_eq_def)
      show "s_used (set_put s p k) + length (filter is_key old) < s_alloc (set_put s p k)" using Cons.prems(4) Key by simp
      fix k' assume "Key k' \<in> set old"
      then show "valid k' \<and> \<not> set_has ops (set_put s p k) k'" using Cons.prems(3) [of k'] p(3) new by auto
    qed
    then obtain s' where "set_reinsert (mp_set_lookup (Suc l) ops room) old (set_put s p k) = Some (s', Got ())" "set_inv ops valid s'"
        "s_alloc s' = s_alloc s" "s_used s' = Suc (s_used s) + length (filter is_key old)"
        "\<forall>y. valid y \<longrightarrow> set_has ops s' y = (\<not> absent (\<lambda>k. k_eq ops k y) old \<or> set_has ops (set_put s p k) y)" by auto
    then show ?thesis using p(1,3) Key by (intro exI [of _ s']) (auto simp: absent_def)
  qed (use Cons in \<open>auto simp: no_eq_def absent_def\<close>)
qed

lemma set_rehash_correct:
  assumes "set_inv ops valid s" "room (get_hash_alloc_greater_or_equal_to (s_alloc s + 1))"
  obtains s' where "set_rehash_with (mp_set_lookup (Suc l) ops room) room s = Some (s', Got ())" "set_inv ops valid s'"
    "s_used s' = s_used s" "s_used s' < s_alloc s'" "\<forall>y. valid y \<longrightarrow> set_has ops s' y = set_has ops s y"
proof -
  note inv = set_invD [OF assms(1)]
  define n where "n = get_hash_alloc_greater_or_equal_to (s_alloc s + 1)"
  define s0 where "s0 = s\<lparr>s_alloc := n, s_used := 0, s_table := replicate n NullKey\<rparr>"
  have n: "s_alloc s < n" using hash_alloc_ge [of "s_alloc s + 1"] by (simp add: n_def)
  have used: "s_used s \<le> s_alloc s" unfolding inv(3) using length_filter_le [of is_key "s_table s"] inv(1) by simp
  have empty: "\<not> set_has ops s0 y" for y by (simp add: set_has_absent absent_def s0_def)
  have "set_inv ops valid s0" using keys_inv_empty [of ops valid n] by (simp add: set_inv_def s0_def)
  from set_reinsert_correct [OF this keys_inv_no_eq [OF inv(2)], of l room]
  obtain s' where "set_reinsert (mp_set_lookup (Suc l) ops room) (s_table s) s0 = Some (s', Got ())" "set_inv ops valid s'"
      "s_alloc s' = s_alloc s0" "s_used s' = s_used s0 + length (filter is_key (s_table s))"
      "\<forall>y. valid y \<longrightarrow> set_has ops s' y = (\<not> absent (\<lambda>k. k_eq ops k y) (s_table s) \<or> set_has ops s0 y)"
    using keys_invD(1) [OF inv(2)] empty used n inv(3) by (auto simp: s0_def)
  then show thesis
    using that [of s'] assms(2) used n inv(3) empty set_has_absent [of ops s]
    by (auto simp: set_rehash_with_def s0_def n_def Let_def)
qed

text \<open>What a lookup in a set leaves and returns unless memory runs out.\<close>

lemma set_lookup_correct:
  assumes "set_inv ops valid s" "valid x"
  obtains (raised) s' where "mp_set_lookup (Suc (Suc l)) ops room s x add remove = Some (s', MemoryError)"
      "add" "\<not> set_has ops s x" "s_used s = s_alloc s" "\<not> room (get_hash_alloc_greater_or_equal_to (s_alloc s + 1))"
  | (returned) s' e where "mp_set_lookup (Suc (Suc l)) ops room s x add remove = Some (s', Got e)" "set_inv ops valid s'"
      "if set_has ops s x then \<exists>k. e = Some k \<and> k_eq ops k x else e = (if add then Some x else None)"
      "\<forall>y. valid y \<longrightarrow> set_has ops s' y =
        (if k_eq ops x y then (if set_has ops s x then \<not> remove else add) else set_has ops s y)"
proof -
  note [simp del] = mp_set_lookup.simps set_search.simps
  let ?rehash = "set_rehash_with (mp_set_lookup (Suc l) ops room) room"
  let ?lookup = "mp_set_lookup (Suc (Suc l)) ops room s x"
  have cong: "set_has ops s y = set_has ops s x" if "valid y" "k_eq ops x y" for y
    using set_has_cong [OF assms that] by simp
  have put: thesis if "?lookup add remove = Some (s', Got (Some x))" "add" "\<not> set_has ops s x" "set_inv ops valid s'"
      "\<forall>y. valid y \<longrightarrow> set_has ops s' y = (k_eq ops x y \<or> set_has ops s y)" for s'
    using returned [OF that(1,4)] that cong by simp
  have grow: thesis if r: "?lookup add remove =
      (case ?rehash s of
         Some (s, Got _) \<Rightarrow> set_search (Suc r) ops ?rehash s x True remove
       | Some (s, MemoryError) \<Rightarrow> Some (s, MemoryError)
       | None \<Rightarrow> None)" and a: "add" "\<not> set_has ops s x" "s_used s = s_alloc s" for r
  proof (cases "room (get_hash_alloc_greater_or_equal_to (s_alloc s + 1))")
    case False
    then show thesis using raised r a by (simp add: set_rehash_with_def Let_def)
  next
    case True
    obtain s1 where s1: "?rehash s = Some (s1, Got ())" "set_inv ops valid s1" "s_used s1 < s_alloc s1"
        "\<forall>y. valid y \<longrightarrow> set_has ops s1 y = set_has ops s y"
      by (rule set_rehash_correct [of s room l, OF assms(1) True])
    have "\<not> set_has ops s1 x" using s1(4) a(2) assms(2) by simp
    then obtain p where p: "set_search (Suc r) ops ?rehash s1 x True remove = Some (set_put s1 p x, Got (Some x))"
        "set_inv ops valid (set_put s1 p x)" "\<forall>y. valid y \<longrightarrow> set_has ops (set_put s1 p x) y = (k_eq ops x y \<or> set_has ops s1 y)"
      by (rule set_search_adds [OF s1(2,3) assms(2)])
    show thesis using put [OF _ a(1,2) p(2)] r s1(1,4) p(1,3) by simp
  qed
  show thesis
  proof (cases "s_alloc s = 0")
    case True
    then have none: "\<not> set_has ops s x" "s_used s = s_alloc s" using set_invD [OF assms(1)] by (auto simp: set_has_absent absent_def)
    show thesis
    proof (cases add)
      case add: True
      have "?lookup add remove =
        (case ?rehash s of
           Some (s, Got _) \<Rightarrow> set_search (Suc 1) ops ?rehash s x True remove
         | Some (s, MemoryError) \<Rightarrow> Some (s, MemoryError)
         | None \<Rightarrow> None)"
        using True add
        by (simp add: mp_set_lookup.simps(2) [of "Suc l"] set_lookup_body_def numeral_2_eq_2 split: option.split prod.split attempt.split)
      then show thesis using grow none add by blast
    next
      case False
      then have "?lookup add remove = Some (s, Got None)" using True by (simp add: mp_set_lookup.simps(2) [of "Suc l"] set_lookup_body_def)
      then show thesis using returned [OF _ assms(1)] none cong False by simp
    qed
  next
    case False
    note eq = set_lookup_eq [OF False, of "Suc l" room x add remove]
    show thesis
    proof (rule set_search_cases [OF assms(1) False assms(2), of 1 ?rehash add remove])
      fix p k assume p: "p < s_alloc s" "s_table s ! p = Key k" "k_eq ops k x"
      assume res: "set_search (Suc 1) ops ?rehash s x add remove =
        (if remove then do { s \<leftarrow> set_drop s p; Some (s, Got (Some k)) } else Some (s, Got (Some k)))"
      have has: "set_has ops s x" using set_has_key [OF assms(1) p] .
      show thesis
      proof (cases remove)
        case True
        obtain s' where "set_drop s p = Some s'" "set_inv ops valid s'"
            "\<forall>y. valid y \<longrightarrow> set_has ops s' y = (\<not> k_eq ops x y \<and> set_has ops s y)"
          by (rule set_drop_correct [OF assms p])
        then show thesis using returned [of s' "Some k"] res eq True has p(3) by simp
      next
        case False
        then show thesis using returned [OF _ assms(1), of "Some k"] res eq has p(3) cong by simp
      qed
    next
      assume "\<not> set_has ops s x" "\<not> add" "set_search (Suc 1) ops ?rehash s x add remove = Some (s, Got None)"
      then show thesis using returned [OF _ assms(1), of None] eq cong by simp
    next
      fix p assume "\<not> set_has ops s x" "add" "usable (s_table s) (k_hash ops x mod s_alloc s) p"
        "set_search (Suc 1) ops ?rehash s x add remove = Some (set_put s p x, Got (Some x))"
      then show thesis using put [of "set_put s p x"] set_put_correct [OF assms] eq by simp
    next
      assume "\<not> set_has ops s x" "add" "s_used s = s_alloc s"
        and "set_search (Suc 1) ops ?rehash s x add remove =
          (case ?rehash s of
             Some (s, Got _) \<Rightarrow> set_search 1 ops ?rehash s x True remove
           | Some (s, MemoryError) \<Rightarrow> Some (s, MemoryError)
           | None \<Rightarrow> None)"
      then show thesis using grow [of 0] unfolding eq One_nat_def by blast
    qed
  qed
qed

lemma set_full_raises:
  assumes "set_inv ops valid s" "valid x" "\<not> set_has ops s x" "s_used s = s_alloc s"
    and "\<not> room (get_hash_alloc_greater_or_equal_to (s_alloc s + 1))"
  shows "mp_set_lookup (Suc l) ops room s x True remove =
    Some (s\<lparr>s_alloc := get_hash_alloc_greater_or_equal_to (s_alloc s + 1), s_used := 0\<rparr>, MemoryError)"
proof -
  let ?rehash = "set_rehash_with (mp_set_lookup l ops room) room"
  have rehash: "?rehash s = Some (s\<lparr>s_alloc := get_hash_alloc_greater_or_equal_to (s_alloc s + 1), s_used := 0\<rparr>, MemoryError)"
    using assms(5) by (simp add: set_rehash_with_def Let_def)
  note inv = set_invD [OF assms(1)]
  have "\<forall>k \<in> set (s_table s). is_key k" using inv assms(4) filter_id_conv [of is_key "s_table s"]
    by (metis filter_is_subset length_filter_less less_irrefl)
  then have no_free: "\<not> usable (s_table s) h p" for h p
    using mod_less_divisor unfolding usable_def by (metis gr_implies_not0 neq0_conv nth_mem)
  show ?thesis
  proof (cases "s_alloc s = 0")
    case True
    then show ?thesis using rehash by (simp add: set_lookup_body_def)
  next
    case False
    show ?thesis
      unfolding set_lookup_eq [OF False]
      by (rule set_search_cases [OF assms(1) False assms(2), of 1 ?rehash True remove])
        (use no_free set_has_key [OF assms(1)] assms(3) rehash in \<open>auto simp del: set_search.simps\<close>)
  qed
qed

lemma remove_first_from_correct:
  assumes "set_inv ops valid s" "pos + n = s_alloc s" "\<forall>i < pos. \<not> is_key (s_table s ! i)"
  obtains (empty) "remove_first_from s n pos = Some (s, None)" "\<forall>y. \<not> set_has ops s y"
  | (removed) s' k where "remove_first_from s n pos = Some (s', Some k)" "set_inv ops valid s'" "valid k" "set_has ops s k"
      "\<forall>y. valid y \<longrightarrow> set_has ops s' y = (\<not> k_eq ops k y \<and> set_has ops s y)"
  using assms(2,3)
proof (induction n arbitrary: pos thesis)
  case 0
  then have "\<not> is_key k" if "k \<in> set (s_table s)" for k
    using that set_invD(1) [OF assms(1)] by (auto simp: in_set_conv_nth)
  then show ?case using 0 by (force simp: set_has_absent absent_def)
next
  case (Suc n)
  then have pos: "pos < s_alloc s" "pos < length (s_table s)" using set_invD(1) [OF assms(1)] by auto
  show ?case
  proof (cases "is_key (s_table s ! pos)")
    case True
    then obtain k where k: "s_table s ! pos = Key k" by (cases "s_table s ! pos") auto
    then have "valid k" using keys_invD(1) [OF set_invD(2) [OF assms(1)]] nth_mem [OF pos(2)] by metis
    obtain s' where s': "set_drop s pos = Some s'" "set_inv ops valid s'"
        "\<forall>y. valid y \<longrightarrow> set_has ops s' y = (\<not> k_eq ops k y \<and> set_has ops s y)"
      by (rule set_drop_correct [OF assms(1) \<open>valid k\<close> pos(1) k eq_refl [OF \<open>valid k\<close>]])
    show ?thesis
      using Suc.prems(2) [of s' k] s' k pos(2) \<open>valid k\<close> set_has_key [OF assms(1) pos(1) k eq_refl [OF \<open>valid k\<close>]] by simp
  next
    case False
    then have eq: "remove_first_from s (Suc n) pos = remove_first_from s n (Suc pos)"
      using pos(2) by (cases "s_table s ! pos") auto
    have "\<forall>i < Suc pos. \<not> is_key (s_table s ! i)" using Suc.prems(4) False by (simp add: less_Suc_eq)
    then show ?thesis using Suc.IH [of "Suc pos"] Suc.prems(1-3) unfolding eq by (metis add_Suc_shift)
  qed
qed

end

text \<open>
  When the bigger array of a set cannot be had, the set keeps the small one with the size of
  the big one.
\<close>

lemma set_search_outside:
  assumes "s_alloc s \<noteq> 0" "length (s_table s) \<le> k_hash ops y mod s_alloc s"
  shows "mp_set_lookup l ops room s y add remove = None"
proof (cases l)
  case (Suc l')
  obtain n where "s_alloc s = Suc n" using assms(1) by (cases "s_alloc s") auto
  then show ?thesis using assms Suc by (simp add: set_lookup_body_def numeral_2_eq_2)
qed simp

text \<open>The operations that make, empty and release tables establish the invariant.\<close>

lemma fresh_tables:
  "map_inv ops valid (mp_map_init n)" "\<not> is_ordered m \<Longrightarrow> map_inv ops valid (mp_map_clear m)"
  "map_inv ops valid m \<Longrightarrow> map_inv ops valid (mp_map_deinit m)"
  "set_inv ops valid (mp_set_init n)" "set_inv ops valid (mp_set_clear s)"
  using keys_inv_empty [of ops valid n] keys_inv_empty [of ops valid 0]
  by (simp_all add: map_inv_def set_inv_def mp_map_init_def mp_map_clear_def mp_map_deinit_def mp_set_init_def mp_set_clear_def)

end
