(* ===== verification/Mpn.thy ===== *)
theory Mpn
  imports Prelude "HOL-Library.Word"
begin

unbundle bit_operations_syntax

text \<open>
  The digit-level routines (\<open>mpn_\<close>) of the arbitrary-precision integers in \<open>py/mpz.c\<close>, for the
  16-bit digits and 32-bit double digits this target uses.

  A number is a list of digits, least significant first, as the C arrays hold them.  The C
  routines read their operands digit by digit from one end and write the result in the same
  order, so the result may share memory with an operand; on lists this is a recursion that
  yields the digits written.  A result is the list of all digits written, so that the caller
  can check it fits, and the length returned.  \<open>None\<close> stands for lengths the routine is not
  meant for.  Double-digit arithmetic is reduced to 32 bits where the C code does it.

  Shown here: comparison, shifts, addition, subtraction and multiplication compute the
  corresponding operation on the numbers the digits stand for, without overflow of a double
  digit, and in the space their callers provide.
\<close>

section \<open>Digits\<close>

abbreviation DIG_SIZE :: nat where
  "DIG_SIZE \<equiv> 16"

abbreviation DIG_BASE :: int where
  "DIG_BASE \<equiv> 65536"

abbreviation DIG_MASK :: int where
  "DIG_MASK \<equiv> 65535"

type_synonym digits = "int list"

fun dval :: "digits \<Rightarrow> int" where
  "dval [] = 0"
| "dval (d # ds) = d + DIG_BASE * dval ds"

definition digs :: "digits \<Rightarrow> bool" where
  "digs ds \<longleftrightarrow> (\<forall>d \<in> set ds. 0 \<le> d \<and> d < DIG_BASE)"

text \<open>No leading zeros, that is no zero at the end of the list.\<close>

definition normd :: "digits \<Rightarrow> bool" where
  "normd ds \<longleftrightarrow> (ds \<noteq> [] \<longrightarrow> last ds \<noteq> 0)"

section \<open>Routines\<close>

definition mpn_remove_trailing_zeros :: "digits \<Rightarrow> nat" where
  "mpn_remove_trailing_zeros ds = length (dropWhile (\<lambda>d. d = 0) (rev ds))"

text \<open>Comparison from the most significant digit down; the lists are reversed.\<close>

fun cmp_loop :: "digits \<Rightarrow> digits \<Rightarrow> int" where
  "cmp_loop (i # is) (j # js) = (let cmp = i - j in
     if cmp < 0 then -1 else if cmp > 0 then 1 else cmp_loop is js)"
| "cmp_loop _ _ = 0"

definition mpn_cmp :: "digits \<Rightarrow> digits \<Rightarrow> int" where
  "mpn_cmp idig jdig =
     (if length idig < length jdig then -1
      else if length idig > length jdig then 1
      else cmp_loop (rev idig) (rev jdig))"

text \<open>The shift loops.  Left: from the high end, \<open>d\<close> holding the digit before in its upper half.\<close>

fun shl_loop :: "nat \<Rightarrow> int \<Rightarrow> digits \<Rightarrow> digits" where
  "shl_loop n_part d [] = [(d div 2 ^ (DIG_SIZE - n_part)) mod DIG_BASE]"
| "shl_loop n_part d (j # js) =
     (let d = d OR j in
      (d div 2 ^ (DIG_SIZE - n_part)) mod DIG_BASE # shl_loop n_part (u32 (d * DIG_BASE)) js)"

text \<open>
  The number of digits a left shift adds; the sum is taken in a machine word.  When it wraps around
  there are none, and \<open>mpn_shl\<close> stores in front of the buffer.
\<close>

definition shl_whole :: "nat \<Rightarrow> nat" where
  "shl_whole n = nat (u32 (int n + int DIG_SIZE - 1)) div DIG_SIZE"

definition mpn_shl :: "digits \<Rightarrow> nat \<Rightarrow> (digits \<times> nat) option" where
  "mpn_shl jdig n =
     (let n_whole = shl_whole n;
          n_part = (if n mod DIG_SIZE = 0 then DIG_SIZE else n mod DIG_SIZE);
          idig = replicate (n_whole - 1) 0 @ rev (shl_loop n_part 0 (rev jdig))
      in if n_whole = 0 then None else Some (idig, mpn_remove_trailing_zeros idig))"

fun shr_loop :: "nat \<Rightarrow> digits \<Rightarrow> digits" where
  "shr_loop n_part [] = []"
| "shr_loop n_part [j] = [(j div 2 ^ n_part) mod DIG_BASE]"
| "shr_loop n_part (j # j1 # js) =
     (((j OR (j1 * DIG_BASE)) div 2 ^ n_part) mod DIG_BASE) # shr_loop n_part (j1 # js)"

definition mpn_shr :: "digits \<Rightarrow> nat \<Rightarrow> digits \<times> nat" where
  "mpn_shr jdig n =
     (let n_whole = n div DIG_SIZE; n_part = n mod DIG_SIZE in
      if n_whole \<ge> length jdig then ([], 0)
      else
        let idig = shr_loop n_part (drop n_whole jdig); jlen = length jdig - n_whole in
        (idig, if last idig = 0 then jlen - 1 else jlen))"

fun add_loop :: "int \<Rightarrow> digits \<Rightarrow> digits \<Rightarrow> digits" where
  "add_loop carry (j # js) (k # ks) = (let c = u32 (carry + (j + k)) in
     c mod DIG_BASE # add_loop (c div DIG_BASE) js ks)"
| "add_loop carry (j # js) [] = (let c = u32 (carry + j) in
     c mod DIG_BASE # add_loop (c div DIG_BASE) js [])"
| "add_loop carry [] ks = (if carry \<noteq> 0 then [carry mod DIG_BASE] else [])"

definition mpn_add :: "digits \<Rightarrow> digits \<Rightarrow> (digits \<times> nat) option" where
  "mpn_add jdig kdig =
     (if length jdig < length kdig then None
      else let idig = add_loop 0 jdig kdig in Some (idig, length idig))"

fun sub_loop :: "int \<Rightarrow> digits \<Rightarrow> digits \<Rightarrow> digits" where
  "sub_loop borrow (j # js) (k # ks) = (let b = s32 (borrow + (j - k)) in
     b mod DIG_BASE # sub_loop (b div DIG_BASE) js ks)"
| "sub_loop borrow (j # js) [] = (let b = s32 (borrow + j) in
     b mod DIG_BASE # sub_loop (b div DIG_BASE) js [])"
| "sub_loop borrow [] ks = []"

definition mpn_sub :: "digits \<Rightarrow> digits \<Rightarrow> (digits \<times> nat) option" where
  "mpn_sub jdig kdig =
     (if length jdig < length kdig then None
      else let idig = sub_loop 0 jdig kdig in Some (idig, mpn_remove_trailing_zeros idig))"

text \<open>
  The three bitwise routines on magnitudes with signs.  The test \<open>--klen <= --jlen\<close> on unsigned
  lengths holds while \<open>k\<close> has digits left: once \<open>klen\<close> has passed zero it wraps to a huge value.
\<close>

definition mask_of :: "int \<Rightarrow> int" where
  "mask_of carry = (if carry = 0 then 0 else DIG_MASK)"

fun and_neg_loop :: "int \<Rightarrow> int \<Rightarrow> int \<Rightarrow> int \<Rightarrow> int \<Rightarrow> int \<Rightarrow> digits \<Rightarrow> digits \<Rightarrow> digits" where
  "and_neg_loop imask jmask kmask ci cj ck [] ks = (if ci \<noteq> 0 then [ci mod DIG_BASE] else [])"
| "and_neg_loop imask jmask kmask ci cj ck (j # js) ks =
     (let cj = u32 (cj + (j XOR jmask));
          ck = u32 (ck + (case ks of k # _ \<Rightarrow> k XOR kmask | [] \<Rightarrow> kmask));
          ci = u32 (ci + (((cj AND ck) XOR imask) AND DIG_MASK))
      in ci mod DIG_BASE # and_neg_loop imask jmask kmask (ci div DIG_BASE) (cj div DIG_BASE) (ck div DIG_BASE) js (tl ks))"

definition mpn_and_neg :: "digits \<Rightarrow> digits \<Rightarrow> int \<Rightarrow> int \<Rightarrow> int \<Rightarrow> digits \<times> nat" where
  "mpn_and_neg jdig kdig carryi carryj carryk =
     (let idig = and_neg_loop (mask_of carryi) (mask_of carryj) (mask_of carryk) carryi carryj carryk jdig kdig
      in (idig, mpn_remove_trailing_zeros idig))"

text \<open>The last carry must be zero, or the assertion fails.\<close>

fun or_neg_loop :: "int \<Rightarrow> int \<Rightarrow> int \<Rightarrow> int \<Rightarrow> int \<Rightarrow> int \<Rightarrow> digits \<Rightarrow> digits \<Rightarrow> digits option" where
  "or_neg_loop imask jmask kmask ci cj ck [] ks = (if ci = 0 then Some [] else None)"
| "or_neg_loop imask jmask kmask ci cj ck (j # js) ks =
     (let cj = u32 (cj + (j XOR jmask));
          ck = u32 (ck + (case ks of k # _ \<Rightarrow> k XOR kmask | [] \<Rightarrow> kmask));
          ci = u32 (ci + (((cj OR ck) XOR imask) AND DIG_MASK))
      in map_option (\<lambda>r. ci mod DIG_BASE # r)
           (or_neg_loop imask jmask kmask (ci div DIG_BASE) (cj div DIG_BASE) (ck div DIG_BASE) js (tl ks)))"

definition mpn_or_neg :: "digits \<Rightarrow> digits \<Rightarrow> int \<Rightarrow> int \<Rightarrow> int \<Rightarrow> (digits \<times> nat) option" where
  "mpn_or_neg jdig kdig carryi carryj carryk = do {
     idig \<leftarrow> or_neg_loop (mask_of carryi) (mask_of carryj) (mask_of carryk) carryi carryj carryk jdig kdig;
     Some (idig, mpn_remove_trailing_zeros idig)
   }"

fun xor_neg_loop :: "int \<Rightarrow> int \<Rightarrow> int \<Rightarrow> digits \<Rightarrow> digits \<Rightarrow> digits" where
  "xor_neg_loop ci cj ck [] ks = (if ci \<noteq> 0 then [ci mod DIG_BASE] else [])"
| "xor_neg_loop ci cj ck (j # js) ks =
     (let cj = u32 (cj + (j + DIG_MASK));
          ck = u32 (ck + (case ks of k # _ \<Rightarrow> k + DIG_MASK | [] \<Rightarrow> DIG_MASK));
          ci = u32 (ci + ((cj XOR ck) AND DIG_MASK))
      in ci mod DIG_BASE # xor_neg_loop (ci div DIG_BASE) (cj div DIG_BASE) (ck div DIG_BASE) js (tl ks))"

definition mpn_xor_neg :: "digits \<Rightarrow> digits \<Rightarrow> int \<Rightarrow> int \<Rightarrow> int \<Rightarrow> digits \<times> nat" where
  "mpn_xor_neg jdig kdig carryi carryj carryk =
     (let idig = xor_neg_loop carryi carryj carryk jdig kdig in (idig, mpn_remove_trailing_zeros idig))"

fun mul_dig_loop :: "int \<Rightarrow> int \<Rightarrow> digits \<Rightarrow> digits" where
  "mul_dig_loop dmul carry [] = (if carry \<noteq> 0 then [carry mod DIG_BASE] else [])"
| "mul_dig_loop dmul carry (i # is) = (let c = u32 (carry + i * dmul) in
     c mod DIG_BASE # mul_dig_loop dmul (c div DIG_BASE) is)"

definition mpn_mul_dig_add_dig :: "digits \<Rightarrow> int \<Rightarrow> int \<Rightarrow> digits \<times> nat" where
  "mpn_mul_dig_add_dig idig dmul dadd =
     (let w = mul_dig_loop dmul dadd idig in (w, length w))"

text \<open>
  One row of the product: \<open>id\<close> runs over the result from the current position; a last carry is
  stored into the digit after the row, in memory that was zeroed.  The result is the list of
  digits from the current position on, and how many of them the row reached.
\<close>

fun mul_row :: "int \<Rightarrow> int \<Rightarrow> digits \<Rightarrow> digits \<Rightarrow> digits option" where
  "mul_row k carry [] is =
     (if carry \<noteq> 0 then (case is of [] \<Rightarrow> None | _ # is \<Rightarrow> Some (carry mod DIG_BASE # is)) else Some is)"
| "mul_row k carry (j # js) [] = None"
| "mul_row k carry (j # js) (i # is) = (let c = u32 (carry + (i + j * k)) in
     map_option (\<lambda>r. c mod DIG_BASE # r) (mul_row k (c div DIG_BASE) js is))"

text \<open>The digits the row reached: as many as \<open>j\<close> has, and one more when it ends with a carry.\<close>

fun row_carry :: "int \<Rightarrow> int \<Rightarrow> digits \<Rightarrow> digits \<Rightarrow> int" where
  "row_carry k carry (j # js) (i # is) = row_carry k (u32 (carry + (i + j * k)) div DIG_BASE) js is"
| "row_carry k carry _ _ = carry"

fun mul_rows :: "nat \<Rightarrow> nat \<Rightarrow> digits \<Rightarrow> digits \<Rightarrow> digits \<Rightarrow> (digits \<times> nat) option" where
  "mul_rows pos ilen is jdig [] = Some (is, ilen)"
| "mul_rows pos ilen is jdig (k # ks) = do {
     row \<leftarrow> mul_row k 0 jdig is;
     let ilen = pos + length jdig + (if row_carry k 0 jdig is \<noteq> 0 then 1 else 0);
     case (row, ks) of
       (r # rest, _ # _) \<Rightarrow> map_option (\<lambda>(ds, l). (r # ds, l)) (mul_rows (pos + 1) ilen rest jdig ks)
     | ([], _ # _) \<Rightarrow> None
     | (_, []) \<Rightarrow> Some (row, ilen)
   }"

text \<open>\<open>idig\<close> is the zeroed memory of the result.\<close>

definition mpn_mul :: "digits \<Rightarrow> digits \<Rightarrow> digits \<Rightarrow> (digits \<times> nat) option" where
  "mpn_mul idig jdig kdig = mul_rows 0 0 idig jdig kdig"

section \<open>Values of digit lists\<close>

lemma digs_simps [simp]: "digs []" "digs (d # ds) \<longleftrightarrow> 0 \<le> d \<and> d < DIG_BASE \<and> digs ds"
  "digs (xs @ ys) \<longleftrightarrow> digs xs \<and> digs ys" "digs (rev xs) = digs xs"
  by (auto simp: digs_def)

lemma digs_replicate [simp]: "digs (replicate n 0)"
  by (simp add: digs_def)

lemma digs_take: "digs ds \<Longrightarrow> digs (take n ds)" and digs_drop: "digs ds \<Longrightarrow> digs (drop n ds)"
  by (auto simp: digs_def dest: in_set_takeD in_set_dropD)

lemma dval_append: "dval (xs @ ys) = dval xs + DIG_BASE ^ length xs * dval ys"
  by (induction xs) (simp_all add: algebra_simps)

lemma dval_zeros [simp]: "dval (replicate n 0) = 0"
  by (induction n) simp_all

lemma dval_nonneg: "digs ds \<Longrightarrow> 0 \<le> dval ds"
  by (induction ds) auto

lemma dval_less: "digs ds \<Longrightarrow> dval ds < DIG_BASE ^ length ds"
proof (induction ds)
  case (Cons d ds)
  then have "dval ds + 1 \<le> DIG_BASE ^ length ds" by simp
  then have "DIG_BASE * dval ds + DIG_BASE \<le> DIG_BASE * DIG_BASE ^ length ds" by simp
  then show ?case using Cons.prems by simp
qed simp

lemma dval_ge:
  assumes "digs ds" and "ds \<noteq> []" and "last ds \<noteq> 0"
  shows "DIG_BASE ^ (length ds - 1) \<le> dval ds"
proof -
  obtain xs d where ds: "ds = xs @ [d]" using assms(2) by (cases ds rule: rev_cases) auto
  have "1 \<le> d" using assms(1,3) by (simp add: ds)
  then have "DIG_BASE ^ length xs * 1 \<le> DIG_BASE ^ length xs * d" by (intro mult_left_mono) simp_all
  moreover have "0 \<le> dval xs" using dval_nonneg [of xs] assms(1) by (simp add: ds)
  moreover have "dval ds = dval xs + DIG_BASE ^ length xs * d" by (simp add: ds dval_append)
  moreover have "length ds - 1 = length xs" by (simp add: ds)
  ultimately show ?thesis by (simp only: mult_1_right)
qed

lemma dval_pos: "digs ds \<Longrightarrow> normd ds \<Longrightarrow> ds \<noteq> [] \<Longrightarrow> 0 < dval ds"
  by (rule less_le_trans [OF _ dval_ge]) (auto simp: normd_def)

lemma dval_eq_0: "digs ds \<Longrightarrow> normd ds \<Longrightarrow> dval ds = 0 \<longleftrightarrow> ds = []"
  by (cases "ds = []") (auto dest: dval_pos)

lemma normd_length_less:
  assumes "digs xs" "normd xs" "digs ys" "normd ys" "length xs < length ys"
  shows "dval xs < dval ys"
proof -
  have y: "ys \<noteq> []" using assms(5) by auto
  have "dval xs < DIG_BASE ^ length xs" by (rule dval_less [OF assms(1)])
  also have "\<dots> \<le> DIG_BASE ^ (length ys - 1)" using assms(5) by (intro power_increasing) auto
  also have "\<dots> \<le> dval ys" using assms(3,4) y by (intro dval_ge) (auto simp: normd_def)
  finally show ?thesis .
qed

text \<open>Dropping the leading zeros.\<close>

lemma strip_split:
  "ds = take (mpn_remove_trailing_zeros ds) ds @ replicate (length ds - mpn_remove_trailing_zeros ds) 0"
proof -
  let ?r = "rev ds"
  have t: "\<forall>x \<in> set (takeWhile (\<lambda>d. d = 0) ?r). x = 0" by (auto dest: set_takeWhileD)
  have s: "?r = takeWhile (\<lambda>d. d = 0) ?r @ dropWhile (\<lambda>d. d = 0) ?r" by simp
  then have "ds = rev (dropWhile (\<lambda>d. d = 0) ?r) @ rev (takeWhile (\<lambda>d. d = 0) ?r)" by (metis rev_append rev_rev_ident)
  moreover have "rev (takeWhile (\<lambda>d. d = 0) ?r) = replicate (length (takeWhile (\<lambda>d. d = 0) ?r)) 0"
    using t by (intro replicate_eqI) auto
  moreover have "length (takeWhile (\<lambda>d. d = 0) ?r) = length ds - mpn_remove_trailing_zeros ds"
    by (metis add_diff_cancel_right' length_append length_rev s mpn_remove_trailing_zeros_def)
  moreover have "take (mpn_remove_trailing_zeros ds) ds = rev (dropWhile (\<lambda>d. d = 0) ?r)"
    using calculation(1) by (metis append_eq_conv_conj length_rev mpn_remove_trailing_zeros_def)
  ultimately show ?thesis by simp
qed

lemma strip_le: "mpn_remove_trailing_zeros ds \<le> length ds"
  by (metis length_dropWhile_le length_rev mpn_remove_trailing_zeros_def)

lemma strip_dval: "dval (take (mpn_remove_trailing_zeros ds) ds) = dval ds"
  by (metis strip_split dval_append dval_zeros mult_zero_right add_0_right)

lemma strip_normd: "normd (take (mpn_remove_trailing_zeros ds) ds)"
proof -
  let ?w = "dropWhile (\<lambda>d. d = 0) (rev ds)"
  have "take (mpn_remove_trailing_zeros ds) ds = rev ?w"
  proof -
    have "ds = rev ?w @ rev (takeWhile (\<lambda>d. d = 0) (rev ds))"
      by (metis rev_append rev_rev_ident takeWhile_dropWhile_id)
    then show ?thesis by (metis append_eq_conv_conj length_rev mpn_remove_trailing_zeros_def)
  qed
  then show ?thesis using hd_dropWhile [of "\<lambda>d. d = 0" "rev ds"] by (auto simp: normd_def last_rev)
qed

lemmas strip_facts = strip_dval strip_normd strip_le

lemma dval_snoc: "dval (xs @ [d]) = dval xs + DIG_BASE ^ length xs * d"
  by (simp add: dval_append)

lemma last_nonzero:
  assumes "digs ds" and "ds \<noteq> []" and "DIG_BASE ^ (length ds - 1) \<le> dval ds"
  shows "last ds \<noteq> 0"
proof
  assume l: "last ds = 0"
  obtain xs d where ds: "ds = xs @ [d]" using assms(2) by (cases ds rule: rev_cases) auto
  have "dval ds = dval xs" using l by (simp add: ds dval_append)
  then show False using dval_less [of xs] assms(1,3) by (simp add: ds)
qed

lemma normd_mono:
  assumes "digs ds" "normd ds" "digs w" "length w = length ds" "dval ds \<le> dval w"
  shows "normd w"
proof (cases "w = []")
  case False
  then have ne: "ds \<noteq> []" using assms(4) by auto
  then have "DIG_BASE ^ (length ds - 1) \<le> dval ds" using assms(1,2) by (intro dval_ge) (auto simp: normd_def)
  then have "last w \<noteq> 0" using False assms by (intro last_nonzero) auto
  then show ?thesis by (simp add: normd_def)
qed (simp add: normd_def)

lemma or_disjoint_add:
  fixes x y :: int
  assumes "0 \<le> y" and "y < 2 ^ k"
  shows "(x * 2 ^ k) OR y = x * 2 ^ k + y"
proof -
  have y: "take_bit k y = y" using assms by (simp add: take_bit_int_eq_self)
  have "push_bit k x AND take_bit k y = 0"
    by (rule bit_eqI) (auto simp: bit_simps)
  then have "(x * 2 ^ k) AND y = 0" by (simp add: y push_bit_eq_mult)
  then show ?thesis using plus_and_or [of "x * 2 ^ k" y] by simp
qed

lemma or_base_add:
  fixes x y :: int
  assumes "0 \<le> y" and "y < DIG_BASE"
  shows "(x * DIG_BASE) OR y = x * DIG_BASE + y" "y OR (x * DIG_BASE) = x * DIG_BASE + y"
  using or_disjoint_add [of y 16 x] assms by (simp_all add: or.commute)

section \<open>Comparison\<close>

lemma cmp_loop_correct:
  assumes "length xs = length ys" "digs xs" "digs ys"
  shows "cmp_loop xs ys = sgn (dval (rev xs) - dval (rev ys))"
  using assms
proof (induction xs ys rule: list_induct2)
  case (Cons x xs y ys)
  define M :: int where "M = DIG_BASE ^ length xs"
  have b: "0 \<le> dval (rev xs)" "dval (rev xs) < M" "0 \<le> dval (rev ys)" "dval (rev ys) < M"
    using Cons.prems Cons.hyps dval_nonneg [of "rev xs"] dval_less [of "rev xs"]
      dval_nonneg [of "rev ys"] dval_less [of "rev ys"] by (simp_all add: M_def)
  have M: "0 < M" by (simp add: M_def)
  have e: "dval (rev (x # xs)) - dval (rev (y # ys)) = dval (rev xs) - dval (rev ys) + M * (x - y)"
    using Cons.hyps by (simp add: dval_append M_def algebra_simps)
  consider (lt) "x - y \<le> - 1" | (eq) "x = y" | (gt) "1 \<le> x - y" by linarith
  then show ?case
  proof cases
    case lt
    then have "M * (x - y) \<le> M * (- 1)" using M by (intro mult_left_mono) auto
    then have "dval (rev (x # xs)) - dval (rev (y # ys)) < 0" using b unfolding e by linarith
    then show ?thesis using lt by simp
  next
    case eq
    then show ?thesis using e Cons by simp
  next
    case gt
    then have "M * 1 \<le> M * (x - y)" using M by (intro mult_left_mono) auto
    then have "0 < dval (rev (x # xs)) - dval (rev (y # ys))" using b unfolding e by linarith
    then show ?thesis using gt by simp
  qed
qed simp

lemma mpn_cmp_correct:
  assumes "digs i" "normd i" "digs j" "normd j"
  shows "mpn_cmp i j = sgn (dval i - dval j)"
proof -
  consider "length i < length j" | "length j < length i" | "length i = length j" by linarith
  then show ?thesis
    using normd_length_less [of i j] normd_length_less [of j i] cmp_loop_correct [of "rev i" "rev j"] assms
    by cases (auto simp: mpn_cmp_def)
qed

section \<open>Shifts\<close>

lemma pow_split: "m \<le> n \<Longrightarrow> (2::int) ^ n = 2 ^ m * 2 ^ (n - m)"
  by (metis le_add_diff_inverse power_add)

lemma base_split: "np \<le> 16 \<Longrightarrow> DIG_BASE = 2 ^ np * 2 ^ (16 - np)"
  using pow_split [of np 16] by simp

lemma shl_step:
  fixes p j v :: int
  assumes "1 \<le> np" "np \<le> 16" "0 \<le> v" "v < DIG_BASE ^ n"
  shows "((j * DIG_BASE ^ n + v) * 2 ^ np) mod DIG_BASE ^ (n + 1)
           + DIG_BASE ^ (n + 1) * (((p * DIG_BASE + j) div 2 ^ (16 - np)) mod DIG_BASE)
         = ((p * DIG_BASE ^ (n + 1) + j * DIG_BASE ^ n + v) * 2 ^ np) mod DIG_BASE ^ (n + 2)"
proof -
  define M :: int where "M = DIG_BASE ^ (n + 1)"
  define X where "X = (j * DIG_BASE ^ n + v) * 2 ^ np"
  define q :: int where "q = 2 ^ (16 - np)"
  define t :: int where "t = 2 ^ np"
  have B: "DIG_BASE = t * q" unfolding q_def t_def using base_split [OF assms(2)] .
  have q: "0 < q" and t: "0 < t" by (simp_all add: q_def t_def)
  have M0: "0 < M" by (simp add: M_def)
  have M1: "M = t * (DIG_BASE ^ n * q)" by (simp add: M_def) (metis B mult.assoc mult.commute)
  have "X div M = (t * (j * DIG_BASE ^ n + v)) div (t * (DIG_BASE ^ n * q))"
    by (simp add: X_def M1 t_def mult.commute)
  also have "\<dots> = (j * DIG_BASE ^ n + v) div (DIG_BASE ^ n * q)"
    using t by (intro div_mult_mult1) simp
  also have "\<dots> = ((j * DIG_BASE ^ n + v) div DIG_BASE ^ n) div q"
    by (rule zdiv_zmult2_eq) (use q in simp)
  also have "(j * DIG_BASE ^ n + v) div DIG_BASE ^ n = j"
    using assms(3,4) by (simp add: add.commute)
  finally have XM: "X div M = j div q" .
  have pj: "(p * DIG_BASE + j) div q = p * t + j div q"
  proof -
    have "p * DIG_BASE + j = j + q * (p * t)" by (simp only: B mult.commute mult.left_commute add.commute)
    moreover have "(j + q * (p * t)) div q = p * t + j div q" using q by simp
    ultimately show ?thesis by metis
  qed
  have a: "(p * M + j * DIG_BASE ^ n + v) * 2 ^ np = X + M * (p * t)"
    by (simp add: X_def t_def algebra_simps)
  have "(X + M * (p * t)) mod (M * DIG_BASE)
      = M * (((X + M * (p * t)) div M) mod DIG_BASE) + (X + M * (p * t)) mod M"
    using M0 by (intro zmod_zmult2_eq) simp
  also have "\<dots> = M * ((j div q + p * t) mod DIG_BASE) + X mod M"
    using M0 by (simp add: XM add.commute)
  finally have "(X + M * (p * t)) mod (M * DIG_BASE) = X mod M + M * (((p * DIG_BASE + j) div q) mod DIG_BASE)"
    unfolding pj by (simp add: add.commute)
  then show ?thesis
    using a by (simp add: X_def [symmetric] M_def [symmetric] q_def [symmetric])
      (simp add: M_def mult.commute)
qed

lemma shl_loop_spec:
  assumes "1 \<le> np" "np \<le> 16" "digs js" "0 \<le> p" "p < DIG_BASE"
  shows "digs (shl_loop np (p * DIG_BASE) js) \<and> length (shl_loop np (p * DIG_BASE) js) = length js + 1
     \<and> dval (rev (shl_loop np (p * DIG_BASE) js))
         = ((p * DIG_BASE ^ length js + dval (rev js)) * 2 ^ np) mod DIG_BASE ^ (length js + 1)"
  using assms(3-)
proof (induction js arbitrary: p)
  case Nil
  have "p * DIG_BASE = 2 ^ (16 - np) * (p * 2 ^ np)"
    using base_split [OF assms(2)] by (simp add: mult.commute mult.left_commute)
  then have "(p * DIG_BASE) div 2 ^ (16 - np) = p * 2 ^ np" by (metis nonzero_mult_div_cancel_left power_not_zero zero_neq_numeral)
  then show ?case by simp
next
  case (Cons j js)
  let ?n = "length js"
  have d: "(p * DIG_BASE) OR j = p * DIG_BASE + j" using Cons.prems by (intro or_base_add) auto
  have "u32 ((p * DIG_BASE + j) * DIG_BASE) = (j * DIG_BASE + 4294967296 * p) mod 4294967296"
    by (simp add: u32_def algebra_simps)
  also have "\<dots> = j * DIG_BASE" using Cons.prems by simp
  finally have u: "u32 ((p * DIG_BASE + j) * DIG_BASE) = j * DIG_BASE" .
  have IH: "digs (shl_loop np (j * DIG_BASE) js)" "length (shl_loop np (j * DIG_BASE) js) = ?n + 1"
    "dval (rev (shl_loop np (j * DIG_BASE) js)) = ((j * DIG_BASE ^ ?n + dval (rev js)) * 2 ^ np) mod DIG_BASE ^ (?n + 1)"
    using Cons.IH [of j] Cons.prems by auto
  have v: "0 \<le> dval (rev js)" "dval (rev js) < DIG_BASE ^ ?n"
    using dval_nonneg [of "rev js"] dval_less [of "rev js"] Cons.prems by auto
  define x where "x = ((p * DIG_BASE + j) div 2 ^ (16 - np)) mod DIG_BASE"
  have e: "shl_loop np (p * DIG_BASE) (j # js) = x # shl_loop np (j * DIG_BASE) js"
    by (simp only: shl_loop.simps Let_def d u x_def)
  have l: "p * DIG_BASE ^ length (j # js) + dval (rev (j # js)) = p * DIG_BASE ^ (?n + 1) + j * DIG_BASE ^ ?n + dval (rev js)"
    by (simp add: dval_append)
  have "dval (rev (x # shl_loop np (j * DIG_BASE) js))
      = ((p * DIG_BASE ^ length (j # js) + dval (rev (j # js))) * 2 ^ np) mod DIG_BASE ^ (length (j # js) + 1)"
    unfolding l using shl_step [OF assms(1,2) v, of j p] IH(2,3) by (simp add: dval_append x_def)
  moreover have "0 \<le> x \<and> x < DIG_BASE" by (simp add: x_def)
  ultimately show ?case unfolding e using IH(1,2) by simp
qed

lemma shl_parts:
  fixes n :: nat
  assumes "0 < n"
  shows "n = 16 * ((n + 15) div 16 - 1) + (if n mod 16 = 0 then 16 else n mod 16)"
proof -
  define q r where "q = n div 16" and "r = n mod 16"
  have n: "n = 16 * q + r" "r < 16" by (simp_all add: q_def r_def)
  have "(n + 15) div 16 = q + (r + 15) div 16" unfolding n(1) add.assoc by simp
  moreover have "(r + 15) div 16 = (if r = 0 then 0 else 1)" using n(2) by (auto intro: div_nat_eqI)
  ultimately show ?thesis using n assms by (auto simp: r_def [symmetric])
qed

lemma shl_whole_id: "n < 2 ^ 32 - 15 \<Longrightarrow> shl_whole n = (n + 15) div 16"
  by (simp add: shl_whole_def u32_id nat_add_distrib)

lemma shl_whole_wraps: "2 ^ 32 - 15 \<le> n \<Longrightarrow> n < 2 ^ 32 \<Longrightarrow> shl_whole n = 0"
proof -
  assume n: "2 ^ 32 - 15 \<le> n" "n < 2 ^ 32"
  then have "(int n + 15) mod 4294967296 = int n + 15 - 4294967296"
    using minus_mod_self2 [of "int n + 15" 4294967296] mod_pos_pos_trivial [of "int n + 15 - 4294967296" 4294967296] by simp
  then show "shl_whole n = 0" using n by (simp add: shl_whole_def u32_def add.commute)
qed

lemma mpn_shl_spec:
  assumes "digs js" "0 < n" "n < 2 ^ 32 - 15" "mpn_shl js n = Some (w, l)"
  shows "digs w" "length w = length js + (n + 15) div 16" "l \<le> length w"
    "dval (take l w) = dval js * 2 ^ n" "normd (take l w)"
proof -
  define nw where "nw = (n + 15) div 16"
  define np where "np = (if n mod 16 = 0 then 16 else n mod 16)"
  have np: "1 \<le> np" "np \<le> 16" by (auto simp: np_def)
  have nw: "1 \<le> nw" using assms(2) by (simp add: nw_def)
  have n: "n = 16 * (nw - 1) + np" unfolding nw_def np_def by (rule shl_parts [OF assms(2)])
  define o1 where "o1 = shl_loop np 0 (rev js)"
  have w: "w = replicate (nw - 1) 0 @ rev o1" "l = mpn_remove_trailing_zeros w"
    using assms(3,4) by (auto simp: mpn_shl_def Let_def shl_whole_id nw_def np_def o1_def split: if_splits)
  have o: "digs o1" "length o1 = length js + 1" "dval (rev o1) = (dval js * 2 ^ np) mod DIG_BASE ^ (length js + 1)"
    using shl_loop_spec [OF np, of "rev js" 0] assms(1) by (auto simp: o1_def)
  have v: "0 \<le> dval js" "dval js < DIG_BASE ^ length js" using dval_nonneg dval_less assms(1) by auto
  have "dval js * 2 ^ np < DIG_BASE ^ length js * 2 ^ np" using v by simp
  also have "\<dots> \<le> DIG_BASE ^ length js * 2 ^ 16" using np(2) by (intro mult_left_mono power_increasing) auto
  finally have "dval js * 2 ^ np < DIG_BASE ^ (length js + 1)" by (simp add: mult.commute)
  then have d: "dval (rev o1) = dval js * 2 ^ np" using o(3) v by simp
  have "DIG_BASE ^ (nw - 1) = (2::int) ^ (16 * (nw - 1))" by (simp add: power_mult)
  then have "dval w = dval js * 2 ^ n" by (subst n) (simp add: w(1) dval_append d power_add)
  then show "dval (take l w) = dval js * 2 ^ n" "normd (take l w)" "l \<le> length w"
    using strip_facts [of w] by (simp_all add: w(2))
  show "digs w" using o(1) by (simp add: w(1))
  show "length w = length js + (n + 15) div 16" using nw o(2) by (simp add: w(1) nw_def)
qed

lemma shr_step:
  fixes j j1 v :: int
  assumes "np < 16" "0 \<le> j" "j < DIG_BASE"
  shows "((j1 * DIG_BASE + j) div 2 ^ np) mod DIG_BASE + DIG_BASE * ((j1 + DIG_BASE * v) div 2 ^ np)
         = (j + DIG_BASE * (j1 + DIG_BASE * v)) div 2 ^ np"
proof -
  define t :: int where "t = 2 ^ np"
  define q :: int where "q = 2 ^ (16 - np)"
  have B: "DIG_BASE = t * q" unfolding q_def t_def using base_split [of np] assms(1) by simp
  have t: "0 < t" by (simp add: t_def)
  define Q where "Q = (j + DIG_BASE * (j1 + DIG_BASE * v)) div t"
  have "Q div DIG_BASE = (j + DIG_BASE * (j1 + DIG_BASE * v)) div (DIG_BASE * t)"
    unfolding Q_def mult.commute [of DIG_BASE t] using t by (subst zdiv_zmult2_eq) simp_all
  also have "\<dots> = ((j + DIG_BASE * (j1 + DIG_BASE * v)) div DIG_BASE) div t"
    by (rule zdiv_zmult2_eq) (use t in simp)
  also have "(j + DIG_BASE * (j1 + DIG_BASE * v)) div DIG_BASE = j1 + DIG_BASE * v"
    using assms(2,3) by simp
  finally have d: "Q div DIG_BASE = (j1 + DIG_BASE * v) div t" .
  have "j + DIG_BASE * (j1 + DIG_BASE * v) = (j1 * DIG_BASE + j) + DIG_BASE * DIG_BASE * v"
    by (simp add: algebra_simps)
  also have "\<dots> = (j1 * DIG_BASE + j) + t * (DIG_BASE * (q * v))"
    using B by (metis mult.assoc mult.left_commute)
  finally have f: "Q = ((j1 * DIG_BASE + j) + t * (DIG_BASE * (q * v))) div t" by (simp only: Q_def)
  have e: "Q = (j1 * DIG_BASE + j) div t + DIG_BASE * (q * v)"
    unfolding f using t by simp
  have m: "Q mod DIG_BASE = ((j1 * DIG_BASE + j) div t) mod DIG_BASE"
    unfolding e by simp
  have "Q mod DIG_BASE + DIG_BASE * (Q div DIG_BASE) = Q" by simp
  then show ?thesis unfolding m d by (simp only: t_def Q_def)
qed

lemma div_power_le: "0 \<le> (x::int) \<Longrightarrow> x div 2 ^ k \<le> x"
  using zdiv_mono2 [of x 1 "2 ^ k"] by simp

lemma shr_loop_spec:
  assumes "np < 16" "digs js"
  shows "digs (shr_loop np js) \<and> length (shr_loop np js) = length js \<and> dval (shr_loop np js) = dval js div 2 ^ np"
  using assms
proof (induction np js rule: shr_loop.induct)
  case (2 np j)
  have "j div 2 ^ np \<le> j" using 2 by (intro div_power_le) auto
  then have "(j div 2 ^ np) mod DIG_BASE = j div 2 ^ np" using 2 by (simp add: pos_imp_zdiv_nonneg_iff)
  then show ?case using 2 by (simp add: pos_imp_zdiv_nonneg_iff)
next
  case (3 np j j1 js)
  have "j OR (j1 * DIG_BASE) = j1 * DIG_BASE + j" using 3 by (intro or_base_add) auto
  then have e: "shr_loop np (j # j1 # js) = (((j1 * DIG_BASE + j) div 2 ^ np) mod DIG_BASE) # shr_loop np (j1 # js)"
    by simp
  show ?case unfolding e using 3 shr_step [of np j j1 "dval js"] by simp
qed simp

lemma mpn_shr_spec:
  assumes "digs js" "normd js" "mpn_shr js n = (w, l)"
  shows "digs w" "length w \<le> length js" "l \<le> length w"
    "dval (take l w) = dval js div 2 ^ n" "normd (take l w)"
proof -
  define nw np where "nw = n div 16" and "np = n mod 16"
  have np: "np < 16" by (simp add: np_def)
  have n: "(2::int) ^ n = DIG_BASE ^ nw * 2 ^ np"
  proof -
    have "n = 16 * nw + np" by (simp add: nw_def np_def)
    then have "(2::int) ^ n = 2 ^ (16 * nw) * 2 ^ np" by (simp only: power_add)
    then show ?thesis by (simp add: power_mult)
  qed
  have "digs w \<and> length w \<le> length js \<and> l \<le> length w \<and> dval (take l w) = dval js div 2 ^ n \<and> normd (take l w)"
  proof (cases "nw \<ge> length js")
    case True
    have "dval js < 2 ^ n"
    proof -
      have "dval js < DIG_BASE ^ length js" using dval_less assms(1) by simp
      also have "\<dots> \<le> DIG_BASE ^ nw" using True by (intro power_increasing) auto
      also have "\<dots> = DIG_BASE ^ nw * 1" by simp
      also have "\<dots> \<le> 2 ^ n" unfolding n by (intro mult_left_mono) auto
      finally show ?thesis .
    qed
    then show ?thesis
      using True assms(3) dval_nonneg [OF assms(1)] by (auto simp: mpn_shr_def nw_def normd_def)
  next
    case False
    define ds where "ds = drop nw js"
    have ds: "digs ds" "ds \<noteq> []" "last ds = last js" "length ds = length js - nw"
      using False assms(1) by (simp_all add: ds_def digs_drop)
    have w: "w = shr_loop np ds" and l: "l = (if last w = 0 then length ds - 1 else length ds)"
      using False assms(3) by (auto simp: mpn_shr_def Let_def nw_def np_def ds_def)
    have s: "digs w" "length w = length ds" "dval w = dval ds div 2 ^ np"
      using shr_loop_spec [OF np ds(1)] by (auto simp: w)
    have wne: "w \<noteq> []" using s(2) ds(2) by auto
    then obtain ws d where wd: "w = ws @ [d]" by (cases w rule: rev_cases) auto
    have "dval js = dval (take nw js) + DIG_BASE ^ nw * dval ds"
      using dval_append [of "take nw js" "drop nw js"] False by (simp add: ds_def)
    moreover have "0 \<le> dval (take nw js)" "dval (take nw js) < DIG_BASE ^ nw"
      using dval_nonneg [of "take nw js"] dval_less [of "take nw js"] assms(1) False by (simp_all add: digs_take)
    ultimately have "dval js div DIG_BASE ^ nw = dval ds" by simp
    then have v: "dval w = dval js div 2 ^ n" unfolding n s(3) by (simp add: zdiv_zmult2_eq)
    have t: "dval (take l w) = dval w"
      using s(2) by (simp add: l wd dval_append)
    have "normd (take l w)"
    proof (cases "last w = 0")
      case False
      then show ?thesis using s(2) by (simp add: l normd_def)
    next
      case True
      have "last ws \<noteq> 0" if ws: "ws \<noteq> []"
      proof -
        define m where "m = length ws - 1"
        with ws have len: "length ws = Suc m" "length ds = Suc (Suc m)" using s(2) by (simp_all add: wd)
        have "normd ds" "length ds - 1 = Suc m" using ds(3) assms(2) len(2) False by (auto simp: normd_def)
        then have "last ds \<noteq> 0" "DIG_BASE ^ Suc m = DIG_BASE ^ (length ds - 1)" using ds(2) by (simp_all add: normd_def)
        then have "DIG_BASE ^ Suc m \<le> dval ds" using dval_ge [OF ds(1,2)] by metis
        then have "DIG_BASE ^ Suc m div 2 ^ np \<le> dval ds div 2 ^ np" by (intro zdiv_mono1) auto
        moreover have "DIG_BASE ^ Suc m div 2 ^ np = DIG_BASE ^ m * 2 ^ (16 - np)"
        proof -
          define M :: int where "M = DIG_BASE ^ m"
          have "DIG_BASE * M = (2 ^ np * 2 ^ (16 - np)) * M" using base_split [of np] np by simp
          then have "DIG_BASE ^ Suc m = 2 ^ np * (DIG_BASE ^ m * 2 ^ (16 - np))"
            unfolding power_Suc M_def [symmetric] by (simp only: mult.assoc mult.commute [of M])
          then show ?thesis by (metis nonzero_mult_div_cancel_left power_not_zero zero_neq_numeral)
        qed
        moreover have "DIG_BASE ^ m * 1 \<le> DIG_BASE ^ m * 2 ^ (16 - np)" by (intro mult_left_mono) auto
        moreover have "dval ws = dval w" using True by (simp add: wd dval_append)
        ultimately have "DIG_BASE ^ m \<le> dval ws" using s(3) by linarith
        then have "DIG_BASE ^ (length ws - 1) \<le> dval ws" using len by simp
        then show "last ws \<noteq> 0" using last_nonzero [of ws] s(1) ws by (simp add: wd)
      qed
      then show ?thesis using True s(2) by (auto simp: l wd normd_def)
    qed
    then show ?thesis
      using s t v ds(4) by (auto simp: l)
  qed
  then show "digs w" "length w \<le> length js" "l \<le> length w"
    "dval (take l w) = dval js div 2 ^ n" "normd (take l w)" by simp_all
qed

section \<open>Addition and subtraction\<close>

lemma div_mod_base: "x = x mod DIG_BASE + DIG_BASE * (x div DIG_BASE)"
  by simp

lemma add_loop_spec:
  assumes "digs js" "digs ks" "length ks \<le> length js" "0 \<le> c" "c \<le> 1"
  shows "digs (add_loop c js ks) \<and> dval (add_loop c js ks) = c + dval js + dval ks
    \<and> (length (add_loop c js ks) = length js \<or> length (add_loop c js ks) = Suc (length js) \<and> last (add_loop c js ks) \<noteq> 0)"
  using assms
proof (induction c js ks rule: add_loop.induct)
  case (1 c j js k ks)
  define x where "x = c + (j + k)"
  have u: "u32 x = x" using "1.prems" by (intro u32_id) (auto simp: x_def)
  have "0 \<le> x div DIG_BASE" "x div DIG_BASE \<le> 1" using "1.prems" by (auto simp: x_def)
  then have IH: "digs (add_loop (x div DIG_BASE) js ks)
    \<and> dval (add_loop (x div DIG_BASE) js ks) = x div DIG_BASE + dval js + dval ks
    \<and> (length (add_loop (x div DIG_BASE) js ks) = length js
       \<or> length (add_loop (x div DIG_BASE) js ks) = Suc (length js) \<and> last (add_loop (x div DIG_BASE) js ks) \<noteq> 0)"
    using "1.IH" [of x] "1.prems" u by (simp add: x_def)
  have e: "add_loop c (j # js) (k # ks) = x mod DIG_BASE # add_loop (x div DIG_BASE) js ks"
    using u by (simp add: x_def Let_def)
  show ?case unfolding e using IH div_mod_base [of x] by (auto simp: x_def)
next
  case (2 c j js)
  define x where "x = c + j"
  have u: "u32 x = x" using "2.prems" by (intro u32_id) (auto simp: x_def)
  have "0 \<le> x div DIG_BASE" "x div DIG_BASE \<le> 1" using "2.prems" by (auto simp: x_def)
  then have IH: "digs (add_loop (x div DIG_BASE) js [])
    \<and> dval (add_loop (x div DIG_BASE) js []) = x div DIG_BASE + dval js
    \<and> (length (add_loop (x div DIG_BASE) js []) = length js
       \<or> length (add_loop (x div DIG_BASE) js []) = Suc (length js) \<and> last (add_loop (x div DIG_BASE) js []) \<noteq> 0)"
    using "2.IH" [of x] "2.prems" u by (simp add: x_def)
  have e: "add_loop c (j # js) [] = x mod DIG_BASE # add_loop (x div DIG_BASE) js []"
    using u by (simp add: x_def Let_def)
  show ?case unfolding e using IH div_mod_base [of x] by (auto simp: x_def)
qed auto

lemma mpn_add_spec:
  assumes "digs js" "normd js" "digs ks" "length ks \<le> length js"
  obtains w where "mpn_add js ks = Some (w, length w)" "digs w" "normd w" "length w \<le> length js + 1"
    "dval w = dval js + dval ks"
proof
  define w where "w = add_loop 0 js ks"
  have s: "digs w" "dval w = dval js + dval ks"
    "length w = length js \<or> length w = Suc (length js) \<and> last w \<noteq> 0"
    using add_loop_spec [OF assms(1,3,4), of 0] by (auto simp: w_def)
  show "mpn_add js ks = Some (w, length w)" using assms(4) by (simp add: mpn_add_def w_def Let_def)
  show "digs w" "dval w = dval js + dval ks" "length w \<le> length js + 1" using s by auto
  show "normd w"
    using normd_mono [OF assms(1,2) s(1)] s dval_nonneg [OF assms(3)] by (auto simp: normd_def)
qed

lemma mod_base_step:
  fixes x r M :: int
  assumes "0 < M"
  shows "x mod DIG_BASE + DIG_BASE * ((x div DIG_BASE + r) mod M) = (x + DIG_BASE * r) mod (DIG_BASE * M)"
proof -
  have "(x + DIG_BASE * r) mod (DIG_BASE * M)
      = DIG_BASE * (((x + DIG_BASE * r) div DIG_BASE) mod M) + (x + DIG_BASE * r) mod DIG_BASE"
    by (intro zmod_zmult2_eq) (use assms in simp)
  then show ?thesis by (simp add: add.commute)
qed

lemma s32_small: "\<bar>x\<bar> < 2147483648 \<Longrightarrow> s32 x = x"
  by (intro s32_id) auto

lemma sub_loop_spec:
  assumes "digs js" "digs ks" "length ks \<le> length js" "- 1 \<le> b" "b \<le> 0"
  shows "digs (sub_loop b js ks) \<and> length (sub_loop b js ks) = length js
    \<and> dval (sub_loop b js ks) = (b + dval js - dval ks) mod DIG_BASE ^ length js"
  using assms
proof (induction b js ks rule: sub_loop.induct)
  case (1 b j js k ks)
  define x where "x = b + (j - k)"
  have s: "s32 x = x" using "1.prems" by (intro s32_small) (auto simp: x_def)
  have "- 1 \<le> x div DIG_BASE" "x div DIG_BASE \<le> 0" using "1.prems" by (auto simp: x_def)
  then have IH: "digs (sub_loop (x div DIG_BASE) js ks) \<and> length (sub_loop (x div DIG_BASE) js ks) = length js
    \<and> dval (sub_loop (x div DIG_BASE) js ks) = (x div DIG_BASE + (dval js - dval ks)) mod DIG_BASE ^ length js"
    using "1.IH" [of x] "1.prems" s by (simp add: x_def add_diff_eq)
  have e: "sub_loop b (j # js) (k # ks) = x mod DIG_BASE # sub_loop (x div DIG_BASE) js ks"
    using s by (simp add: x_def Let_def)
  have v: "b + dval (j # js) - dval (k # ks) = x + DIG_BASE * (dval js - dval ks)" by (simp add: x_def)
  show ?case unfolding e v using IH mod_base_step [of "DIG_BASE ^ length js" x "dval js - dval ks"] by simp
next
  case (2 b j js)
  define x where "x = b + j"
  have s: "s32 x = x" using "2.prems" by (intro s32_small) (auto simp: x_def)
  have "- 1 \<le> x div DIG_BASE" "x div DIG_BASE \<le> 0" using "2.prems" by (auto simp: x_def)
  then have IH: "digs (sub_loop (x div DIG_BASE) js []) \<and> length (sub_loop (x div DIG_BASE) js []) = length js
    \<and> dval (sub_loop (x div DIG_BASE) js []) = (x div DIG_BASE + dval js) mod DIG_BASE ^ length js"
    using "2.IH" [of x] "2.prems" s by (simp add: x_def)
  have e: "sub_loop b (j # js) [] = x mod DIG_BASE # sub_loop (x div DIG_BASE) js []"
    using s by (simp add: x_def Let_def)
  have v: "b + dval (j # js) - dval [] = x + DIG_BASE * dval js" by (simp add: x_def)
  show ?case unfolding e v using IH mod_base_step [of "DIG_BASE ^ length js" x "dval js"] by simp
qed simp

lemma mpn_sub_spec:
  assumes "digs js" "digs ks" "length ks \<le> length js" "dval ks \<le> dval js"
  obtains w l where "mpn_sub js ks = Some (w, l)" "digs w" "length w = length js" "l \<le> length w"
    "normd (take l w)" "dval (take l w) = dval js - dval ks"
proof
  define w where "w = sub_loop 0 js ks"
  have s: "digs w" "length w = length js" "dval w = (dval js - dval ks) mod DIG_BASE ^ length js"
    using sub_loop_spec [OF assms(1-3), of 0] by (auto simp: w_def)
  have v: "dval w = dval js - dval ks"
    unfolding s(3) using dval_less [OF assms(1)] dval_nonneg [OF assms(2)] assms(4) by (intro mod_pos_pos_trivial) auto
  show "mpn_sub js ks = Some (w, mpn_remove_trailing_zeros w)"
    using assms(3) by (simp add: mpn_sub_def w_def Let_def)
  show "digs w" "length w = length js" by (fact s)+
  show "mpn_remove_trailing_zeros w \<le> length w" "normd (take (mpn_remove_trailing_zeros w) w)"
    "dval (take (mpn_remove_trailing_zeros w) w) = dval js - dval ks"
    using strip_facts [of w] v by simp_all
qed

section \<open>Multiplication\<close>

lemma mul_dig_loop_spec:
  assumes "digs is" "0 \<le> dmul" "dmul < DIG_BASE" "0 \<le> c" "c < DIG_BASE"
  shows "digs (mul_dig_loop dmul c is) \<and> dval (mul_dig_loop dmul c is) = dval is * dmul + c
    \<and> (length (mul_dig_loop dmul c is) = length is
       \<or> length (mul_dig_loop dmul c is) = Suc (length is) \<and> last (mul_dig_loop dmul c is) \<noteq> 0)"
  using assms
proof (induction "dmul" c "is" rule: mul_dig_loop.induct)
  case (2 dmul c i "is")
  define x where "x = c + i * dmul"
  have "i * dmul \<le> DIG_MASK * DIG_MASK" using "2.prems" by (intro mult_mono) auto
  then have x0: "0 \<le> x" "x < 4294967296" using "2.prems" by (auto simp: x_def)
  then have x: "0 \<le> x div DIG_BASE" "x div DIG_BASE < DIG_BASE" by auto
  have u: "u32 x = x" using x0 by (intro u32_id)
  have IH: "digs (mul_dig_loop dmul (x div DIG_BASE) is)
    \<and> dval (mul_dig_loop dmul (x div DIG_BASE) is) = dval is * dmul + x div DIG_BASE
    \<and> (length (mul_dig_loop dmul (x div DIG_BASE) is) = length is
       \<or> length (mul_dig_loop dmul (x div DIG_BASE) is) = Suc (length is) \<and> last (mul_dig_loop dmul (x div DIG_BASE) is) \<noteq> 0)"
    using "2.IH" [of x] "2.prems" x u by (simp add: x_def)
  have e: "mul_dig_loop dmul c (i # is) = x mod DIG_BASE # mul_dig_loop dmul (x div DIG_BASE) is"
    using u by (simp add: x_def Let_def)
  have "x mod DIG_BASE + DIG_BASE * (dval is * dmul + x div DIG_BASE) = x + DIG_BASE * (dval is * dmul)"
    using div_mod_base [of x] by (simp add: distrib_left)
  also have "\<dots> = dval (i # is) * dmul + c" by (simp add: x_def algebra_simps)
  finally show ?case unfolding e using IH by auto
qed auto

lemma mpn_mul_dig_add_dig_spec:
  assumes "digs is" "normd is" "0 < dmul" "dmul < DIG_BASE" "0 \<le> c" "c < DIG_BASE"
  obtains w where "mpn_mul_dig_add_dig is dmul c = (w, length w)" "digs w" "normd w" "length w \<le> length is + 1"
    "dval w = dval is * dmul + c"
proof
  define w where "w = mul_dig_loop dmul c is"
  have s: "digs w" "dval w = dval is * dmul + c" "length w = length is \<or> length w = Suc (length is) \<and> last w \<noteq> 0"
    using mul_dig_loop_spec [OF assms(1), of dmul c] assms by (auto simp: w_def)
  show "mpn_mul_dig_add_dig is dmul c = (w, length w)" by (simp add: mpn_mul_dig_add_dig_def w_def Let_def)
  show "digs w" "length w \<le> length is + 1" "dval w = dval is * dmul + c" using s by auto
  have "dval is * 1 \<le> dval is * dmul" using assms(3) dval_nonneg [OF assms(1)] by (intro mult_left_mono) auto
  then show "normd w"
    using normd_mono [OF assms(1,2) s(1)] s assms(5) by (auto simp: normd_def)
qed

text \<open>
  A row adds \<open>j * k\<close> into the digits from the current position; the digits above the ones it
  covers are still zero, so at most one more digit is written.
\<close>

lemma mul_row_spec:
  assumes "digs js" "digs is" "0 \<le> k" "k < DIG_BASE" "0 \<le> c" "c < DIG_BASE" "length js \<le> length is"
    "c + dval (take (length js) is) + dval js * k < DIG_BASE ^ length is"
    "set (drop (length js) is) \<subseteq> {0}"
  obtains r where "mul_row k c js is = Some r" "digs r" "length r = length is"
    "dval r = c + dval is + dval js * k"
    "0 \<le> row_carry k c js is" "row_carry k c js is < DIG_BASE"
    "c + dval (take (length js) is) + dval js * k < DIG_BASE ^ length js \<longleftrightarrow> row_carry k c js is = 0"
    "set (drop (length js + (if row_carry k c js is \<noteq> 0 then 1 else 0)) r) \<subseteq> {0}"
  using assms
proof (induction js "is" arbitrary: c thesis rule: list_induct2')
  case 1
  then show ?case by auto
next
  case (2 x xs)
  then show ?case by auto
next
  case (3 y ys)
  then have y: "y = 0" and ys: "set ys \<subseteq> {0}" by auto
  show ?case
    using 3 y ys by (intro "3.prems"(1) [of "if c \<noteq> 0 then c # ys else y # ys"]) (auto simp: less_le_trans)
next
  case (4 j js i "is")
  define x where "x = c + (i + j * k)"
  have "j * k \<le> DIG_MASK * DIG_MASK" using "4.prems" by (intro mult_mono) auto
  then have x0: "0 \<le> x" "x < 4294967296" using "4.prems" by (auto simp: x_def)
  then have x: "0 \<le> x div DIG_BASE" "x div DIG_BASE < DIG_BASE" by auto
  have u: "u32 x = x" using x0 by (intro u32_id)
  define V where "V = dval (take (length js) is) + dval js * k"
  have t: "c + dval (take (length (j # js)) (i # is)) + dval (j # js) * k = x mod DIG_BASE + DIG_BASE * (x div DIG_BASE + V)"
  proof -
    have "c + dval (take (length (j # js)) (i # is)) + dval (j # js) * k = x + DIG_BASE * V"
      by (simp add: x_def V_def algebra_simps)
    then show ?thesis using div_mod_base [of x] by (simp add: distrib_left)
  qed
  have bound: "(x mod DIG_BASE + DIG_BASE * y < DIG_BASE * M) = (y < M)" for y M :: int
  proof
    assume "y < M"
    then have "DIG_BASE * (y + 1) \<le> DIG_BASE * M" by (intro mult_left_mono) auto
    then show "x mod DIG_BASE + DIG_BASE * y < DIG_BASE * M" using pos_mod_bound [of DIG_BASE x] by (simp add: distrib_left)
  next
    assume "x mod DIG_BASE + DIG_BASE * y < DIG_BASE * M"
    then have "DIG_BASE * y < DIG_BASE * M" using pos_mod_sign [of DIG_BASE x] by linarith
    then show "y < M" by simp
  qed
  have lt: "x div DIG_BASE + V < DIG_BASE ^ length is"
    using "4.prems"(9) unfolding t by (simp only: bound list.size power_Suc add_Suc_right add_0_right)
  obtain r where r: "mul_row k (x div DIG_BASE) js is = Some r" "digs r" "length r = length is"
    "dval r = x div DIG_BASE + dval is + dval js * k"
    "0 \<le> row_carry k (x div DIG_BASE) js is" "row_carry k (x div DIG_BASE) js is < DIG_BASE"
    "x div DIG_BASE + V < DIG_BASE ^ length js \<longleftrightarrow> row_carry k (x div DIG_BASE) js is = 0"
    "set (drop (length js + (if row_carry k (x div DIG_BASE) js is \<noteq> 0 then 1 else 0)) r) \<subseteq> {0}"
    using "4.IH" [of "x div DIG_BASE"] "4.prems" x lt by (auto simp: V_def add.assoc)
  have e: "mul_row k c (j # js) (i # is) = Some (x mod DIG_BASE # r)"
    "row_carry k c (j # js) (i # is) = row_carry k (x div DIG_BASE) js is"
    using r(1) u by (simp_all add: x_def Let_def)
  show ?case
  proof (rule "4.prems"(1) [OF e(1)])
    show "digs (x mod DIG_BASE # r)" using r(2) by simp
    show "length (x mod DIG_BASE # r) = length (i # is)" using r(3) by simp
    have "x mod DIG_BASE + DIG_BASE * dval r = x + DIG_BASE * (dval is + dval js * k)"
      using div_mod_base [of x] by (simp add: r(4) distrib_left)
    then show "dval (x mod DIG_BASE # r) = c + dval (i # is) + dval (j # js) * k"
      by (simp add: x_def algebra_simps)
    show "0 \<le> row_carry k c (j # js) (i # is)" "row_carry k c (j # js) (i # is) < DIG_BASE" using r(5,6) e(2) by simp_all
    show "(c + dval (take (length (j # js)) (i # is)) + dval (j # js) * k < DIG_BASE ^ length (j # js))
        = (row_carry k c (j # js) (i # is) = 0)"
      unfolding t e(2) r(7) [symmetric] by (simp only: bound list.size power_Suc add_Suc_right add_0_right)
    show "set (drop (length (j # js) + (if row_carry k c (j # js) (i # is) \<noteq> 0 then 1 else 0)) (x mod DIG_BASE # r)) \<subseteq> {0}"
      unfolding e(2) using r(8) by simp
  qed
qed

lemma mul_row_bound:
  fixes a b k :: int
  assumes "0 \<le> a" "a < M" "0 \<le> b" "b < M" "0 \<le> k" "k < DIG_BASE"
  shows "a + b * k < DIG_BASE * M"
proof -
  have "b * k \<le> (M - 1) * DIG_MASK" using assms by (intro mult_mono) auto
  then show ?thesis using assms by (simp add: algebra_simps)
qed

lemma dval_zero_tail: "set (drop n ds) \<subseteq> {0} \<Longrightarrow> dval (take n ds) = dval ds"
proof -
  assume "set (drop n ds) \<subseteq> {0}"
  then have "drop n ds = replicate (length (drop n ds)) 0" by (intro replicate_eqI) auto
  then have "dval (drop n ds) = 0" by (metis dval_zeros)
  then show ?thesis using dval_append [of "take n ds" "drop n ds"] by simp
qed

lemma mul_rows_spec:
  assumes "digs js" "digs ks" "digs is" "length js + length ks \<le> length is" "set (drop (length js) is) \<subseteq> {0}"
    "ks \<noteq> []"
  obtains ds m where "mul_rows pos il is js ks = Some (ds, pos + m)" "digs ds" "length ds = length is"
    "dval ds = dval is + dval js * dval ks" "m \<le> length js + length ks" "set (drop m ds) \<subseteq> {0}"
    "normd js \<Longrightarrow> js \<noteq> [] \<Longrightarrow> last ks \<noteq> 0 \<Longrightarrow> 0 < m \<and> DIG_BASE ^ (m - 1) \<le> dval ds"
  using assms
proof (induction ks arbitrary: pos il "is" thesis)
  case (Cons k ks)
  let ?n = "length js"
  define M :: int where "M = DIG_BASE ^ ?n"
  have k: "0 \<le> k" "k < DIG_BASE" using Cons.prems by simp_all
  have it: "0 \<le> dval (take ?n is)" "dval (take ?n is) < M" "0 \<le> dval js" "dval js < M"
    using dval_nonneg [of "take ?n is"] dval_less [of "take ?n is"] dval_nonneg [of js] dval_less [of js] Cons.prems
    by (simp_all add: digs_take M_def)
  have tk: "dval (take ?n is) = dval is" using Cons.prems by (intro dval_zero_tail)
  have "0 + dval (take ?n is) + dval js * k < DIG_BASE ^ Suc ?n"
    using mul_row_bound [OF it k] by (simp add: M_def)
  also have "(DIG_BASE :: int) ^ Suc ?n \<le> DIG_BASE ^ length is" using Cons.prems by (intro power_increasing) auto
  finally have lt: "0 + dval (take ?n is) + dval js * k < DIG_BASE ^ length is" .
  define cy where "cy = row_carry k 0 js is"
  define e where "e = (if cy \<noteq> 0 then 1 else 0 :: nat)"
  obtain r where r1: "mul_row k 0 js is = Some r" "digs r" "length r = length is"
    and r2: "dval r = 0 + dval is + dval js * k" "0 \<le> row_carry k 0 js is" "row_carry k 0 js is < DIG_BASE"
    "0 + dval (take ?n is) + dval js * k < DIG_BASE ^ ?n \<longleftrightarrow> row_carry k 0 js is = 0"
    "set (drop (?n + (if row_carry k 0 js is \<noteq> 0 then 1 else 0)) r) \<subseteq> {0}"
    by (rule mul_row_spec [OF Cons.prems(2,4) k _ _ _ lt Cons.prems(6)]) (use Cons.prems(5) in auto)
  have r: "mul_row k 0 js is = Some r" "digs r" "length r = length is" "dval r = dval is + dval js * k"
    "0 \<le> cy" "dval is + dval js * k < DIG_BASE ^ ?n \<longleftrightarrow> cy = 0" "set (drop (?n + e) r) \<subseteq> {0}"
    using r1 r2 unfolding cy_def e_def tk by simp_all
  show ?case
  proof (cases ks)
    case Nil
    have "0 < ?n + e \<and> DIG_BASE ^ (?n + e - 1) \<le> dval r" if "normd js" "js \<noteq> []" "last (k # ks) \<noteq> 0"
    proof (cases "cy = 0")
      case True
      have "dval js * 1 \<le> dval js * k" using that Nil k it by (intro mult_left_mono) auto
      moreover have "DIG_BASE ^ (?n - 1) \<le> dval js" using that Cons.prems by (intro dval_ge) (auto simp: normd_def)
      ultimately show ?thesis using that it tk True r(4) by (simp add: e_def)
    next
      case False
      then show ?thesis using r(4,6) that by (simp add: e_def)
    qed
    moreover have "mul_rows pos il is js (k # ks) = Some (r, pos + (?n + e))"
      using r(1) Nil by (auto simp: e_def cy_def split: list.split)
    ultimately show ?thesis using r Cons.prems(5) Nil by (intro Cons.prems(1)) (auto simp: e_def)
  next
    case (Cons k' ks')
    obtain r0 rs where rr: "r = r0 # rs" using r(3) Cons.prems(5) by (cases r) auto
    have z: "set (drop ?n rs) \<subseteq> {0}"
      using r(7) set_drop_subset_set_drop [of "?n + e" "Suc ?n" r] by (force simp: rr e_def split: if_splits)
    obtain ds m where ds: "mul_rows (pos + 1) (pos + ?n + e) rs js ks = Some (ds, pos + 1 + m)" "digs ds"
      "length ds = length rs" "dval ds = dval rs + dval js * dval ks" "m \<le> ?n + length ks" "set (drop m ds) \<subseteq> {0}"
      "normd js \<Longrightarrow> js \<noteq> [] \<Longrightarrow> last ks \<noteq> 0 \<Longrightarrow> 0 < m \<and> DIG_BASE ^ (m - 1) \<le> dval ds"
      by (rule Cons.IH [of "pos + 1" "pos + ?n + e" rs])
        (use z Cons.prems Cons r(2,3) in \<open>auto simp: rr\<close>)
    show ?thesis
    proof (rule Cons.prems(1) [of "r0 # ds" "Suc m"])
      show "mul_rows pos il is js (k # ks) = Some (r0 # ds, pos + Suc m)"
        using r(1) ds(1) Cons by (simp add: rr e_def cy_def)
      show "digs (r0 # ds)" "length (r0 # ds) = length is" "Suc m \<le> ?n + length (k # ks)"
        "set (drop (Suc m) (r0 # ds)) \<subseteq> {0}" using r(2,3) ds by (simp_all add: rr)
      show "dval (r0 # ds) = dval is + dval js * dval (k # ks)"
        using r(4) ds(4) by (simp add: rr algebra_simps)
      show "0 < Suc m \<and> DIG_BASE ^ (Suc m - 1) \<le> dval (r0 # ds)" if "normd js" "js \<noteq> []" "last (k # ks) \<noteq> 0"
      proof -
        have m: "0 < m" "DIG_BASE ^ (m - 1) \<le> dval ds" using ds(7) that Cons by auto
        then obtain m' where "m = Suc m'" by (cases m) auto
        then show ?thesis using m r(2) by (simp add: rr)
      qed
    qed
  qed
qed simp

lemma mpn_mul_spec:
  assumes "digs js" "normd js" "js \<noteq> []" "digs ks" "normd ks" "ks \<noteq> []" "length js + length ks \<le> a"
  obtains w l where "mpn_mul (replicate a 0) js ks = Some (w, l)" "digs w" "length w = a" "l \<le> a" "normd (take l w)"
    "dval (take l w) = dval js * dval ks"
proof -
  obtain w m where w: "mul_rows 0 0 (replicate a 0) js ks = Some (w, 0 + m)" "digs w" "length w = length (replicate a (0::int))"
    "dval w = dval (replicate a 0) + dval js * dval ks" "m \<le> length js + length ks" "set (drop m w) \<subseteq> {0}"
    "normd js \<Longrightarrow> js \<noteq> [] \<Longrightarrow> last ks \<noteq> 0 \<Longrightarrow> 0 < m \<and> DIG_BASE ^ (m - 1) \<le> dval w"
    by (rule mul_rows_spec [OF assms(1,4), of "replicate a 0" 0 0]) (use assms in auto)
  have t: "dval (take m w) = dval w" by (rule dval_zero_tail [OF w(6)])
  have "0 < m" "DIG_BASE ^ (m - 1) \<le> dval (take m w)" using w(7) assms t by (auto simp: normd_def)
  moreover have "length (take m w) = m" using w(3,5) assms(7) by simp
  ultimately have "last (take m w) \<noteq> 0" using w(2) by (intro last_nonzero) (auto simp: digs_take)
  then have "normd (take m w)" by (simp add: normd_def)
  then show thesis using w t assms(7) by (intro that [of w m]) (auto simp: mpn_mul_def)
qed

end
