(* ===== verification/MpnBits.thy ===== *)
theory MpnBits
  imports Mpn
begin

text \<open>
  The bitwise routines of \<open>py/mpz.c\<close> work on magnitudes and signs: negative operands are turned
  into two's complement digit by digit, with a carry for each operand and one for the result.
  Here all three loops are shown to be one scheme, and each routine to compute the magnitude of
  the operation on the signed integers.  The assertion in \<open>mpn_or_neg\<close> never fails.
\<close>

unbundle bit_operations_syntax

section \<open>Bitwise operations digit by digit\<close>

lemma concat_digit: "0 \<le> a \<Longrightarrow> a < DIG_BASE \<Longrightarrow> a + DIG_BASE * x = concat_bit 16 a x"
  by (simp add: concat_bit_eq take_bit_int_eq_self push_bit_eq_mult)

lemma concat_bit_ops:
  fixes a b x y :: int
  shows "concat_bit n a x AND concat_bit n b y = concat_bit n (a AND b) (x AND y)"
    "concat_bit n a x OR concat_bit n b y = concat_bit n (a OR b) (x OR y)"
    "concat_bit n a x XOR concat_bit n b y = concat_bit n (a XOR b) (x XOR y)"
  by (rule bit_eqI; auto simp: bit_concat_bit_iff bit_simps)+

lemma take_bit_16 [simp]: "0 \<le> a \<Longrightarrow> a < DIG_BASE \<Longrightarrow> take_bit 16 a = (a::int)"
  by (simp add: take_bit_int_eq_self)

lemma digit_range:
  fixes a b :: int
  assumes "0 \<le> a" "a < DIG_BASE" "0 \<le> b" "b < DIG_BASE"
  shows "0 \<le> a AND b" "a AND b < DIG_BASE" "0 \<le> a OR b" "a OR b < DIG_BASE" "0 \<le> a XOR b" "a XOR b < DIG_BASE"
  using assms AND_upper1 [of a b] OR_upper [of a 16 b] XOR_upper [of a 16 b] by (auto intro: AND_lower)

lemma dval_map2_AND:
  "length xs = length ys \<Longrightarrow> digs xs \<Longrightarrow> digs ys \<Longrightarrow> dval (map2 (\<lambda>a b. a AND b) xs ys) = dval xs AND dval ys"
  by (induction xs ys rule: list_induct2) (auto simp: concat_digit digit_range concat_bit_ops)

lemma dval_map2_OR:
  "length xs = length ys \<Longrightarrow> digs xs \<Longrightarrow> digs ys \<Longrightarrow> dval (map2 (\<lambda>a b. a OR b) xs ys) = dval xs OR dval ys"
  by (induction xs ys rule: list_induct2) (auto simp: concat_digit digit_range concat_bit_ops)

lemma dval_map2_XOR:
  "length xs = length ys \<Longrightarrow> digs xs \<Longrightarrow> digs ys \<Longrightarrow> dval (map2 (\<lambda>a b. a XOR b) xs ys) = dval xs XOR dval ys"
  by (induction xs ys rule: list_induct2) (auto simp: concat_digit digit_range concat_bit_ops)

text \<open>Complementing the sixteen bits of a digit.\<close>

lemma xor_mask: "0 \<le> a \<Longrightarrow> a < DIG_BASE \<Longrightarrow> a XOR DIG_MASK = DIG_MASK - a"
proof -
  assume a: "0 \<le> a" "a < DIG_BASE"
  have m: "DIG_MASK = mask 16" by (simp add: mask_eq_exp_minus_1)
  have hb: "n < 16" if "bit a n" for n
  proof -
    have "bit (take_bit 16 a) n" using a that by simp
    then show ?thesis by (simp add: bit_simps)
  qed
  have "a AND (mask 16 XOR a) = 0" by (rule bit_eqI) (auto simp: bit_simps dest: hb)
  then have "a + (a XOR DIG_MASK) = a OR (mask 16 XOR a)"
    using plus_and_or [of a "mask 16 XOR a"] by (simp add: m xor.commute)
  also have "a OR (mask 16 XOR a) = mask 16" by (rule bit_eqI) (auto simp: bit_simps dest: hb)
  finally show ?thesis by (simp add: m)
qed

lemma dval_map_mask: "digs ds \<Longrightarrow> dval (map (\<lambda>d. d XOR DIG_MASK) ds) = DIG_BASE ^ length ds - 1 - dval ds"
  by (induction ds) (auto simp: xor_mask algebra_simps)

lemma dval_map_dec: "dval (map (\<lambda>d. d + DIG_MASK) ds) = dval ds + DIG_BASE ^ length ds - 1"
  by (induction ds) (auto simp: algebra_simps)

lemma dval_map_id: "dval (map (\<lambda>d. d XOR 0) ds) = dval ds"
  by simp

section \<open>The common scheme\<close>

fun inc :: "int \<Rightarrow> digits \<Rightarrow> digits" where
  "inc c [] = []"
| "inc c (d # ds) = (c + d) mod DIG_BASE # inc ((c + d) div DIG_BASE) ds"

fun inc_carry :: "int \<Rightarrow> digits \<Rightarrow> int" where
  "inc_carry c [] = c"
| "inc_carry c (d # ds) = inc_carry ((c + d) div DIG_BASE) ds"

fun padded :: "nat \<Rightarrow> digits \<Rightarrow> digits" where
  "padded 0 ks = []"
| "padded (Suc n) ks = (case ks of k # _ \<Rightarrow> k | [] \<Rightarrow> 0) # padded n (tl ks)"

lemma inc_spec: "length (inc c ds) = length ds" "digs (inc c ds)"
    "dval (inc c ds) = (c + dval ds) mod DIG_BASE ^ length ds"
proof (induction ds arbitrary: c)
  case (Cons d ds)
  { case 3
    show ?case using Cons.IH(3) [of "(c + d) div DIG_BASE"] mod_base_step [of "DIG_BASE ^ length ds" "c + d" "dval ds"]
      by (simp add: add.assoc) }
qed auto

lemma inc_carry_spec: "inc_carry c ds = (c + dval ds) div DIG_BASE ^ length ds"
proof (induction ds arbitrary: c)
  case (Cons d ds)
  have "(c + (d + DIG_BASE * dval ds)) div (DIG_BASE * DIG_BASE ^ length ds)
     = ((c + d + DIG_BASE * dval ds) div DIG_BASE) div DIG_BASE ^ length ds"
    by (simp only: zdiv_zmult2_eq zero_le_power zero_le_numeral add.assoc)
  then show ?case using Cons.IH by (simp add: add.commute)
qed simp

lemma padded_length [simp]: "length (padded n ks) = n"
  by (induction n ks rule: padded.induct) simp_all

lemma padded_digs: "digs ks \<Longrightarrow> digs (padded n ks)"
  by (induction n ks rule: padded.induct) (auto split: list.split)

lemma padded_dval: "length ks \<le> n \<Longrightarrow> dval (padded n ks) = dval ks"
proof (induction n ks rule: padded.induct)
  case (2 n ks)
  then show ?case by (cases ks) auto
qed simp

definition bits :: "(int \<Rightarrow> int \<Rightarrow> int) \<Rightarrow> (int \<Rightarrow> int) \<Rightarrow> (int \<Rightarrow> int) \<Rightarrow> int \<Rightarrow> int \<Rightarrow> digits \<Rightarrow> digits \<Rightarrow> digits" where
  "bits f fj fk cj ck js ks = map2 f (inc cj (map fj js)) (inc ck (map fk (padded (length js) ks)))"

lemma bits_Cons:
  "bits f fj fk cj ck (j # js) ks =
     (let xj = cj + fj j; xk = ck + fk (case ks of k # _ \<Rightarrow> k | [] \<Rightarrow> 0) in
      f (xj mod DIG_BASE) (xk mod DIG_BASE) # bits f fj fk (xj div DIG_BASE) (xk div DIG_BASE) js (tl ks))"
  by (simp add: bits_def Let_def)

lemma bits_Nil: "bits f fj fk cj ck [] ks = []"
  by (simp add: bits_def)

lemma bits_length [simp]: "length (bits f fj fk cj ck js ks) = length js"
  by (simp add: bits_def inc_spec)

lemma mod_take_bit: "x mod DIG_BASE = take_bit 16 (x::int)"
  by (simp add: take_bit_eq_mod)

lemma and_mask_digit: "x AND DIG_MASK = (x::int) mod DIG_BASE"
  using take_bit_eq_mask [of 16 x] by (simp add: take_bit_eq_mod mask_eq_exp_minus_1)

lemma mask_pick:
  fixes x y m :: int
  assumes "m = 0 \<or> m = DIG_MASK"
  shows "((x AND y) XOR m) AND DIG_MASK = ((x mod DIG_BASE) AND (y mod DIG_BASE)) XOR m"
    "((x OR y) XOR m) AND DIG_MASK = ((x mod DIG_BASE) OR (y mod DIG_BASE)) XOR m"
proof -
  have m: "take_bit 16 m = m" using assms by auto
  show "((x AND y) XOR m) AND DIG_MASK = ((x mod DIG_BASE) AND (y mod DIG_BASE)) XOR m"
    by (simp only: and_mask_digit mod_take_bit take_bit_xor take_bit_and m)
  show "((x OR y) XOR m) AND DIG_MASK = ((x mod DIG_BASE) OR (y mod DIG_BASE)) XOR m"
    by (simp only: and_mask_digit mod_take_bit take_bit_xor take_bit_or m)
qed

lemma mask_pick_xor: "(x XOR y) AND DIG_MASK = ((x::int) mod DIG_BASE) XOR (y mod DIG_BASE)"
  by (simp only: and_mask_digit mod_take_bit take_bit_xor)

section \<open>The loops follow the scheme\<close>

definition carry_out :: "int \<Rightarrow> digits" where
  "carry_out c = (if c \<noteq> 0 then [c mod DIG_BASE] else [])"

definition bit01 :: "int \<Rightarrow> bool" where
  "bit01 c \<longleftrightarrow> c = 0 \<or> c = 1"

lemma carry_step:
  assumes "bit01 c" "0 \<le> x" "x < 2 * DIG_BASE - 1"
  shows "u32 (c + x) = c + x" "bit01 ((c + x) div DIG_BASE)"
proof -
  have c: "0 \<le> c" "c \<le> 1" using assms(1) by (auto simp: bit01_def)
  show "u32 (c + x) = c + x" using c assms(2,3) by (intro u32_id) auto
  have "0 \<le> (c + x) div DIG_BASE" "(c + x) div DIG_BASE \<le> 1" using c assms(2,3) by auto
  then show "bit01 ((c + x) div DIG_BASE)" unfolding bit01_def by linarith
qed

lemma next_digit: "digs ks \<Longrightarrow> 0 \<le> (case ks of k # _ \<Rightarrow> k | [] \<Rightarrow> 0) \<and> (case ks of k # _ \<Rightarrow> k | [] \<Rightarrow> 0) < DIG_BASE"
  by (auto split: list.split)

lemma digs_tl: "digs ks \<Longrightarrow> digs (tl ks)"
  by (cases ks) auto

lemma xor_digit: "m = 0 \<or> m = DIG_MASK \<Longrightarrow> 0 \<le> a \<Longrightarrow> a < DIG_BASE \<Longrightarrow> 0 \<le> a XOR m \<and> a XOR m < DIG_BASE"
  using digit_range(5,6) [of a m] by auto

lemma digit_case: "(case ks of k # _ \<Rightarrow> k XOR m | [] \<Rightarrow> m) = (case ks of k # _ \<Rightarrow> k | [] \<Rightarrow> 0) XOR (m::int)"
  "(case ks of k # _ \<Rightarrow> k + m | [] \<Rightarrow> m) = (case ks of k # _ \<Rightarrow> k | [] \<Rightarrow> 0) + m"
  by (auto split: list.split)

lemma and_neg_loop_eq:
  assumes "digs js" "digs ks" "bit01 ci" "bit01 cj" "bit01 ck"
    and m: "im = 0 \<or> im = DIG_MASK" "jm = 0 \<or> jm = DIG_MASK" "km = 0 \<or> km = DIG_MASK"
  defines "f \<equiv> \<lambda>a b. (a AND b) XOR im"
  shows "and_neg_loop im jm km ci cj ck js ks =
    (let P = bits f (\<lambda>d. d XOR jm) (\<lambda>d. d XOR km) cj ck js ks in inc ci P @ carry_out (inc_carry ci P))"
  using assms(1-5)
proof (induction js arbitrary: ks ci cj ck)
  case (Cons j js)
  define k where "k = (case ks of k # _ \<Rightarrow> k | [] \<Rightarrow> 0)"
  define xj xk where "xj = cj + (j XOR jm)" and "xk = ck + (k XOR km)"
  define xi where "xi = ci + f (xj mod DIG_BASE) (xk mod DIG_BASE)"
  have r: "0 \<le> j XOR jm" "j XOR jm < DIG_BASE" "0 \<le> k XOR km" "k XOR km < DIG_BASE"
    using xor_digit [OF m(2), of j] xor_digit [OF m(3), of k] Cons.prems next_digit [OF Cons.prems(2)] by (simp_all add: k_def)
  have fr: "0 \<le> f (xj mod DIG_BASE) (xk mod DIG_BASE)" "f (xj mod DIG_BASE) (xk mod DIG_BASE) < DIG_BASE"
    using xor_digit [OF m(1), of "xj mod DIG_BASE AND xk mod DIG_BASE"] digit_range [of "xj mod DIG_BASE" "xk mod DIG_BASE"]
    by (simp_all add: f_def)
  have u: "u32 xj = xj" "bit01 (xj div DIG_BASE)" "u32 xk = xk" "bit01 (xk div DIG_BASE)" "u32 xi = xi" "bit01 (xi div DIG_BASE)"
    using carry_step [OF Cons.prems(4), of "j XOR jm"] carry_step [OF Cons.prems(5), of "k XOR km"]
      carry_step [OF Cons.prems(3), of "f (xj mod DIG_BASE) (xk mod DIG_BASE)"] r fr
    by (simp_all add: xj_def xk_def xi_def)
  have e: "and_neg_loop im jm km ci cj ck (j # js) ks
      = xi mod DIG_BASE # and_neg_loop im jm km (xi div DIG_BASE) (xj div DIG_BASE) (xk div DIG_BASE) js (tl ks)"
    using u by (simp add: Let_def digit_case mask_pick [OF m(1)] k_def [symmetric] xj_def [symmetric] xk_def [symmetric])
      (simp add: xi_def f_def)
  have b: "bits f (\<lambda>d. d XOR jm) (\<lambda>d. d XOR km) cj ck (j # js) ks
      = f (xj mod DIG_BASE) (xk mod DIG_BASE) # bits f (\<lambda>d. d XOR jm) (\<lambda>d. d XOR km) (xj div DIG_BASE) (xk div DIG_BASE) js (tl ks)"
    by (simp add: bits_Cons Let_def k_def xj_def xk_def)
  show ?case
    unfolding e b using Cons.IH [of "tl ks" "xi div DIG_BASE" "xj div DIG_BASE" "xk div DIG_BASE"] Cons.prems u
    by (simp add: digs_tl Let_def xi_def)
qed (simp add: bits_Nil carry_out_def)

lemma or_neg_loop_eq:
  assumes "digs js" "digs ks" "bit01 ci" "bit01 cj" "bit01 ck"
    and m: "im = 0 \<or> im = DIG_MASK" "jm = 0 \<or> jm = DIG_MASK" "km = 0 \<or> km = DIG_MASK"
  defines "f \<equiv> \<lambda>a b. (a OR b) XOR im"
  shows "or_neg_loop im jm km ci cj ck js ks =
    (let P = bits f (\<lambda>d. d XOR jm) (\<lambda>d. d XOR km) cj ck js ks in if inc_carry ci P = 0 then Some (inc ci P) else None)"
  using assms(1-5)
proof (induction js arbitrary: ks ci cj ck)
  case (Cons j js)
  define k where "k = (case ks of k # _ \<Rightarrow> k | [] \<Rightarrow> 0)"
  define xj xk where "xj = cj + (j XOR jm)" and "xk = ck + (k XOR km)"
  define xi where "xi = ci + f (xj mod DIG_BASE) (xk mod DIG_BASE)"
  have r: "0 \<le> j XOR jm" "j XOR jm < DIG_BASE" "0 \<le> k XOR km" "k XOR km < DIG_BASE"
    using xor_digit [OF m(2), of j] xor_digit [OF m(3), of k] Cons.prems next_digit [OF Cons.prems(2)] by (simp_all add: k_def)
  have fr: "0 \<le> f (xj mod DIG_BASE) (xk mod DIG_BASE)" "f (xj mod DIG_BASE) (xk mod DIG_BASE) < DIG_BASE"
    using xor_digit [OF m(1), of "xj mod DIG_BASE OR xk mod DIG_BASE"] digit_range [of "xj mod DIG_BASE" "xk mod DIG_BASE"]
    by (simp_all add: f_def)
  have u: "u32 xj = xj" "bit01 (xj div DIG_BASE)" "u32 xk = xk" "bit01 (xk div DIG_BASE)" "u32 xi = xi" "bit01 (xi div DIG_BASE)"
    using carry_step [OF Cons.prems(4), of "j XOR jm"] carry_step [OF Cons.prems(5), of "k XOR km"]
      carry_step [OF Cons.prems(3), of "f (xj mod DIG_BASE) (xk mod DIG_BASE)"] r fr
    by (simp_all add: xj_def xk_def xi_def)
  have e: "or_neg_loop im jm km ci cj ck (j # js) ks
      = map_option (\<lambda>r. xi mod DIG_BASE # r) (or_neg_loop im jm km (xi div DIG_BASE) (xj div DIG_BASE) (xk div DIG_BASE) js (tl ks))"
    using u by (simp add: Let_def digit_case mask_pick [OF m(1)] k_def [symmetric] xj_def [symmetric] xk_def [symmetric])
      (simp add: xi_def f_def)
  have b: "bits f (\<lambda>d. d XOR jm) (\<lambda>d. d XOR km) cj ck (j # js) ks
      = f (xj mod DIG_BASE) (xk mod DIG_BASE) # bits f (\<lambda>d. d XOR jm) (\<lambda>d. d XOR km) (xj div DIG_BASE) (xk div DIG_BASE) js (tl ks)"
    by (simp add: bits_Cons Let_def k_def xj_def xk_def)
  show ?case
    unfolding e b using Cons.IH [of "tl ks" "xi div DIG_BASE" "xj div DIG_BASE" "xk div DIG_BASE"] Cons.prems u
    by (simp add: digs_tl Let_def xi_def)
qed (simp add: bits_Nil)

lemma xor_neg_loop_eq:
  assumes "digs js" "digs ks" "bit01 ci" "bit01 cj" "bit01 ck"
  defines "f \<equiv> \<lambda>a b. a XOR b"
  shows "xor_neg_loop ci cj ck js ks =
    (let P = bits f (\<lambda>d. d + DIG_MASK) (\<lambda>d. d + DIG_MASK) cj ck js ks in inc ci P @ carry_out (inc_carry ci P))"
  using assms(1-5)
proof (induction js arbitrary: ks ci cj ck)
  case (Cons j js)
  define k where "k = (case ks of k # _ \<Rightarrow> k | [] \<Rightarrow> 0)"
  define xj xk where "xj = cj + (j + DIG_MASK)" and "xk = ck + (k + DIG_MASK)"
  define xi where "xi = ci + f (xj mod DIG_BASE) (xk mod DIG_BASE)"
  have r: "0 \<le> j" "j < DIG_BASE" "0 \<le> k" "k < DIG_BASE"
    using Cons.prems next_digit [OF Cons.prems(2)] by (simp_all add: k_def)
  have fr: "0 \<le> f (xj mod DIG_BASE) (xk mod DIG_BASE)" "f (xj mod DIG_BASE) (xk mod DIG_BASE) < DIG_BASE"
    using digit_range [of "xj mod DIG_BASE" "xk mod DIG_BASE"] by (simp_all add: f_def)
  have u: "u32 xj = xj" "bit01 (xj div DIG_BASE)" "u32 xk = xk" "bit01 (xk div DIG_BASE)" "u32 xi = xi" "bit01 (xi div DIG_BASE)"
    using carry_step [OF Cons.prems(4), of "j + DIG_MASK"] carry_step [OF Cons.prems(5), of "k + DIG_MASK"]
      carry_step [OF Cons.prems(3), of "f (xj mod DIG_BASE) (xk mod DIG_BASE)"] r fr
    by (simp_all add: xj_def xk_def xi_def)
  have e: "xor_neg_loop ci cj ck (j # js) ks
      = xi mod DIG_BASE # xor_neg_loop (xi div DIG_BASE) (xj div DIG_BASE) (xk div DIG_BASE) js (tl ks)"
    using u by (simp add: Let_def digit_case mask_pick_xor k_def [symmetric] xj_def [symmetric] xk_def [symmetric])
      (simp add: xi_def f_def)
  have b: "bits f (\<lambda>d. d + DIG_MASK) (\<lambda>d. d + DIG_MASK) cj ck (j # js) ks
      = f (xj mod DIG_BASE) (xk mod DIG_BASE) # bits f (\<lambda>d. d + DIG_MASK) (\<lambda>d. d + DIG_MASK) (xj div DIG_BASE) (xk div DIG_BASE) js (tl ks)"
    by (simp add: bits_Cons Let_def k_def xj_def xk_def)
  show ?case
    unfolding e b using Cons.IH [of "tl ks" "xi div DIG_BASE" "xj div DIG_BASE" "xk div DIG_BASE"] Cons.prems u
    by (simp add: digs_tl Let_def xi_def)
qed (simp add: bits_Nil carry_out_def)

section \<open>The routines compute on signed integers\<close>

definition sval :: "bool \<Rightarrow> int \<Rightarrow> int" where
  "sval n m = (if n then - m else m)"

lemma mask_of_bool: "mask_of (of_bool n) = (if n then DIG_MASK else 0)"
  by (simp add: mask_of_def)

lemma bit01_of_bool [simp]: "bit01 (of_bool n)"
  by (simp add: bit01_def)

lemma power_base: "DIG_BASE ^ n = (2::int) ^ (16 * n)"
  by (simp add: power_mult)

text \<open>The stream of digits of an operand is its two's complement.\<close>

lemma tc_value:
  assumes "digs ds"
  shows "dval (inc (of_bool n) (map (\<lambda>d. d XOR mask_of (of_bool n)) ds)) = sval n (dval ds) mod DIG_BASE ^ length ds"
proof (cases n)
  case True
  have "1 + (DIG_BASE ^ length ds - 1 - dval ds) = - dval ds + DIG_BASE ^ length ds" by simp
  moreover have "mask_of 1 = DIG_MASK" by (simp add: mask_of_def)
  ultimately show ?thesis using True dval_map_mask [OF assms] by (simp add: inc_spec sval_def)
qed (simp add: inc_spec mask_of_def sval_def)

lemma padded_id: "padded (length ds) ds = ds"
  by (induction ds) simp_all

definition tc :: "bool \<Rightarrow> nat \<Rightarrow> digits \<Rightarrow> digits" where
  "tc n L ds = inc (of_bool n) (map (\<lambda>d. d XOR mask_of (of_bool n)) (padded L ds))"

definition dc :: "bool \<Rightarrow> nat \<Rightarrow> digits \<Rightarrow> digits" where
  "dc n L ds = inc (of_bool (\<not> n)) (map (\<lambda>d. d + DIG_MASK) (padded L ds))"

lemma tc_spec:
  assumes "digs ds" "length ds \<le> L"
  shows "length (tc n L ds) = L" "digs (tc n L ds)" "dval (tc n L ds) = sval n (dval ds) mod 2 ^ (16 * L)"
  using tc_value [OF padded_digs [OF assms(1)], of n L] padded_dval [OF assms(2)]
  by (simp_all add: tc_def inc_spec power_base)

lemma dc_spec:
  assumes "digs ds" "length ds \<le> L" "n \<Longrightarrow> 0 < dval ds"
  shows "length (dc n L ds) = L" "digs (dc n L ds)" "dval (dc n L ds) = (if n then dval ds - 1 else dval ds)"
proof -
  have b: "0 \<le> dval ds" "dval ds < DIG_BASE ^ L"
    using dval_nonneg [OF assms(1)] dval_less [OF padded_digs [OF assms(1)], of L] padded_dval [OF assms(2)] by simp_all
  show "length (dc n L ds) = L" "digs (dc n L ds)" by (simp_all add: dc_def inc_spec)
  have m: "of_bool (\<not> n) + dval (map (\<lambda>d. d + DIG_MASK) (padded L ds)) = of_bool (\<not> n) + dval ds - 1 + DIG_BASE ^ L"
    using dval_map_dec [of "padded L ds"] padded_dval [OF assms(2)] by simp
  have "dval (dc n L ds) = (of_bool (\<not> n) + dval ds - 1 + DIG_BASE ^ L) mod DIG_BASE ^ L"
    unfolding m [symmetric] by (simp add: dc_def inc_spec)
  also have "\<dots> = (of_bool (\<not> n) + dval ds - 1) mod DIG_BASE ^ L" by simp
  also have "\<dots> = (if n then dval ds - 1 else dval ds)" using b assms(3) by auto
  finally show "dval (dc n L ds) = (if n then dval ds - 1 else dval ds)" .
qed

lemma map2_mask:
  assumes "length xs = length ys" "digs xs" "digs ys"
  shows "dval (map2 (\<lambda>a b. (a AND b) XOR DIG_MASK) xs ys) = DIG_BASE ^ length xs - 1 - (dval xs AND dval ys)"
    "dval (map2 (\<lambda>a b. (a OR b) XOR DIG_MASK) xs ys) = DIG_BASE ^ length xs - 1 - (dval xs OR dval ys)"
proof -
  have a: "digs (map2 (\<lambda>a b. a AND b) xs ys)" "digs (map2 (\<lambda>a b. a OR b) xs ys)"
    using assms by (induction xs ys rule: list_induct2) (auto simp: digit_range)
  have m: "map2 (\<lambda>a b. (a AND b) XOR DIG_MASK) xs ys = map (\<lambda>d. d XOR DIG_MASK) (map2 (\<lambda>a b. a AND b) xs ys)"
    "map2 (\<lambda>a b. (a OR b) XOR DIG_MASK) xs ys = map (\<lambda>d. d XOR DIG_MASK) (map2 (\<lambda>a b. a OR b) xs ys)"
    by (simp_all add: case_prod_unfold)
  show "dval (map2 (\<lambda>a b. (a AND b) XOR DIG_MASK) xs ys) = DIG_BASE ^ length xs - 1 - (dval xs AND dval ys)"
    unfolding m dval_map_mask [OF a(1)] using assms by (simp add: dval_map2_AND)
  show "dval (map2 (\<lambda>a b. (a OR b) XOR DIG_MASK) xs ys) = DIG_BASE ^ length xs - 1 - (dval xs OR dval ys)"
    unfolding m dval_map_mask [OF a(2)] using assms by (simp add: dval_map2_OR)
qed

text \<open>Bounds of the operations on integers of up to \<open>n\<close> bits and either sign.\<close>

lemma not_bounds: "- (2 ^ n) \<le> (x::int) \<Longrightarrow> x < 0 \<Longrightarrow> 0 \<le> NOT x \<and> NOT x < 2 ^ n"
  by (simp add: not_int_def)

lemma and_bounds:
  fixes x y :: int
  assumes "- (2 ^ n) < x" "x < 2 ^ n" "- (2 ^ n) < y" "y < 2 ^ n"
  shows "\<not> (x < 0 \<and> y < 0) \<Longrightarrow> 0 \<le> x AND y \<and> x AND y < 2 ^ n"
    and "x < 0 \<Longrightarrow> y < 0 \<Longrightarrow> - (2 ^ n) \<le> x AND y \<and> x AND y < 0"
proof -
  assume "\<not> (x < 0 \<and> y < 0)"
  then show "0 \<le> x AND y \<and> x AND y < 2 ^ n"
    using AND_upper1 [of x y] AND_upper2 [of y x] assms by (cases "0 \<le> x") (auto simp: and_nonnegative_int_iff)
next
  assume xy: "x < 0" "y < 0"
  have "NOT (x AND y) = NOT x OR NOT y" by (rule bit_eqI) (auto simp: bit_simps)
  moreover have "NOT x OR NOT y < 2 ^ n" using not_bounds [of n x] not_bounds [of n y] xy assms by (intro OR_upper) auto
  ultimately have "- (2 ^ n) \<le> x AND y" by (simp add: not_int_def)
  moreover have "x AND y < 0" using xy by (simp add: and_negative_int_iff)
  ultimately show "- (2 ^ n) \<le> x AND y \<and> x AND y < 0" by simp
qed

lemma or_bounds:
  fixes x y :: int
  assumes "- (2 ^ n) < x" "x < 2 ^ n" "- (2 ^ n) < y" "y < 2 ^ n"
  shows "\<not> (x < 0 \<or> y < 0) \<Longrightarrow> 0 \<le> x OR y \<and> x OR y < 2 ^ n"
    and "x < 0 \<or> y < 0 \<Longrightarrow> - (2 ^ n) < x OR y \<and> x OR y < 0"
proof -
  assume "\<not> (x < 0 \<or> y < 0)"
  then show "0 \<le> x OR y \<and> x OR y < 2 ^ n" using OR_upper [of x n y] assms by auto
next
  assume xy: "x < 0 \<or> y < 0"
  have e: "NOT (x OR y) = NOT x AND NOT y" by (rule bit_eqI) (auto simp: bit_simps)
  have l: "0 \<le> NOT z \<and> NOT z < 2 ^ n - 1" if "- (2 ^ n) < z" "z < 0" for z :: int
    using that by (simp add: not_int_def)
  have "NOT x AND NOT y < 2 ^ n - 1"
    using xy l [of x] l [of y] assms AND_upper1 [of "NOT x" "NOT y"] AND_upper2 [of "NOT y" "NOT x"] by fastforce
  then have "- (2 ^ n) < x OR y" using e by (simp add: not_int_def)
  moreover have "x OR y < 0" using xy by (simp add: or_negative_int_iff)
  ultimately show "- (2 ^ n) < x OR y \<and> x OR y < 0" by simp
qed

lemma inc_no_carry:
  assumes "0 \<le> c + dval P" "c + dval P < DIG_BASE ^ length P"
  shows "dval (inc c P) = c + dval P" "inc_carry c P = 0"
  using assms by (simp_all add: inc_spec inc_carry_spec)

lemma inc_with_carry:
  assumes "0 \<le> c + dval P" "c + dval P \<le> DIG_BASE ^ length P"
  shows "dval (inc c P @ carry_out (inc_carry c P)) = c + dval P"
    "digs (inc c P @ carry_out (inc_carry c P))"
    "length (inc c P @ carry_out (inc_carry c P)) \<le> length P + 1"
proof -
  define M :: int where "M = DIG_BASE ^ length P"
  have M: "0 < M" by (simp add: M_def)
  define q where "q = (c + dval P) div M"
  have "0 \<le> q" using M assms(1) by (simp add: q_def pos_imp_zdiv_nonneg_iff)
  moreover have "q \<le> 1" using zdiv_mono1 [OF assms(2), of M] M by (simp add: q_def M_def)
  ultimately have q: "q = 0 \<or> q = 1" by linarith
  have c: "inc_carry c P = q" by (simp add: inc_carry_spec q_def M_def)
  have "(c + dval P) mod M + M * q = c + dval P" by (simp add: q_def)
  then show "dval (inc c P @ carry_out (inc_carry c P)) = c + dval P"
    unfolding c using q by (auto simp: dval_append inc_spec carry_out_def M_def)
  show "digs (inc c P @ carry_out (inc_carry c P))" "length (inc c P @ carry_out (inc_carry c P)) \<le> length P + 1"
    unfolding c using q by (auto simp: inc_spec carry_out_def)
qed

text \<open>What the three routines return for signed operands, \<open>j\<close> having at least as many digits as \<open>k\<close>.\<close>

lemma sval_bounds:
  assumes "digs ds" "length ds \<le> n"
  shows "- (2 ^ (16 * n)) < sval s (dval ds)" "sval s (dval ds) < 2 ^ (16 * n)"
proof -
  have "dval ds < DIG_BASE ^ length ds" by (rule dval_less [OF assms(1)])
  also have "(DIG_BASE :: int) ^ length ds \<le> DIG_BASE ^ n" using assms(2) by (intro power_increasing) auto
  finally have "dval ds < 2 ^ (16 * n)" by (simp add: power_base)
  then show "- (2 ^ (16 * n)) < sval s (dval ds)" "sval s (dval ds) < 2 ^ (16 * n)"
    using dval_nonneg [OF assms(1)] by (auto simp: sval_def)
qed

lemma neg_mod: "- M \<le> (x::int) \<Longrightarrow> x < 0 \<Longrightarrow> x mod M = x + M"
  using mod_pos_pos_trivial [of "x + M" M] by simp

text \<open>Both operands of a routine, as two's complement of the length of the longer.\<close>

lemma operand_facts:
  assumes "digs js" "digs ks" "length ks \<le> length js" "nj \<Longrightarrow> 0 < dval js" "nk \<Longrightarrow> 0 < dval ks"
  shows "(sval nj (dval js) < 0) = nj" "(sval nk (dval ks) < 0) = nk"
    "- (2 ^ (16 * length js)) < sval nj (dval js)" "sval nj (dval js) < 2 ^ (16 * length js)"
    "- (2 ^ (16 * length js)) < sval nk (dval ks)" "sval nk (dval ks) < 2 ^ (16 * length js)"
  using sval_bounds [OF assms(1), of "length js" nj] sval_bounds [OF assms(2,3), of nk] assms(4,5)
    dval_nonneg [OF assms(1)] dval_nonneg [OF assms(2)] by (auto simp: sval_def)

lemma bits_tc:
  "bits f (\<lambda>d. d XOR mask_of (of_bool nj)) (\<lambda>d. d XOR mask_of (of_bool nk)) (of_bool nj) (of_bool nk) js ks
     = map2 f (tc nj (length js) js) (tc nk (length js) ks)"
  by (simp add: bits_def tc_def padded_id)

lemma bits_dc:
  "bits f (\<lambda>d. d + DIG_MASK) (\<lambda>d. d + DIG_MASK) (of_bool (\<not> nj)) (of_bool (\<not> nk)) js ks
     = map2 f (dc nj (length js) js) (dc nk (length js) ks)"
  by (simp add: bits_def dc_def padded_id)

lemma mask_cases: "mask_of c = 0 \<or> mask_of c = DIG_MASK"
  by (simp add: mask_of_def)

lemma mpn_and_neg_spec:
  assumes "digs js" "digs ks" "length ks \<le> length js" "nj \<Longrightarrow> 0 < dval js" "nk \<Longrightarrow> 0 < dval ks"
    and e: "mpn_and_neg js ks (of_bool (nj \<and> nk)) (of_bool nj) (of_bool nk) = (w, l)"
  shows "digs w" "length w \<le> length js + of_bool (nj \<or> nk)" "l \<le> length w" "normd (take l w)"
    "sval (nj \<and> nk) (dval (take l w)) = sval nj (dval js) AND sval nk (dval ks)"
proof -
  define L where "L = length js"
  define M :: int where "M = 2 ^ (16 * L)"
  define x y where "x = sval nj (dval js)" and "y = sval nk (dval ks)"
  define c :: int where "c = of_bool (nj \<and> nk)"
  define J K where "J = tc nj L js" and "K = tc nk L ks"
  define P where "P = map2 (\<lambda>a b. (a AND b) XOR mask_of c) J K"
  have w: "w = inc c P @ carry_out (inc_carry c P)" and l: "l = mpn_remove_trailing_zeros w"
    using e and_neg_loop_eq [OF assms(1,2), of c "of_bool nj" "of_bool nk" "mask_of c" "mask_of (of_bool nj)" "mask_of (of_bool nk)"]
    by (auto simp: mpn_and_neg_def Let_def P_def c_def mask_cases bits_tc J_def K_def L_def)
  note xy = operand_facts [where nj = nj and nk = nk, OF assms(1-5), folded x_def y_def L_def, folded M_def]
  have JK: "length J = L" "length K = L" "digs J" "digs K" "dval J = x mod M" "dval K = y mod M"
    using tc_spec [OF assms(1), of L nj] tc_spec [OF assms(2), of L nk] assms(3)
    by (simp_all add: J_def K_def x_def y_def M_def L_def)
  have and_mod: "dval J AND dval K = (x AND y) mod M"
    unfolding JK M_def by (simp add: take_bit_eq_mod [symmetric])
  have lP: "length P = L" and Mp: "DIG_BASE ^ L = M" using JK by (simp_all add: P_def M_def power_base)
  have key: "c + dval P = sval (nj \<and> nk) (x AND y) \<and> 0 \<le> c + dval P \<and> c + dval P \<le> M \<and> (\<not> (nj \<and> nk) \<longrightarrow> c + dval P < M)"
  proof (cases "nj \<and> nk")
    case True
    have "dval P = M - 1 - (x AND y) mod M"
      using True map2_mask(1) [of J K] JK(1-4) and_mod Mp by (simp add: P_def c_def mask_of_def)
    moreover have b: "- M \<le> x AND y" "x AND y \<le> - 1"
      using and_bounds(2) [of "16 * L" x y] xy True unfolding M_def by linarith+
    moreover have "(x AND y) mod M = (x AND y) + M" using b by (intro neg_mod) linarith+
    ultimately show ?thesis using True by (simp add: c_def sval_def)
  next
    case False
    have "dval P = (x AND y) mod M"
      using False dval_map2_AND [of J K] JK(1-4) and_mod by (simp add: P_def c_def mask_of_def)
    moreover have "0 \<le> x AND y" "x AND y < M"
      using and_bounds(1) [of "16 * L" x y] xy False by (auto simp: M_def)
    ultimately show ?thesis using False by (auto simp: c_def sval_def)
  qed
  have W: "dval w = c + dval P" "digs w" "length w \<le> L + 1"
    using inc_with_carry [of c P] key Mp lP by (simp_all add: w)
  have "length w \<le> L" if "\<not> (nj \<or> nk)"
    using inc_no_carry(2) [of c P] key that Mp lP by (auto simp: w carry_out_def inc_spec)
  then show "length w \<le> length js + of_bool (nj \<or> nk)" using W(3) by (auto simp: L_def)
  show "digs w" by (fact W)
  show "l \<le> length w" "normd (take l w)" using strip_facts [of w] by (simp_all add: l)
  show "sval (nj \<and> nk) (dval (take l w)) = sval nj (dval js) AND sval nk (dval ks)"
    using key W(1) strip_dval [of w] unfolding x_def [symmetric] y_def [symmetric] by (auto simp: l sval_def split: if_splits)
qed

lemma mpn_or_neg_spec:
  assumes "digs js" "digs ks" "length ks \<le> length js" "nj \<Longrightarrow> 0 < dval js" "nk \<Longrightarrow> 0 < dval ks"
  obtains w l where "mpn_or_neg js ks (of_bool (nj \<or> nk)) (of_bool nj) (of_bool nk) = Some (w, l)"
    "digs w" "length w = length js" "l \<le> length w" "normd (take l w)"
    "sval (nj \<or> nk) (dval (take l w)) = sval nj (dval js) OR sval nk (dval ks)"
proof -
  define L where "L = length js"
  define M :: int where "M = 2 ^ (16 * L)"
  define x y where "x = sval nj (dval js)" and "y = sval nk (dval ks)"
  define c :: int where "c = of_bool (nj \<or> nk)"
  define J K where "J = tc nj L js" and "K = tc nk L ks"
  define P where "P = map2 (\<lambda>a b. (a OR b) XOR mask_of c) J K"
  define w where "w = inc c P"
  note xy = operand_facts [where nj = nj and nk = nk, OF assms(1-5), folded x_def y_def L_def, folded M_def]
  have JK: "length J = L" "length K = L" "digs J" "digs K" "dval J = x mod M" "dval K = y mod M"
    using tc_spec [OF assms(1), of L nj] tc_spec [OF assms(2), of L nk] assms(3)
    by (simp_all add: J_def K_def x_def y_def M_def L_def)
  have or_mod: "dval J OR dval K = (x OR y) mod M"
    unfolding JK M_def by (simp add: take_bit_eq_mod [symmetric])
  have lP: "length P = L" and Mp: "DIG_BASE ^ L = M" using JK by (simp_all add: P_def M_def power_base)
  have key: "c + dval P = sval (nj \<or> nk) (x OR y) \<and> 0 \<le> c + dval P \<and> c + dval P < M"
  proof (cases "nj \<or> nk")
    case True
    have "dval P = M - 1 - (x OR y) mod M"
      using True map2_mask(2) [of J K] JK(1-4) or_mod Mp by (simp add: P_def c_def mask_of_def)
    moreover have b: "- M < x OR y" "x OR y \<le> - 1"
      using or_bounds(2) [of "16 * L" x y] xy True unfolding M_def by linarith+
    moreover have "(x OR y) mod M = (x OR y) + M" using b by (intro neg_mod) linarith+
    ultimately show ?thesis using True by (simp add: c_def sval_def)
  next
    case False
    have "dval P = (x OR y) mod M"
      using False dval_map2_OR [of J K] JK(1-4) or_mod by (simp add: P_def c_def mask_of_def)
    moreover have "0 \<le> x OR y" "x OR y < M"
      using or_bounds(1) [of "16 * L" x y] xy False by (auto simp: M_def)
    ultimately show ?thesis using False by (simp add: c_def sval_def)
  qed
  have W: "dval w = c + dval P" "inc_carry c P = 0" "digs w" "length w = L"
    using inc_no_carry [of c P] key Mp lP by (simp_all add: w_def inc_spec)
  have cb: "bit01 c" by (simp only: c_def bit01_of_bool)
  have "or_neg_loop (mask_of c) (mask_of (of_bool nj)) (mask_of (of_bool nk)) c (of_bool nj) (of_bool nk) js ks = Some w"
    unfolding or_neg_loop_eq [OF assms(1,2) cb bit01_of_bool bit01_of_bool mask_cases mask_cases mask_cases] bits_tc
    using W(2) by (simp add: Let_def w_def P_def J_def K_def L_def)
  then have "mpn_or_neg js ks (of_bool (nj \<or> nk)) (of_bool nj) (of_bool nk) = Some (w, mpn_remove_trailing_zeros w)"
    unfolding mpn_or_neg_def c_def [symmetric] by simp
  moreover have "sval (nj \<or> nk) (dval (take (mpn_remove_trailing_zeros w) w)) = sval nj (dval js) OR sval nk (dval ks)"
    using key W(1) strip_dval [of w] unfolding x_def [symmetric] y_def [symmetric] by (auto simp: sval_def split: if_splits)
  ultimately show thesis using that W strip_facts [of w] by (simp add: L_def)
qed

lemma xor_not: "NOT a XOR b = NOT (a XOR (b::int))" "a XOR NOT b = NOT (a XOR b)"
  by (rule bit_eqI; simp add: bit_simps)+

lemma mpn_xor_neg_spec:
  assumes "digs js" "digs ks" "length ks \<le> length js" "nj \<Longrightarrow> 0 < dval js" "nk \<Longrightarrow> 0 < dval ks"
    and e: "mpn_xor_neg js ks (of_bool (nj \<noteq> nk)) (of_bool (\<not> nj)) (of_bool (\<not> nk)) = (w, l)"
  shows "digs w" "length w \<le> length js + of_bool (nj \<or> nk)" "l \<le> length w" "normd (take l w)"
    "sval (nj \<noteq> nk) (dval (take l w)) = sval nj (dval js) XOR sval nk (dval ks)"
proof -
  define L where "L = length js"
  define M :: int where "M = 2 ^ (16 * L)"
  define x y where "x = sval nj (dval js)" and "y = sval nk (dval ks)"
  define c :: int where "c = of_bool (nj \<noteq> nk)"
  define J K where "J = dc nj L js" and "K = dc nk L ks"
  define P where "P = map2 (\<lambda>a b. a XOR b) J K"
  have w: "w = inc c P @ carry_out (inc_carry c P)" and l: "l = mpn_remove_trailing_zeros w"
    using e xor_neg_loop_eq [OF assms(1,2), of c "of_bool (\<not> nj)" "of_bool (\<not> nk)"]
    by (auto simp: mpn_xor_neg_def Let_def P_def c_def bits_dc J_def K_def L_def simp del: of_bool_not_iff)
  note xy = operand_facts [where nj = nj and nk = nk, OF assms(1-5), folded x_def y_def L_def, folded M_def]
  have JK: "length J = L" "length K = L" "digs J" "digs K"
    "dval J = (if nj then NOT x else x)" "dval K = (if nk then NOT y else y)"
    using dc_spec [OF assms(1), of L nj] dc_spec [OF assms(2), of L nk] assms(3-5)
    by (simp_all add: J_def K_def x_def y_def L_def sval_def not_int_def)
  have lP: "length P = L" and Mp: "DIG_BASE ^ L = M" using JK by (simp_all add: P_def M_def power_base)
  have P: "dval P = dval J XOR dval K" using dval_map2_XOR [of J K] JK(1-4) by (simp add: P_def)
  have range: "0 \<le> dval P" "dval P < M"
    unfolding P using dval_less [OF JK(3)] dval_less [OF JK(4)] dval_nonneg [OF JK(3)] dval_nonneg [OF JK(4)] JK(1,2) Mp
      XOR_upper [of "dval J" "16 * L" "dval K"] by (simp_all add: M_def)
  have val: "c + dval P = sval (nj \<noteq> nk) (x XOR y)"
    unfolding P JK by (cases nj; cases nk) (simp_all add: c_def sval_def xor_not, simp_all add: not_int_def)
  have r: "0 \<le> c + dval P" "c + dval P \<le> M" using range by (auto simp: c_def)
  have W: "dval w = c + dval P" "digs w" "length w \<le> L + 1"
    using inc_with_carry [of c P] r Mp lP by (simp_all add: w)
  have "length w \<le> L" if "\<not> (nj \<or> nk)"
    using inc_no_carry(2) [of c P] range that Mp lP by (auto simp: w carry_out_def inc_spec c_def)
  then show "length w \<le> length js + of_bool (nj \<or> nk)" using W(3) by (auto simp: L_def)
  show "digs w" by (fact W)
  show "l \<le> length w" "normd (take l w)" using strip_facts [of w] by (simp_all add: l)
  show "sval (nj \<noteq> nk) (dval (take l w)) = sval nj (dval js) XOR sval nk (dval ks)"
    using val W(1) strip_dval [of w] unfolding x_def [symmetric] y_def [symmetric] by (auto simp: l sval_def split: if_splits)
qed

end
