(* ===== verification/MpnDiv.thy ===== *)
theory MpnDiv
  imports Mpn
begin

text \<open>
  Long division, \<open>mpn_div\<close> of \<open>py/mpz.c\<close>: the denominator is shifted until its leading bit is
  set, and every digit of the quotient is estimated from the two leading digits of the current
  remainder and the leading digit of the denominator.  The estimate is never too small; the
  correction loop lowers it until the borrow has gone.

  The array of the numerator is split as the loop sees it: the window of as many digits as the
  denominator has, which holds the remainder so far, and the digits below it, the next one
  first.  The digit above the window is the top digit of the number the step divides.
\<close>

unbundle bit_operations_syntax

section \<open>The routine\<close>

text \<open>Leading zeros of the leading digit; 16 shifts of a 16-bit digit without a bit leave zero, and the loop would not end.\<close>

fun norm_shift_loop :: "nat \<Rightarrow> int \<Rightarrow> nat option" where
  "norm_shift_loop 0 d = None"
| "norm_shift_loop (Suc fuel) d =
     (if d AND 32768 = 0 then map_option Suc (norm_shift_loop fuel (u16 (d * 2))) else Some 0)"

fun norm_num_loop :: "nat \<Rightarrow> int \<Rightarrow> digits \<Rightarrow> digits" where
  "norm_num_loop norm_shift carry [] = []"
| "norm_num_loop norm_shift carry (n # ns) =
     (((n * 2 ^ norm_shift) OR carry) mod DIG_BASE)
       # norm_num_loop norm_shift (u16 (n div 2 ^ (DIG_SIZE - norm_shift))) ns"

definition lead_digit :: "nat \<Rightarrow> digits \<Rightarrow> int" where
  "lead_digit norm_shift den =
     (let lead = u32 (last den * 2 ^ norm_shift) in
      if length den \<ge> 2 then lead OR (den ! (length den - 2) div 2 ^ (DIG_SIZE - norm_shift)) else lead)"

text \<open>\<open>num - quo * den\<close>, from the low digit up, with the denominator shifted on the fly.\<close>

fun mul_sub_loop :: "nat \<Rightarrow> int \<Rightarrow> int \<Rightarrow> int \<Rightarrow> digits \<Rightarrow> digits \<Rightarrow> digits \<times> int" where
  "mul_sub_loop norm_shift quo d_norm borrow (d # ds) (n # ns) =
     (let d_norm = u32 (d * 2 ^ norm_shift) OR (d_norm div DIG_BASE);
          x = u32 (quo * (d_norm mod DIG_BASE));
          low_digs = s32 (borrow mod DIG_BASE + n - x mod DIG_BASE);
          borrow = s32 (borrow div DIG_BASE - x div DIG_BASE + low_digs div DIG_BASE);
          (out, b) = mul_sub_loop norm_shift quo d_norm borrow ds ns
      in (low_digs mod DIG_BASE # out, b))"
| "mul_sub_loop norm_shift quo d_norm borrow _ _ = ([], borrow)"

fun add_den_loop :: "nat \<Rightarrow> int \<Rightarrow> int \<Rightarrow> digits \<Rightarrow> digits \<Rightarrow> digits \<times> int" where
  "add_den_loop norm_shift d_norm carry (d # ds) (n # ns) =
     (let d_norm = u32 (d * 2 ^ norm_shift) OR (d_norm div DIG_BASE);
          carry = u32 (carry + (n + d_norm mod DIG_BASE));
          (out, c) = add_den_loop norm_shift d_norm (carry div DIG_BASE) ds ns
      in (carry mod DIG_BASE # out, c))"
| "add_den_loop norm_shift d_norm carry _ _ = ([], carry)"

fun correct_loop :: "nat \<Rightarrow> nat \<Rightarrow> digits \<Rightarrow> int \<Rightarrow> int \<Rightarrow> digits \<Rightarrow> (int \<times> digits) option" where
  "correct_loop 0 norm_shift den borrow quo win = (if borrow = 0 then Some (quo, win) else None)"
| "correct_loop (Suc fuel) norm_shift den borrow quo win =
     (if borrow = 0 then Some (quo, win)
      else let (win, carry) = add_den_loop norm_shift 0 0 den win in
           correct_loop fuel norm_shift den (s32 (borrow + carry)) (u32 (quo - 1)) win)"

text \<open>One step: the next digit \<open>a\<close> joins the remainder from below, a digit of the quotient comes out.\<close>

definition div_step :: "nat \<Rightarrow> int \<Rightarrow> digits \<Rightarrow> int \<Rightarrow> digits \<Rightarrow> (int \<times> digits) option" where
  "div_step norm_shift lead den a rem_win =
     (let num = a # rem_win;
          num_dig = last num;
          quo = ((num_dig * DIG_BASE) OR (num ! (length num - 2))) div lead;
          (win, borrow) = mul_sub_loop norm_shift quo 0 0 den (butlast num);
          borrow = s32 (borrow + num_dig)
      in do {
        (quo, win) \<leftarrow> correct_loop (nat quo) norm_shift den borrow quo win;
        Some (quo mod DIG_BASE, win)
      })"

text \<open>The loop over the digits below the window; the quotient comes out from its leading digit down.\<close>

fun div_loop :: "nat \<Rightarrow> int \<Rightarrow> digits \<Rightarrow> digits \<Rightarrow> digits \<Rightarrow> (digits \<times> digits) option" where
  "div_loop norm_shift lead den rem_win [] = Some ([], rem_win)"
| "div_loop norm_shift lead den rem_win (a # as) = do {
     (q, rem_win) \<leftarrow> div_step norm_shift lead den a rem_win;
     (qs, rem_win) \<leftarrow> div_loop norm_shift lead den rem_win as;
     Some (q # qs, rem_win)
   }"

text \<open>Shifting the remainder back, from the leading digit down.\<close>

fun unnorm_loop :: "nat \<Rightarrow> int \<Rightarrow> digits \<Rightarrow> digits" where
  "unnorm_loop norm_shift carry [] = []"
| "unnorm_loop norm_shift carry (n # ns) =
     (((n div 2 ^ norm_shift) OR carry) mod DIG_BASE)
       # unnorm_loop norm_shift (u16 (n * 2 ^ (DIG_SIZE - norm_shift))) ns"

text \<open>The result: remainder digits and their number, quotient digits and their number.\<close>

definition mpn_div :: "digits \<Rightarrow> digits \<Rightarrow> (digits \<times> nat \<times> digits \<times> nat) option" where
  "mpn_div num den =
     (let cmp = mpn_cmp num den in
      if cmp = 0 then Some (num, 0, [1], 1)
      else if cmp < 0 then Some (num, length num, [], 0)
      else do {
        norm_shift \<leftarrow> (if den = [] then None else norm_shift_loop 17 (last den));
        let num = norm_num_loop norm_shift 0 (num @ [0]);
        let lead = lead_digit norm_shift den;
        let quo_len = length num - length den;
        (qs, rem_win) \<leftarrow> div_loop norm_shift lead den (drop quo_len num) (rev (take quo_len num));
        let quo = rev qs;
        let rm = rev (unnorm_loop norm_shift 0 (rev rem_win));
        Some (rm, mpn_remove_trailing_zeros rm, quo, mpn_remove_trailing_zeros quo)
      })"

section \<open>Normalisation\<close>

lemma and_msb: "0 \<le> d \<Longrightarrow> d < DIG_BASE \<Longrightarrow> d AND 32768 = 0 \<longleftrightarrow> d < 32768"
proof -
  assume d: "0 \<le> d" "d < DIG_BASE"
  have "d AND 32768 = 0 \<longleftrightarrow> \<not> bit d 15"
    using and_exp_eq_0_iff_not_bit [of d 15] by simp
  also have "bit d 15 \<longleftrightarrow> odd (d div 2 ^ 15)" by (rule bit_iff_odd)
  also have "d div 2 ^ 15 = (if d < 32768 then 0 else 1)" using d by (auto intro: int_div_pos_eq [where r = "d - 32768"])
  finally show ?thesis by (auto split: if_splits)
qed

lemma norm_shift_loop_spec:
  assumes "0 < d" "d < DIG_BASE" "2 ^ 15 \<le> d * 2 ^ fuel"
  obtains s where "norm_shift_loop (Suc fuel) d = Some s" "s \<le> fuel" "2 ^ 15 \<le> d * 2 ^ s" "d * 2 ^ s < DIG_BASE"
  using assms
proof (induction fuel arbitrary: d thesis)
  case 0
  then show ?case using and_msb [of d] by (intro 0(1) [of 0]) auto
next
  case (Suc fuel)
  show ?case
  proof (cases "d < 32768")
    case True
    then have u: "u16 (d * 2) = d * 2" using Suc.prems by (intro u16_id) auto
    obtain s where s: "norm_shift_loop (Suc fuel) (d * 2) = Some s" "s \<le> fuel" "2 ^ 15 \<le> d * 2 * 2 ^ s" "d * 2 * 2 ^ s < DIG_BASE"
      by (rule Suc.IH [of "d * 2"]) (use Suc.prems True in \<open>auto simp: ac_simps\<close>)
    have e: "norm_shift_loop (Suc (Suc fuel)) d = Some (Suc s)"
      using True and_msb [of d] Suc.prems s(1) u by (subst norm_shift_loop.simps) simp
    show ?thesis by (rule Suc.prems(1) [OF e]) (use s in \<open>auto simp: ac_simps\<close>)
  next
    case False
    then show ?thesis using and_msb [of d] Suc.prems by (intro Suc.prems(1) [of 0]) auto
  qed
qed

text \<open>The digits shifted left by less than a digit, with the bits pushed out of the digit before.\<close>

fun shifted :: "nat \<Rightarrow> int \<Rightarrow> digits \<Rightarrow> digits" where
  "shifted s c [] = []"
| "shifted s c (d # ds) = (d * 2 ^ s + c) mod DIG_BASE # shifted s ((d * 2 ^ s + c) div DIG_BASE) ds"

lemma shifted_spec: "length (shifted s c ds) = length ds" "digs (shifted s c ds)"
    "dval (shifted s c ds) = (dval ds * 2 ^ s + c) mod DIG_BASE ^ length ds"
proof (induction ds arbitrary: c)
  case (Cons d ds)
  { case 3
    have v: "dval (d # ds) * 2 ^ s + c = (d * 2 ^ s + c) + DIG_BASE * (dval ds * 2 ^ s)" by (simp add: algebra_simps)
    show ?case unfolding v using Cons.IH(3) [of "(d * 2 ^ s + c) div DIG_BASE"]
        mod_base_step [of "DIG_BASE ^ length ds" "d * 2 ^ s + c" "dval ds * 2 ^ s"] by (simp add: add.commute) }
qed auto

lemma div_less_if: "0 < q \<Longrightarrow> d < t * q \<Longrightarrow> d div q < (t::int)"
proof (rule ccontr)
  assume q: "0 < q" "d < t * q" and "\<not> d div q < t"
  then have "t * q \<le> (d div q) * q" by (intro mult_right_mono) auto
  also have "\<dots> \<le> d" using q(1) pos_mod_sign [of q d] by (simp add: minus_mod_eq_div_mult [symmetric])
  finally show False using q(2) by simp
qed

lemma shift_carry:
  fixes d c :: int
  assumes "s \<le> 15" "0 \<le> d" "d < DIG_BASE" "0 \<le> c" "c < 2 ^ s"
  shows "(d * 2 ^ s) OR c = d * 2 ^ s + c" "(d * 2 ^ s + c) div DIG_BASE = d div 2 ^ (16 - s)"
    "d div 2 ^ (16 - s) < 2 ^ s" "0 \<le> d div 2 ^ (16 - s)" "d * 2 ^ s + c < 2 ^ 31"
proof -
  show "(d * 2 ^ s) OR c = d * 2 ^ s + c" by (rule or_disjoint_add [OF assms(4,5)])
  have B: "DIG_BASE = 2 ^ s * 2 ^ (16 - s)" using base_split [of s] assms(1) by simp
  have "(d * 2 ^ s + c) div (2 ^ s * 2 ^ (16 - s)) = ((d * 2 ^ s + c) div 2 ^ s) div 2 ^ (16 - s)"
    by (rule zdiv_zmult2_eq) simp
  then show "(d * 2 ^ s + c) div DIG_BASE = d div 2 ^ (16 - s)" unfolding B [symmetric] using assms(4,5) by simp
  have "d < 2 ^ (16 - s) * 2 ^ s" using assms(3) B by (simp add: mult.commute)
  then show "d div 2 ^ (16 - s) < 2 ^ s" by (intro div_less_if) (simp_all add: mult.commute)
  show "0 \<le> d div 2 ^ (16 - s)" using assms(2) by (simp add: pos_imp_zdiv_nonneg_iff)
  have "d * 2 ^ s \<le> DIG_MASK * 2 ^ s" using assms by (intro mult_right_mono) auto
  then have "d * 2 ^ s + c < DIG_BASE * 2 ^ s" using assms(5) by linarith
  also have "\<dots> \<le> DIG_BASE * 2 ^ 15" using assms(1) by (intro mult_left_mono power_increasing) auto
  finally show "d * 2 ^ s + c < 2 ^ 31" by simp
qed

lemma den_digit:
  fixes d c :: int
  assumes "s \<le> 15" "0 \<le> d" "d < DIG_BASE" "0 \<le> c" "c < 2 ^ s"
  shows "u32 (d * 2 ^ s) OR c = d * 2 ^ s + c" "0 \<le> (d * 2 ^ s + c) div DIG_BASE" "(d * 2 ^ s + c) div DIG_BASE < 2 ^ s"
proof -
  note c = shift_carry [OF assms]
  have "u32 (d * 2 ^ s) = d * 2 ^ s" using c(5) assms by (intro u32_id) auto
  then show "u32 (d * 2 ^ s) OR c = d * 2 ^ s + c" using c(1) by simp
  show "0 \<le> (d * 2 ^ s + c) div DIG_BASE" "(d * 2 ^ s + c) div DIG_BASE < 2 ^ s" unfolding c(2) by (fact c)+
qed

lemma norm_num_loop_eq:
  assumes "s \<le> 15" "digs ns" "0 \<le> c" "c < 2 ^ s"
  shows "norm_num_loop s c ns = shifted s c ns"
  using assms(2-)
proof (induction ns arbitrary: c)
  case (Cons n ns)
  have p: "(2::int) ^ s \<le> 2 ^ 15" using assms(1) by (intro power_increasing) auto
  note c = shift_carry [OF assms(1), of n c]
  have "u16 (n div 2 ^ (16 - s)) = n div 2 ^ (16 - s)" using c p Cons.prems by (intro u16_id) auto
  then show ?case using c Cons by simp
qed simp

section \<open>One step\<close>

lemma mul_sub_loop_spec:
  assumes "s \<le> 15" "digs ds" "digs ns" "length ds = length ns" "0 \<le> quo" "quo \<le> DIG_BASE + 1"
    "0 \<le> dn div DIG_BASE" "dn div DIG_BASE < 2 ^ s" "- 2 * DIG_BASE \<le> b" "b \<le> DIG_BASE"
  obtains out b' where "mul_sub_loop s quo dn b ds ns = (out, b')" "digs out" "length out = length ns"
    "dval out + DIG_BASE ^ length ns * b' = b + dval ns - quo * dval (shifted s (dn div DIG_BASE) ds)"
    "- 2 * DIG_BASE \<le> b'" "b' \<le> DIG_BASE"
  using assms(4,2,3,7-)
proof (induction ds ns arbitrary: dn b thesis rule: list_induct2)
  case Nil
  then show ?case by simp
next
  case (Cons d ds n ns)
  define y where "y = d * 2 ^ s + dn div DIG_BASE"
  have dd: "0 \<le> d" "d < DIG_BASE" "0 \<le> n" "n < DIG_BASE" using Cons.prems(2,3) by simp_all
  note sc = den_digit [OF assms(1) dd(1,2) Cons.prems(4,5), folded y_def]
  define x where "x = quo * (y mod DIG_BASE)"
  have "x \<le> (DIG_BASE + 1) * DIG_MASK" unfolding x_def using assms(5,6) by (intro mult_mono) auto
  moreover have "0 \<le> x" using assms(5) by (simp add: x_def)
  ultimately have x: "0 \<le> x" "x < 4294967296" "u32 x = x" "0 \<le> x div DIG_BASE" "x div DIG_BASE \<le> DIG_MASK" by (auto intro: u32_id)
  define low where "low = b mod DIG_BASE + n - x mod DIG_BASE"
  have m: "0 \<le> b mod DIG_BASE" "b mod DIG_BASE < DIG_BASE" "0 \<le> x mod DIG_BASE" "x mod DIG_BASE < DIG_BASE" by simp_all
  have lo: "- DIG_BASE < low" "low < 2 * DIG_BASE" using m dd unfolding low_def by linarith+
  then have low: "s32 low = low" "- 1 \<le> low div DIG_BASE" "low div DIG_BASE \<le> 1" by (auto intro!: s32_id)
  define b1 where "b1 = b div DIG_BASE - x div DIG_BASE + low div DIG_BASE"
  have "- 2 \<le> b div DIG_BASE" "b div DIG_BASE \<le> 1" using Cons.prems(6,7) by auto
  then have b1: "- 2 * DIG_BASE \<le> b1" "b1 \<le> DIG_BASE" using x(4,5) low(2,3) unfolding b1_def by linarith+
  then have b1s: "s32 b1 = b1" by (intro s32_id) auto
  obtain out b' where IH: "mul_sub_loop s quo y b1 ds ns = (out, b')" "digs out" "length out = length ns"
    "dval out + DIG_BASE ^ length ns * b' = b1 + dval ns - quo * dval (shifted s (y div DIG_BASE) ds)"
    "- 2 * DIG_BASE \<le> b'" "b' \<le> DIG_BASE"
    by (rule Cons.IH [of y b1]) (use Cons.prems(2,3) sc b1 in auto)
  have e: "mul_sub_loop s quo dn b (d # ds) (n # ns) = (low mod DIG_BASE # out, b')"
    using IH(1) x(3) low(1) b1s
    by (simp add: Let_def sc(1) x_def [symmetric] low_def [symmetric] b1_def [symmetric])
  have step: "low mod DIG_BASE + DIG_BASE * b1 = b + n - x"
    using div_mod_base [of low] div_mod_base [of b] div_mod_base [of x] unfolding b1_def low_def
    by (simp only: distrib_left right_diff_distrib)
  show ?case
  proof (rule Cons.prems(1) [OF e])
    have "dval (low mod DIG_BASE # out) + DIG_BASE ^ length (n # ns) * b'
        = low mod DIG_BASE + DIG_BASE * (dval out + DIG_BASE ^ length ns * b')" by (simp add: algebra_simps)
    also have "\<dots> = low mod DIG_BASE + DIG_BASE * b1 + DIG_BASE * dval ns - quo * (DIG_BASE * dval (shifted s (y div DIG_BASE) ds))"
      unfolding IH(4) by (simp add: algebra_simps)
    also have "\<dots> = b + n - x + DIG_BASE * dval ns - quo * (DIG_BASE * dval (shifted s (y div DIG_BASE) ds))"
      unfolding step ..
    also have "\<dots> = b + dval (n # ns) - quo * dval (shifted s (dn div DIG_BASE) (d # ds))"
      by (simp add: x_def y_def algebra_simps)
    finally show "dval (low mod DIG_BASE # out) + DIG_BASE ^ length (n # ns) * b'
      = b + dval (n # ns) - quo * dval (shifted s (dn div DIG_BASE) (d # ds))" .
  qed (use IH in auto)
qed

lemma add_den_loop_spec:
  assumes "s \<le> 15" "digs ds" "digs ns" "length ds = length ns"
    "0 \<le> dn div DIG_BASE" "dn div DIG_BASE < 2 ^ s" "0 \<le> c" "c \<le> 1"
  obtains out c' where "add_den_loop s dn c ds ns = (out, c')" "digs out" "length out = length ns"
    "dval out + DIG_BASE ^ length ns * c' = c + dval ns + dval (shifted s (dn div DIG_BASE) ds)" "0 \<le> c'" "c' \<le> 1"
  using assms(4,2,3,5-)
proof (induction ds ns arbitrary: dn c thesis rule: list_induct2)
  case Nil
  then show ?case by simp
next
  case (Cons d ds n ns)
  define y where "y = d * 2 ^ s + dn div DIG_BASE"
  have dd: "0 \<le> d" "d < DIG_BASE" "0 \<le> n" "n < DIG_BASE" using Cons.prems(2,3) by simp_all
  note sc = den_digit [OF assms(1) dd(1,2) Cons.prems(4,5), folded y_def]
  define x where "x = c + (n + y mod DIG_BASE)"
  have m: "0 \<le> y mod DIG_BASE" "y mod DIG_BASE < DIG_BASE" by simp_all
  then have x0: "0 \<le> x" "x < 2 * DIG_BASE" using dd Cons.prems(6,7) unfolding x_def by linarith+
  then have x: "u32 x = x" "0 \<le> x div DIG_BASE" "x div DIG_BASE \<le> 1" by (auto intro: u32_id)
  obtain out c' where IH: "add_den_loop s y (x div DIG_BASE) ds ns = (out, c')" "digs out" "length out = length ns"
    "dval out + DIG_BASE ^ length ns * c' = x div DIG_BASE + dval ns + dval (shifted s (y div DIG_BASE) ds)" "0 \<le> c'" "c' \<le> 1"
    by (rule Cons.IH [of y "x div DIG_BASE"]) (use Cons.prems(2,3) sc x in auto)
  have e: "add_den_loop s dn c (d # ds) (n # ns) = (x mod DIG_BASE # out, c')"
    using IH(1) x(1) by (simp add: Let_def sc(1) x_def [symmetric])
  show ?case
  proof (rule Cons.prems(1) [OF e])
    have "dval (x mod DIG_BASE # out) + DIG_BASE ^ length (n # ns) * c'
        = x mod DIG_BASE + DIG_BASE * (dval out + DIG_BASE ^ length ns * c')" by (simp add: algebra_simps)
    also have "\<dots> = x + DIG_BASE * dval ns + DIG_BASE * dval (shifted s (y div DIG_BASE) ds)"
      unfolding IH(4) using div_mod_base [of x] by (simp add: distrib_left)
    also have "\<dots> = c + dval (n # ns) + dval (shifted s (dn div DIG_BASE) (d # ds))"
      by (simp add: x_def y_def algebra_simps)
    finally show "dval (x mod DIG_BASE # out) + DIG_BASE ^ length (n # ns) * c'
      = c + dval (n # ns) + dval (shifted s (dn div DIG_BASE) (d # ds))" .
  qed (use IH in auto)
qed

text \<open>The estimate uses the leading digit of the shifted denominator.\<close>

lemma lead_digit_spec:
  assumes "s \<le> 15" "digs den" "den \<noteq> []" "last den * 2 ^ s < DIG_BASE"
  shows "lead_digit s den = (dval den * 2 ^ s) div DIG_BASE ^ (length den - 1)"
proof -
  obtain xs dl where den: "den = xs @ [dl]" using assms(3) by (cases den rule: rev_cases) auto
  have dl: "0 \<le> dl" "dl * 2 ^ s < DIG_BASE" using assms(2,4) by (simp_all add: den)
  have u: "u32 (dl * 2 ^ s) = dl * 2 ^ s" using dl by (intro u32_id) auto
  show ?thesis
  proof (cases xs rule: rev_cases)
    case Nil
    then show ?thesis using u by (simp add: den lead_digit_def)
  next
    case (snoc ys d2)
    define q t M :: int where "q = 2 ^ (16 - s)" and "t = 2 ^ s" and "M = DIG_BASE ^ length ys"
    have B: "DIG_BASE = t * q" unfolding q_def t_def using base_split [of s] assms(1) by simp
    have pos: "0 < t" "0 < q" "0 < M" by (simp_all add: t_def q_def M_def)
    have y: "0 \<le> dval ys" "dval ys < M" "0 \<le> d2" "d2 < DIG_BASE"
      using dval_nonneg [of ys] dval_less [of ys] assms(2) by (simp_all add: den snoc M_def)
    have v: "dval den = dval ys + M * (d2 + DIG_BASE * dl)" by (simp add: den snoc dval_append M_def algebra_simps)
    have "(dval den * t) div (M * DIG_BASE) = (dval den * t) div ((M * q) * t)"
      unfolding B by (simp only: mult.assoc mult.commute [of t])
    also have "\<dots> = dval den div (M * q)" using pos by simp
    also have "\<dots> = (dval den div M) div q" by (rule zdiv_zmult2_eq) (use pos in simp)
    also have "dval den div M = d2 + DIG_BASE * dl" using y pos by (simp add: v)
    also have "(d2 + DIG_BASE * dl) div q = (d2 + q * (t * dl)) div q"
      unfolding B by (simp only: mult.assoc mult.commute [of t] mult.left_commute)
    also have "\<dots> = t * dl + d2 div q" using pos by simp
    finally have r: "(dval den * 2 ^ s) div DIG_BASE ^ (length den - 1) = dl * 2 ^ s + d2 div q"
      by (simp add: den snoc M_def t_def mult.commute)
    have "0 \<le> d2 div q \<and> d2 div q < 2 ^ s" using shift_carry [of s d2 0] assms(1) y by (simp add: q_def)
    then have "(dl * 2 ^ s) OR (d2 div q) = dl * 2 ^ s + d2 div q" by (intro or_disjoint_add) auto
    moreover have "den ! (length den - 2) = d2" by (simp add: den snoc nth_append)
    ultimately show ?thesis unfolding r using u by (simp add: lead_digit_def Let_def q_def) (simp add: den snoc)
  qed
qed

lemma correct_loop_spec:
  assumes "s \<le> 15" "digs den" "0 < dn" "dn < DIG_BASE ^ length den" "dval (shifted s 0 den) = dn" "0 \<le> W"
    and "digs win" "length win = length den" "dval win + DIG_BASE ^ length den * borrow = W - quo * dn"
    "W - quo * dn < dn" "borrow \<le> 0" "- (2 ^ 20) \<le> borrow" "0 \<le> quo" "quo < 2 ^ 20" "nat quo \<le> fuel"
  obtains win' where "correct_loop fuel s den borrow quo win = Some (W div dn, win')" "digs win'" "length win' = length den"
    "dval win' = W mod dn"
  using assms(7-)
proof (induction fuel arbitrary: borrow quo win thesis)
  have done0: "W div dn = quo \<and> dval win = W mod dn"
    if "digs win" "dval win + DIG_BASE ^ length den * 0 = W - quo * dn" "W - quo * dn < dn" for win quo
  proof -
    have "0 \<le> W - quo * dn" using dval_nonneg [OF that(1)] that(2) by simp
    then have "W div dn = quo" using that(3) by (intro int_div_pos_eq [where r = "W - quo * dn"]) (auto simp: mult.commute)
    then show ?thesis using that(2) by (simp add: minus_mult_div_eq_mod [symmetric] mult.commute)
  qed
  {
    case 0
    then have "quo = 0" by simp
    have w: "0 \<le> dval win" "dval win < DIG_BASE ^ length den" using dval_nonneg [of win] dval_less [of win] 0 by auto
    have "borrow = 0"
    proof (rule ccontr)
      assume "borrow \<noteq> 0"
      then have "DIG_BASE ^ length den * borrow \<le> DIG_BASE ^ length den * (- 1)" using 0 by (intro mult_left_mono) auto
      then show False using 0 w assms(6) \<open>quo = 0\<close> by simp
    qed
    then show ?case using done0 [of win quo] 0 by (intro 0(1) [of win]) auto
  next
    case (Suc fuel)
    show ?case
    proof (cases "borrow = 0")
      case True
      then show ?thesis using done0 [of win quo] Suc.prems by (intro Suc.prems(1) [of win]) auto
    next
      case False
      have w: "0 \<le> dval win" "dval win < DIG_BASE ^ length den" using dval_nonneg [of win] dval_less [of win] Suc.prems by auto
      have "DIG_BASE ^ length den * borrow \<le> DIG_BASE ^ length den * (- 1)" using False Suc.prems(6) by (intro mult_left_mono) auto
      then have neg: "W - quo * dn < 0" using Suc.prems(4) w by linarith
      then have q: "0 < quo" using assms(3,6) Suc.prems(8) by (cases "quo = 0") auto
      obtain out c where o: "add_den_loop s 0 0 den win = (out, c)" "digs out" "length out = length win"
        "dval out + DIG_BASE ^ length win * c = 0 + dval win + dval (shifted s (0 div DIG_BASE) den)" "0 \<le> c" "c \<le> 1"
        by (rule add_den_loop_spec [OF assms(1,2), of win 0 0]) (use Suc.prems in auto)
      have eq: "dval out + DIG_BASE ^ length den * (borrow + c) = W - (quo - 1) * dn"
        using o(4) Suc.prems(3,4) assms(5) by (simp add: algebra_simps)
      have less: "W - (quo - 1) * dn < dn" using neg by (simp add: algebra_simps)
      have le0: "borrow + c \<le> 0"
      proof (rule ccontr)
        assume "\<not> borrow + c \<le> 0"
        then have "DIG_BASE ^ length den * 1 \<le> DIG_BASE ^ length den * (borrow + c)" by (intro mult_left_mono) auto
        then show False using eq less assms(4) dval_nonneg [OF o(2)] by linarith
      qed
      have "s32 (borrow + c) = borrow + c" "u32 (quo - 1) = quo - 1"
        using Suc.prems(6-9) o(5,6) q by (auto intro!: s32_id u32_id)
      then have e: "correct_loop (Suc fuel) s den borrow quo win = correct_loop fuel s den (borrow + c) (quo - 1) out"
        using False o(1) by simp
      obtain win' where "correct_loop fuel s den (borrow + c) (quo - 1) out = Some (W div dn, win')" "digs win'"
        "length win' = length den" "dval win' = W mod dn"
        by (rule Suc.IH [where win = out and borrow = "borrow + c" and quo = "quo - 1"])
          (use Suc.prems(3,6-) o(2,3,5,6) eq less le0 q in auto)
      then show ?thesis using e by (intro Suc.prems(1) [of win']) auto
    qed
  }
qed

text \<open>
  The estimate is at least the digit, and exceeds the base by one at most, so that its product
  with a digit fits in a double digit.
\<close>

lemma quo_bounds:
  fixes W dn lead P :: int
  assumes "0 < P" "lead = dn div P" "32768 \<le> lead" "0 \<le> W" "W < dn * DIG_BASE"
  shows "W - (W div P div lead) * dn < dn" "0 \<le> W div P div lead" "W div P div lead \<le> DIG_BASE + 1"
proof -
  have l: "0 < lead" using assms(3) by simp
  have le: "lead * P \<le> dn" using assms(1,2) by (metis div_mod_decomp_int le_add_same_cancel1 pos_mod_sign)
  have lt: "dn < (lead + 1) * P"
    using div_mod_decomp_int [of dn P] pos_mod_bound [OF assms(1), of dn] unfolding assms(2) distrib_right by linarith
  have dn: "0 < dn" using le l assms(1) by (metis mult_pos_pos order.strict_trans2)
  have q: "W div P div lead = W div (P * lead)" using l by (intro zdiv_zmult2_eq [symmetric]) auto
  have "W div dn \<le> W div (P * lead)"
    using le l assms(1,4) by (intro zdiv_mono2) (auto simp: mult.commute)
  then have "(W div dn) * dn \<le> (W div (P * lead)) * dn" using dn by (intro mult_right_mono) auto
  moreover have "W - (W div dn) * dn < dn" using pos_mod_bound [OF dn, of W] by (simp add: minus_div_mult_eq_mod)
  ultimately show "W - (W div P div lead) * dn < dn" unfolding q by linarith
  show "0 \<le> W div P div lead" using assms(1,4) l by (simp add: pos_imp_zdiv_nonneg_iff)
  have "W < ((lead + 1) * DIG_BASE) * P" using assms(5) lt by (simp add: algebra_simps)
  then have "W div P < (lead + 1) * DIG_BASE" using assms(1) by (intro div_less_if)
  also have "\<dots> \<le> (DIG_BASE + 2) * lead" using assms(3) by (simp add: algebra_simps)
  finally have "W div P div lead < DIG_BASE + 2" by (rule div_less_if [OF l])
  then show "W div P div lead \<le> DIG_BASE + 1" by simp
qed

text \<open>The facts about the denominator that stay the same during a division.\<close>

definition den_ok :: "nat \<Rightarrow> int \<Rightarrow> digits \<Rightarrow> int \<Rightarrow> bool" where
  "den_ok s lead den dn \<longleftrightarrow> s \<le> 15 \<and> digs den \<and> den \<noteq> [] \<and> dn = dval den * 2 ^ s
     \<and> dval (shifted s 0 den) = dn \<and> dn < DIG_BASE ^ length den \<and> lead = dn div DIG_BASE ^ (length den - 1) \<and> 32768 \<le> lead"

lemma den_ok_pos: "den_ok s lead den dn \<Longrightarrow> 0 < dn"
proof (rule ccontr)
  assume d: "den_ok s lead den dn" "\<not> 0 < dn"
  then have "dn div DIG_BASE ^ (length den - 1) \<le> 0" by (intro div_nonpos_pos_le0) auto
  moreover have "32768 \<le> dn div DIG_BASE ^ (length den - 1)" using d(1) unfolding den_ok_def by blast
  ultimately show False by linarith
qed

lemma div_step_spec:
  assumes "den_ok s lead den dn" "digs rm" "length rm = length den" "dval rm < dn" "0 \<le> a" "a < DIG_BASE"
  obtains q rm' where "div_step s lead den a rm = Some (q, rm')" "0 \<le> q" "q < DIG_BASE" "digs rm'" "length rm' = length den"
    "dval rm' < dn" "a + DIG_BASE * dval rm = q * dn + dval rm'"
proof -
  have dk: "s \<le> 15" "digs den" "den \<noteq> []" "dval (shifted s 0 den) = dn" "dn < DIG_BASE ^ length den"
    "lead = dn div DIG_BASE ^ (length den - 1)" "32768 \<le> lead" using assms(1) by (auto simp: den_ok_def)
  have dn: "0 < dn" by (rule den_ok_pos [OF assms(1)])
  define W where "W = a + DIG_BASE * dval rm"
  define P :: int where "P = DIG_BASE ^ (length den - 1)"
  have rm0: "0 \<le> dval rm" using dval_nonneg [OF assms(2)] .
  have W: "0 \<le> W" "W < dn * DIG_BASE" using rm0 assms(4-6) by (simp_all add: W_def)
  obtain low top where rmt: "rm = low @ [top]" using assms(3) dk(3) by (cases rm rule: rev_cases) auto
  have top: "0 \<le> top" "top < DIG_BASE" using assms(2) by (simp_all add: rmt)
  define lo where "lo = a # low"
  have lo: "length lo = length den" "digs lo" "W = dval lo + DIG_BASE ^ length den * top" "butlast (a # rm) = lo" "last (a # rm) = top"
  proof -
    show len: "length lo = length den" using assms(3) by (simp add: lo_def rmt)
    show "digs lo" using assms(2,5,6) by (simp add: lo_def rmt)
    show "W = dval lo + DIG_BASE ^ length den * top" unfolding len [symmetric] by (simp add: lo_def W_def rmt dval_append algebra_simps)
    show "butlast (a # rm) = lo" "last (a # rm) = top" by (simp_all add: lo_def rmt)
  qed
  obtain lo' s2 where l2: "lo = lo' @ [s2]" using lo(1) dk(3) by (cases lo rule: rev_cases) auto
  have s2: "0 \<le> s2" "s2 < DIG_BASE" "(a # rm) ! (length (a # rm) - 2) = s2"
  proof -
    show "0 \<le> s2" "s2 < DIG_BASE" using lo(2) by (simp_all add: l2)
    have "a # rm = (lo' @ [s2]) @ [top]" using rmt lo_def l2 by simp
    then show "(a # rm) ! (length (a # rm) - 2) = s2" by (simp only: nth_append) simp
  qed
  have WP: "W div P = top * DIG_BASE + s2"
  proof -
    have le: "length lo' = length den - 1" "DIG_BASE ^ length den = P * DIG_BASE"
      using lo(1) l2 dk(3) by (auto simp: P_def) (metis One_nat_def Suc_pred length_greater_0_conv power_Suc mult.commute)
    have "W = dval lo' + P * (s2 + DIG_BASE * top)"
      unfolding lo(3) l2 le(2) using le(1) by (simp add: dval_append P_def algebra_simps)
    moreover have "0 \<le> dval lo'" "dval lo' < P" using dval_nonneg [of lo'] dval_less [of lo'] lo(2) le(1) by (simp_all add: l2 P_def)
    ultimately show ?thesis by simp
  qed
  define quo where "quo = W div P div lead"
  have quo: "W - quo * dn < dn" "0 \<le> quo" "quo \<le> DIG_BASE + 1"
    using quo_bounds [of P lead dn W] dk(6,7) W by (simp_all add: quo_def P_def)
  have qe: "((top * DIG_BASE) OR s2) div lead = quo" using or_base_add [OF s2(1,2)] by (simp add: quo_def WP)
  obtain win b where ms: "mul_sub_loop s quo 0 0 den lo = (win, b)" "digs win" "length win = length lo"
    "dval win + DIG_BASE ^ length lo * b = 0 + dval lo - quo * dval (shifted s (0 div DIG_BASE) den)"
    "- 2 * DIG_BASE \<le> b" "b \<le> DIG_BASE"
    by (rule mul_sub_loop_spec [OF dk(1,2) lo(2), of quo 0 0]) (use lo(1) quo in auto)
  have eq: "dval win + DIG_BASE ^ length den * (b + top) = W - quo * dn"
    using ms(4) lo(1,3) dk(4) by (simp add: algebra_simps)
  have le0: "b + top \<le> 0"
  proof (rule ccontr)
    assume "\<not> b + top \<le> 0"
    then have "DIG_BASE ^ length den * 1 \<le> DIG_BASE ^ length den * (b + top)" by (intro mult_left_mono) auto
    then show False using eq quo(1) dk(5) dval_nonneg [OF ms(2)] by linarith
  qed
  have s: "s32 (b + top) = b + top" using ms(5,6) top by (intro s32_id) auto
  obtain win' where c: "correct_loop (nat quo) s den (b + top) quo win = Some (W div dn, win')" "digs win'"
    "length win' = length den" "dval win' = W mod dn"
    by (rule correct_loop_spec [OF dk(1,2) dn dk(5,4) W(1) ms(2) _ eq quo(1) le0, of "nat quo"])
      (use ms lo quo top in auto)
  have q: "0 \<le> W div dn" "W div dn < DIG_BASE"
    using W dn by (simp add: pos_imp_zdiv_nonneg_iff, intro div_less_if) (auto simp: mult.commute)
  have "div_step s lead den a rm = Some (W div dn, win')"
    unfolding div_step_def Let_def lo(4,5) s2(3) qe using c(1) ms(1) s q by simp
  then show thesis
    by (rule that) (use q c dn in \<open>auto simp: W_def [symmetric] minus_mod_eq_div_mult [symmetric]\<close>)
qed

section \<open>The whole division\<close>

lemma div_loop_spec:
  assumes "den_ok s lead den dn" "digs rm" "length rm = length den" "dval rm < dn" "digs as"
  obtains qs rm' where "div_loop s lead den rm as = Some (qs, rm')" "digs qs" "length qs = length as" "digs rm'"
    "length rm' = length den" "dval rm' < dn"
    "dval (rev as) + DIG_BASE ^ length as * dval rm = dval (rev qs) * dn + dval rm'"
  using assms(2-)
proof (induction "as" arbitrary: rm thesis)
  case Nil
  then show ?case by (intro Nil(1) [of "[]" rm]) auto
next
  case (Cons a as)
  obtain q rm1 where st: "div_step s lead den a rm = Some (q, rm1)" "0 \<le> q" "q < DIG_BASE" "digs rm1" "length rm1 = length den"
    "dval rm1 < dn" "a + DIG_BASE * dval rm = q * dn + dval rm1"
    by (rule div_step_spec [OF assms(1) Cons.prems(2-4), of a]) (use Cons.prems(5) in auto)
  obtain qs rm' where IH: "div_loop s lead den rm1 as = Some (qs, rm')" "digs qs" "length qs = length as" "digs rm'"
    "length rm' = length den" "dval rm' < dn"
    "dval (rev as) + DIG_BASE ^ length as * dval rm1 = dval (rev qs) * dn + dval rm'"
    by (rule Cons.IH [of rm1]) (use st Cons.prems(5) in auto)
  define M :: int where "M = DIG_BASE ^ length as"
  show ?case
  proof (rule Cons.prems(1))
    show "div_loop s lead den rm (a # as) = Some (q # qs, rm')" using st(1) IH(1) by simp
    have "dval (rev (a # as)) + DIG_BASE ^ length (a # as) * dval rm = dval (rev as) + M * (a + DIG_BASE * dval rm)"
      by (simp add: dval_append M_def algebra_simps)
    also have "\<dots> = (dval (rev qs) + M * q) * dn + dval rm'"
      unfolding st(7) using IH(7) by (simp add: M_def algebra_simps)
    also have "\<dots> = dval (rev (q # qs)) * dn + dval rm'" using IH(3) by (simp add: dval_append M_def)
    finally show "dval (rev (a # as)) + DIG_BASE ^ length (a # as) * dval rm = dval (rev (q # qs)) * dn + dval rm'" .
  qed (use st IH in auto)
qed

lemma unnorm_loop_spec:
  assumes "s \<le> 15" "digs ns" "0 \<le> p" "p < DIG_BASE"
  shows "digs (unnorm_loop s (u16 (p * 2 ^ (16 - s))) ns) \<and> length (unnorm_loop s (u16 (p * 2 ^ (16 - s))) ns) = length ns
    \<and> dval (rev (unnorm_loop s (u16 (p * 2 ^ (16 - s))) ns)) = ((p mod 2 ^ s) * DIG_BASE ^ length ns + dval (rev ns)) div 2 ^ s"
  using assms(2-)
proof (induction ns arbitrary: p)
  case Nil
  then show ?case by simp
next
  case (Cons n ns)
  define t q M :: int where "t = 2 ^ s" and "q = 2 ^ (16 - s)" and "M = DIG_BASE ^ length ns"
  have B: "DIG_BASE = t * q" unfolding q_def t_def using base_split [of s] assms(1) by simp
  have pos: "0 < t" "0 < q" "0 < M" by (simp_all add: t_def q_def M_def)
  define pm where "pm = p mod t"
  have pm: "0 \<le> pm" "pm < t" using pos by (simp_all add: pm_def)
  have "u16 (p * q) = pm * q"
    unfolding u16_def pm_def B by (simp add: mult.commute [of _ q] mod_mult_mult1)
  then have u: "u16 (p * 2 ^ (16 - s)) = pm * q" by (simp add: q_def)
  have n: "0 \<le> n" "n < DIG_BASE" using Cons.prems by simp_all
  have nt: "0 \<le> n div t" "n div t < q" using n pos B by (simp_all add: pos_imp_zdiv_nonneg_iff div_less_if mult.commute)
  have "(n div t) OR (pm * q) = pm * q + n div t"
    using or_disjoint_add [of "n div t" "16 - s" pm] nt by (simp add: q_def or.commute)
  moreover have "pm * q + n div t < DIG_BASE"
  proof -
    have "pm * q \<le> (t - 1) * q" using pm pos by (intro mult_right_mono) auto
    then show ?thesis using nt(2) B by (simp add: algebra_simps)
  qed
  ultimately have x: "((n div 2 ^ s) OR u16 (p * 2 ^ (16 - s))) mod DIG_BASE = pm * q + n div t"
    using u pm nt pos by (simp add: t_def)
  have IH: "digs (unnorm_loop s (u16 (n * 2 ^ (16 - s))) ns)" "length (unnorm_loop s (u16 (n * 2 ^ (16 - s))) ns) = length ns"
    "dval (rev (unnorm_loop s (u16 (n * 2 ^ (16 - s))) ns)) = ((n mod t) * M + dval (rev ns)) div t"
    using Cons.IH [of n] Cons.prems n by (simp_all add: t_def M_def)
  have "((pm * DIG_BASE + n) * M + dval (rev ns)) div t = ((n mod t) * M + dval (rev ns)) div t + M * (pm * q + n div t)"
  proof -
    have "(pm * DIG_BASE + n) * M + dval (rev ns) = ((n mod t) * M + dval (rev ns)) + t * (M * (pm * q + n div t))"
    proof -
      have "n = n mod t + t * (n div t)" by simp
      then show ?thesis using B by (metis (no_types, opaque_lifting) add.assoc add.commute distrib_left distrib_right mult.assoc mult.commute)
    qed
    then show ?thesis using pos by (metis add.commute div_mult_self2 less_irrefl)
  qed
  moreover have "(p mod 2 ^ s) * DIG_BASE ^ length (n # ns) + dval (rev (n # ns)) = (pm * DIG_BASE + n) * M + dval (rev ns)"
    by (simp add: pm_def t_def M_def dval_append algebra_simps)
  ultimately have v: "((p mod 2 ^ s) * DIG_BASE ^ length (n # ns) + dval (rev (n # ns))) div 2 ^ s
      = ((n mod t) * M + dval (rev ns)) div t + M * (pm * q + n div t)" by (simp only: t_def)
  have e: "unnorm_loop s (u16 (p * 2 ^ (16 - s))) (n # ns) = (pm * q + n div t) # unnorm_loop s (u16 (n * 2 ^ (16 - s))) ns"
    using x by simp
  show ?case
    unfolding e v using IH pm nt pos \<open>pm * q + n div t < DIG_BASE\<close> by (simp add: dval_append M_def)
qed

lemma den_ok_intro:
  assumes "digs den" "normd den" "den \<noteq> []"
  obtains s where "norm_shift_loop 17 (last den) = Some s"
    "den_ok s (lead_digit s den) den (dval den * 2 ^ s)"
proof -
  have dl: "0 < last den" "last den < DIG_BASE"
  proof -
    have "last den \<in> set den" using assms(3) by simp
    then have "0 \<le> last den" "last den < DIG_BASE" using assms(1) by (auto simp: digs_def)
    moreover have "last den \<noteq> 0" using assms(2,3) by (simp add: normd_def)
    ultimately show "0 < last den" "last den < DIG_BASE" by auto
  qed
  obtain s where s: "norm_shift_loop (Suc 16) (last den) = Some s" "s \<le> 16" "2 ^ 15 \<le> last den * 2 ^ s" "last den * 2 ^ s < DIG_BASE"
    by (rule norm_shift_loop_spec [OF dl, of 16]) (use dl in auto)
  have "s \<noteq> 16" using s(4) dl by auto
  then have s15: "s \<le> 15" using s(2) by simp
  define n where "n = length den - 1"
  define P :: int where "P = DIG_BASE ^ n"
  obtain xs where den: "den = xs @ [last den]" using assms(3) by (metis append_butlast_last_id)
  have len: "length den = Suc n" "length xs = n" using den assms(3) by (auto simp: n_def) (metis length_append_singleton Suc_inject One_nat_def Suc_pred length_greater_0_conv)
  have v: "dval den = dval xs + P * last den" using dval_snoc [of xs "last den"] den len by (simp add: P_def)
  have x: "0 \<le> dval xs" "dval xs < P" using dval_nonneg [of xs] dval_less [of xs] assms(1) den len by (metis digs_simps(3), metis P_def digs_simps(3))
  have up: "dval den * 2 ^ s < DIG_BASE ^ length den"
  proof -
    define e :: int where "e = 2 ^ s"
    have e: "0 < e" "last den * e < DIG_BASE" using s(4) by (simp_all add: e_def)
    have "e dvd DIG_BASE" using base_split [of s] s(2) unfolding e_def by (metis dvd_triv_left)
    then obtain k where k: "DIG_BASE = e * k" by blast
    have "last den < k" using e k by (metis mult.commute mult_less_cancel_left_pos)
    then have "last den + 1 \<le> k" by simp
    then have "P * (last den + 1) * e \<le> P * k * e" using e by (intro mult_right_mono mult_left_mono) (auto simp: P_def)
    moreover have "dval den * e < P * (last den + 1) * e" using v x e by (simp add: algebra_simps)
    ultimately have "dval den * e < P * DIG_BASE" by (simp add: k mult.assoc mult.commute [of e])
    then show ?thesis unfolding e_def len(1) by (simp add: P_def mult.commute)
  qed
  have v0: "0 \<le> dval den * 2 ^ s" using dval_nonneg [OF assms(1)] by simp
  have lead: "lead_digit s den = (dval den * 2 ^ s) div P" using lead_digit_spec [OF s15 assms(1,3) s(4)] by (simp add: P_def n_def)
  have "(2 ^ 15 * P) div P \<le> (dval den * 2 ^ s) div P"
  proof (rule zdiv_mono1)
    have "2 ^ 15 * P \<le> (last den * 2 ^ s) * P" using s(3) by (intro mult_right_mono) (auto simp: P_def)
    also have "\<dots> \<le> dval den * 2 ^ s" unfolding v using x by (simp add: algebra_simps)
    finally show "2 ^ 15 * P \<le> dval den * 2 ^ s" .
  qed (simp add: P_def)
  then have "32768 \<le> lead_digit s den" unfolding lead by (simp add: P_def)
  then have "den_ok s (lead_digit s den) den (dval den * 2 ^ s)"
    using s15 assms up v0 lead shifted_spec(3) [of s 0 den] by (simp add: den_ok_def P_def n_def)
  moreover have "norm_shift_loop 17 (last den) = Some s" using s(1) by (simp add: eval_nat_numeral)
  ultimately show thesis using that by blast
qed

lemma mpn_div_spec:
  assumes "digs num" "normd num" "digs den" "normd den" "den \<noteq> []"
  obtains rm rl quo ql where "mpn_div num den = Some (rm, rl, quo, ql)"
    "digs rm" "length rm \<le> length num" "rl \<le> length rm" "normd (take rl rm)" "dval (take rl rm) = dval num mod dval den"
    "digs quo" "length quo \<le> length num" "ql \<le> length quo" "normd (take ql quo)" "dval (take ql quo) = dval num div dval den"
proof -
  have cmp: "mpn_cmp num den = sgn (dval num - dval den)" using mpn_cmp_correct assms by simp
  have den0: "0 < dval den" using dval_pos assms by simp
  have num0: "0 \<le> dval num" using dval_nonneg assms by simp
  consider (eq) "dval num = dval den" | (lt) "dval num < dval den" | (gt) "dval den < dval num" by linarith
  then show thesis
  proof cases
    case eq
    have "num \<noteq> []" using eq den0 by auto
    then have "1 \<le> length num" by (cases num) auto
    then show ?thesis using eq cmp den0 assms by (intro that [of num 0 "[1]" 1]) (auto simp: mpn_div_def normd_def)
  next
    case lt
    then show ?thesis using cmp num0 assms by (intro that [of num "length num" "[]" 0]) (auto simp: mpn_div_def normd_def)
  next
    case gt
    obtain s where s: "norm_shift_loop 17 (last den) = Some s" "den_ok s (lead_digit s den) den (dval den * 2 ^ s)"
      using den_ok_intro [OF assms(3-5)] .
    have s15: "s \<le> 15" using s(2) by (simp add: den_ok_def)
    define dn where "dn = dval den * 2 ^ s"
    define N where "N = norm_num_loop s 0 (num @ [0])"
    have len: "length den \<le> length num"
      using gt normd_length_less [OF assms(1-4)] by linarith
    define ql where "ql = length num + 1 - length den"
    have "dval num * 2 ^ s < DIG_BASE ^ length num * 2 ^ s" using dval_less [OF assms(1)] by simp
    also have "\<dots> \<le> DIG_BASE ^ length num * 2 ^ 16" using s15 by (intro mult_left_mono power_increasing) auto
    finally have small: "dval num * 2 ^ s < DIG_BASE ^ (length num + 1)" by (simp add: mult.commute)
    have Ns: "N = shifted s 0 (num @ [0])" unfolding N_def using assms(1) s15 by (intro norm_num_loop_eq) auto
    have N: "length N = length num + 1" "digs N" "dval N = dval num * 2 ^ s"
      using shifted_spec [of s 0 "num @ [0]"] small num0 unfolding Ns by (simp_all add: dval_append)
    have ld: "length (drop ql N) = length den" "digs (drop ql N)" "digs (rev (take ql N))" "length (take ql N) = ql"
      using N len by (auto simp: ql_def digs_drop digs_take)
    have split: "dval N = dval (take ql N) + DIG_BASE ^ ql * dval (drop ql N)"
      using dval_append [of "take ql N" "drop ql N"] ld(4) by simp
    have less: "dval (drop ql N) < dn"
    proof -
      have "DIG_BASE ^ ql * dval (drop ql N) \<le> dval num * 2 ^ s" using split N(3) dval_nonneg [of "take ql N"] N(2) digs_take by simp
      also have "\<dots> < DIG_BASE ^ length num * 2 ^ s" using dval_less [OF assms(1)] by simp
      also have "(DIG_BASE :: int) ^ length num = DIG_BASE ^ ql * DIG_BASE ^ (length den - 1)"
      proof -
        have "length num = ql + (length den - 1)" using len assms(5) by (cases den) (auto simp: ql_def)
        then show ?thesis by (simp only: power_add)
      qed
      finally have "DIG_BASE ^ ql * dval (drop ql N) < DIG_BASE ^ ql * (DIG_BASE ^ (length den - 1) * 2 ^ s)"
        by (simp only: mult.assoc)
      then have "dval (drop ql N) < DIG_BASE ^ (length den - 1) * 2 ^ s"
        by (rule mult_left_less_imp_less) simp
      also have "\<dots> \<le> dn" unfolding dn_def using dval_ge [OF assms(3,5)] assms(4,5) by (intro mult_right_mono) (auto simp: normd_def)
      finally show ?thesis .
    qed
    obtain qs rm' where dl: "div_loop s (lead_digit s den) den (drop ql N) (rev (take ql N)) = Some (qs, rm')" "digs qs"
      "length qs = length (rev (take ql N))" "digs rm'" "length rm' = length den" "dval rm' < dn"
      "dval (rev (rev (take ql N))) + DIG_BASE ^ length (rev (take ql N)) * dval (drop ql N) = dval (rev qs) * dn + dval rm'"
      by (rule div_loop_spec [OF s(2)[folded dn_def] ld(2,1) less ld(3)])
    have eqn: "dval num * 2 ^ s = dval (rev qs) * dn + dval rm'" using dl(7) split N(3) ld(4) by simp
    define rm where "rm = rev (unnorm_loop s 0 (rev rm'))"
    have rm: "digs rm" "length rm = length den" "dval rm = dval rm' div 2 ^ s"
      using unnorm_loop_spec [OF s15, of "rev rm'" 0] dl(4,5) by (simp_all add: rm_def u16_def)
    have rv: "dval rm' = (dval num - dval (rev qs) * dval den) * 2 ^ s" using eqn by (simp add: dn_def algebra_simps)
    then have r: "dval rm = dval num - dval (rev qs) * dval den" using rm(3) by simp
    have "0 \<le> dval rm" "dval rm < dval den" using dval_nonneg [OF rm(1)] dl(6) rv r by (simp_all add: dn_def)
    moreover have dv: "dval num = dval (rev qs) * dval den + dval rm" using r by simp
    ultimately have res: "dval num div dval den = dval (rev qs)" "dval num mod dval den = dval rm"
      by (auto intro!: int_div_pos_eq int_mod_pos_eq simp: mult.commute)
    have "mpn_div num den = Some (rm, mpn_remove_trailing_zeros rm, rev qs, mpn_remove_trailing_zeros (rev qs))"
      using gt cmp s(1) dl(1) N(1) assms(5) by (simp add: mpn_div_def Let_def N_def [symmetric] rm_def ql_def)
    moreover have "length (rev qs) \<le> length num" using dl(3) ld(4) assms(5) by (cases den) (auto simp: ql_def)
    ultimately show ?thesis
      using rm dl(2) len strip_facts [of rm] strip_facts [of "rev qs"] res by (intro that) auto
  qed
qed

end
