(* ===== verification/Mpz.thy ===== *)
theory Mpz
  imports MpnBits MpnDiv
begin

text \<open>
  The arbitrary-precision integers of \<open>py/mpz.c\<close>: sign, digits and the size of the digit
  buffer.  Only the first \<open>len\<close> digits of a buffer are ever read, so an \<open>mpz_t\<close> keeps those as
  a list, and the number of digits allocated; every store of digits is checked against it.

  Operands and destinations are addresses of a store, because the operations may be given the
  same number twice or be asked to write over an operand.  \<open>Obj\<close> is a number of the caller,
  \<open>Loc\<close> a number a function makes for itself.  \<open>None\<close> is a failed assertion, a store outside
  the digit buffer or a loop that does not end.  A request for memory is taken to be granted;
  if it is not, \<open>m_renew\<close> leaves through an exception.

  Shown here: each operation leaves the exact result in its destination, for every way its
  arguments may coincide, keeps the representation well formed and changes no other number.
\<close>

unbundle bit_operations_syntax

section \<open>Numbers\<close>

record mpz =
  z_neg :: bool
  z_fixed :: bool
  z_alloc :: nat
  z_dig :: digits

datatype zaddr = Obj nat | Loc nat

type_synonym zstore = "zaddr \<Rightarrow> mpz"

abbreviation z_len :: "mpz \<Rightarrow> nat" where
  "z_len z \<equiv> length (z_dig z)"

definition zval :: "mpz \<Rightarrow> int" where
  "zval z = sval (z_neg z) (dval (z_dig z))"

text \<open>Zero has no digits and no sign; no leading zeros.\<close>

definition mpz_ok :: "mpz \<Rightarrow> bool" where
  "mpz_ok z \<longleftrightarrow> z_len z \<le> z_alloc z \<and> digs (z_dig z) \<and> normd (z_dig z) \<and> (z_neg z \<longrightarrow> z_dig z \<noteq> [])"

definition mpz_is_zero :: "mpz \<Rightarrow> bool" where
  "mpz_is_zero z = (z_len z = 0)"

definition mpz_is_neg :: "mpz \<Rightarrow> bool" where
  "mpz_is_neg z = z_neg z"

definition mpz_max_num_bits :: "mpz \<Rightarrow> nat" where
  "mpz_max_num_bits z = z_len z * DIG_SIZE"

section \<open>Memory and conversions\<close>

abbreviation (input) MIN_ALLOC :: nat where
  "MIN_ALLOC \<equiv> 2"

abbreviation (input) MPZ_NUM_DIG_FOR_INT :: nat where
  "MPZ_NUM_DIG_FOR_INT \<equiv> 2"

abbreviation (input) MPZ_NUM_DIG_FOR_LL :: nat where
  "MPZ_NUM_DIG_FOR_LL \<equiv> 4"

definition mpz_init_zero :: mpz where
  "mpz_init_zero = \<lparr>z_neg = False, z_fixed = False, z_alloc = 0, z_dig = []\<rparr>"

definition mpz_need_dig :: "zstore \<Rightarrow> zaddr \<Rightarrow> nat \<Rightarrow> zstore option" where
  "mpz_need_dig st z need =
     (let need = (if need < MIN_ALLOC then MIN_ALLOC else need) in
      if z_alloc (st z) < need
      then (if z_fixed (st z) then None else Some (st(z := (st z)\<lparr>z_alloc := need\<rparr>)))
      else Some st)"

text \<open>Storing the digits \<open>w\<close> from the start of the buffer and setting the length.\<close>

definition put_dig :: "zstore \<Rightarrow> zaddr \<Rightarrow> digits \<times> nat \<Rightarrow> zstore option" where
  "put_dig st z wn = (case wn of (w, n) \<Rightarrow>
     if length w \<le> z_alloc (st z) \<and> n \<le> length w then Some (st(z := (st z)\<lparr>z_dig := take n w\<rparr>)) else None)"

definition set_neg :: "zstore \<Rightarrow> zaddr \<Rightarrow> bool \<Rightarrow> zstore" where
  "set_neg st z neg = st(z := (st z)\<lparr>z_neg := neg\<rparr>)"

definition mpz_clone :: "mpz \<Rightarrow> mpz option" where
  "mpz_clone src = (if z_alloc src = 0 then None else Some (src\<lparr>z_fixed := False\<rparr>))"

definition mpz_set :: "zstore \<Rightarrow> zaddr \<Rightarrow> zaddr \<Rightarrow> zstore option" where
  "mpz_set st dest src = do {
     st \<leftarrow> mpz_need_dig st dest (z_len (st src));
     let neg = z_neg (st src);
     let st = set_neg st dest neg;
     put_dig st dest (z_dig (st src), z_len (st src))
   }"

function uint_digits :: "int \<Rightarrow> digits" where
  "uint_digits uval = (if uval > 0 then uval mod DIG_BASE # uint_digits (uval div DIG_BASE) else [])"
  by auto
termination
  by (relation "measure nat") (auto simp: nat_less_iff)

declare uint_digits.simps [simp del]

definition mpz_set_from_int :: "zstore \<Rightarrow> zaddr \<Rightarrow> int \<Rightarrow> zstore option" where
  "mpz_set_from_int st z val =
     (if val = 0 then Some (st(z := (st z)\<lparr>z_neg := False, z_dig := []\<rparr>))
      else do {
        st \<leftarrow> mpz_need_dig st z MPZ_NUM_DIG_FOR_INT;
        let (neg, uval) = (if val < 0 then (True, u32 (- val)) else (False, val));
        let w = uint_digits uval;
        put_dig (set_neg st z neg) z (w, length w)
      })"

definition u64 :: "int \<Rightarrow> int" where
  "u64 x = x mod 18446744073709551616"

definition mpz_set_from_ll :: "zstore \<Rightarrow> zaddr \<Rightarrow> int \<Rightarrow> bool \<Rightarrow> zstore option" where
  "mpz_set_from_ll st z val is_signed = do {
     st \<leftarrow> mpz_need_dig st z MPZ_NUM_DIG_FOR_LL;
     let (neg, uval) = (if is_signed \<and> val < 0 then (True, u64 (- u64 val)) else (False, u64 val));
     let w = uint_digits uval;
     put_dig (set_neg st z neg) z (w, length w)
   }"

definition mpz_init_from_int :: "zstore \<Rightarrow> zaddr \<Rightarrow> int \<Rightarrow> zstore option" where
  "mpz_init_from_int st z val = mpz_set_from_int (st(z := mpz_init_zero)) z val"

definition mpz_init_fixed_from_int :: "zstore \<Rightarrow> zaddr \<Rightarrow> nat \<Rightarrow> int \<Rightarrow> zstore option" where
  "mpz_init_fixed_from_int st z alloc val =
     mpz_set_from_int (st(z := \<lparr>z_neg = False, z_fixed = True, z_alloc = alloc, z_dig = []\<rparr>)) z val"

section \<open>Arithmetic\<close>

definition mpz_cmp :: "mpz \<Rightarrow> mpz \<Rightarrow> int" where
  "mpz_cmp z1 z2 =
     (let cmp = of_bool (z_neg z2) - of_bool (z_neg z1) in
      if cmp \<noteq> 0 then cmp
      else let cmp = mpn_cmp (z_dig z1) (z_dig z2) in if z_neg z1 then - cmp else cmp)"

definition mpz_abs_inpl :: "zstore \<Rightarrow> zaddr \<Rightarrow> zaddr \<Rightarrow> zstore option" where
  "mpz_abs_inpl st dest z = do {
     st \<leftarrow> (if dest \<noteq> z then mpz_set st dest z else Some st);
     Some (set_neg st dest False)
   }"

definition mpz_neg_inpl :: "zstore \<Rightarrow> zaddr \<Rightarrow> zaddr \<Rightarrow> zstore option" where
  "mpz_neg_inpl st dest z = do {
     st \<leftarrow> (if dest \<noteq> z then mpz_set st dest z else Some st);
     Some (if z_len (st dest) \<noteq> 0 then set_neg st dest (\<not> z_neg (st dest)) else st)
   }"

definition mpz_not_inpl :: "zstore \<Rightarrow> zaddr \<Rightarrow> zaddr \<Rightarrow> zstore option" where
  "mpz_not_inpl st dest z = do {
     st \<leftarrow> (if dest \<noteq> z then mpz_set st dest z else Some st);
     if z_len (st dest) = 0 then do {
       st \<leftarrow> mpz_need_dig st dest 1;
       st \<leftarrow> put_dig st dest ([1], 1);
       Some (set_neg st dest True)
     } else if z_neg (st dest) then do {
       w \<leftarrow> mpn_sub (z_dig (st dest)) [1];
       put_dig (set_neg st dest False) dest w
     } else do {
       st \<leftarrow> mpz_need_dig st dest (z_len (st dest) + 1);
       w \<leftarrow> mpn_add (z_dig (st dest)) [1];
       st \<leftarrow> put_dig st dest w;
       Some (set_neg st dest True)
     }
   }"

definition mpz_shl_inpl :: "zstore \<Rightarrow> zaddr \<Rightarrow> zaddr \<Rightarrow> nat \<Rightarrow> zstore option" where
  "mpz_shl_inpl st dest lhs rhs =
     (if z_len (st lhs) = 0 \<or> rhs = 0 then mpz_set st dest lhs
      else do {
        st \<leftarrow> mpz_need_dig st dest (z_len (st lhs) + shl_whole rhs);
        let neg = z_neg (st lhs);
        w \<leftarrow> mpn_shl (z_dig (st lhs)) rhs;
        st \<leftarrow> put_dig st dest w;
        Some (set_neg st dest neg)
      })"

text \<open>
  The digits of \<open>lhs\<close> that the rounding reads: when \<open>dest\<close> is \<open>lhs\<close> they are the ones the shift
  has just written, with the length it returned.
\<close>

definition round_up_needed :: "digits \<Rightarrow> nat \<Rightarrow> bool" where
  "round_up_needed ds rhs =
     (let n_whole = rhs div DIG_SIZE; n_part = rhs mod DIG_SIZE in
      (\<exists>d \<in> set (take n_whole ds). d \<noteq> 0)
      \<or> n_whole < length ds \<and> (ds ! n_whole) AND (2 ^ n_part - 1) \<noteq> 0)"

definition mpz_shr_inpl :: "zstore \<Rightarrow> zaddr \<Rightarrow> zaddr \<Rightarrow> nat \<Rightarrow> zstore option" where
  "mpz_shr_inpl st dest lhs rhs =
     (if z_len (st lhs) = 0 \<or> rhs = 0 then mpz_set st dest lhs
      else do {
        st \<leftarrow> mpz_need_dig st dest (z_len (st lhs));
        st \<leftarrow> put_dig st dest (mpn_shr (z_dig (st lhs)) rhs);
        let st = set_neg st dest (z_neg (st lhs));
        if z_neg (st dest) \<and> round_up_needed (z_dig (st lhs)) rhs then
          (if z_len (st dest) = 0 then put_dig st dest ([1], 1)
           else do {
             w \<leftarrow> mpn_add (z_dig (st dest)) [1];
             put_dig st dest w
           })
        else Some st
      })"

definition mpz_add_inpl :: "zstore \<Rightarrow> zaddr \<Rightarrow> zaddr \<Rightarrow> zaddr \<Rightarrow> zstore option" where
  "mpz_add_inpl st dest lhs rhs =
     (let (lhs, rhs) = (if mpn_cmp (z_dig (st lhs)) (z_dig (st rhs)) < 0 then (rhs, lhs) else (lhs, rhs)) in do {
        st \<leftarrow> (if z_neg (st lhs) = z_neg (st rhs) then do {
            st \<leftarrow> mpz_need_dig st dest (z_len (st lhs) + 1);
            w \<leftarrow> mpn_add (z_dig (st lhs)) (z_dig (st rhs));
            put_dig st dest w
          } else do {
            st \<leftarrow> mpz_need_dig st dest (z_len (st lhs));
            w \<leftarrow> mpn_sub (z_dig (st lhs)) (z_dig (st rhs));
            put_dig st dest w
          });
        Some (set_neg st dest (z_neg (st lhs) \<and> z_len (st dest) \<noteq> 0))
      })"

definition mpz_sub_inpl :: "zstore \<Rightarrow> zaddr \<Rightarrow> zaddr \<Rightarrow> zaddr \<Rightarrow> zstore option" where
  "mpz_sub_inpl st dest lhs rhs =
     (let swap = mpn_cmp (z_dig (st lhs)) (z_dig (st rhs)) < 0;
          (lhs, rhs, neg) = (if swap then (rhs, lhs, True) else (lhs, rhs, False)) in do {
        st \<leftarrow> (if z_neg (st lhs) \<noteq> z_neg (st rhs) then do {
            st \<leftarrow> mpz_need_dig st dest (z_len (st lhs) + 1);
            w \<leftarrow> mpn_add (z_dig (st lhs)) (z_dig (st rhs));
            put_dig st dest w
          } else do {
            st \<leftarrow> mpz_need_dig st dest (z_len (st lhs));
            w \<leftarrow> mpn_sub (z_dig (st lhs)) (z_dig (st rhs));
            put_dig st dest w
          });
        Some (if z_len (st dest) = 0 then set_neg st dest False
              else if neg then set_neg st dest (\<not> z_neg (st lhs))
              else set_neg st dest (z_neg (st lhs)))
      })"

text \<open>The bitwise operations; the longer number goes first.\<close>

definition longer_first :: "zstore \<Rightarrow> zaddr \<Rightarrow> zaddr \<Rightarrow> zaddr \<times> zaddr" where
  "longer_first st lhs rhs = (if z_len (st lhs) < z_len (st rhs) then (rhs, lhs) else (lhs, rhs))"

definition mpz_and_inpl :: "zstore \<Rightarrow> zaddr \<Rightarrow> zaddr \<Rightarrow> zaddr \<Rightarrow> zstore option" where
  "mpz_and_inpl st dest lhs rhs =
     (let (lhs, rhs) = longer_first st lhs rhs in do {
        st \<leftarrow> mpz_need_dig st dest (z_len (st lhs) + of_bool (z_neg (st lhs) \<or> z_neg (st rhs)));
        let neg = (z_neg (st lhs) \<and> z_neg (st rhs));
        let carryi = (if z_neg (st lhs) = z_neg (st rhs) then of_bool (z_neg (st lhs)) else 0);
        st \<leftarrow> put_dig st dest (mpn_and_neg (z_dig (st lhs)) (z_dig (st rhs)) carryi
                                (of_bool (z_neg (st lhs))) (of_bool (z_neg (st rhs))));
        Some (set_neg st dest neg)
      })"

definition mpz_or_inpl :: "zstore \<Rightarrow> zaddr \<Rightarrow> zaddr \<Rightarrow> zaddr \<Rightarrow> zstore option" where
  "mpz_or_inpl st dest lhs rhs =
     (let (lhs, rhs) = longer_first st lhs rhs in do {
        st \<leftarrow> mpz_need_dig st dest (z_len (st lhs) + of_bool (z_neg (st lhs) \<or> z_neg (st rhs)));
        let neg = (z_neg (st lhs) \<or> z_neg (st rhs));
        w \<leftarrow> mpn_or_neg (z_dig (st lhs)) (z_dig (st rhs)) (of_bool (z_neg (st lhs) \<or> z_neg (st rhs)))
               (of_bool (z_neg (st lhs))) (of_bool (z_neg (st rhs)));
        st \<leftarrow> put_dig st dest w;
        Some (set_neg st dest neg)
      })"

definition mpz_xor_inpl :: "zstore \<Rightarrow> zaddr \<Rightarrow> zaddr \<Rightarrow> zaddr \<Rightarrow> zstore option" where
  "mpz_xor_inpl st dest lhs rhs =
     (let (lhs, rhs) = longer_first st lhs rhs in do {
        st \<leftarrow> mpz_need_dig st dest (z_len (st lhs) + of_bool (z_neg (st lhs) \<or> z_neg (st rhs)));
        let neg = (z_neg (st lhs) \<noteq> z_neg (st rhs));
        st \<leftarrow> put_dig st dest (mpn_xor_neg (z_dig (st lhs)) (z_dig (st rhs)) (of_bool (z_neg (st lhs) \<noteq> z_neg (st rhs)))
                                (of_bool (\<not> z_neg (st lhs))) (of_bool (\<not> z_neg (st rhs))));
        Some (set_neg st dest neg)
      })"

text \<open>An operand that is the destination is copied first.\<close>

definition mpz_mul_inpl :: "zstore \<Rightarrow> zaddr \<Rightarrow> zaddr \<Rightarrow> zaddr \<Rightarrow> zstore option" where
  "mpz_mul_inpl st dest lhs rhs =
     (if z_len (st lhs) = 0 \<or> z_len (st rhs) = 0 then mpz_set_from_int st dest 0
      else do {
        (zl, zr) \<leftarrow>
          (if lhs = dest then do {
             temp \<leftarrow> mpz_clone (st lhs);
             Some (temp, if rhs = dest then temp else st rhs)
           } else if rhs = dest then do {
             temp \<leftarrow> mpz_clone (st rhs);
             Some (st lhs, temp)
           } else Some (st lhs, st rhs));
        st \<leftarrow> mpz_need_dig st dest (z_len zl + z_len zr);
        w \<leftarrow> mpn_mul (replicate (z_alloc (st dest)) 0) (z_dig zl) (z_dig zr);
        st \<leftarrow> put_dig st dest w;
        Some (set_neg st dest (z_neg zl \<noteq> z_neg zr))
      })"

text \<open>
  Python's division: the quotient is rounded down and the remainder has the sign of \<open>rhs\<close>.
  \<open>mpzone\<close> is a number of the function's own.  First the end of the function, the signs.
\<close>

definition divmod_signs :: "zstore \<Rightarrow> zaddr \<Rightarrow> zaddr \<Rightarrow> zaddr \<Rightarrow> zaddr \<Rightarrow> zstore option" where
  "divmod_signs st dest_quo dest_rem lhs rhs =
     (if z_neg (st lhs) \<noteq> z_neg (st rhs) then
        let st = set_neg st dest_quo (z_len (st dest_quo) \<noteq> 0) in
        if \<not> mpz_is_zero (st dest_rem) then do {
          st \<leftarrow> mpz_init_from_int st (Loc 0) (- 1);
          st \<leftarrow> mpz_add_inpl st dest_quo dest_quo (Loc 0);
          mpz_add_inpl st dest_rem dest_rem rhs
        } else Some st
      else Some st)"

definition mpz_divmod_inpl :: "zstore \<Rightarrow> zaddr \<Rightarrow> zaddr \<Rightarrow> zaddr \<Rightarrow> zaddr \<Rightarrow> zstore option" where
  "mpz_divmod_inpl st dest_quo dest_rem lhs rhs =
     (if mpz_is_zero (st rhs) then None
      else do {
        st \<leftarrow> mpz_need_dig st dest_quo (z_len (st lhs) + 1);
        st \<leftarrow> Some (st(dest_quo := (st dest_quo)\<lparr>z_neg := False, z_dig := []\<rparr>));
        st \<leftarrow> mpz_need_dig st dest_rem (z_len (st lhs) + 1);
        st \<leftarrow> mpz_set st dest_rem lhs;
        (rm, rl, quo, ql) \<leftarrow> mpn_div (z_dig (st dest_rem)) (z_dig (st rhs));
        st \<leftarrow> (if z_len (st dest_rem) + 1 \<le> z_alloc (st dest_rem) then put_dig st dest_rem (rm, rl) else None);
        st \<leftarrow> put_dig st dest_quo (quo, ql);
        divmod_signs (set_neg st dest_rem (z_neg (st dest_rem) \<and> z_len (st dest_rem) \<noteq> 0)) dest_quo dest_rem lhs rhs
      })"

text \<open>
  The two power loops: square and multiply over the bits of \<open>n\<close>, from the lowest, with a step
  \<open>mul\<close> that multiplies the number at the first address by the one at the second.  They run at
  most once per bit of \<open>n\<close>.
\<close>

fun pow_loop :: "nat \<Rightarrow> (zstore \<Rightarrow> zaddr \<Rightarrow> zaddr \<Rightarrow> zstore option) \<Rightarrow> zstore \<Rightarrow> zaddr \<Rightarrow> zaddr \<Rightarrow> digits \<Rightarrow> zstore option" where
  "pow_loop 0 mul st dest x n = (if n = [] then Some st else None)"
| "pow_loop (Suc fuel) mul st dest x n =
     (case n of [] \<Rightarrow> Some st
      | n0 # _ \<Rightarrow> do {
          st \<leftarrow> (if n0 AND 1 \<noteq> 0 then mul st dest x else Some st);
          let (w, l) = mpn_shr n 1;
          let n = take l w;
          if l = 0 then Some st
          else do {
            st \<leftarrow> mul st x x;
            pow_loop fuel mul st dest x n
          }
        })"

definition mpz_pow_inpl :: "zstore \<Rightarrow> zaddr \<Rightarrow> zaddr \<Rightarrow> zaddr \<Rightarrow> zstore option" where
  "mpz_pow_inpl st dest lhs rhs =
     (if z_len (st lhs) = 0 \<or> z_neg (st rhs) then mpz_set_from_int st dest 0
      else if z_len (st rhs) = 0 then mpz_set_from_int st dest 1
      else do {
        x \<leftarrow> mpz_clone (st lhs);
        n \<leftarrow> mpz_clone (st rhs);
        let st = st(Loc 1 := x);
        st \<leftarrow> mpz_set_from_int st dest 1;
        pow_loop (DIG_SIZE * z_len n) (\<lambda>st d r. mpz_mul_inpl st d d r) st dest (Loc 1) (z_dig n)
      })"

definition mul_mod :: "zaddr \<Rightarrow> zstore \<Rightarrow> zaddr \<Rightarrow> zaddr \<Rightarrow> zstore option" where
  "mul_mod md st d r = do {
     st \<leftarrow> mpz_mul_inpl st d d r;
     mpz_divmod_inpl st (Loc 2) d d md
   }"

definition mpz_pow3_inpl :: "zstore \<Rightarrow> zaddr \<Rightarrow> zaddr \<Rightarrow> zaddr \<Rightarrow> zaddr \<Rightarrow> zstore option" where
  "mpz_pow3_inpl st dest lhs rhs md =
     (if z_len (st lhs) = 0 \<or> z_neg (st rhs) \<or> z_dig (st md) = [1] then mpz_set_from_int st dest 0
      else do {
        st \<leftarrow> mpz_set_from_int st dest 1;
        if z_len (st rhs) = 0 then Some st
        else do {
          x \<leftarrow> mpz_clone (st lhs);
          n \<leftarrow> mpz_clone (st rhs);
          let st = st(Loc 1 := x, Loc 2 := mpz_init_zero);
          pow_loop (DIG_SIZE * z_len n) (mul_mod md) st dest (Loc 1) (z_dig n)
        }
      })"

section \<open>Stores\<close>

definition grow :: "zstore \<Rightarrow> zaddr \<Rightarrow> nat \<Rightarrow> zstore" where
  "grow st d a = st(d := (st d)\<lparr>z_alloc := a\<rparr>)"

definition putz :: "zstore \<Rightarrow> zaddr \<Rightarrow> nat \<Rightarrow> digits \<Rightarrow> zstore" where
  "putz st d a ds = st(d := (st d)\<lparr>z_alloc := a, z_dig := ds\<rparr>)"

lemma grow_simps [simp]:
  "z_dig (grow st d a x) = z_dig (st x)" "z_neg (grow st d a x) = z_neg (st x)"
  "z_fixed (grow st d a x) = z_fixed (st x)" "z_alloc (grow st d a d) = a"
  by (simp_all add: grow_def)

lemma putz_simps [simp]:
  "z_neg (putz st d a ds x) = z_neg (st x)" "z_fixed (putz st d a ds x) = z_fixed (st x)"
  "z_alloc (putz st d a ds d) = a" "z_dig (putz st d a ds d) = ds" "x \<noteq> d \<Longrightarrow> putz st d a ds x = st x"
  by (simp_all add: putz_def)

lemma set_neg_simps [simp]:
  "z_dig (set_neg st d n x) = z_dig (st x)" "z_fixed (set_neg st d n x) = z_fixed (st x)"
  "z_alloc (set_neg st d n x) = z_alloc (st x)" "z_neg (set_neg st d n d) = n" "x \<noteq> d \<Longrightarrow> set_neg st d n x = st x"
  by (simp_all add: set_neg_def)

lemma need_dig_spec:
  assumes "\<not> z_fixed (st d)"
  obtains a where "mpz_need_dig st d n = Some (grow st d a)" "n \<le> a" "z_alloc (st d) \<le> a" "0 < a"
proof (cases "z_alloc (st d) < (if n < 2 then 2 else n)")
  case True
  then show thesis using assms by (intro that [of "if n < 2 then 2 else n"]) (auto simp: mpz_need_dig_def grow_def Let_def)
next
  case False
  then show thesis by (intro that [of "z_alloc (st d)"]) (auto simp: mpz_need_dig_def grow_def Let_def split: if_splits)
qed

lemma put_grow:
  "length w \<le> a \<Longrightarrow> l \<le> length w \<Longrightarrow> put_dig (grow st d a) d (w, l) = Some (putz st d a (take l w))"
  by (simp add: put_dig_def grow_def putz_def)

lemma put_putz:
  "length w \<le> a \<Longrightarrow> l \<le> length w \<Longrightarrow> put_dig (putz st d a ds) d (w, l) = Some (putz st d a (take l w))"
  by (simp add: put_dig_def putz_def)

lemma grow_id: "putz st d (z_alloc (st d)) (z_dig (st d)) = st" "grow st d (z_alloc (st d)) = st"
  by (simp_all add: putz_def grow_def)

lemma grow_putz: "grow st d a = putz st d a (z_dig (st d))"
  by (simp add: putz_def grow_def)

lemma putz_putz [simp]: "putz (putz st d a ds) d a' ds' = putz st d a' ds'"
  by (simp add: putz_def)

lemma put_set_neg: "put_dig (set_neg st d n) d wl = map_option (\<lambda>st. set_neg st d n) (put_dig st d wl)"
  by (auto simp: put_dig_def set_neg_def split: prod.split)

lemma set_neg_twice [simp]: "set_neg (set_neg st d m) d n = set_neg st d n"
  by (simp add: set_neg_def)

lemma putz_set_neg: "putz (set_neg st d n) d a ds = set_neg (putz st d a ds) d n"
  by (auto simp: putz_def set_neg_def intro!: ext)

text \<open>The destination holds the value, in a well-formed way, and nothing else has changed.\<close>

definition becomes :: "zstore \<Rightarrow> zaddr \<Rightarrow> int \<Rightarrow> zstore \<Rightarrow> bool" where
  "becomes st d v st' \<longleftrightarrow> (\<exists>z. st' = st(d := z) \<and> mpz_ok z \<and> \<not> z_fixed z \<and> zval z = v)"

lemma becomesI:
  assumes "\<not> z_fixed (st d)" "length ds \<le> a" "digs ds" "normd ds" "n \<Longrightarrow> ds \<noteq> []" "sval n (dval ds) = v"
  shows "becomes st d v (set_neg (putz st d a ds) d n)"
  unfolding becomes_def
  by (rule exI [of _ "(st d)\<lparr>z_alloc := a, z_dig := ds, z_neg := n\<rparr>"])
    (use assms in \<open>auto simp: set_neg_def putz_def mpz_ok_def zval_def\<close>)

lemma becomesD:
  assumes "becomes st d v st'"
  shows "mpz_ok (st' d)" "\<not> z_fixed (st' d)" "zval (st' d) = v" "x \<noteq> d \<Longrightarrow> st' x = st x"
  using assms by (auto simp: becomes_def)

lemma okD:
  assumes "mpz_ok z"
  shows "z_len z \<le> z_alloc z" "digs (z_dig z)" "normd (z_dig z)" "z_neg z \<Longrightarrow> 0 < dval (z_dig z)" "0 \<le> dval (z_dig z)"
  using assms dval_pos [of "z_dig z"] dval_nonneg [of "z_dig z"] by (auto simp: mpz_ok_def)

lemma zval_zero: "mpz_ok z \<Longrightarrow> zval z = 0 \<longleftrightarrow> z_dig z = []"
  using dval_eq_0 [of "z_dig z"] by (auto simp: mpz_ok_def zval_def sval_def)

lemma zval_neg: "mpz_ok z \<Longrightarrow> zval z < 0 \<longleftrightarrow> z_neg z"
  using okD [of z] by (auto simp: zval_def sval_def)

section \<open>Setting, comparing, negating\<close>

lemma mpz_set_spec:
  assumes "mpz_ok (st src)" "\<not> z_fixed (st dest)"
  obtains st' where "mpz_set st dest src = Some st'" "becomes st dest (zval (st src)) st'" "z_alloc (st dest) \<le> z_alloc (st' dest)"
    "z_dig (st' dest) = z_dig (st src)" "z_neg (st' dest) = z_neg (st src)"
proof -
  obtain a where a: "mpz_need_dig st dest (z_len (st src)) = Some (grow st dest a)" "z_len (st src) \<le> a" "z_alloc (st dest) \<le> a"
    using need_dig_spec [of st dest, OF assms(2)] by metis
  have "mpz_set st dest src = Some (set_neg (putz st dest a (z_dig (st src))) dest (z_neg (st src)))"
    using a by (simp add: mpz_set_def Let_def put_set_neg put_grow)
  moreover have "becomes st dest (zval (st src)) (set_neg (putz st dest a (z_dig (st src))) dest (z_neg (st src)))"
    using assms a(2) okD [OF assms(1)] by (intro becomesI) (auto simp: zval_def mpz_ok_def)
  ultimately show thesis using a(3)
    by (intro that [of "set_neg (putz st dest a (z_dig (st src))) dest (z_neg (st src))"]) auto
qed

lemma mpz_cmp_spec:
  assumes "mpz_ok x" "mpz_ok y"
  shows "mpz_cmp x y = sgn (zval x - zval y)"
  using okD [OF assms(1)] okD [OF assms(2)] mpn_cmp_correct [of "z_dig x" "z_dig y"]
  by (cases "z_neg x"; cases "z_neg y") (auto simp: mpz_cmp_def Let_def zval_def sval_def sgn_if)

lemma uint_digits_spec:
  assumes "0 \<le> u" "u < DIG_BASE ^ k"
  shows "digs (uint_digits u) \<and> normd (uint_digits u) \<and> dval (uint_digits u) = u \<and> length (uint_digits u) \<le> k"
  using assms
proof (induction k arbitrary: u)
  case 0
  then have "uint_digits u = []" by (subst uint_digits.simps) simp
  then show ?case using 0 by (simp add: normd_def)
next
  case (Suc k)
  show ?case
  proof (cases "u > 0")
    case True
    have "u div DIG_BASE < DIG_BASE ^ k" using Suc.prems by (intro div_less_if) (auto simp: mult.commute)
    then have IH: "digs (uint_digits (u div DIG_BASE))" "normd (uint_digits (u div DIG_BASE))"
      "dval (uint_digits (u div DIG_BASE)) = u div DIG_BASE" "length (uint_digits (u div DIG_BASE)) \<le> k"
      using Suc.IH [of "u div DIG_BASE"] Suc.prems by (auto simp: pos_imp_zdiv_nonneg_iff)
    have e: "uint_digits u = u mod DIG_BASE # uint_digits (u div DIG_BASE)" using True by (subst uint_digits.simps) simp
    have "uint_digits (u div DIG_BASE) = [] \<Longrightarrow> u mod DIG_BASE \<noteq> 0" using IH(3) True div_mod_base [of u] by auto
    then show ?thesis unfolding e using IH by (auto simp: normd_def)
  next
    case False
    then have "uint_digits u = []" by (subst uint_digits.simps) simp
    then show ?thesis using Suc.prems False by (simp add: normd_def)
  qed
qed

lemma set_zero_spec:
  assumes "\<not> z_fixed (st d)"
  shows "becomes st d 0 (st(d := (st d)\<lparr>z_neg := False, z_dig := []\<rparr>))"
  using assms by (auto simp: becomes_def mpz_ok_def zval_def sval_def normd_def)

lemma mpz_set_from_int_spec:
  assumes "\<not> z_fixed (st d)" "- (2 ^ 31) \<le> v" "v < 2 ^ 31"
  obtains st' where "mpz_set_from_int st d v = Some st'" "becomes st d v st'"
proof (cases "v = 0")
  case True
  then show thesis using set_zero_spec [of st d, OF assms(1)] by (intro that) (auto simp: mpz_set_from_int_def)
next
  case False
  define u where "u = \<bar>v\<bar>"
  have u: "0 < u" "u < DIG_BASE ^ 2" using False assms(2,3) by (auto simp: u_def)
  define w where "w = uint_digits u"
  have w: "digs w" "normd w" "dval w = u" "length w \<le> 2" using uint_digits_spec [of u 2] u by (auto simp: w_def)
  obtain a where a: "mpz_need_dig st d 2 = Some (grow st d a)" "2 \<le> a" using need_dig_spec [of st d, OF assms(1)] by metis
  have "(if v < 0 then (True, u32 (- v)) else (False, v)) = (v < 0, u)"
    using u False by (auto simp: u_def intro!: u32_id)
  then have "mpz_set_from_int st d v = Some (set_neg (putz st d a w) d (v < 0))"
    using False a w(4) by (simp add: mpz_set_from_int_def put_set_neg put_grow w_def [symmetric])
  moreover have "becomes st d v (set_neg (putz st d a w) d (v < 0))"
    using assms(1) a w u by (intro becomesI) (auto simp: sval_def u_def)
  ultimately show thesis by (rule that)
qed

lemma copy_spec:
  assumes "mpz_ok (st z)" "\<not> z_fixed (st dest)"
  obtains a where "(if dest \<noteq> z then mpz_set st dest z else Some st) = Some (set_neg (putz st dest a (z_dig (st z))) dest (z_neg (st z)))"
    "z_len (st z) \<le> a"
proof (cases "dest = z")
  case True
  have "set_neg (putz st z (z_alloc (st z)) (z_dig (st z))) z (z_neg (st z)) = st" by (simp add: grow_id set_neg_def)
  then show ?thesis using True okD(1) [OF assms(1)] by (intro that) auto
next
  case False
  obtain a where a: "mpz_need_dig st dest (z_len (st z)) = Some (grow st dest a)" "z_len (st z) \<le> a"
    using need_dig_spec [of st dest, OF assms(2)] by metis
  then show ?thesis using False by (intro that [of a]) (simp_all add: mpz_set_def Let_def put_set_neg put_grow)
qed

lemma mpz_abs_inpl_spec:
  assumes "mpz_ok (st z)" "\<not> z_fixed (st dest)"
  obtains st' where "mpz_abs_inpl st dest z = Some st'" "becomes st dest \<bar>zval (st z)\<bar> st'"
proof -
  obtain a where c: "(if dest \<noteq> z then mpz_set st dest z else Some st) = Some (set_neg (putz st dest a (z_dig (st z))) dest (z_neg (st z)))"
    "z_len (st z) \<le> a"
    using copy_spec [of st z dest] assms by blast
  have "mpz_abs_inpl st dest z = Some (set_neg (putz st dest a (z_dig (st z))) dest False)"
    using c(1) by (simp add: mpz_abs_inpl_def split del: if_split)
  moreover have "becomes st dest \<bar>zval (st z)\<bar> (set_neg (putz st dest a (z_dig (st z))) dest False)"
    using assms c(2) okD [OF assms(1)] by (intro becomesI) (auto simp: zval_def sval_def)
  ultimately show thesis by (rule that)
qed

lemma mpz_neg_inpl_spec:
  assumes "mpz_ok (st z)" "\<not> z_fixed (st dest)"
  obtains st' where "mpz_neg_inpl st dest z = Some st'" "becomes st dest (- zval (st z)) st'"
proof -
  obtain a where c: "(if dest \<noteq> z then mpz_set st dest z else Some st) = Some (set_neg (putz st dest a (z_dig (st z))) dest (z_neg (st z)))"
    "z_len (st z) \<le> a"
    using copy_spec [of st z dest] assms by blast
  define n where "n = (if z_dig (st z) = [] then z_neg (st z) else \<not> z_neg (st z))"
  have "mpz_neg_inpl st dest z = Some (set_neg (putz st dest a (z_dig (st z))) dest n)"
    using c(1) by (simp add: mpz_neg_inpl_def n_def split del: if_split) simp
  moreover have "becomes st dest (- zval (st z)) (set_neg (putz st dest a (z_dig (st z))) dest n)"
  proof (rule becomesI [of st dest, OF assms(2) c(2) okD(2,3) [OF assms(1)]])
    show "n \<Longrightarrow> z_dig (st z) \<noteq> []" using assms(1) by (cases "z_dig (st z) = []") (simp_all add: n_def mpz_ok_def)
    show "sval n (dval (z_dig (st z))) = - zval (st z)"
      by (cases "z_dig (st z) = []"; cases "z_neg (st z)") (simp_all add: n_def zval_def sval_def)
  qed
  ultimately show thesis by (rule that)
qed

lemma digs_one: "digs [1]" "normd [1]" "dval [1] = 1"
  by (simp_all add: normd_def)

lemma mpz_not_inpl_spec:
  assumes "mpz_ok (st z)" "\<not> z_fixed (st dest)"
  obtains st' where "mpz_not_inpl st dest z = Some st'" "becomes st dest (- zval (st z) - 1) st'"
proof -
  define ds where "ds = z_dig (st z)"
  have ds: "digs ds" "normd ds" "0 \<le> dval ds" using okD [OF assms(1)] by (simp_all add: ds_def)
  obtain a where c: "(if dest \<noteq> z then mpz_set st dest z else Some st) = Some (set_neg (putz st dest a ds) dest (z_neg (st z)))"
    "length ds \<le> a"
    using copy_spec [of st z dest] assms unfolding ds_def by blast
  define s1 where "s1 = set_neg (putz st dest a ds) dest (z_neg (st z))"
  have c1: "(if dest \<noteq> z then mpz_set st dest z else Some st) = Some s1" using c(1) by (simp only: s1_def)
  have s1: "z_dig (s1 dest) = ds" "z_neg (s1 dest) = z_neg (st z)" "\<not> z_fixed (s1 dest)" using assms(2) by (simp_all add: s1_def)
  have set1: "set_neg (putz s1 dest b w) dest n = set_neg (putz st dest b w) dest n" for b w n by (simp add: s1_def putz_set_neg)
  consider (z) "ds = []" | (n) "ds \<noteq> []" "z_neg (st z)" | (p) "ds \<noteq> []" "\<not> z_neg (st z)" by blast
  then show thesis
  proof cases
    case z
    obtain b where b: "mpz_need_dig s1 dest 1 = Some (grow s1 dest b)" "1 \<le> b" using need_dig_spec [of s1 dest 1] s1 by metis
    have "mpz_not_inpl st dest z = Some (set_neg (putz st dest b [1]) dest True)"
      using z b s1 unfolding mpz_not_inpl_def c1 by (simp add: put_grow set1 split del: if_split)
    moreover have "zval (st z) = 0" using z zval_zero [OF assms(1)] by (simp add: ds_def)
    then have "becomes st dest (- zval (st z) - 1) (set_neg (putz st dest b [1]) dest True)"
      using assms b digs_one by (intro becomesI) (auto simp: sval_def)
    ultimately show ?thesis by (rule that)
  next
    case n
    have l1: "length [1::int] \<le> length ds" using n(1) by (cases ds) auto
    have ge: "dval [1] \<le> dval ds" using dval_pos [of ds] ds n by auto
    obtain w l where w: "mpn_sub ds [1] = Some (w, l)" "digs w" "length w = length ds" "l \<le> length w"
      "normd (take l w)" "dval (take l w) = dval ds - dval [1]"
      using mpn_sub_spec [OF ds(1) digs_one(1) l1 ge] .
    have "put_dig (set_neg s1 dest False) dest (w, l) = Some (set_neg (putz st dest a (take l w)) dest False)"
    proof -
      have "set_neg s1 dest False = set_neg (putz st dest a ds) dest False" by (simp add: s1_def)
      then show ?thesis using w c(2) by (simp add: put_set_neg put_putz)
    qed
    then have "mpz_not_inpl st dest z = Some (set_neg (putz st dest a (take l w)) dest False)"
      using n w(1) s1 unfolding mpz_not_inpl_def c1 by (simp split del: if_split)
    moreover have "becomes st dest (- zval (st z) - 1) (set_neg (putz st dest a (take l w)) dest False)"
      using assms w c(2) n by (intro becomesI) (auto simp: sval_def zval_def ds_def digs_take)
    ultimately show ?thesis by (rule that)
  next
    case p
    have l1: "length [1::int] \<le> length ds" using p(1) by (cases ds) auto
    obtain b where b: "mpz_need_dig s1 dest (length ds + 1) = Some (grow s1 dest b)" "length ds + 1 \<le> b"
      using need_dig_spec [of s1 dest "length ds + 1"] s1 by metis
    obtain w where w: "mpn_add ds [1] = Some (w, length w)" "digs w" "normd w" "length w \<le> length ds + 1" "dval w = dval ds + dval [1]"
      using mpn_add_spec [OF ds(1,2) digs_one(1) l1] .
    have "mpz_not_inpl st dest z = Some (set_neg (putz st dest b w) dest True)"
      using p b w s1 unfolding mpz_not_inpl_def c1 by (simp add: put_grow set1 split del: if_split)
    moreover have "becomes st dest (- zval (st z) - 1) (set_neg (putz st dest b w) dest True)"
      using assms w b p ds by (intro becomesI) (auto simp: sval_def zval_def ds_def)
    ultimately show ?thesis by (rule that)
  qed
qed

section \<open>Addition, subtraction, shifts, bitwise operations\<close>

lemma add_part:
  assumes "mpz_ok (st l)" "mpz_ok (st r)" "\<not> z_fixed (st d)" "dval (z_dig (st r)) \<le> dval (z_dig (st l))"
  obtains a w where "mpz_need_dig st d (z_len (st l) + 1) = Some (grow st d a)"
    "mpn_add (z_dig (st l)) (z_dig (st r)) = Some (w, length w)"
    "put_dig (grow st d a) d (w, length w) = Some (putz st d a w)" "length w \<le> a" "digs w" "normd w"
    "dval w = dval (z_dig (st l)) + dval (z_dig (st r))"
proof -
  note l = okD [OF assms(1)] and r = okD [OF assms(2)]
  have len: "z_len (st r) \<le> z_len (st l)" using normd_length_less [OF l(2,3) r(2,3)] assms(4) by linarith
  obtain a where a: "mpz_need_dig st d (z_len (st l) + 1) = Some (grow st d a)" "z_len (st l) + 1 \<le> a"
    using need_dig_spec [of st d, OF assms(3)] by metis
  obtain w where w: "mpn_add (z_dig (st l)) (z_dig (st r)) = Some (w, length w)" "digs w" "normd w" "length w \<le> z_len (st l) + 1"
    "dval w = dval (z_dig (st l)) + dval (z_dig (st r))" using mpn_add_spec [OF l(2,3) r(2) len] .
  have "put_dig (grow st d a) d (w, length w) = Some (putz st d a w)" using w(4) a(2) by (simp add: put_grow)
  then show thesis using a w by (intro that [of a w]) auto
qed

lemma sub_part:
  assumes "mpz_ok (st l)" "mpz_ok (st r)" "\<not> z_fixed (st d)" "dval (z_dig (st r)) \<le> dval (z_dig (st l))"
  obtains a w k where "mpz_need_dig st d (z_len (st l)) = Some (grow st d a)"
    "mpn_sub (z_dig (st l)) (z_dig (st r)) = Some (w, k)"
    "put_dig (grow st d a) d (w, k) = Some (putz st d a (take k w))" "length (take k w) \<le> a" "digs (take k w)" "normd (take k w)"
    "dval (take k w) = dval (z_dig (st l)) - dval (z_dig (st r))"
proof -
  note l = okD [OF assms(1)] and r = okD [OF assms(2)]
  have len: "z_len (st r) \<le> z_len (st l)" using normd_length_less [OF l(2,3) r(2,3)] assms(4) by linarith
  obtain a where a: "mpz_need_dig st d (z_len (st l)) = Some (grow st d a)" "z_len (st l) \<le> a"
    using need_dig_spec [of st d, OF assms(3)] by metis
  obtain w k where w: "mpn_sub (z_dig (st l)) (z_dig (st r)) = Some (w, k)" "digs w" "length w = z_len (st l)" "k \<le> length w"
    "normd (take k w)" "dval (take k w) = dval (z_dig (st l)) - dval (z_dig (st r))" using mpn_sub_spec [OF l(2) r(2) len assms(4)] .
  have "put_dig (grow st d a) d (w, k) = Some (putz st d a (take k w))" using w(3,4) a(2) by (simp add: put_grow)
  then show thesis using a w by (intro that [of a w k]) (auto simp: digs_take)
qed

text \<open>Both operations add or subtract magnitudes, the larger first; \<open>flip\<close> says the operands of a difference were exchanged.\<close>

lemma add_sub_part:
  assumes "mpz_ok (st l)" "mpz_ok (st r)" "\<not> z_fixed (st d)" "dval (z_dig (st r)) \<le> dval (z_dig (st l))"
  obtains ds a where
    "(if same then do { st \<leftarrow> mpz_need_dig st d (z_len (st l) + 1); w \<leftarrow> mpn_add (z_dig (st l)) (z_dig (st r)); put_dig st d w }
      else do { st \<leftarrow> mpz_need_dig st d (z_len (st l)); w \<leftarrow> mpn_sub (z_dig (st l)) (z_dig (st r)); put_dig st d w })
     = Some (putz st d a ds)"
    "length ds \<le> a" "digs ds" "normd ds"
    "dval ds = (if same then dval (z_dig (st l)) + dval (z_dig (st r)) else dval (z_dig (st l)) - dval (z_dig (st r)))"
proof (cases same)
  case True
  obtain a w where "mpz_need_dig st d (z_len (st l) + 1) = Some (grow st d a)"
    "mpn_add (z_dig (st l)) (z_dig (st r)) = Some (w, length w)"
    "put_dig (grow st d a) d (w, length w) = Some (putz st d a w)" "length w \<le> a" "digs w" "normd w"
    "dval w = dval (z_dig (st l)) + dval (z_dig (st r))"
    by (rule add_part [of st l r d, OF assms])
  then show thesis using True by (intro that [of a w]) simp_all
next
  case False
  obtain a w k where "mpz_need_dig st d (z_len (st l)) = Some (grow st d a)"
    "mpn_sub (z_dig (st l)) (z_dig (st r)) = Some (w, k)"
    "put_dig (grow st d a) d (w, k) = Some (putz st d a (take k w))" "length (take k w) \<le> a" "digs (take k w)" "normd (take k w)"
    "dval (take k w) = dval (z_dig (st l)) - dval (z_dig (st r))"
    by (rule sub_part [of st l r d, OF assms])
  then show thesis using False by (intro that [of a "take k w"]) simp_all
qed

lemma mpz_add_inpl_spec:
  assumes "mpz_ok (st lhs)" "mpz_ok (st rhs)" "\<not> z_fixed (st dest)"
  obtains st' where "mpz_add_inpl st dest lhs rhs = Some st'" "becomes st dest (zval (st lhs) + zval (st rhs)) st'"
proof -
  define c where "c = (mpn_cmp (z_dig (st lhs)) (z_dig (st rhs)) < 0)"
  have cc: "c \<longleftrightarrow> dval (z_dig (st lhs)) < dval (z_dig (st rhs))"
    using okD [OF assms(1)] okD [OF assms(2)] by (simp add: c_def mpn_cmp_correct)
  define l r where "l = (if c then rhs else lhs)" and "r = (if c then lhs else rhs)"
  have ok: "mpz_ok (st l)" "mpz_ok (st r)" and le: "dval (z_dig (st r)) \<le> dval (z_dig (st l))"
    using assms cc by (auto simp: l_def r_def)
  have sum: "zval (st lhs) + zval (st rhs) = zval (st l) + zval (st r)" by (simp add: l_def r_def)
  define same where "same = (z_neg (st l) = z_neg (st r))"
  obtain ds a where p: "(if same then do { st \<leftarrow> mpz_need_dig st dest (z_len (st l) + 1); w \<leftarrow> mpn_add (z_dig (st l)) (z_dig (st r)); put_dig st dest w }
      else do { st \<leftarrow> mpz_need_dig st dest (z_len (st l)); w \<leftarrow> mpn_sub (z_dig (st l)) (z_dig (st r)); put_dig st dest w })
     = Some (putz st dest a ds)"
    "length ds \<le> a" "digs ds" "normd ds"
    "dval ds = (if same then dval (z_dig (st l)) + dval (z_dig (st r)) else dval (z_dig (st l)) - dval (z_dig (st r)))"
    by (rule add_sub_part [of st l r dest, OF ok assms(3) le, of same])
  have swap: "(if mpn_cmp (z_dig (st lhs)) (z_dig (st rhs)) < 0 then (rhs, lhs) else (lhs, rhs)) = (l, r)"
    by (simp add: l_def r_def c_def)
  have "mpz_add_inpl st dest lhs rhs = Some (set_neg (putz st dest a ds) dest (z_neg (st l) \<and> ds \<noteq> []))"
    unfolding mpz_add_inpl_def swap Let_def prod.case same_def [symmetric] p(1) by simp
  moreover have "becomes st dest (zval (st lhs) + zval (st rhs)) (set_neg (putz st dest a ds) dest (z_neg (st l) \<and> ds \<noteq> []))"
  proof (rule becomesI [of st dest, OF assms(3) p(2-4)])
    have d0: "ds = [] \<Longrightarrow> dval ds = 0" by simp
    show "sval (z_neg (st l) \<and> ds \<noteq> []) (dval ds) = zval (st lhs) + zval (st rhs)"
      unfolding sum using p(5) d0 by (cases "z_neg (st l)"; cases "z_neg (st r)") (auto simp: same_def zval_def sval_def)
  qed simp
  ultimately show thesis by (rule that)
qed

lemma mpz_sub_inpl_spec:
  assumes "mpz_ok (st lhs)" "mpz_ok (st rhs)" "\<not> z_fixed (st dest)"
  obtains st' where "mpz_sub_inpl st dest lhs rhs = Some st'" "becomes st dest (zval (st lhs) - zval (st rhs)) st'"
proof -
  define c where "c = (mpn_cmp (z_dig (st lhs)) (z_dig (st rhs)) < 0)"
  have cc: "c \<longleftrightarrow> dval (z_dig (st lhs)) < dval (z_dig (st rhs))"
    using okD [OF assms(1)] okD [OF assms(2)] by (simp add: c_def mpn_cmp_correct)
  define l r where "l = (if c then rhs else lhs)" and "r = (if c then lhs else rhs)"
  have ok: "mpz_ok (st l)" "mpz_ok (st r)" and le: "dval (z_dig (st r)) \<le> dval (z_dig (st l))"
    using assms cc by (auto simp: l_def r_def)
  have diff: "zval (st lhs) - zval (st rhs) = (if c then zval (st r) - zval (st l) else zval (st l) - zval (st r))" by (simp add: l_def r_def)
  define same where "same = (z_neg (st l) \<noteq> z_neg (st r))"
  obtain ds a where p: "(if same then do { st \<leftarrow> mpz_need_dig st dest (z_len (st l) + 1); w \<leftarrow> mpn_add (z_dig (st l)) (z_dig (st r)); put_dig st dest w }
      else do { st \<leftarrow> mpz_need_dig st dest (z_len (st l)); w \<leftarrow> mpn_sub (z_dig (st l)) (z_dig (st r)); put_dig st dest w })
     = Some (putz st dest a ds)"
    "length ds \<le> a" "digs ds" "normd ds"
    "dval ds = (if same then dval (z_dig (st l)) + dval (z_dig (st r)) else dval (z_dig (st l)) - dval (z_dig (st r)))"
    by (rule add_sub_part [of st l r dest, OF ok assms(3) le, of same])
  have swap: "(if mpn_cmp (z_dig (st lhs)) (z_dig (st rhs)) < 0 then (rhs, lhs, True) else (lhs, rhs, False)) = (l, r, c)"
    by (simp add: l_def r_def c_def)
  define n where "n = (if ds = [] then False else if c then \<not> z_neg (st l) else z_neg (st l))"
  have "mpz_sub_inpl st dest lhs rhs = Some (set_neg (putz st dest a ds) dest n)"
    unfolding mpz_sub_inpl_def Let_def swap prod.case same_def [symmetric] p(1) by (simp add: n_def)
  moreover have "becomes st dest (zval (st lhs) - zval (st rhs)) (set_neg (putz st dest a ds) dest n)"
  proof (rule becomesI [of st dest, OF assms(3) p(2-4)])
    have d0: "ds = [] \<Longrightarrow> dval ds = 0" by simp
    show "sval n (dval ds) = zval (st lhs) - zval (st rhs)"
      unfolding diff using p(5) d0 by (cases c; cases "z_neg (st l)"; cases "z_neg (st r)") (auto simp: n_def same_def zval_def sval_def)
  qed (simp add: n_def split: if_splits)
  ultimately show thesis by (rule that)
qed

lemma mpz_shl_inpl_spec:
  assumes "mpz_ok (st lhs)" "\<not> z_fixed (st dest)" and n: "rhs < 2 ^ 32 - 15"
  obtains st' where "mpz_shl_inpl st dest lhs rhs = Some st'" "becomes st dest (zval (st lhs) * 2 ^ rhs) st'"
proof (cases "z_len (st lhs) = 0 \<or> rhs = 0")
  case True
  obtain st' where "mpz_set st dest lhs = Some st'" "becomes st dest (zval (st lhs)) st'"
    using mpz_set_spec [of st lhs dest] assms by metis
  moreover have "zval (st lhs) * 2 ^ rhs = zval (st lhs)" using True by (auto simp: zval_def sval_def)
  ultimately show thesis using True by (intro that) (auto simp: mpz_shl_inpl_def)
next
  case False
  note ok = okD [OF assms(1)]
  obtain a where a: "mpz_need_dig st dest (z_len (st lhs) + (rhs + 15) div 16) = Some (grow st dest a)"
    "z_len (st lhs) + (rhs + 15) div 16 \<le> a" using need_dig_spec [of st dest, OF assms(2)] by metis
  have r: "0 < rhs" using False by simp
  obtain w l where w: "mpn_shl (z_dig (st lhs)) rhs = Some (w, l)" 
  proof -
    have "shl_whole rhs \<noteq> 0" unfolding shl_whole_id [OF n] using r by linarith
    then show thesis using that by (simp add: mpn_shl_def Let_def)
  qed
  note s = mpn_shl_spec [OF ok(2) _ n w]
  have "mpz_shl_inpl st dest lhs rhs = Some (set_neg (putz st dest a (take l w)) dest (z_neg (st lhs)))"
    using False a(2) s [OF r] by (simp add: mpz_shl_inpl_def shl_whole_id [OF n] w put_grow a(1))
  moreover have "becomes st dest (zval (st lhs) * 2 ^ rhs) (set_neg (putz st dest a (take l w)) dest (z_neg (st lhs)))"
  proof (rule becomesI [of st dest, OF assms(2)])
    show "length (take l w) \<le> a" "digs (take l w)" "normd (take l w)" using s [OF r] a by (simp_all add: digs_take)
    show "z_neg (st lhs) \<Longrightarrow> take l w \<noteq> []" using s(4) [OF r] ok(4) by (cases "take l w = []") simp_all
    show "sval (z_neg (st lhs)) (dval (take l w)) = zval (st lhs) * 2 ^ rhs" using s(4) [OF r] by (simp add: zval_def sval_def)
  qed
  ultimately show thesis by (rule that)
qed

text \<open>Rounding is needed when a bit that is shifted out is set.\<close>

lemma and_low_mask: "x AND (2 ^ n - 1) = (x::int) mod 2 ^ n"
  using take_bit_eq_mask [of n x] by (simp add: take_bit_eq_mod mask_eq_exp_minus_1)

lemma dval_zero_iff: "digs ds \<Longrightarrow> dval ds = 0 \<longleftrightarrow> (\<forall>d \<in> set ds. d = 0)"
proof (induction ds)
  case (Cons d ds)
  then show ?case using dval_nonneg [of ds] by (auto simp: add_nonneg_eq_0_iff)
qed simp

lemma round_up_needed_iff:
  assumes "digs ds"
  shows "round_up_needed ds n \<longleftrightarrow> dval ds mod 2 ^ n \<noteq> 0"
proof -
  define nw np where "nw = n div 16" and "np = n mod 16"
  define M :: int where "M = DIG_BASE ^ nw"
  have n: "(2::int) ^ n = M * 2 ^ np"
  proof -
    have "n = 16 * nw + np" by (simp add: nw_def np_def)
    then have "(2::int) ^ n = 2 ^ (16 * nw) * 2 ^ np" by (simp only: power_add)
    then show ?thesis by (simp add: power_mult M_def)
  qed
  have lo: "0 \<le> dval (take nw ds)" "(\<exists>d \<in> set (take nw ds). d \<noteq> 0) \<longleftrightarrow> dval (take nw ds) \<noteq> 0"
    using dval_nonneg [of "take nw ds"] dval_zero_iff [of "take nw ds"] assms by (auto simp: digs_take)
  have r: "round_up_needed ds n \<longleftrightarrow> dval (take nw ds) \<noteq> 0 \<or> nw < length ds \<and> (ds ! nw) mod 2 ^ np \<noteq> 0"
    unfolding round_up_needed_def Let_def nw_def [symmetric] np_def [symmetric] lo(2) and_low_mask ..
  show ?thesis
  proof (cases "nw < length ds")
    case False
    have "dval ds < DIG_BASE ^ length ds" by (rule dval_less [OF assms])
    also have "(DIG_BASE :: int) ^ length ds \<le> M" unfolding M_def using False by (intro power_increasing) auto
    also have "M \<le> 2 ^ n" unfolding n by (simp add: M_def)
    finally have "dval ds mod 2 ^ n = dval ds" using dval_nonneg [OF assms] by simp
    then show ?thesis using r False by simp
  next
    case True
    have d: "drop nw ds = ds ! nw # drop (Suc nw) ds" using True by (simp add: Cons_nth_drop_Suc)
    have "dval ds = dval (take nw ds) + M * dval (drop nw ds)"
      using dval_append [of "take nw ds" "drop nw ds"] True by (simp add: M_def)
    moreover have "dval (take nw ds) < M" using dval_less [of "take nw ds"] assms True by (simp add: digs_take M_def)
    moreover have "dval ds mod (M * 2 ^ np) = M * ((dval ds div M) mod 2 ^ np) + dval ds mod M"
      by (rule zmod_zmult2_eq) simp
    ultimately have "dval ds mod 2 ^ n = M * (dval (drop nw ds) mod 2 ^ np) + dval (take nw ds)"
      using lo(1) by (simp add: n)
    moreover have "dval (drop nw ds) mod 2 ^ np = (ds ! nw) mod 2 ^ np"
    proof -
      have "np \<le> 16" by (simp add: np_def)
      then have "DIG_BASE = 2 ^ np * 2 ^ (16 - np)" using base_split [of np] by simp
      then have "dval (drop nw ds) = ds ! nw + 2 ^ np * (2 ^ (16 - np) * dval (drop (Suc nw) ds))"
        unfolding d dval.simps by (metis mult.assoc)
      then show ?thesis by simp
    qed
    moreover have "0 \<le> M * ((ds ! nw) mod 2 ^ np)" by (simp add: M_def)
    moreover have "M * ((ds ! nw) mod 2 ^ np) = 0 \<longleftrightarrow> (ds ! nw) mod 2 ^ np = 0" by (simp add: M_def)
    ultimately show ?thesis using r True lo(1) by (auto simp: add_nonneg_eq_0_iff)
  qed
qed

lemma div_neg_round:
  fixes x m :: int
  assumes "0 < m"
  shows "(- x) div m = - (x div m + (if x mod m \<noteq> 0 then 1 else 0))"
  using zdiv_zminus1_eq_if [of m x] assms by auto

lemma length_le_of_value:
  assumes "digs v" "normd v" "dval v < DIG_BASE ^ k"
  shows "length v \<le> k"
proof (rule ccontr)
  assume k: "\<not> length v \<le> k"
  then have "(DIG_BASE :: int) ^ k \<le> DIG_BASE ^ (length v - 1)" by (intro power_increasing) auto
  also have "\<dots> \<le> dval v" using k assms(1,2) by (intro dval_ge) (auto simp: normd_def)
  finally show False using assms(3) by simp
qed

lemma mpz_shl_inpl_wraps:
  assumes "mpz_ok (st lhs)" "zval (st lhs) \<noteq> 0" "\<not> z_fixed (st dest)" "2 ^ 32 - 15 \<le> rhs" "rhs < 2 ^ 32"
  shows "mpz_shl_inpl st dest lhs rhs = None"
proof -
  obtain a where "mpz_need_dig st dest (z_len (st lhs)) = Some (grow st dest a)" using need_dig_spec [of st dest, OF assms(3)] by metis
  moreover have "z_dig (st lhs) \<noteq> []" "rhs \<noteq> 0" using assms(2,4) zval_zero [OF assms(1)] by auto
  ultimately show ?thesis using shl_whole_wraps [OF assms(4,5)] by (simp add: mpz_shl_inpl_def mpn_shl_def)
qed

lemma mpz_shr_inpl_spec:
  assumes "mpz_ok (st lhs)" "\<not> z_fixed (st dest)" "dest \<noteq> lhs \<or> \<not> z_neg (st lhs)"
  obtains st' where "mpz_shr_inpl st dest lhs rhs = Some st'" "becomes st dest (zval (st lhs) div 2 ^ rhs) st'"
proof (cases "z_len (st lhs) = 0 \<or> rhs = 0")
  case True
  obtain st' where "mpz_set st dest lhs = Some st'" "becomes st dest (zval (st lhs)) st'"
    using mpz_set_spec [of st lhs dest] assms by metis
  moreover have "zval (st lhs) div 2 ^ rhs = zval (st lhs)" using True by (auto simp: zval_def sval_def)
  ultimately show thesis using True by (intro that) (auto simp: mpz_shr_inpl_def)
next
  case False
  note ok = okD [OF assms(1)]
  define m :: int where "m = 2 ^ rhs"
  have m: "0 < m" by (simp add: m_def)
  obtain a where a: "mpz_need_dig st dest (z_len (st lhs)) = Some (grow st dest a)" "z_len (st lhs) \<le> a"
    using need_dig_spec [of st dest, OF assms(2)] by metis
  obtain w l where w: "mpn_shr (z_dig (st lhs)) rhs = (w, l)" by (cases "mpn_shr (z_dig (st lhs)) rhs")
  note s = mpn_shr_spec [OF ok(2,3) w]
  define ds where "ds = take l w"
  have ds: "length ds \<le> a" "digs ds" "normd ds" "dval ds = dval (z_dig (st lhs)) div m"
    using s a by (simp_all add: ds_def digs_take m_def)
  have ds2: "length ds \<le> z_len (st lhs)" using s by (simp add: ds_def)
  define rnd where "rnd = (z_neg (st lhs) \<and> dval (z_dig (st lhs)) mod m \<noteq> 0)"
  have rnd: "z_neg (st lhs) \<and> round_up_needed (z_dig (st lhs)) rhs \<longleftrightarrow> rnd"
    using round_up_needed_iff [OF ok(2)] by (simp add: rnd_def m_def)
  define s1 where "s1 = set_neg (putz st dest a ds) dest (z_neg (st lhs))"
  have e: "mpz_shr_inpl st dest lhs rhs =
      (if rnd then (if length ds = 0 then put_dig s1 dest ([1], 1) else do { w \<leftarrow> mpn_add ds [1]; put_dig s1 dest w }) else Some s1)"
  proof (cases "dest = lhs")
    case True
    then have "\<not> z_neg (st lhs)" using assms(3) by simp
    then show ?thesis using True False a(1,2) s(2,3) rnd
      by (simp add: mpz_shr_inpl_def w put_grow ds_def [symmetric] s1_def [symmetric] Let_def) (simp add: s1_def)
  next
    case ne: False
    then show ?thesis using False a(1,2) s(2,3) rnd
      by (simp add: mpz_shr_inpl_def w put_grow ds_def [symmetric] s1_def [symmetric] Let_def) (simp add: s1_def)
  qed
  have val: "zval (st lhs) div m = sval (z_neg (st lhs)) (dval ds + (if rnd then 1 else 0))"
    using div_neg_round [OF m, of "dval (z_dig (st lhs))"] ds(4) by (auto simp: zval_def sval_def rnd_def)
  note close = that
  have fin: thesis if "mpz_shr_inpl st dest lhs rhs = Some (set_neg (putz st dest a v) dest (z_neg (st lhs)))" "length v \<le> a"
    "digs v" "normd v" "dval v = dval ds + (if rnd then 1 else 0)" for v
  proof -
    have "z_neg (st lhs) \<Longrightarrow> v \<noteq> []"
    proof
      assume n: "z_neg (st lhs)" "v = []"
      then have "dval ds + (if rnd then 1 else 0) = 0" using that(5) by simp
      then have "dval ds = 0" "\<not> rnd" using dval_nonneg [OF ds(2)] by (auto split: if_splits)
      then have "dval (z_dig (st lhs)) div m = 0" "dval (z_dig (st lhs)) mod m = 0" using n(1) ds(4) by (auto simp: rnd_def)
      then show False using ok(4) [OF n(1)] by (metis div_mult_mod_eq mult_zero_left add_0 less_irrefl)
    qed
    then have "becomes st dest (zval (st lhs) div 2 ^ rhs) (set_neg (putz st dest a v) dest (z_neg (st lhs)))"
      using that val by (intro becomesI) (use assms(2) in \<open>auto simp: m_def\<close>)
    then show thesis using that(1) by (intro close)
  qed
  consider (n) "\<not> rnd" | (z) "rnd" "ds = []" | (p) "rnd" "ds \<noteq> []" by blast
  then show thesis
  proof cases
    case n
    then show ?thesis using fin [of ds] ds e by (simp add: s1_def)
  next
    case z
    have "1 \<le> a" using False a(2) by (cases "z_dig (st lhs)") auto
    then have "put_dig s1 dest ([1], 1) = Some (set_neg (putz st dest a [1]) dest (z_neg (st lhs)))"
      by (simp add: s1_def put_set_neg put_putz)
    then show ?thesis using fin [of "[1]"] z e digs_one \<open>1 \<le> a\<close> by simp
  next
    case p
    have l1: "length [1::int] \<le> length ds" using p(2) by (cases ds) auto
    obtain v where v: "mpn_add ds [1] = Some (v, length v)" "digs v" "normd v" "length v \<le> length ds + 1" "dval v = dval ds + dval [1]"
      using mpn_add_spec [OF ds(2,3) digs_one(1) l1] .
    have "dval ds \<noteq> 0" using p(2) dval_eq_0 [OF ds(2,3)] by simp
    then have "dval (z_dig (st lhs)) div m \<ge> 1" using ds(4) dval_nonneg [OF ds(2)] by linarith
    moreover have "m * (dval (z_dig (st lhs)) div m) \<le> dval (z_dig (st lhs))" using m pos_mod_sign [OF m, of "dval (z_dig (st lhs))"]
      by (simp add: minus_mod_eq_mult_div [symmetric])
    moreover have "2 * (dval (z_dig (st lhs)) div m) \<le> m * (dval (z_dig (st lhs)) div m)"
    proof (rule mult_right_mono)
      show "2 \<le> m" using False power_increasing [of 1 rhs "2::int"] by (simp add: m_def)
    qed (use calculation(1) in simp)
    ultimately have "dval v \<le> dval (z_dig (st lhs))" using v(5) ds(4) digs_one(3) by linarith
    then have "dval v < DIG_BASE ^ z_len (st lhs)" using dval_less [OF ok(2)] by simp
    then have "length v \<le> a" using length_le_of_value [OF v(2,3)] a(2) by fastforce
    then have "put_dig s1 dest (v, length v) = Some (set_neg (putz st dest a v) dest (z_neg (st lhs)))"
      by (simp add: s1_def put_set_neg put_putz)
    then show ?thesis using fin [of v] v p e \<open>length v \<le> a\<close> by simp
  qed
qed

lemma bitwise_operands:
  assumes "mpz_ok (st lhs)" "mpz_ok (st rhs)" "longer_first st lhs rhs = (l, r)"
  shows "mpz_ok (st l)" "mpz_ok (st r)" "z_len (st r) \<le> z_len (st l)" "{zval (st l), zval (st r)} = {zval (st lhs), zval (st rhs)}"
    "l = lhs \<and> r = rhs \<or> l = rhs \<and> r = lhs"
  using assms by (auto simp: longer_first_def split: if_splits)

lemma of_bool_eq_conj: "(if p = q then of_bool p else (0::int)) = of_bool (p \<and> q)"
  by auto

lemma mpz_and_inpl_spec:
  assumes "mpz_ok (st lhs)" "mpz_ok (st rhs)" "\<not> z_fixed (st dest)"
  obtains st' where "mpz_and_inpl st dest lhs rhs = Some st'" "becomes st dest (zval (st lhs) AND zval (st rhs)) st'"
proof -
  obtain l r where lf: "longer_first st lhs rhs = (l, r)" by fastforce
  note b = bitwise_operands [OF assms(1,2) lf]
  note ol = okD [OF b(1)] and or = okD [OF b(2)]
  have val: "zval (st lhs) AND zval (st rhs) = zval (st l) AND zval (st r)" using b(5) by (auto simp: and.commute)
  define n where "n = z_len (st l) + of_bool (z_neg (st l) \<or> z_neg (st r))"
  obtain a where a: "mpz_need_dig st dest n = Some (grow st dest a)" "n \<le> a" using need_dig_spec [of st dest, OF assms(3)] by metis
  obtain w k where w: "mpn_and_neg (z_dig (st l)) (z_dig (st r)) (of_bool (z_neg (st l) \<and> z_neg (st r)))
      (of_bool (z_neg (st l))) (of_bool (z_neg (st r))) = (w, k)" by fastforce
  note s = mpn_and_neg_spec [OF ol(2) or(2) b(3) ol(4) or(4) w]
  have fit: "length w \<le> a" using s(2) a(2) by (simp add: n_def)
  have "mpz_and_inpl st dest lhs rhs = Some (set_neg (putz st dest a (take k w)) dest (z_neg (st l) \<and> z_neg (st r)))"
    unfolding mpz_and_inpl_def lf Let_def prod.case n_def [symmetric] of_bool_eq_conj
    using s(3) fit by (simp only: a(1) bind.bind_lunit grow_simps w put_grow)
  moreover have "becomes st dest (zval (st lhs) AND zval (st rhs)) (set_neg (putz st dest a (take k w)) dest (z_neg (st l) \<and> z_neg (st r)))"
  proof (rule becomesI [of st dest, OF assms(3)])
    show "length (take k w) \<le> a" "digs (take k w)" "normd (take k w)" using s fit by (simp_all add: digs_take)
    show "sval (z_neg (st l) \<and> z_neg (st r)) (dval (take k w)) = zval (st lhs) AND zval (st rhs)"
      unfolding val using s(5) by (simp only: zval_def)
    show "z_neg (st l) \<and> z_neg (st r) \<Longrightarrow> take k w \<noteq> []"
    proof
      assume n: "z_neg (st l) \<and> z_neg (st r)" "take k w = []"
      have "zval (st l) AND zval (st r) = sval True (dval (take k w))" using s(5) n(1) by (simp add: zval_def)
      then have "zval (st l) AND zval (st r) = 0" unfolding n(2) by (simp add: sval_def)
      moreover have "zval (st l) AND zval (st r) < 0" using n(1) zval_neg [OF b(1)] zval_neg [OF b(2)] by (simp add: and_negative_int_iff)
      ultimately show False by simp
    qed
  qed
  ultimately show thesis by (rule that)
qed

lemma mpz_or_inpl_spec:
  assumes "mpz_ok (st lhs)" "mpz_ok (st rhs)" "\<not> z_fixed (st dest)"
  obtains st' where "mpz_or_inpl st dest lhs rhs = Some st'" "becomes st dest (zval (st lhs) OR zval (st rhs)) st'"
proof -
  obtain l r where lf: "longer_first st lhs rhs = (l, r)" by fastforce
  note b = bitwise_operands [OF assms(1,2) lf]
  note ol = okD [OF b(1)] and or = okD [OF b(2)]
  have val: "zval (st lhs) OR zval (st rhs) = zval (st l) OR zval (st r)" using b(5) by (auto simp: or.commute)
  define n where "n = z_len (st l) + of_bool (z_neg (st l) \<or> z_neg (st r))"
  obtain a where a: "mpz_need_dig st dest n = Some (grow st dest a)" "n \<le> a" using need_dig_spec [of st dest, OF assms(3)] by metis
  obtain w k where w: "mpn_or_neg (z_dig (st l)) (z_dig (st r)) (of_bool (z_neg (st l) \<or> z_neg (st r)))
      (of_bool (z_neg (st l))) (of_bool (z_neg (st r))) = Some (w, k)"
    and s: "digs w" "length w = z_len (st l)" "k \<le> length w" "normd (take k w)"
    "sval (z_neg (st l) \<or> z_neg (st r)) (dval (take k w)) = sval (z_neg (st l)) (dval (z_dig (st l))) OR sval (z_neg (st r)) (dval (z_dig (st r)))"
    by (rule mpn_or_neg_spec [OF ol(2) or(2) b(3) ol(4) or(4)])
  have fit: "length w \<le> a" using s(2) a(2) by (simp add: n_def)
  have "mpz_or_inpl st dest lhs rhs = Some (set_neg (putz st dest a (take k w)) dest (z_neg (st l) \<or> z_neg (st r)))"
    unfolding mpz_or_inpl_def lf Let_def prod.case n_def [symmetric]
    using s(3) fit by (simp only: a(1) bind.bind_lunit grow_simps w put_grow)
  moreover have "becomes st dest (zval (st lhs) OR zval (st rhs)) (set_neg (putz st dest a (take k w)) dest (z_neg (st l) \<or> z_neg (st r)))"
  proof (rule becomesI [of st dest, OF assms(3)])
    show "length (take k w) \<le> a" "digs (take k w)" "normd (take k w)" using s fit by (simp_all add: digs_take)
    show "sval (z_neg (st l) \<or> z_neg (st r)) (dval (take k w)) = zval (st lhs) OR zval (st rhs)"
      unfolding val using s(5) by (simp only: zval_def)
    show "z_neg (st l) \<or> z_neg (st r) \<Longrightarrow> take k w \<noteq> []"
    proof
      assume n: "z_neg (st l) \<or> z_neg (st r)" "take k w = []"
      have "zval (st l) OR zval (st r) = sval True (dval (take k w))" using s(5) n(1) by (simp add: zval_def)
      then have "zval (st l) OR zval (st r) = 0" unfolding n(2) by (simp add: sval_def)
      moreover have "zval (st l) OR zval (st r) < 0" using n(1) zval_neg [OF b(1)] zval_neg [OF b(2)] by (simp add: or_negative_int_iff)
      ultimately show False by simp
    qed
  qed
  ultimately show thesis by (rule that)
qed

lemma mpz_xor_inpl_spec:
  assumes "mpz_ok (st lhs)" "mpz_ok (st rhs)" "\<not> z_fixed (st dest)"
  obtains st' where "mpz_xor_inpl st dest lhs rhs = Some st'" "becomes st dest (zval (st lhs) XOR zval (st rhs)) st'"
proof -
  obtain l r where lf: "longer_first st lhs rhs = (l, r)" by fastforce
  note b = bitwise_operands [OF assms(1,2) lf]
  note ol = okD [OF b(1)] and or = okD [OF b(2)]
  have val: "zval (st lhs) XOR zval (st rhs) = zval (st l) XOR zval (st r)" using b(5) by (auto simp: xor.commute)
  define n where "n = z_len (st l) + of_bool (z_neg (st l) \<or> z_neg (st r))"
  obtain a where a: "mpz_need_dig st dest n = Some (grow st dest a)" "n \<le> a" using need_dig_spec [of st dest, OF assms(3)] by metis
  obtain w k where w: "mpn_xor_neg (z_dig (st l)) (z_dig (st r)) (of_bool (z_neg (st l) \<noteq> z_neg (st r)))
      (of_bool (\<not> z_neg (st l))) (of_bool (\<not> z_neg (st r))) = (w, k)" by fastforce
  note s = mpn_xor_neg_spec [OF ol(2) or(2) b(3) ol(4) or(4) w]
  have fit: "length w \<le> a" using s(2) a(2) by (simp add: n_def)
  have "mpz_xor_inpl st dest lhs rhs = Some (set_neg (putz st dest a (take k w)) dest (z_neg (st l) \<noteq> z_neg (st r)))"
    unfolding mpz_xor_inpl_def lf Let_def prod.case n_def [symmetric]
    using s(3) fit by (simp only: a(1) bind.bind_lunit grow_simps w put_grow)
  moreover have "becomes st dest (zval (st lhs) XOR zval (st rhs)) (set_neg (putz st dest a (take k w)) dest (z_neg (st l) \<noteq> z_neg (st r)))"
  proof (rule becomesI [of st dest, OF assms(3)])
    show "length (take k w) \<le> a" "digs (take k w)" "normd (take k w)" using s fit by (simp_all add: digs_take)
    show "sval (z_neg (st l) \<noteq> z_neg (st r)) (dval (take k w)) = zval (st lhs) XOR zval (st rhs)"
      unfolding val using s(5) by (simp only: zval_def)
    show "z_neg (st l) \<noteq> z_neg (st r) \<Longrightarrow> take k w \<noteq> []"
    proof
      assume n: "z_neg (st l) \<noteq> z_neg (st r)" "take k w = []"
      have "zval (st l) XOR zval (st r) = sval True (dval (take k w))" using s(5) n(1) by (simp add: zval_def)
      then have "zval (st l) XOR zval (st r) = 0" unfolding n(2) by (simp add: sval_def)
      moreover have "zval (st l) XOR zval (st r) < 0" using n(1) zval_neg [OF b(1)] zval_neg [OF b(2)] by (simp add: xor_negative_int_iff)
      ultimately show False by simp
    qed
  qed
  ultimately show thesis by (rule that)
qed

section \<open>Multiplication and division\<close>

lemma mpz_mul_inpl_spec:
  assumes "mpz_ok (st lhs)" "mpz_ok (st rhs)" "\<not> z_fixed (st dest)"
  obtains st' where "mpz_mul_inpl st dest lhs rhs = Some st'" "becomes st dest (zval (st lhs) * zval (st rhs)) st'"
proof (cases "z_len (st lhs) = 0 \<or> z_len (st rhs) = 0")
  case True
  then have "zval (st lhs) * zval (st rhs) = 0" by (auto simp: zval_def sval_def)
  moreover obtain st' where "mpz_set_from_int st dest 0 = Some st'" "becomes st dest 0 st'"
    using mpz_set_from_int_spec [of st dest 0] assms(3) by auto
  ultimately show thesis using True by (intro that) (auto simp: mpz_mul_inpl_def)
next
  case False
  note ol = okD [OF assms(1)] and or = okD [OF assms(2)]
  have al: "z_alloc (st lhs) \<noteq> 0" "z_alloc (st rhs) \<noteq> 0" using False ol(1) or(1) by linarith+
  obtain zl zr where z: "(if lhs = dest then do { temp \<leftarrow> mpz_clone (st lhs); Some (temp, if rhs = dest then temp else st rhs) }
     else if rhs = dest then do { temp \<leftarrow> mpz_clone (st rhs); Some (st lhs, temp) } else Some (st lhs, st rhs)) = Some (zl, zr)"
    "z_dig zl = z_dig (st lhs)" "z_neg zl = z_neg (st lhs)" "z_dig zr = z_dig (st rhs)" "z_neg zr = z_neg (st rhs)"
    using al by (cases "lhs = dest"; cases "rhs = dest") (auto simp: mpz_clone_def)
  obtain a where a: "mpz_need_dig st dest (z_len (st lhs) + z_len (st rhs)) = Some (grow st dest a)"
    "z_len (st lhs) + z_len (st rhs) \<le> a" using need_dig_spec [of st dest, OF assms(3)] by metis
  obtain w k where w: "mpn_mul (replicate a 0) (z_dig (st lhs)) (z_dig (st rhs)) = Some (w, k)" "digs w" "length w = a" "k \<le> a"
    "normd (take k w)" "dval (take k w) = dval (z_dig (st lhs)) * dval (z_dig (st rhs))"
    by (rule mpn_mul_spec [OF ol(2,3) _ or(2,3) _ a(2)]) (use False in auto)
  have "mpz_mul_inpl st dest lhs rhs = Some (set_neg (putz st dest a (take k w)) dest (z_neg (st lhs) \<noteq> z_neg (st rhs)))"
    unfolding mpz_mul_inpl_def z(1) using False w(1,3,4) a(1) z by (simp add: put_grow)
  moreover have "becomes st dest (zval (st lhs) * zval (st rhs))
      (set_neg (putz st dest a (take k w)) dest (z_neg (st lhs) \<noteq> z_neg (st rhs)))"
  proof (rule becomesI [of st dest, OF assms(3)])
    show "length (take k w) \<le> a" "digs (take k w)" "normd (take k w)" using w by (simp_all add: digs_take)
    have pos: "0 < dval (take k w)" unfolding w(6) using False dval_pos ol(2,3) or(2,3) by simp
    show "z_neg (st lhs) \<noteq> z_neg (st rhs) \<Longrightarrow> take k w \<noteq> []" using pos by (cases "take k w = []") simp_all
    show "sval (z_neg (st lhs) \<noteq> z_neg (st rhs)) (dval (take k w)) = zval (st lhs) * zval (st rhs)"
      unfolding w(6) by (simp add: zval_def sval_def)
  qed
  ultimately show thesis by (rule that)
qed

text \<open>
  Division.  The destinations are two numbers of which neither is \<open>rhs\<close> or the number the
  function makes for itself, and the quotient is not written over \<open>lhs\<close>.
\<close>

lemma sval_divmod:
  fixes m n :: int
  assumes "0 \<le> m" "0 < n"
  defines "q \<equiv> m div n" and "r \<equiv> m mod n"
  shows "(- m) div n = (if r = 0 then - q else - q - 1)" "(- m) mod n = (if r = 0 then 0 else n - r)"
    "m div (- n) = (if r = 0 then - q else - q - 1)" "m mod (- n) = (if r = 0 then 0 else r - n)"
    "(- m) div (- n) = q" "(- m) mod (- n) = - r"
  using assms zdiv_zminus1_eq_if [of n m] zmod_zminus1_eq_if [of m n] zdiv_zminus2_eq_if [of n m] zmod_zminus2_eq_if [of m n]
  by (auto simp: q_def r_def)

definition divmod_store :: "zstore \<Rightarrow> zaddr \<Rightarrow> int \<Rightarrow> zaddr \<Rightarrow> int \<Rightarrow> zstore \<Rightarrow> bool" where
  "divmod_store st dq q dr r st' \<longleftrightarrow>
     mpz_ok (st' dq) \<and> \<not> z_fixed (st' dq) \<and> zval (st' dq) = q
     \<and> mpz_ok (st' dr) \<and> \<not> z_fixed (st' dr) \<and> zval (st' dr) = r
     \<and> (\<forall>x. x \<noteq> dq \<longrightarrow> x \<noteq> dr \<longrightarrow> x \<noteq> Loc 0 \<longrightarrow> st' x = st x)"

lemma init_minus_one:
  obtains st' where "mpz_init_from_int st (Loc 0) (- 1) = Some st'" "mpz_ok (st' (Loc 0))" "zval (st' (Loc 0)) = - 1"
    "\<And>x. x \<noteq> Loc 0 \<Longrightarrow> st' x = st x"
proof -
  let ?s = "st(Loc 0 := mpz_init_zero)"
  obtain st' where "mpz_set_from_int ?s (Loc 0) (- 1) = Some st'" "becomes ?s (Loc 0) (- 1) st'"
    using mpz_set_from_int_spec [of ?s "Loc 0" "- 1"] by (auto simp: mpz_init_zero_def)
  then show thesis using becomesD [of ?s "Loc 0" "- 1" st'] by (intro that [of st']) (auto simp: mpz_init_from_int_def)
qed

lemma divmod_signs_spec:
  assumes q: "mpz_ok (s dq)" "\<not> z_fixed (s dq)" "zval (s dq) = X div Y" "\<not> z_neg (s dq)"
    and r: "mpz_ok (s dr)" "\<not> z_fixed (s dr)" "zval (s dr) = sval nl (X mod Y)"
    and d: "mpz_ok (s rhs)" "zval (s rhs) = sval nr Y" "z_neg (s rhs) = nr"
    and l: "z_neg (s lhs) = nl \<or> X mod Y = 0" and XY: "0 \<le> X" "0 < Y"
    and al: "dq \<noteq> dr" "dq \<noteq> lhs" "dq \<noteq> rhs" "dr \<noteq> rhs" "Loc 0 \<notin> {dq, dr, rhs}"
  obtains st' v where "divmod_signs s dq dr lhs rhs = Some st'" "divmod_store s dq v dr (sval nl X mod sval nr Y) st'"
    "z_neg (s lhs) = nl \<Longrightarrow> v = sval nl X div sval nr Y"
proof -
  note dm = sval_divmod [OF XY]
  define s1 where "s1 = set_neg s dq (z_len (s dq) \<noteq> 0)"
  have s1: "mpz_ok (s1 dq)" "\<not> z_fixed (s1 dq)" "zval (s1 dq) = - (X div Y)" "\<And>x. x \<noteq> dq \<Longrightarrow> s1 x = s x"
    using q by (auto simp: s1_def set_neg_def mpz_ok_def zval_def sval_def)
  consider (same) "z_neg (s lhs) = nr" | (zero) "z_neg (s lhs) \<noteq> nr" "X mod Y = 0" | (adj) "z_neg (s lhs) \<noteq> nr" "X mod Y \<noteq> 0" by blast
  then show thesis
  proof cases
    case same
    then have e: "divmod_signs s dq dr lhs rhs = Some s" using d(3) by (simp add: divmod_signs_def)
    have v: "z_neg (s lhs) = nl \<Longrightarrow> X div Y = sval nl X div sval nr Y" using same dm by (auto simp: sval_def)
    have "sval nl (X mod Y) = sval nl X mod sval nr Y" using same l dm by (auto simp: sval_def split: if_splits)
    then have "divmod_store s dq (X div Y) dr (sval nl X mod sval nr Y) s" using q r by (simp add: divmod_store_def)
    then show ?thesis using e v by (intro that)
  next
    case zero
    have "zval (s1 dr) = 0" "s1 dr = s dr" using r(3) zero s1(4) al by (auto simp: sval_def)
    then have z: "mpz_is_zero (s1 dr)" using zval_zero [OF r(1)] by (simp add: mpz_is_zero_def)
    have e: "divmod_signs s dq dr lhs rhs = Some s1" using zero d(3) z by (simp add: divmod_signs_def Let_def s1_def)
    have "sval nl X mod sval nr Y = 0" using zero dm by (auto simp: sval_def)
    then have st: "divmod_store s dq (- (X div Y)) dr (sval nl X mod sval nr Y) s1"
      using s1 r zero al by (simp add: divmod_store_def sval_def)
    have v: "z_neg (s lhs) = nl \<Longrightarrow> - (X div Y) = sval nl X div sval nr Y" using zero dm by (auto simp: sval_def)
    show ?thesis using e st v by (rule that)
  next
    case adj
    have nl: "z_neg (s lhs) = nl" using l adj by simp
    have nz: "\<not> mpz_is_zero (s1 dr)"
      using zval_zero [OF r(1)] r(3) adj s1(4) [of dr] al by (auto simp: mpz_is_zero_def sval_def split: if_splits)
    obtain s2 where s2: "mpz_init_from_int s1 (Loc 0) (- 1) = Some s2" "mpz_ok (s2 (Loc 0))" "zval (s2 (Loc 0)) = - 1"
      "\<And>x. x \<noteq> Loc 0 \<Longrightarrow> s2 x = s1 x" using init_minus_one [of s1] by metis
    have s2q: "s2 dq = s1 dq" "s2 dr = s dr" "s2 rhs = s rhs" using s2(4) s1(4) al by auto
    obtain s3 where s3: "mpz_add_inpl s2 dq dq (Loc 0) = Some s3" "becomes s2 dq (zval (s2 dq) + zval (s2 (Loc 0))) s3"
      using mpz_add_inpl_spec [of s2 dq "Loc 0" dq] s1 s2(2) s2q by metis
    have s3x: "s3 dr = s dr" "s3 rhs = s rhs" using becomesD(4) [OF s3(2)] s2q al by auto
    obtain s4 where s4: "mpz_add_inpl s3 dr dr rhs = Some s4" "becomes s3 dr (zval (s3 dr) + zval (s3 rhs)) s4"
      using mpz_add_inpl_spec [of s3 dr rhs dr] r d s3x by metis
    have e: "divmod_signs s dq dr lhs rhs = Some s4"
      unfolding divmod_signs_def Let_def s1_def [symmetric] using adj(1) d(3) nz s2(1) s3(1) s4(1) by simp
    have rv: "zval (s3 dr) + zval (s3 rhs) = sval nl X mod sval nr Y"
      unfolding s3x r(3) d(2) using adj nl dm by (auto simp: sval_def)
    have qv: "zval (s2 dq) + zval (s2 (Loc 0)) = - (X div Y) - 1" using s2q s1(3) s2(3) by simp
    have v: "- (X div Y) - 1 = sval nl X div sval nr Y" using adj nl dm by (auto simp: sval_def)
    note b4 = becomesD [OF s4(2)[unfolded rv]] and b3 = becomesD [OF s3(2)[unfolded qv]]
    have "divmod_store s dq (- (X div Y) - 1) dr (sval nl X mod sval nr Y) s4"
      unfolding divmod_store_def using b4(1-3) b3(1-3) b4(4) [of dq] al(1) b4(4) b3(4) s2(4) s1(4) by simp
    then show ?thesis using e v by (intro that)
  qed
qed

lemma mpz_divmod_inpl_spec:
  assumes ok: "mpz_ok (st lhs)" "mpz_ok (st rhs)" and nf: "\<not> z_fixed (st dq)" "\<not> z_fixed (st dr)"
    and nz: "zval (st rhs) \<noteq> 0" and al: "dq \<noteq> dr" "dq \<noteq> lhs" "dq \<noteq> rhs" "dr \<noteq> rhs"
    and loc: "Loc 0 \<notin> {dq, dr, lhs, rhs}"
  obtains st' q where "mpz_divmod_inpl st dq dr lhs rhs = Some st'"
    "divmod_store st dq q dr (zval (st lhs) mod zval (st rhs)) st'"
    "dr \<noteq> lhs \<Longrightarrow> q = zval (st lhs) div zval (st rhs)"
proof -
  note ol = okD [OF ok(1)] and or = okD [OF ok(2)]
  define L R where "L = z_dig (st lhs)" and "R = z_dig (st rhs)"
  have R0: "R \<noteq> []" using nz zval_zero [OF ok(2)] by (simp add: R_def)
  have Rpos: "0 < dval R" using dval_pos or(2,3) R0 by (simp add: R_def)
  obtain a where a: "mpz_need_dig st dq (length L + 1) = Some (grow st dq a)" "length L + 1 \<le> a"
    using need_dig_spec [of st dq, OF nf(1)] by metis
  define s1 where "s1 = st(dq := (st dq)\<lparr>z_alloc := a, z_neg := False, z_dig := []\<rparr>)"
  have s1x: "x \<noteq> dq \<Longrightarrow> s1 x = st x" for x by (simp add: s1_def)
  have s1q: "z_alloc (s1 dq) = a" "z_neg (s1 dq) = False" "z_fixed (s1 dq) = False" using nf by (simp_all add: s1_def)
  obtain b where b: "mpz_need_dig s1 dr (length L + 1) = Some (grow s1 dr b)" "length L + 1 \<le> b"
    using need_dig_spec [of s1 dr "length L + 1"] nf(2) al(1) by (metis s1x)
  define s2 where "s2 = grow s1 dr b"
  have s2x: "x \<noteq> dr \<Longrightarrow> s2 x = s1 x" for x by (simp add: s2_def grow_def)
  have s2l: "mpz_ok (s2 lhs)" "z_dig (s2 lhs) = L" "z_neg (s2 lhs) = z_neg (st lhs)" "\<not> z_fixed (s2 dr)" "z_alloc (s2 dr) = b"
    using ol ok(1) al nf b(2) by (cases "lhs = dr"; simp add: s2_def grow_def s1x L_def mpz_ok_def)+
  obtain s3 where s3: "mpz_set s2 dr lhs = Some s3" "becomes s2 dr (zval (s2 lhs)) s3" "z_alloc (s2 dr) \<le> z_alloc (s3 dr)"
    "z_dig (s3 dr) = L" "z_neg (s3 dr) = z_neg (st lhs)"
    using mpz_set_spec [of s2 lhs dr] s2l by metis
  have s3x: "x \<noteq> dr \<Longrightarrow> s3 x = s1 x" for x using becomesD(4) [OF s3(2)] s2x by simp
  have s3r: "z_dig (s3 rhs) = R" "z_neg (s3 rhs) = z_neg (st rhs)" using s3x [of rhs] s1x [of rhs] al by (simp_all add: R_def)
  obtain rm rl quo ql where dv: "mpn_div L R = Some (rm, rl, quo, ql)"
    "digs rm" "length rm \<le> length L" "rl \<le> length rm" "normd (take rl rm)" "dval (take rl rm) = dval L mod dval R"
    "digs quo" "length quo \<le> length L" "ql \<le> length quo" "normd (take ql quo)" "dval (take ql quo) = dval L div dval R"
    by (rule mpn_div_spec [of L R]) (use ol or R0 in \<open>simp_all add: L_def R_def\<close>)
  define Q M where "Q = take ql quo" and "M = take rl rm"
  have Qd: "digs Q" "normd Q" "dval Q = dval L div dval R" "length Q \<le> length L" and Md: "digs M" "normd M" "dval M = dval L mod dval R" "length M \<le> length L"
    using dv by (simp_all add: Q_def M_def digs_take)
  define s4 where "s4 = s3(dr := (s3 dr)\<lparr>z_dig := M\<rparr>)"
  have p4: "z_len (s3 dr) + 1 \<le> z_alloc (s3 dr)" "put_dig s3 dr (rm, rl) = Some s4"
    using s3(3,4) s2l(5) b(2) dv(3,4) by (simp_all add: put_dig_def s4_def M_def)
  define s5 where "s5 = s4(dq := (s4 dq)\<lparr>z_dig := Q\<rparr>)"
  have p5: "put_dig s4 dq (quo, ql) = Some s5"
    using s3x [of dq] s1q a(2) dv(8,9) al by (simp add: put_dig_def s5_def s4_def Q_def)
  define s6 where "s6 = set_neg s5 dr (z_neg (s5 dr) \<and> z_len (s5 dr) \<noteq> 0)"
  have body: "mpz_divmod_inpl st dq dr lhs rhs = divmod_signs s6 dq dr lhs rhs"
  proof -
    have nzr: "\<not> mpz_is_zero (st rhs)" using R0 by (simp add: mpz_is_zero_def R_def)
    have e1: "(grow st dq a)(dq := (grow st dq a dq)\<lparr>z_neg := False, z_dig := []\<rparr>) = s1" by (simp add: s1_def grow_def)
    have e2: "z_len (s1 lhs) = length L" using al s1x by (simp add: L_def)
    show ?thesis
      unfolding mpz_divmod_inpl_def
      using nzr a(1) b(1) s3(1,4) s3r(1) p4 p5 dv(1)
      by (simp only: if_False bind.bind_lunit L_def [symmetric] e1 e2 s2_def [symmetric] prod.case if_True s6_def)
  qed
  have x6: "x \<noteq> dr \<Longrightarrow> x \<noteq> dq \<Longrightarrow> s6 x = st x" for x by (simp add: s6_def s5_def s4_def s3x s1x)
  have q6: "z_dig (s6 dq) = Q" "z_neg (s6 dq) = False" "z_fixed (s6 dq) = False" "z_alloc (s6 dq) = a"
    using al s1q by (simp_all add: s6_def s5_def s4_def s3x)
  have r6: "z_dig (s6 dr) = M" "z_neg (s6 dr) = (z_neg (st lhs) \<and> M \<noteq> [])" "\<not> z_fixed (s6 dr)" "z_alloc (s6 dr) = z_alloc (s3 dr)"
    using al s3(5) becomesD(2) [OF s3(2)] by (simp_all add: s6_def s5_def s4_def)
  have M0: "M = [] \<longleftrightarrow> dval L mod dval R = 0" using dval_eq_0 [OF Md(1,2)] Md(3) by simp
  have Lnn: "0 \<le> dval L" using dval_nonneg ol(2) by (simp add: L_def)
  have kq: "mpz_ok (s6 dq)" "\<not> z_fixed (s6 dq)" "zval (s6 dq) = dval L div dval R" "\<not> z_neg (s6 dq)"
    using q6 Qd a(2) by (simp_all add: mpz_ok_def zval_def sval_def)
  have kr: "mpz_ok (s6 dr)" "\<not> z_fixed (s6 dr)" "zval (s6 dr) = sval (z_neg (st lhs)) (dval L mod dval R)"
    using r6 Md p4(1) s3(4) M0 by (auto simp: mpz_ok_def zval_def sval_def)
  have kd: "mpz_ok (s6 rhs)" "zval (s6 rhs) = sval (z_neg (st rhs)) (dval R)" "z_neg (s6 rhs) = z_neg (st rhs)"
    using x6 [of rhs] al ok(2) by (simp_all add: zval_def R_def)
  have kl: "z_neg (s6 lhs) = z_neg (st lhs) \<or> dval L mod dval R = 0"
    using x6 [of lhs] al r6(2) M0 by (cases "lhs = dr") auto
  have al6: "Loc 0 \<notin> {dq, dr, rhs}" using loc by simp
  obtain st' v where f: "divmod_signs s6 dq dr lhs rhs = Some st'"
    "divmod_store s6 dq v dr (sval (z_neg (st lhs)) (dval L) mod sval (z_neg (st rhs)) (dval R)) st'"
    "z_neg (s6 lhs) = z_neg (st lhs) \<Longrightarrow> v = sval (z_neg (st lhs)) (dval L) div sval (z_neg (st rhs)) (dval R)"
    using divmod_signs_spec [of s6 dq "dval L" "dval R" dr "z_neg (st lhs)" rhs "z_neg (st rhs)" lhs, OF kq kr kd kl Lnn Rpos al al6] by blast
  have "divmod_store st dq v dr (zval (st lhs) mod zval (st rhs)) st'"
    using f(2) x6 by (simp add: divmod_store_def zval_def L_def R_def)
  moreover have "dr \<noteq> lhs \<Longrightarrow> v = zval (st lhs) div zval (st rhs)"
    using f(3) x6 [of lhs] al by (simp add: zval_def L_def R_def)
  ultimately show thesis using body f(1) by (intro that [of st' v]) simp_all
qed

section \<open>Powers\<close>

text \<open>
  The contract of a multiplication step of the power loops: it leaves the reduced product of
  the numbers at \<open>d\<close> and \<open>r\<close> at \<open>d\<close>, and otherwise touches only reserved addresses.  Reduction
  commutes with products.  Under it the loop yields the reduced power.
\<close>

locale power_step =
  fixes mul :: "zstore \<Rightarrow> zaddr \<Rightarrow> zaddr \<Rightarrow> zstore option"
    and red :: "int \<Rightarrow> int"
    and reserved :: "zaddr set"
    and good :: "zstore \<Rightarrow> bool"
  assumes step: "good st \<Longrightarrow> mpz_ok (st d) \<Longrightarrow> mpz_ok (st r) \<Longrightarrow> \<not> z_fixed (st d) \<Longrightarrow> d \<notin> reserved \<Longrightarrow> r \<notin> reserved \<Longrightarrow>
      \<exists>st'. mul st d r = Some st' \<and> mpz_ok (st' d) \<and> \<not> z_fixed (st' d) \<and> zval (st' d) = red (zval (st d) * zval (st r))
        \<and> (\<forall>x. x \<noteq> d \<longrightarrow> x \<notin> reserved \<longrightarrow> st' x = st x) \<and> good st'"
    and red_mult: "red (red a * b) = red (a * b)"
begin

lemma red_mult_right: "red (a * red b) = red (a * b)"
  using red_mult [of b a] by (simp add: mult.commute)

lemma red_power: "red (a * red b ^ k) = red (a * b ^ k)"
proof (induction k arbitrary: a)
  case (Suc k)
  have "red (a * red b ^ Suc k) = red ((a * red b) * red b ^ k)" by (simp add: ac_simps)
  also have "\<dots> = red (red (a * red b) * b ^ k)" using Suc [of "a * red b"] red_mult [of "a * red b" "b ^ k"] by simp
  also have "\<dots> = red ((a * b) * b ^ k)" by (simp add: red_mult_right red_mult)
  finally show ?case by (simp add: ac_simps)
qed simp

lemma pow_loop_spec:
  assumes "good st" "mpz_ok (st d)" "mpz_ok (st x)" "\<not> z_fixed (st d)" "\<not> z_fixed (st x)" "d \<noteq> x" "d \<notin> reserved" "x \<notin> reserved"
    and "digs n" "normd n" "n \<noteq> []" "dval n < 2 ^ fuel"
  shows "\<exists>st'. pow_loop fuel mul st d x n = Some st' \<and> mpz_ok (st' d) \<and> \<not> z_fixed (st' d)
    \<and> zval (st' d) = red (zval (st d) * zval (st x) ^ nat (dval n))
    \<and> (\<forall>y. y \<noteq> d \<longrightarrow> y \<noteq> x \<longrightarrow> y \<notin> reserved \<longrightarrow> st' y = st y) \<and> good st'"
  using assms
proof (induction fuel arbitrary: st n)
  case 0
  then show ?case using dval_pos [of n] by simp
next
  case (Suc fuel)
  obtain n0 ns where n: "n = n0 # ns" using Suc.prems(11) by (cases n) auto
  define N where "N = dval n"
  have N: "0 < N" "N < 2 ^ Suc fuel" using dval_pos Suc.prems by (auto simp: N_def)
  have odd: "n0 AND 1 \<noteq> 0 \<longleftrightarrow> odd N" by (simp add: N_def n and_one_eq odd_iff_mod_2_eq_one)
  obtain w l where w: "mpn_shr n 1 = (w, l)" by fastforce
  note sh = mpn_shr_spec [OF Suc.prems(9,10) w]
  define n' where "n' = take l w"
  have n': "digs n'" "normd n'" "dval n' = N div 2" "l = 0 \<longleftrightarrow> n' = []"
    using sh by (auto simp: n'_def digs_take N_def)
  obtain s1 where s1: "(if n0 AND 1 \<noteq> 0 then mul st d x else Some st) = Some s1" "mpz_ok (s1 d)" "\<not> z_fixed (s1 d)"
    "zval (s1 d) = (if odd N then red (zval (st d) * zval (st x)) else zval (st d))"
    "\<forall>y. y \<noteq> d \<longrightarrow> y \<notin> reserved \<longrightarrow> s1 y = st y" "good s1"
  proof (cases "odd N")
    case True
    then show ?thesis using step [of st d x] Suc.prems(1-8) odd that by auto
  next
    case False
    then show ?thesis using Suc.prems(1,2,4) odd that [of st] by auto
  qed
  have s1x: "s1 x = st x" using s1(5) Suc.prems(6,8) by auto
  have e: "pow_loop (Suc fuel) mul st d x n =
      (if n' = [] then Some s1 else do { st \<leftarrow> mul s1 x x; pow_loop fuel mul st d x n' })"
    unfolding n pow_loop.simps list.case s1(1) using w n' by (simp add: n n'_def)
  show ?case
  proof (cases "n' = []")
    case True
    then have "N div 2 = 0" using n'(3) by simp
    then have "N = 1" using N by simp
    then show ?thesis using e True s1 by (auto simp: N_def [symmetric])
  next
    case False
    obtain s2 where s2: "mul s1 x x = Some s2" "mpz_ok (s2 x)" "\<not> z_fixed (s2 x)" "zval (s2 x) = red (zval (s1 x) * zval (s1 x))"
      "\<forall>y. y \<noteq> x \<longrightarrow> y \<notin> reserved \<longrightarrow> s2 y = s1 y" "good s2"
      using step [of s1 x x] s1(6) s1x Suc.prems(3,5,8) by auto
    have s2d: "s2 d = s1 d" using s2(5) Suc.prems(6,7) by auto
    have lt: "dval n' < 2 ^ fuel" using n'(3) N by simp
    have pre: "mpz_ok (s2 d)" "\<not> z_fixed (s2 d)" using s2d s1(2,3) by simp_all
    obtain s3 where s3: "pow_loop fuel mul s2 d x n' = Some s3" "mpz_ok (s3 d)" "\<not> z_fixed (s3 d)"
      "zval (s3 d) = red (zval (s2 d) * zval (s2 x) ^ nat (dval n'))"
      "\<forall>y. y \<noteq> d \<longrightarrow> y \<noteq> x \<longrightarrow> y \<notin> reserved \<longrightarrow> s3 y = s2 y" "good s3"
      using Suc.IH [OF s2(6) pre(1) s2(2) pre(2) s2(3) Suc.prems(6-8) n'(1,2) False lt] by blast
    define k where "k = nat (N div 2)"
    have nk: "nat N = 2 * k + (if odd N then 1 else 0)"
    proof -
      have ik: "int k = N div 2" using N(1) by (simp add: k_def)
      have "N = 2 * int k + (if odd N then 1 else 0)" unfolding ik by presburger
      then have "N = int (2 * k + (if odd N then 1 else 0))" by (cases "odd N") simp_all
      then show ?thesis by (metis nat_int)
    qed
    define X A where "X = zval (st x)" and "A = zval (st d)"
    have "zval (s3 d) = red ((if odd N then red (A * X) else A) * red (X * X) ^ k)"
      using s3(4) s2(4) s2d s1(4) s1x n'(3) by (simp add: k_def X_def A_def)
    also have "\<dots> = red ((if odd N then A * X else A) * (X * X) ^ k)" by (simp add: red_power red_mult)
    also have "\<dots> = red (A * X ^ nat N)"
      by (simp add: nk power_add power_mult_distrib mult_2) (simp add: ac_simps)
    finally have "zval (s3 d) = red (zval (st d) * zval (st x) ^ nat (dval n))" by (simp add: X_def A_def N_def)
    moreover have "\<forall>y. y \<noteq> d \<longrightarrow> y \<noteq> x \<longrightarrow> y \<notin> reserved \<longrightarrow> s3 y = st y" using s3(5) s2(5) s1(5) by simp
    moreover have "pow_loop (Suc fuel) mul st d x n = Some s3" using e False s2(1) s3(1) by simp
    ultimately show ?thesis using s3 by blast
  qed
qed

end

interpretation plain: power_step "\<lambda>st d r. mpz_mul_inpl st d d r" "\<lambda>x. x" "{}" "\<lambda>st. True"
proof
  fix st :: zstore and d r
  assume "mpz_ok (st d)" "mpz_ok (st r)" "\<not> z_fixed (st d)"
  then show "\<exists>st'. mpz_mul_inpl st d d r = Some st' \<and> mpz_ok (st' d) \<and> \<not> z_fixed (st' d) \<and> zval (st' d) = zval (st d) * zval (st r)
      \<and> (\<forall>x. x \<noteq> d \<longrightarrow> x \<notin> {} \<longrightarrow> st' x = st x) \<and> True"
    using mpz_mul_inpl_spec [of st d r d] becomesD [of st d] by metis
qed simp

definition mod_ready :: "zaddr \<Rightarrow> mpz \<Rightarrow> zstore \<Rightarrow> bool" where
  "mod_ready md zm st \<longleftrightarrow> st md = zm \<and> mpz_ok zm \<and> zval zm \<noteq> 0 \<and> md \<notin> {Loc 0, Loc 2} \<and> \<not> z_fixed (st (Loc 2))"

interpretation modular: power_step "mul_mod md" "\<lambda>x. x mod zval zm" "{Loc 0, Loc 2, md}" "mod_ready md zm" for md zm
proof
  fix st :: zstore and d r
  assume g: "mod_ready md zm st" and ok: "mpz_ok (st d)" "mpz_ok (st r)" and nf: "\<not> z_fixed (st d)"
    and d: "d \<notin> {Loc 0, Loc 2, md}" and r: "r \<notin> {Loc 0, Loc 2, md}"
  obtain s1 where s1: "mpz_mul_inpl st d d r = Some s1" "becomes st d (zval (st d) * zval (st r)) s1"
    using mpz_mul_inpl_spec [of st d r d] ok nf by metis
  note b = becomesD [OF s1(2)]
  have m: "s1 md = zm" "s1 (Loc 2) = st (Loc 2)" using b(4) d g by (auto simp: mod_ready_def)
  have pre: "mpz_ok (s1 d)" "mpz_ok (s1 md)" "\<not> z_fixed (s1 (Loc 2))" "\<not> z_fixed (s1 d)" "zval (s1 md) \<noteq> 0"
    "Loc 2 \<noteq> d" "Loc 2 \<noteq> md" "d \<noteq> md" "Loc 0 \<notin> {Loc 2, d, d, md}"
    using b m g d by (auto simp: mod_ready_def)
  obtain s2 q where s2: "mpz_divmod_inpl s1 (Loc 2) d d md = Some s2"
    "divmod_store s1 (Loc 2) q d (zval (s1 d) mod zval (s1 md)) s2"
    using mpz_divmod_inpl_spec [of s1 d md "Loc 2" d, OF pre(1,2,3,4,5,6,6,7,8,9)] by blast
  have "mul_mod md st d r = Some s2" using s1(1) s2(1) by (simp add: mul_mod_def)
  moreover have "mod_ready md zm s2" using s2(2) m g pre by (simp add: divmod_store_def mod_ready_def)
  moreover have "\<forall>x. x \<noteq> d \<longrightarrow> x \<notin> {Loc 0, Loc 2, md} \<longrightarrow> s2 x = st x" using s2(2) b(4) by (simp add: divmod_store_def)
  ultimately show "\<exists>st'. mul_mod md st d r = Some st' \<and> mpz_ok (st' d) \<and> \<not> z_fixed (st' d)
      \<and> zval (st' d) = (zval (st d) * zval (st r)) mod zval zm
      \<and> (\<forall>x. x \<noteq> d \<longrightarrow> x \<notin> {Loc 0, Loc 2, md} \<longrightarrow> st' x = st x) \<and> mod_ready md zm st'"
    using s2(2) b(3) m(1) unfolding divmod_store_def by auto
qed (simp add: mod_mult_left_eq)

lemma clone_spec: "z_dig z \<noteq> [] \<Longrightarrow> mpz_ok z \<Longrightarrow> mpz_clone z = Some (z\<lparr>z_fixed := False\<rparr>)"
  using length_greater_0_conv [of "z_dig z"] by (simp add: mpz_clone_def mpz_ok_def del: length_greater_0_conv)

lemma dval_fuel: "digs ds \<Longrightarrow> dval ds < 2 ^ (16 * length ds)"
  using dval_less [of ds] by (simp add: power_mult)

lemma mpz_pow_inpl_spec:
  assumes ok: "mpz_ok (st lhs)" "mpz_ok (st rhs)" and nf: "\<not> z_fixed (st dest)" and loc: "dest \<noteq> Loc 1"
    and nn: "0 \<le> zval (st rhs)" and nz: "zval (st lhs) \<noteq> 0"
  obtains st' where "mpz_pow_inpl st dest lhs rhs = Some st'" "mpz_ok (st' dest)" "\<not> z_fixed (st' dest)"
    "zval (st' dest) = zval (st lhs) ^ nat (zval (st rhs))" "\<forall>x. x \<noteq> dest \<longrightarrow> x \<noteq> Loc 1 \<longrightarrow> st' x = st x"
proof -
  have L: "z_dig (st lhs) \<noteq> []" using nz zval_zero [OF ok(1)] by simp
  have rn: "\<not> z_neg (st rhs)" using nn zval_neg [OF ok(2)] by auto
  show thesis
  proof (cases "z_dig (st rhs) = []")
    case True
    obtain st' where s: "mpz_set_from_int st dest 1 = Some st'" "becomes st dest 1 st'"
      using mpz_set_from_int_spec [of st dest 1] nf by auto
    have "zval (st rhs) = 0" using True zval_zero [OF ok(2)] by simp
    then show ?thesis using s L True rn becomesD [OF s(2)] by (intro that [of st']) (auto simp: mpz_pow_inpl_def)
  next
    case False
    define x where "x = (st lhs)\<lparr>z_fixed := False\<rparr>"
    have xx: "mpz_ok x" "zval x = zval (st lhs)" "\<not> z_fixed x" using ok(1) by (simp_all add: x_def mpz_ok_def zval_def)
    let ?s = "st(Loc 1 := x)"
    obtain s1 where s1: "mpz_set_from_int ?s dest 1 = Some s1" "becomes ?s dest 1 s1"
      using mpz_set_from_int_spec [of ?s dest 1] nf loc by auto
    note b = becomesD [OF s1(2)]
    have x1: "s1 (Loc 1) = x" using b(4) [of "Loc 1"] loc by simp
    define n where "n = z_dig (st rhs)"
    have n: "digs n" "normd n" "n \<noteq> []" "dval n < 2 ^ (16 * length n)" "nat (dval n) = nat (zval (st rhs))"
      using okD [OF ok(2)] False rn dval_fuel by (simp_all add: n_def zval_def sval_def)
    obtain s2 where s2: "pow_loop (16 * length n) (\<lambda>st d r. mpz_mul_inpl st d d r) s1 dest (Loc 1) n = Some s2" "mpz_ok (s2 dest)"
      "\<not> z_fixed (s2 dest)" "zval (s2 dest) = zval (s1 dest) * zval (s1 (Loc 1)) ^ nat (dval n)"
      "\<forall>y. y \<noteq> dest \<longrightarrow> y \<noteq> Loc 1 \<longrightarrow> y \<notin> {} \<longrightarrow> s2 y = s1 y"
      using plain.pow_loop_spec [of s1 dest "Loc 1" n "16 * length n"] b(1,2) x1 xx loc n by blast
    have "mpz_pow_inpl st dest lhs rhs = Some s2"
      using L rn False s1(1) s2(1) clone_spec [OF L ok(1)] clone_spec [OF False ok(2)]
      by (simp add: mpz_pow_inpl_def x_def n_def)
    moreover have "\<forall>y. y \<noteq> dest \<longrightarrow> y \<noteq> Loc 1 \<longrightarrow> s2 y = st y" using s2(5) b(4) by simp
    ultimately show ?thesis using s2(2-4) b(3) x1 xx n(5) by (intro that [of s2]) simp_all
  qed
qed

lemma mpz_pow3_inpl_spec:
  assumes ok: "mpz_ok (st lhs)" "mpz_ok (st rhs)" "mpz_ok (st md)" and nf: "\<not> z_fixed (st dest)"
    and al: "dest \<noteq> lhs" "dest \<noteq> rhs" "dest \<noteq> md" "{dest, lhs, rhs, md} \<inter> {Loc 0, Loc 1, Loc 2} = {}"
    and nn: "0 < zval (st rhs)" and nz: "zval (st lhs) \<noteq> 0" "zval (st md) \<noteq> 0"
  obtains st' where "mpz_pow3_inpl st dest lhs rhs md = Some st'" "mpz_ok (st' dest)"
    "zval (st' dest) = zval (st lhs) ^ nat (zval (st rhs)) mod zval (st md)"
    "\<forall>x. x \<noteq> dest \<longrightarrow> x \<notin> {Loc 0, Loc 1, Loc 2} \<longrightarrow> st' x = st x"
proof -
  have L: "z_dig (st lhs) \<noteq> []" and R: "z_dig (st rhs) \<noteq> []" using nn nz zval_zero [OF ok(1)] zval_zero [OF ok(2)] by auto
  have rn: "\<not> z_neg (st rhs)" using nn zval_neg [OF ok(2)] by auto
  show thesis
  proof (cases "z_dig (st md) = [1]")
    case True
    obtain st' where s: "mpz_set_from_int st dest 0 = Some st'" "becomes st dest 0 st'"
      using mpz_set_from_int_spec [of st dest 0] nf by auto
    have "zval (st md) = 1 \<or> zval (st md) = - 1" using True by (simp add: zval_def sval_def)
    then show ?thesis using s True becomesD [OF s(2)] by (intro that [of st']) (auto simp: mpz_pow3_inpl_def)
  next
    case False
    obtain s1 where s1: "mpz_set_from_int st dest 1 = Some s1" "becomes st dest 1 s1"
      using mpz_set_from_int_spec [of st dest 1] nf by auto
    note b = becomesD [OF s1(2)]
    have s1x: "s1 lhs = st lhs" "s1 rhs = st rhs" "s1 md = st md" using b(4) al(1-3) by auto
    define x where "x = (st lhs)\<lparr>z_fixed := False\<rparr>"
    have xx: "mpz_ok x" "zval x = zval (st lhs)" "\<not> z_fixed x" using ok(1) by (simp_all add: x_def mpz_ok_def zval_def)
    define s2 where "s2 = s1(Loc 1 := x, Loc 2 := mpz_init_zero)"
    have s2x: "s2 (Loc 1) = x" "s2 dest = s1 dest" "s2 md = st md" using al s1x by (auto simp: s2_def)
    have g: "mod_ready md (st md) s2" using s2x(3) ok(3) nz(2) al by (auto simp: mod_ready_def s2_def mpz_init_zero_def)
    define n where "n = z_dig (st rhs)"
    have n: "digs n" "normd n" "n \<noteq> []" "dval n < 2 ^ (16 * length n)" "nat (dval n) = nat (zval (st rhs))"
      using okD [OF ok(2)] R rn dval_fuel by (simp_all add: n_def zval_def sval_def)
    have res: "dest \<noteq> Loc 1" "dest \<notin> {Loc 0, Loc 2, md}" "Loc 1 \<notin> {Loc 0, Loc 2, md}" using al by auto
    obtain s3 where s3: "pow_loop (16 * length n) (mul_mod md) s2 dest (Loc 1) n = Some s3" "mpz_ok (s3 dest)"
      "zval (s3 dest) = (zval (s2 dest) * zval (s2 (Loc 1)) ^ nat (dval n)) mod zval (st md)"
      "\<forall>y. y \<noteq> dest \<longrightarrow> y \<noteq> Loc 1 \<longrightarrow> y \<notin> {Loc 0, Loc 2, md} \<longrightarrow> s3 y = s2 y" "mod_ready md (st md) s3"
      using modular.pow_loop_spec [of md "st md" s2 dest "Loc 1" n "16 * length n"] g s2x b(1,2) xx res n by metis
    have e: "mpz_pow3_inpl st dest lhs rhs md = Some s3"
      using False L R rn s1(1) s3(1) s1x clone_spec [OF L ok(1)] clone_spec [OF R ok(2)]
      by (simp add: mpz_pow3_inpl_def x_def [symmetric] n_def s2_def)
    have "s3 md = st md" using s3(5) by (simp add: mod_ready_def)
    then have "\<forall>y. y \<noteq> dest \<longrightarrow> y \<notin> {Loc 0, Loc 1, Loc 2} \<longrightarrow> s3 y = st y" using s3(4) b(4) by (metis fun_upd_apply insertCI insertE s2_def singletonD)
    then show ?thesis using e s3(2,3) s2x b(3) xx n(5) by (intro that [of s3]) simp_all
  qed
qed

lemma dval_one:
  assumes "digs ds" "normd ds" "dval ds = 1"
  shows "ds = [1]"
proof (cases ds)
  case (Cons d ds')
  have d: "0 \<le> d" "d < DIG_BASE" "digs ds'" "normd ds'" using assms(1,2) Cons by (auto simp: digs_def normd_def split: if_splits)
  have "dval ds' = 0" using assms(3) Cons d dval_nonneg [OF d(3)] by simp
  then have "ds' = []" using dval_eq_0 [OF d(3,4)] by simp
  then show ?thesis using assms(3) Cons by simp
qed (use assms in simp)

text \<open>All cases of a power, those in which the functions do not enter the loop included.\<close>

lemma mpz_pow_inpl_cases:
  assumes ok: "mpz_ok (st lhs)" "mpz_ok (st rhs)" and nf: "\<not> z_fixed (st dest)" and loc: "dest \<noteq> Loc 1"
  obtains st' where "mpz_pow_inpl st dest lhs rhs = Some st'" "mpz_ok (st' dest)"
    "zval (st' dest) = (if zval (st lhs) = 0 \<or> zval (st rhs) < 0 then 0 else zval (st lhs) ^ nat (zval (st rhs)))"
    "\<forall>x. x \<noteq> dest \<longrightarrow> x \<noteq> Loc 1 \<longrightarrow> st' x = st x"
proof (cases "zval (st lhs) = 0 \<or> zval (st rhs) < 0")
  case True
  obtain st' where s: "mpz_set_from_int st dest 0 = Some st'" "becomes st dest 0 st'"
    using mpz_set_from_int_spec [of st dest 0] nf by auto
  have "z_dig (st lhs) = [] \<or> z_neg (st rhs)" using True zval_zero [OF ok(1)] zval_neg [OF ok(2)] by auto
  then show thesis using True s becomesD [OF s(2)] by (intro that [of st']) (auto simp: mpz_pow_inpl_def)
next
  case False
  then have "0 \<le> zval (st rhs)" "zval (st lhs) \<noteq> 0" by auto
  then obtain st' where "mpz_pow_inpl st dest lhs rhs = Some st'" "mpz_ok (st' dest)" "zval (st' dest) = zval (st lhs) ^ nat (zval (st rhs))"
      "\<forall>x. x \<noteq> dest \<longrightarrow> x \<noteq> Loc 1 \<longrightarrow> st' x = st x"
    using mpz_pow_inpl_spec [of st lhs rhs dest, OF ok nf loc] by metis
  then show thesis using False by (intro that [of st']) simp_all
qed

lemma mpz_pow3_inpl_cases:
  assumes ok: "mpz_ok (st lhs)" "mpz_ok (st rhs)" "mpz_ok (st md)" and nf: "\<not> z_fixed (st dest)"
    and al: "{dest, lhs, rhs, md} \<inter> {Loc 0, Loc 1, Loc 2} = {}" "zval (st md) \<noteq> 0" "dest \<notin> {lhs, rhs, md}"
  shows "\<exists>s. mpz_pow3_inpl st dest lhs rhs md = Some s \<and> mpz_ok (s dest)
      \<and> zval (s dest) = (if zval (st lhs) = 0 \<or> zval (st rhs) < 0 then 0 else if zval (st rhs) = 0 \<and> \<bar>zval (st md)\<bar> \<noteq> 1 then 1
          else zval (st lhs) ^ nat (zval (st rhs)) mod zval (st md))
      \<and> (\<forall>x. x \<noteq> dest \<longrightarrow> x \<notin> {Loc 0, Loc 1, Loc 2} \<longrightarrow> s x = st x)"
proof (cases "zval (st lhs) \<noteq> 0 \<and> 0 < zval (st rhs)")
  case True
  obtain s where s: "mpz_pow3_inpl st dest lhs rhs md = Some s" "mpz_ok (s dest)" "zval (s dest) = zval (st lhs) ^ nat (zval (st rhs)) mod zval (st md)"
      "\<forall>x. x \<noteq> dest \<longrightarrow> x \<notin> {Loc 0, Loc 1, Loc 2} \<longrightarrow> s x = st x"
    by (rule mpz_pow3_inpl_spec [of st lhs rhs md dest]) (use assms True in auto)
  then show ?thesis using True by auto
next
  case False
  have one: "z_dig (st md) = [1] \<longleftrightarrow> \<bar>zval (st md)\<bar> = 1"
  proof
    assume "\<bar>zval (st md)\<bar> = 1"
    then have "dval (z_dig (st md)) = 1" using dval_nonneg [OF okD(2) [OF ok(3)]] by (auto simp: zval_def sval_def split: if_splits)
    then show "z_dig (st md) = [1]" by (rule dval_one [OF okD(2,3) [OF ok(3)]])
  qed (simp add: zval_def sval_def)
  obtain s0 where s0: "mpz_set_from_int st dest 0 = Some s0" "becomes st dest 0 s0"
    using mpz_set_from_int_spec [of st dest 0] nf by auto
  obtain s1 where s1: "mpz_set_from_int st dest 1 = Some s1" "becomes st dest 1 s1"
    using mpz_set_from_int_spec [of st dest 1] nf by auto
  note b = becomesD [OF s0(2)] becomesD [OF s1(2)]
  have z: "z_dig (st lhs) = [] \<longleftrightarrow> zval (st lhs) = 0" "z_neg (st rhs) \<longleftrightarrow> zval (st rhs) < 0" "z_dig (st rhs) = [] \<longleftrightarrow> zval (st rhs) = 0"
    using zval_zero [OF ok(1)] zval_neg [OF ok(2)] zval_zero [OF ok(2)] by auto
  show ?thesis
  proof (cases "zval (st lhs) = 0 \<or> zval (st rhs) < 0 \<or> \<bar>zval (st md)\<bar> = 1")
    case True
    then have "mpz_pow3_inpl st dest lhs rhs md = Some s0" using z one s0(1) by (auto simp: mpz_pow3_inpl_def)
    moreover have "x mod zval (st md) = 0" if "\<bar>zval (st md)\<bar> = 1" for x using that by (auto simp: abs_if split: if_splits)
    ultimately show ?thesis using True b(1,3,4) False by auto
  next
    case no: False
    have "s1 rhs = st rhs" using b(8) al(3) by auto
    then have "mpz_pow3_inpl st dest lhs rhs md = Some s1" using no False z one s1(1) by (auto simp: mpz_pow3_inpl_def)
    then show ?thesis using no False b(5,7,8) by auto
  qed
qed

section \<open>What the operations compute\<close>

text \<open>A store for examples: the numbers \<open>-2^32\<close>, \<open>2^31\<close> and 5, the rest zero.\<close>

definition sample_store :: zstore where
  "sample_store = (\<lambda>z. mpz_init_zero)
      (Obj 0 := \<lparr>z_neg = True, z_fixed = False, z_alloc = 3, z_dig = [0, 0, 1]\<rparr>,
       Obj 2 := \<lparr>z_neg = False, z_fixed = False, z_alloc = 2, z_dig = [0, 0x8000]\<rparr>,
       Obj 3 := \<lparr>z_neg = False, z_fixed = False, z_alloc = 2, z_dig = [5]\<rparr>)"

lemma sample_store_simps:
  "mpz_ok (sample_store z)" "\<not> z_fixed (sample_store z)" "zval (sample_store (Obj 0)) = - 4294967296" "zval (sample_store (Obj 2)) = 2147483648" "zval (sample_store (Obj 3)) = 5"
  by (auto simp: sample_store_def mpz_init_zero_def mpz_ok_def digs_def normd_def zval_def sval_def)

text \<open>C9: Addition, subtraction and multiplication leave the exact result in the destination,
  whichever of the three numbers are the same one; the result is well formed and no other
  number changes.  The operations always return: no digit is stored outside a buffer.
\<close>

theorem mpz_ring_exact:
  assumes "mpz_ok (st lhs)" "mpz_ok (st rhs)" "\<not> z_fixed (st dest)"
  shows "\<exists>s1 s2 s3. mpz_add_inpl st dest lhs rhs = Some s1 \<and> becomes st dest (zval (st lhs) + zval (st rhs)) s1
    \<and> mpz_sub_inpl st dest lhs rhs = Some s2 \<and> becomes st dest (zval (st lhs) - zval (st rhs)) s2
    \<and> mpz_mul_inpl st dest lhs rhs = Some s3 \<and> becomes st dest (zval (st lhs) * zval (st rhs)) s3"
proof -
  obtain s1 where 1: "mpz_add_inpl st dest lhs rhs = Some s1" "becomes st dest (zval (st lhs) + zval (st rhs)) s1"
    by (rule mpz_add_inpl_spec [of st lhs rhs dest, OF assms])
  obtain s2 where 2: "mpz_sub_inpl st dest lhs rhs = Some s2" "becomes st dest (zval (st lhs) - zval (st rhs)) s2"
    by (rule mpz_sub_inpl_spec [of st lhs rhs dest, OF assms])
  obtain s3 where 3: "mpz_mul_inpl st dest lhs rhs = Some s3" "becomes st dest (zval (st lhs) * zval (st rhs)) s3"
    by (rule mpz_mul_inpl_spec [of st lhs rhs dest, OF assms])
  from 1 2 3 show ?thesis by blast
qed

theorem mpz_ring_exact_witness:
  "\<exists>s1 s2 s3. mpz_add_inpl sample_store (Obj 0) (Obj 0) (Obj 2) = Some s1 \<and> becomes sample_store (Obj 0) (- 2147483648) s1
    \<and> mpz_sub_inpl sample_store (Obj 0) (Obj 0) (Obj 2) = Some s2 \<and> becomes sample_store (Obj 0) (- 6442450944) s2
    \<and> mpz_mul_inpl sample_store (Obj 0) (Obj 0) (Obj 2) = Some s3 \<and> becomes sample_store (Obj 0) (- 9223372036854775808) s3"
  using mpz_ring_exact [of sample_store "Obj 0" "Obj 2" "Obj 0"] by (simp add: sample_store_simps)

text \<open>C18: The bitwise operations act on the infinite two's complement of their operands, of
  either sign, with any coincidence of destination and operands.
\<close>

theorem mpz_bitwise_exact:
  assumes "mpz_ok (st lhs)" "mpz_ok (st rhs)" "\<not> z_fixed (st dest)"
  shows "\<exists>s1 s2 s3 s4. mpz_and_inpl st dest lhs rhs = Some s1 \<and> becomes st dest (zval (st lhs) AND zval (st rhs)) s1
    \<and> mpz_or_inpl st dest lhs rhs = Some s2 \<and> becomes st dest (zval (st lhs) OR zval (st rhs)) s2
    \<and> mpz_xor_inpl st dest lhs rhs = Some s3 \<and> becomes st dest (zval (st lhs) XOR zval (st rhs)) s3
    \<and> mpz_not_inpl st dest lhs = Some s4 \<and> becomes st dest (NOT (zval (st lhs))) s4"
proof -
  obtain s1 where 1: "mpz_and_inpl st dest lhs rhs = Some s1" "becomes st dest (zval (st lhs) AND zval (st rhs)) s1"
    by (rule mpz_and_inpl_spec [of st lhs rhs dest, OF assms])
  obtain s2 where 2: "mpz_or_inpl st dest lhs rhs = Some s2" "becomes st dest (zval (st lhs) OR zval (st rhs)) s2"
    by (rule mpz_or_inpl_spec [of st lhs rhs dest, OF assms])
  obtain s3 where 3: "mpz_xor_inpl st dest lhs rhs = Some s3" "becomes st dest (zval (st lhs) XOR zval (st rhs)) s3"
    by (rule mpz_xor_inpl_spec [of st lhs rhs dest, OF assms])
  obtain s4 where 4: "mpz_not_inpl st dest lhs = Some s4" "becomes st dest (- zval (st lhs) - 1) s4"
    by (rule mpz_not_inpl_spec [of st lhs dest, OF assms(1,3)])
  from 1 2 3 4 show ?thesis unfolding not_eq_complement by blast
qed

theorem mpz_bitwise_exact_witness:
  "\<exists>s1 s2 s3 s4. mpz_and_inpl sample_store (Obj 6) (Obj 0) (Obj 2) = Some s1 \<and> becomes sample_store (Obj 6) 0 s1
    \<and> mpz_or_inpl sample_store (Obj 6) (Obj 0) (Obj 2) = Some s2 \<and> becomes sample_store (Obj 6) (- 2147483648) s2
    \<and> mpz_xor_inpl sample_store (Obj 6) (Obj 0) (Obj 2) = Some s3 \<and> becomes sample_store (Obj 6) (- 2147483648) s3
    \<and> mpz_not_inpl sample_store (Obj 6) (Obj 0) = Some s4 \<and> becomes sample_store (Obj 6) 4294967295 s4"
  using mpz_bitwise_exact [of sample_store "Obj 0" "Obj 2" "Obj 6"] by (simp add: sample_store_simps)

text \<open>C4: Division by a number other than zero (Knuth's algorithm D in \<open>mpn_div\<close>, with the sign
  corrections) leaves the floored quotient and the remainder with the sign of the divisor in
  the two destinations, and changes nothing else but a number of its own.
\<close>

theorem mpz_divmod_exact:
  assumes "mpz_ok (st lhs)" "mpz_ok (st rhs)" "\<not> z_fixed (st dq)" "\<not> z_fixed (st dr)" "zval (st rhs) \<noteq> 0"
    and "dq \<noteq> dr" "dq \<noteq> lhs" "dq \<noteq> rhs" "dr \<noteq> rhs" "dr \<noteq> lhs" "Loc 0 \<notin> {dq, dr, lhs, rhs}"
  shows "\<exists>st'. mpz_divmod_inpl st dq dr lhs rhs = Some st'
    \<and> mpz_ok (st' dq) \<and> zval (st' dq) = zval (st lhs) div zval (st rhs) \<and> mpz_ok (st' dr) \<and> zval (st' dr) = zval (st lhs) mod zval (st rhs)
    \<and> (\<forall>x. x \<notin> {dq, dr, Loc 0} \<longrightarrow> st' x = st x)"
proof -
  obtain st' q where "mpz_divmod_inpl st dq dr lhs rhs = Some st'" "divmod_store st dq q dr (zval (st lhs) mod zval (st rhs)) st'"
      "dr \<noteq> lhs \<Longrightarrow> q = zval (st lhs) div zval (st rhs)"
    by (rule mpz_divmod_inpl_spec [of st lhs rhs dq dr]) (use assms in auto)
  then show ?thesis using assms(10) unfolding divmod_store_def by auto
qed

theorem mpz_divmod_exact_witness:
  "\<exists>st'. mpz_divmod_inpl sample_store (Obj 6) (Obj 7) (Obj 0) (Obj 2) = Some st'
    \<and> mpz_ok (st' (Obj 6)) \<and> zval (st' (Obj 6)) = - 2 \<and> mpz_ok (st' (Obj 7)) \<and> zval (st' (Obj 7)) = 0
    \<and> (\<forall>x. x \<notin> {Obj 6, Obj 7, Loc 0} \<longrightarrow> st' x = sample_store x)"
  using mpz_divmod_exact [of sample_store "Obj 0" "Obj 2" "Obj 6" "Obj 7"] by (simp add: sample_store_simps)



text \<open>C20: Shifts by a machine word.  Left, into any destination, multiplies by the power of two for every
  count below \<open>2 ^ 32 - 15\<close>; for the last fifteen counts the number of digits wraps around, and shifting a
  number other than zero has no defined result.  Right is the floored quotient by the power of two for either
  sign, into any other number, and for a number that is not negative also in place.
\<close>

theorem mpz_shift_exact:
  assumes "mpz_ok (st lhs)" "\<not> z_fixed (st dest)" "n < 2 ^ 32"
  shows "(if n < 2 ^ 32 - 15 then \<exists>s. mpz_shl_inpl st dest lhs n = Some s \<and> becomes st dest (zval (st lhs) * 2 ^ n) s
      else zval (st lhs) \<noteq> 0 \<longrightarrow> mpz_shl_inpl st dest lhs n = None)
    \<and> (dest \<noteq> lhs \<or> 0 \<le> zval (st lhs) \<longrightarrow> (\<exists>s. mpz_shr_inpl st dest lhs n = Some s \<and> becomes st dest (zval (st lhs) div 2 ^ n) s))"
proof (intro conjI impI)
  show "if n < 2 ^ 32 - 15 then \<exists>s. mpz_shl_inpl st dest lhs n = Some s \<and> becomes st dest (zval (st lhs) * 2 ^ n) s
      else zval (st lhs) \<noteq> 0 \<longrightarrow> mpz_shl_inpl st dest lhs n = None"
  proof (cases "n < 2 ^ 32 - 15")
    case True
    obtain s where "mpz_shl_inpl st dest lhs n = Some s" "becomes st dest (zval (st lhs) * 2 ^ n) s"
      by (rule mpz_shl_inpl_spec [of st lhs dest, OF assms(1,2) True])
    then show ?thesis unfolding if_P [OF True] by blast
  next
    case False
    then show ?thesis unfolding if_not_P [OF False] using mpz_shl_inpl_wraps [of st lhs dest n] assms by simp
  qed
  assume "dest \<noteq> lhs \<or> 0 \<le> zval (st lhs)"
  then have "dest \<noteq> lhs \<or> \<not> z_neg (st lhs)" using zval_neg [OF assms(1)] by auto
  then obtain s where "mpz_shr_inpl st dest lhs n = Some s" "becomes st dest (zval (st lhs) div 2 ^ n) s"
    by (rule mpz_shr_inpl_spec [of st lhs dest, OF assms(1,2)])
  then show "\<exists>s. mpz_shr_inpl st dest lhs n = Some s \<and> becomes st dest (zval (st lhs) div 2 ^ n) s" by blast
qed

theorem mpz_shift_exact_witness:
  "(\<exists>s. mpz_shl_inpl sample_store (Obj 6) (Obj 0) 3 = Some s \<and> becomes sample_store (Obj 6) (- 34359738368) s)
    \<and> mpz_shl_inpl sample_store (Obj 6) (Obj 0) 4294967290 = None
    \<and> (\<exists>s. mpz_shr_inpl sample_store (Obj 6) (Obj 0) 33 = Some s \<and> becomes sample_store (Obj 6) (- 1) s)
    \<and> (\<exists>s. mpz_shr_inpl sample_store (Obj 2) (Obj 2) 3 = Some s \<and> becomes sample_store (Obj 2) 268435456 s)"
proof -
  have wraps: "\<not> (4294967290 :: nat) < 2 ^ 32 - 15" by simp
  have "mpz_shl_inpl sample_store (Obj 6) (Obj 0) 4294967290 = None"
    using conjunct1 [OF mpz_shift_exact [of sample_store "Obj 0" "Obj 6" 4294967290], unfolded if_not_P [OF wraps]] by (simp add: sample_store_simps)
  then show ?thesis
    using mpz_shift_exact [of sample_store "Obj 0" "Obj 6" 3] mpz_shift_exact [of sample_store "Obj 0" "Obj 6" 33]
      mpz_shift_exact [of sample_store "Obj 2" "Obj 2" 3]
    by (simp add: sample_store_simps)
qed

text \<open>
  In place, the right shift takes the digits it tests for rounding from the destination it
  has just written: \<open>-2 >> 1\<close> in place is \<open>-2\<close>.
\<close>

lemma mpz_shr_in_place:
  "\<exists>s. mpz_shr_inpl (sample_store(Obj 0 := \<lparr>z_neg = True, z_fixed = False, z_alloc = 2, z_dig = [2]\<rparr>)) (Obj 0) (Obj 0) 1 = Some s \<and> zval (s (Obj 0)) = - 2"
  by (simp add: mpz_shr_inpl_def mpz_need_dig_def put_dig_def mpn_shr_def set_neg_def round_up_needed_def mpn_add_def Let_def u32_def u16_def mpn_remove_trailing_zeros_def zval_def sval_def)

end
