(* ===== verification/MpzConv.thy ===== *)
theory MpzConv
  imports Mpz
begin

text \<open>
  Conversions of the integers of \<open>py/mpz.c\<close> from and to machine integers, floating-point
  numbers, bytes and text, and the size computation of \<open>py/objint.c\<close> that the buffer for the
  text is allocated with.

  A floating-point number is given by the fields of its representation, a double: sign, eleven
  bits of exponent, fifty-two bits of fraction.

  Shown here: every conversion yields the number it reads, as far as its contract goes; what
  is printed can be read back; the text always fits the buffer computed for it.
\<close>

unbundle bit_operations_syntax

section \<open>From other representations\<close>

fun float_digits :: "nat \<Rightarrow> int \<Rightarrow> digits" where
  "float_digits 0 frc = []"
| "float_digits (Suc n) frc = frc mod DIG_BASE # float_digits n (frc div DIG_BASE)"

definition mpz_set_from_float :: "zstore \<Rightarrow> zaddr \<Rightarrow> bool \<Rightarrow> int \<Rightarrow> int \<Rightarrow> zstore option" where
  "mpz_set_from_float st z sgn_bit exp frc =
     (let st = set_neg st z sgn_bit; adj_exp = exp - 1023 in
      if exp = 0 then mpz_set_from_int st z 0
      else if exp = 2047 then mpz_set_from_int st z 0
      else if adj_exp < 0 then mpz_set_from_int st z 0
      else if adj_exp = 0 then mpz_set_from_int st z 1
      else
        let dig_cnt = nat ((adj_exp + 1 + 15) div 16);
            frc = frc OR 2 ^ 52;
            (shft, dig_ind, frc) =
              (if adj_exp < 52 then (0, 0, frc div 2 ^ nat (52 - adj_exp))
               else (nat (u32 (adj_exp mod 16 - 52) mod 16), nat ((adj_exp - 52) div 16), frc))
        in do {
          st \<leftarrow> mpz_need_dig st z dig_cnt;
          let w = replicate dig_ind 0;
          let (w, frc) = (if shft \<noteq> 0 then (w @ [u64 (frc * 2 ^ shft) mod DIG_BASE], frc div 2 ^ (DIG_SIZE - shft)) else (w, frc));
          if length w > dig_cnt then None
          else put_dig st z (w @ float_digits (dig_cnt - length w) frc, dig_cnt)
        })"

definition char_value :: "char \<Rightarrow> int option" where
  "char_value c =
     (let v = of_char c in
      if 48 \<le> v \<and> v \<le> 57 then Some (v - 48)
      else if 65 \<le> v \<and> v \<le> 90 then Some (v - (65 - 10))
      else if 97 \<le> v \<and> v \<le> 122 then Some (v - (97 - 10))
      else None)"

text \<open>The loop over the text: the digits so far, and how many characters it takes.\<close>

fun set_str_loop :: "nat \<Rightarrow> int \<Rightarrow> digits \<Rightarrow> bytes \<Rightarrow> (digits \<times> nat) option" where
  "set_str_loop alloc base dig [] = Some (dig, 0)"
| "set_str_loop alloc base dig (c # cs) =
     (case char_value c of None \<Rightarrow> Some (dig, 0)
      | Some v \<Rightarrow>
          if v \<ge> base then Some (dig, 0)
          else
            let (w, n) = mpn_mul_dig_add_dig dig base v in
            if length w \<le> alloc then map_option (\<lambda>(dig, k). (dig, Suc k)) (set_str_loop alloc base (take n w) cs)
            else None)"

definition mpz_set_from_str :: "zstore \<Rightarrow> zaddr \<Rightarrow> bytes \<Rightarrow> bool \<Rightarrow> int \<Rightarrow> (zstore \<times> nat) option" where
  "mpz_set_from_str st z str neg base =
     (if base > 36 then None
      else do {
        st \<leftarrow> mpz_need_dig st z (length str * 8 div DIG_SIZE + 1);
        (dig, n) \<leftarrow> set_str_loop (z_alloc (st z)) base [] str;
        Some (st(z := (st z)\<lparr>z_neg := neg, z_dig := dig\<rparr>), n)
      })"

text \<open>Two bytes make a digit; an odd last byte makes one of its own.\<close>

fun bytes_digits :: "int list \<Rightarrow> digits" where
  "bytes_digits [] = []"
| "bytes_digits [b] = [b mod DIG_BASE]"
| "bytes_digits (b0 # b1 # bs) = (b0 OR (b1 * 256)) mod DIG_BASE # bytes_digits bs"

definition mpz_set_from_bytes :: "zstore \<Rightarrow> zaddr \<Rightarrow> bool \<Rightarrow> int list \<Rightarrow> zstore option" where
  "mpz_set_from_bytes st z big_endian buf = do {
     st \<leftarrow> mpz_need_dig st z ((length buf * 8 + DIG_SIZE - 1) div DIG_SIZE);
     let w = bytes_digits (if big_endian then rev buf else buf);
     put_dig (set_neg st z False) z (w, mpn_remove_trailing_zeros w)
   }"

section \<open>To other representations\<close>

definition mpz_hash :: "mpz \<Rightarrow> int" where
  "mpz_hash z =
     (let val = foldl (\<lambda>val d. u32 (val * DIG_BASE) OR d) 0 (rev (z_dig z)) in
      s32 (if z_neg z then u32 (- val) else val))"

text \<open>The loop of the two checked conversions, with its limit; \<open>None\<close> for \<open>false\<close>.\<close>

fun checked_loop :: "int \<Rightarrow> int \<Rightarrow> digits \<Rightarrow> int option" where
  "checked_loop limit val [] = Some val"
| "checked_loop limit val (d # ds) =
     (if val > limit then None else checked_loop limit (u32 (val * DIG_BASE) OR d) ds)"

definition mpz_as_int_checked :: "mpz \<Rightarrow> int option" where
  "mpz_as_int_checked i = do {
     val \<leftarrow> checked_loop (0x7fffffff div 2 ^ DIG_SIZE) 0 (rev (z_dig i));
     Some (s32 (if z_neg i then u32 (- val) else val))
   }"

definition mpz_as_uint_checked :: "mpz \<Rightarrow> int option" where
  "mpz_as_uint_checked i =
     (if z_neg i then None else checked_loop (0x7fffffff div 2 ^ (DIG_SIZE - 1)) 0 (rev (z_dig i)))"

text \<open>
  The bytes of the digits, low byte first, go to the buffer until it is full; what is left must
  be zero bytes.  The state: bytes written, whether all is well, the carry of the complement.
\<close>

fun as_bytes_loop :: "bool \<Rightarrow> nat \<Rightarrow> int list \<Rightarrow> int list \<times> bool \<times> int \<Rightarrow> int list \<times> bool \<times> int" where
  "as_bytes_loop neg len [] s = s"
| "as_bytes_loop neg len (v # vs) (out, ok, carry) =
     (let (val, carry) = (if neg then (let x = ((NOT v) AND 255) + carry in (x, x div 256)) else (v, carry)) in
      if length out = len then as_bytes_loop neg len vs (out, ok \<and> val mod 256 = 0, carry)
      else as_bytes_loop neg len vs (out @ [val mod 256], ok, carry))"

definition mpz_as_bytes :: "mpz \<Rightarrow> bool \<Rightarrow> bool \<Rightarrow> nat \<Rightarrow> int list \<times> bool" where
  "mpz_as_bytes z big_endian as_signed len =
     (let vals = concat (map (\<lambda>d. [d, d div 256]) (z_dig z));
          (out, ok, carry) = as_bytes_loop (z_neg z) len vals ([], True, 1);
          olen = len - length out;
          (out, ok) =
            (if as_signed \<and> olen = 0 \<and> len > 0 then (out, ok \<and> (last out AND 128 \<noteq> 0) = z_neg z)
             else (out @ replicate olen (if z_neg z then 255 else 0), ok))
      in (if big_endian then rev out else out, ok))"

text \<open>Text: one pass of division by the base, from the leading digit down.\<close>

fun div_pass :: "int \<Rightarrow> int \<Rightarrow> digits \<Rightarrow> digits \<times> int" where
  "div_pass base a [] = ([], a)"
| "div_pass base a (d # ds) =
     (let a = u32 (a * DIG_BASE) OR d;
          (qs, r) = div_pass base (a mod base) ds
      in (u16 (a div base) # qs, r))"

definition digit_char :: "char \<Rightarrow> int \<Rightarrow> char" where
  "digit_char base_char a =
     (let a = a + 48 in char_of (if a > 57 then a + (of_char base_char - 57 - 1) else a))"

text \<open>The conversion loop; the digits are held leading one first, \<open>since\<close> counts the characters after the last comma.\<close>

fun as_str_loop :: "nat \<Rightarrow> int \<Rightarrow> char \<Rightarrow> char \<Rightarrow> nat \<Rightarrow> digits \<Rightarrow> bytes option" where
  "as_str_loop 0 base base_char comma since dig = None"
| "as_str_loop (Suc fuel) base base_char comma since dig =
     (let (dig, a) = div_pass base 0 dig; c = digit_char base_char a in
      if \<forall>d \<in> set dig. d = 0 then Some [c]
      else if comma \<noteq> NUL \<and> since + 1 = 3
      then map_option (\<lambda>s. c # comma # s) (as_str_loop fuel base base_char comma 0 dig)
      else map_option (\<lambda>s. c # s) (as_str_loop fuel base base_char comma (since + 1) dig))"

definition mpz_as_str_inpl :: "mpz \<Rightarrow> int \<Rightarrow> bytes option \<Rightarrow> char \<Rightarrow> char \<Rightarrow> bytes option" where
  "mpz_as_str_inpl i base prefix base_char comma =
     (if \<not> (2 \<le> base \<and> base \<le> 32) then None
      else
        let pre = (case prefix of None \<Rightarrow> [] | Some p \<Rightarrow> p) in
        if z_len i = 0 then Some (pre @ [CHR 0x30])
        else do {
          s \<leftarrow> as_str_loop (DIG_SIZE * z_len i) base base_char comma 0 (rev (z_dig i));
          Some (rev (s @ rev pre @ (if z_neg i then [CHR 0x2D] else [])))
        })"

section \<open>Sizes and small integers (py/objint.c)\<close>

definition log_base2_floor :: "nat list" where
  "log_base2_floor = [0, 1, 1, 2, 2, 2, 2, 3, 3, 3, 3, 3, 3, 3, 3, 4]"

definition mp_int_format_size :: "nat \<Rightarrow> int \<Rightarrow> bytes option \<Rightarrow> char \<Rightarrow> nat option" where
  "mp_int_format_size num_bits base prefix comma =
     (if 2 \<le> base \<and> base \<le> 16 then
        let num_digits = num_bits div (log_base2_floor ! nat (base - 1)) + 1;
            num_commas = (if comma \<noteq> NUL then num_digits div 3 else 0);
            prefix_len = (case prefix of None \<Rightarrow> 0 | Some p \<Rightarrow> length p)
        in Some (num_digits + num_commas + prefix_len + 2)
      else None)"

text \<open>
  Small integers are written backwards from the end of the buffer.  \<open>room\<close> is the number of
  characters left before the start, \<open>out\<close> the text so far.
\<close>

fun fmt_loop :: "nat \<Rightarrow> int \<Rightarrow> char \<Rightarrow> char \<Rightarrow> nat \<Rightarrow> nat \<Rightarrow> int \<Rightarrow> bytes \<Rightarrow> (nat \<times> bytes) option" where
  "fmt_loop 0 base base_char comma room since num out = None"
| "fmt_loop (Suc fuel) base base_char comma room since num out =
     (if room = 0 then None
      else
        let c = num mod base; num = num div base;
            ch = char_of (if c \<ge> 10 then c + (of_char base_char - 10) else c + 48);
            out = ch # out; room = room - 1; since = since + 1;
            (out, room, since) =
              (if comma \<noteq> NUL \<and> num \<noteq> 0 \<and> room > 0 \<and> since = 3 then (comma # out, room - 1, 0) else (out, room, since))
        in if room > 0 \<and> num \<noteq> 0 then fmt_loop fuel base base_char comma room since num out
           else Some (room, out))"

definition mp_obj_int_formatted :: "int \<Rightarrow> int \<Rightarrow> bytes option \<Rightarrow> char \<Rightarrow> char \<Rightarrow> bytes option" where
  "mp_obj_int_formatted num base prefix base_char comma = do {
     let (num, sgn_char) = (if num < 0 then (s32 (- num), True) else (num, False));
     needed_size \<leftarrow> mp_int_format_size 32 base prefix comma;
     let room = needed_size - 1;
     (room, out) \<leftarrow> (if num = 0 then Some (room - 1, [CHR 0x30])
                     else fmt_loop 33 base base_char comma room 0 num []);
     let (room, out) = (case prefix of None \<Rightarrow> (room, out)
       | Some p \<Rightarrow> if room > length p then (room - length p, p @ out) else (room, out));
     Some (if sgn_char \<and> room > 0 then CHR 0x2D # out else out)
   }"

section \<open>Printing\<close>

text \<open>The numerals of a number, lowest first, and the text with a comma after every three.\<close>

function rdigs :: "int \<Rightarrow> int \<Rightarrow> int list" where
  "rdigs b n = (if b < 2 \<or> n div b \<le> 0 then [n mod b] else n mod b # rdigs b (n div b))"
  by auto
termination
proof (relation "measure (\<lambda>(b, n). nat n)", simp)
  fix b n :: int
  assume "\<not> (b < 2 \<or> n div b \<le> 0)"
  then have "2 \<le> b" "0 < n div b" by auto
  then have "0 < n" by (metis linorder_not_less div_nonpos_pos_le0 order.strict_trans2 zero_less_numeral)
  moreover have "n div b < n" using \<open>2 \<le> b\<close> \<open>0 < n\<close> by (intro int_div_less_self) auto
  ultimately show "((b, n div b), (b, n)) \<in> measure (\<lambda>(b, n). nat n)" by simp
qed

declare rdigs.simps [simp del]

fun commafy :: "char \<Rightarrow> nat \<Rightarrow> bytes \<Rightarrow> bytes" where
  "commafy comma since [] = []"
| "commafy comma since [c] = [c]"
| "commafy comma since (c # d # cs) =
     (if comma \<noteq> NUL \<and> since + 1 = 3 then c # comma # commafy comma 0 (d # cs)
      else c # commafy comma (since + 1) (d # cs))"

lemma div_pass_spec:
  assumes "2 \<le> base" "base \<le> 36" "digs ds" "0 \<le> a" "a < base"
  obtains qs where "div_pass base a ds = (qs, (a * DIG_BASE ^ length ds + dval (rev ds)) mod base)" "digs qs" "length qs = length ds"
    "dval (rev qs) = (a * DIG_BASE ^ length ds + dval (rev ds)) div base"
  using assms(3-)
proof (induction ds arbitrary: a thesis)
  case Nil
  then show ?case by (intro Nil(1) [of "[]"]) auto
next
  case (Cons d ds)
  define x where "x = a * DIG_BASE + d"
  define M :: int where "M = DIG_BASE ^ length ds"
  have d: "0 \<le> d" "d < DIG_BASE" "digs ds" using Cons.prems by auto
  have "a * DIG_BASE \<le> 35 * DIG_BASE" using Cons.prems assms(2) by simp
  then have u: "u32 (a * DIG_BASE) = a * DIG_BASE" using Cons.prems by (intro u32_id) auto
  have x: "u32 (a * DIG_BASE) OR d = x" unfolding u x_def using d by (intro or_base_add)
  have x0: "0 \<le> x" using Cons.prems d by (simp add: x_def)
  have "x < base * DIG_BASE"
  proof -
    have "(a + 1) * DIG_BASE \<le> base * DIG_BASE" using Cons.prems by (intro mult_right_mono) auto
    then show ?thesis using d by (simp add: x_def)
  qed
  then have xq: "0 \<le> x div base" "x div base < DIG_BASE"
    using x0 assms(1) by (auto simp: pos_imp_zdiv_nonneg_iff div_less_if mult.commute)
  then have u16: "u16 (x div base) = x div base" by (intro u16_id)
  have b: "0 < base" using assms(1) by simp
  obtain qs where IH: "div_pass base (x mod base) ds = (qs, ((x mod base) * M + dval (rev ds)) mod base)" "digs qs" "length qs = length ds"
    "dval (rev qs) = ((x mod base) * M + dval (rev ds)) div base"
    by (rule Cons.IH [of "x mod base"]) (use d b in \<open>auto simp: M_def\<close>)
  have v: "a * DIG_BASE ^ length (d # ds) + dval (rev (d # ds)) = ((x mod base) * M + dval (rev ds)) + base * ((x div base) * M)"
  proof -
    have "a * DIG_BASE ^ length (d # ds) + dval (rev (d # ds)) = x * M + dval (rev ds)" by (simp add: x_def M_def dval_append algebra_simps)
    also have "x = base * (x div base) + x mod base" by simp
    finally show ?thesis by (simp only: distrib_left distrib_right ac_simps)
  qed
  show ?case
  proof (rule Cons.prems(1) [of "x div base # qs"])
    show "div_pass base a (d # ds) = (x div base # qs, (a * DIG_BASE ^ length (d # ds) + dval (rev (d # ds))) mod base)"
      unfolding v by (simp add: Let_def x u16 IH(1))
    show "dval (rev (x div base # qs)) = (a * DIG_BASE ^ length (d # ds) + dval (rev (d # ds))) div base"
      unfolding v using b IH(3,4) by (simp add: dval_append M_def)
  qed (use xq IH in auto)
qed

lemma as_str_loop_spec:
  assumes "2 \<le> base" "base \<le> 36" "digs ds" "dval (rev ds) < 2 ^ fuel" "0 < fuel"
  shows "as_str_loop fuel base bc comma since ds = Some (commafy comma since (map (digit_char bc) (rdigs base (dval (rev ds)))))"
  using assms(3-)
proof (induction fuel arbitrary: since ds)
  case (Suc fuel)
  define V where "V = dval (rev ds)"
  have V: "0 \<le> V" using dval_nonneg [of "rev ds"] Suc.prems by (simp add: V_def)
  obtain qs where q: "div_pass base 0 ds = (qs, V mod base)" "digs qs" "dval (rev qs) = V div base"
    using div_pass_spec [OF assms(1,2) Suc.prems(1), of 0] assms(1) by (auto simp: V_def)
  have z: "(\<forall>d \<in> set qs. d = 0) \<longleftrightarrow> V div base = 0" using dval_zero_iff [of "rev qs"] q(2,3) by simp
  have dn: "0 \<le> V div base" using V assms(1) by (simp add: pos_imp_zdiv_nonneg_iff)
  show ?case
  proof (cases "V div base = 0")
    case True
    then have "rdigs base V = [V mod base]" by (subst rdigs.simps) simp
    then show ?thesis using True z q(1) by (simp add: V_def [symmetric])
  next
    case False
    then have r: "rdigs base V = V mod base # rdigs base (V div base)" using dn assms(1) by (subst rdigs.simps) simp
    obtain e es where es: "rdigs base (V div base) = e # es" by (metis list.exhaust rdigs.simps list.distinct(1))
    have "V div base \<le> V div 2" using V assms(1) by (intro zdiv_mono2) auto
    then have lt: "V div base < 2 ^ fuel" using Suc.prems(2) by (simp add: V_def)
    have "0 < fuel" using lt False dn by (cases fuel) auto
    then have IH: "as_str_loop fuel base bc comma k qs = Some (commafy comma k (map (digit_char bc) (rdigs base (V div base))))" for k
      using Suc.IH [of qs k] q lt by simp
    show ?thesis
      using False z q(1) IH r es by (auto simp: V_def [symmetric] numeral_3_eq_3 Let_def)
  qed
qed simp

lemma digit_char_0: "digit_char bc 0 = CHR 0x30"
proof -
  have "of_char (digit_char bc 0) = (48 :: int)" by (simp add: digit_char_def)
  also have "(48 :: int) = of_char (CHR 0x30)" by simp
  finally show ?thesis by (simp only: of_char_eq_iff)
qed

text \<open>What is printed: sign, prefix and numerals.\<close>

definition int_text :: "int \<Rightarrow> bytes option \<Rightarrow> char \<Rightarrow> char \<Rightarrow> int \<Rightarrow> bytes" where
  "int_text base prefix base_char comma v =
     (if v < 0 then [CHR 0x2D] else []) @ (case prefix of None \<Rightarrow> [] | Some p \<Rightarrow> p)
       @ rev (commafy comma 0 (map (digit_char base_char) (rdigs base \<bar>v\<bar>)))"

lemma mpz_as_str_inpl_spec:
  assumes "2 \<le> base" "base \<le> 32" "mpz_ok z"
  shows "mpz_as_str_inpl z base prefix bc comma = Some (int_text base prefix bc comma (zval z))"
proof (cases "z_dig z = []")
  case True
  then have v: "zval z = 0" using zval_zero [OF assms(3)] by simp
  have "rdigs base 0 = [0]" by (subst rdigs.simps) simp
  moreover have "digit_char bc 0 = CHR 0x30" by (rule digit_char_0)
  ultimately show ?thesis using True assms v by (auto simp: mpz_as_str_inpl_def int_text_def split: option.split)
next
  case False
  note ok = okD [OF assms(3)]
  have n: "zval z < 0 \<longleftrightarrow> z_neg z" by (rule zval_neg [OF assms(3)])
  have a: "\<bar>zval z\<bar> = dval (z_dig z)" using ok(5) by (simp add: zval_def sval_def)
  have "as_str_loop (16 * z_len z) base bc comma 0 (rev (z_dig z))
      = Some (commafy comma 0 (map (digit_char bc) (rdigs base (dval (z_dig z)))))"
    using as_str_loop_spec [of base "rev (z_dig z)" "16 * z_len z"] assms ok(2) False dval_fuel by simp
  then show ?thesis using False assms(1,2) n a by (simp add: mpz_as_str_inpl_def int_text_def split: option.split)
qed

section \<open>The text fits its buffer\<close>

lemma rdigs_length:
  assumes "2 \<le> b" "0 \<le> n" "n < b ^ k" "0 < k"
  shows "length (rdigs b n) \<le> k"
  using assms(2-)
proof (induction k arbitrary: n)
  case (Suc k)
  show ?case
  proof (cases "n div b \<le> 0")
    case True
    then show ?thesis by (subst rdigs.simps) simp
  next
    case False
    have "n div b < b ^ k" using Suc.prems assms(1) by (intro div_less_if) (auto simp: mult.commute)
    moreover have "0 < k"
    proof (rule ccontr)
      assume "\<not> 0 < k"
      then have "n < b" using Suc.prems by simp
      then show False using False Suc.prems by simp
    qed
    ultimately have "length (rdigs b (n div b)) \<le> k" using Suc.IH [of "n div b"] False by simp
    then show ?thesis using False assms(1) by (subst rdigs.simps) simp
  qed
qed simp

lemma rdigs_nonempty: "rdigs b n \<noteq> []"
  by (subst rdigs.simps) simp

lemma commafy_length:
  assumes "since \<le> 2" "cs \<noteq> []"
  shows "length (commafy comma since cs) \<le> length cs + (if comma \<noteq> NUL then (length cs - 1 + since) div 3 else 0)"
  using assms
proof (induction comma since cs rule: commafy.induct)
  case (3 comma since c d cs)
  show ?case
  proof (cases "comma \<noteq> NUL \<and> since + 1 = 3")
    case True
    then have IH: "length (commafy comma 0 (d # cs)) \<le> Suc (length cs) + length cs div 3"
      using "3.IH"(1) by simp
    have "since = 2" "comma \<noteq> NUL" using True by auto
    moreover have "(length (c # d # cs) - 1 + 2) div 3 = length cs div 3 + 1" by simp
    moreover have "length (commafy comma since (c # d # cs)) = length (commafy comma 0 (d # cs)) + 2" using True by simp
    ultimately show ?thesis using IH by simp
  next
    case False
    then have IH: "length (commafy comma (since + 1) (d # cs)) \<le> Suc (length cs) + (if comma \<noteq> NUL then (length cs + (since + 1)) div 3 else 0)"
      if "comma \<noteq> NUL" using "3.IH"(2) "3.prems" that by auto
    show ?thesis
    proof (cases "comma = NUL")
      case True
      have "length (commafy NUL k xs) = length xs" for k xs by (induction "NUL" k xs rule: commafy.induct) auto
      then show ?thesis using True by simp
    next
      case c: False
      have "length (commafy comma since (c # d # cs)) = length (commafy comma (since + 1) (d # cs)) + 1" using False by auto
      moreover have "length (c # d # cs) - 1 + since = length cs + (since + 1)" by simp
      ultimately show ?thesis using IH [OF c] c by simp
    qed
  qed
qed auto

lemma log_base2_floor_pow:
  assumes "2 \<le> base" "base \<le> 16"
  shows "0 < log_base2_floor ! nat (base - 1)" "(2::int) ^ (log_base2_floor ! nat (base - 1)) \<le> base"
proof -
  have "base = 2 \<or> base = 3 \<or> base = 4 \<or> base = 5 \<or> base = 6 \<or> base = 7 \<or> base = 8 \<or> base = 9 \<or> base = 10
      \<or> base = 11 \<or> base = 12 \<or> base = 13 \<or> base = 14 \<or> base = 15 \<or> base = 16" using assms by presburger
  then have "0 < log_base2_floor ! nat (base - 1) \<and> (2::int) ^ (log_base2_floor ! nat (base - 1)) \<le> base"
    by (auto simp: log_base2_floor_def eval_nat_numeral)
  then show "0 < log_base2_floor ! nat (base - 1)" "(2::int) ^ (log_base2_floor ! nat (base - 1)) \<le> base" by auto
qed

lemma num_digits_bound:
  assumes "2 \<le> base" "base \<le> 16" "0 \<le> v" "v < 2 ^ nb"
  shows "length (rdigs base v) \<le> nb div (log_base2_floor ! nat (base - 1)) + 1"
proof (rule rdigs_length [OF assms(1,3)])
  define k where "k = log_base2_floor ! nat (base - 1)"
  have k: "0 < k" "(2::int) ^ k \<le> base" using log_base2_floor_pow [OF assms(1,2)] by (simp_all add: k_def)
  have "nb \<le> k * (nb div k + 1)"
  proof -
    have "nb = k * (nb div k) + nb mod k" by simp
    moreover have "nb mod k \<le> k" using k(1) by simp
    ultimately show ?thesis by (metis add_le_mono1 add_left_mono distrib_left mult.right_neutral nat_add_left_cancel_le)
  qed
  then have "(2::int) ^ nb \<le> 2 ^ (k * (nb div k + 1))" by (intro power_increasing) auto
  also have "\<dots> = (2 ^ k) ^ (nb div k + 1)" by (rule power_mult)
  also have "\<dots> \<le> base ^ (nb div k + 1)" using k(2) by (intro power_mono) auto
  finally show "v < base ^ (nb div k + 1)" using assms(4) by simp
qed simp

text \<open>
  The size \<open>mp_int_format_size\<close> computes from a number of bits has room for the text of every
  number of that many bits, its sign and the final NUL.
\<close>

lemma numerals_fit:
  assumes "2 \<le> base" "base \<le> 16" "0 \<le> v" "v < 2 ^ nb" "mp_int_format_size nb base prefix comma = Some n"
  shows "length (commafy comma 0 (map (digit_char bc) (rdigs base v))) + length (case prefix of None \<Rightarrow> [] | Some p \<Rightarrow> p) + 2 \<le> n"
proof -
  define nd where "nd = nb div (log_base2_floor ! nat (base - 1)) + 1"
  define ds where "ds = map (digit_char bc) (rdigs base v)"
  have l: "length ds \<le> nd" "ds \<noteq> []" using num_digits_bound [OF assms(1-4)] by (simp_all add: ds_def nd_def rdigs_nonempty)
  have n: "n = nd + (if comma \<noteq> NUL then nd div 3 else 0) + length (case prefix of None \<Rightarrow> [] | Some p \<Rightarrow> p) + 2"
    using assms(1,2,5) by (auto simp: mp_int_format_size_def Let_def nd_def split: option.splits if_splits)
  have "length (commafy comma 0 ds) \<le> length ds + (if comma \<noteq> NUL then (length ds - 1) div 3 else 0)"
    using commafy_length [of 0 ds comma] l(2) by (simp only: add_0_right) simp
  moreover have "(length ds - 1) div 3 \<le> nd div 3" using l(1) by (intro div_le_mono) simp
  ultimately have "length (commafy comma 0 ds) \<le> nd + (if comma \<noteq> NUL then nd div 3 else 0)" using l(1) by (auto split: if_splits)
  then show ?thesis unfolding n ds_def [symmetric] by simp
qed

lemma int_text_fits:
  assumes "2 \<le> base" "base \<le> 16" "\<bar>v\<bar> < 2 ^ nb" "mp_int_format_size nb base prefix comma = Some n"
  shows "length (int_text base prefix bc comma v) + 1 \<le> n"
  using numerals_fit [OF assms(1,2) _ assms(3,4), of bc] by (auto simp: int_text_def)

text \<open>Small integers are printed the same way.\<close>

lemma digit_char_alt: "char_of (if c \<ge> 10 then c + (of_char bc - 10) else c + 48) = digit_char bc c" for c :: int
  by (simp add: digit_char_def Let_def add_diff_eq)

lemma commafy_Cons_length: "1 \<le> length (commafy comma since (c # cs))"
  by (cases cs) simp_all

lemma fmt_loop_spec:
  assumes "2 \<le> base" "0 < num" "num < 2 ^ fuel"
    "length (commafy comma since (map (digit_char bc) (rdigs base num))) \<le> room"
  shows "fmt_loop fuel base bc comma room since num out
    = Some (room - length (commafy comma since (map (digit_char bc) (rdigs base num))),
            rev (commafy comma since (map (digit_char bc) (rdigs base num))) @ out)"
  using assms(2-)
proof (induction fuel arbitrary: room since num out)
  case (Suc fuel)
  define c where "c = digit_char bc (num mod base)"
  have q0: "0 \<le> num div base" using Suc.prems assms(1) by (simp add: pos_imp_zdiv_nonneg_iff)
  obtain f fs where "rdigs base num = f # fs" by (metis list.exhaust rdigs_nonempty)
  then have room: "0 < room"
    using Suc.prems(3) commafy_Cons_length [of comma since "digit_char bc f" "map (digit_char bc) fs"] by simp
  show ?case
  proof (cases "num div base = 0")
    case True
    then have "rdigs base num = [num mod base]" by (subst rdigs.simps) simp
    then show ?thesis using True room by (simp add: Let_def digit_char_alt)
  next
    case False
    then have r: "rdigs base num = num mod base # rdigs base (num div base)" using q0 assms(1) by (subst rdigs.simps) simp
    obtain e es where es: "rdigs base (num div base) = e # es" by (metis list.exhaust rdigs_nonempty)
    define rest where "rest = map (digit_char bc) (rdigs base (num div base))"
    have "num div base \<le> num div 2" using Suc.prems assms(1) by (intro zdiv_mono2) auto
    then have lt: "num div base < 2 ^ fuel" using Suc.prems(2) by simp
    have IH: "length (commafy comma k rest) \<le> rm \<Longrightarrow> fmt_loop fuel base bc comma rm k (num div base) o' =
        Some (rm - length (commafy comma k rest), rev (commafy comma k rest) @ o')" for k rm o'
      using Suc.IH [of "num div base" k rm o'] lt q0 False by (simp add: rest_def)
    have nonempty: "1 \<le> length (commafy comma k rest)" for k using commafy_Cons_length by (simp add: rest_def es)
    show ?thesis
    proof (cases "comma \<noteq> NUL \<and> since + 1 = 3")
      case True
      have v: "commafy comma since (map (digit_char bc) (rdigs base num)) = c # comma # commafy comma 0 rest"
        using True by (simp add: r es rest_def c_def)
      then have ge: "length (commafy comma 0 rest) + 2 \<le> room" using Suc.prems(3) by simp
      then have "fmt_loop (Suc fuel) base bc comma room since num out = fmt_loop fuel base bc comma (room - 2) 0 (num div base) (comma # c # out)"
        using True False room nonempty [of 0] by (simp add: Let_def digit_char_alt c_def [symmetric] numeral_2_eq_2)
      then show ?thesis unfolding v using IH [of 0 "room - 2"] ge by simp
    next
      case nc: False
      have v: "commafy comma since (map (digit_char bc) (rdigs base num)) = c # commafy comma (since + 1) rest"
        using nc by (auto simp: r es rest_def c_def)
      then have ge: "length (commafy comma (since + 1) rest) + 1 \<le> room" using Suc.prems(3) by simp
      then have "fmt_loop (Suc fuel) base bc comma room since num out = fmt_loop fuel base bc comma (room - 1) (since + 1) (num div base) (c # out)"
        using nc False room nonempty [of "since + 1"] by (auto simp: Let_def digit_char_alt c_def [symmetric])
      then show ?thesis unfolding v using IH [of "since + 1" "room - 1"] ge by simp
    qed
  qed
qed simp

lemma mp_obj_int_formatted_spec:
  assumes "2 \<le> base" "base \<le> 16" "- (2 ^ 31) < v" "v < 2 ^ 31"
  shows "mp_obj_int_formatted v base prefix bc comma = Some (int_text base prefix bc comma v)"
proof -
  obtain n where n: "mp_int_format_size 32 base prefix comma = Some n"
    using assms(1,2) by (auto simp: mp_int_format_size_def Let_def)
  define num where "num = \<bar>v\<bar>"
  have num: "0 \<le> num" "num < 2 ^ 31" using assms(3,4) by (auto simp: num_def)
  define L where "L = commafy comma 0 (map (digit_char bc) (rdigs base num))"
  define pre where "pre = (case prefix of None \<Rightarrow> [] | Some p \<Rightarrow> p)"
  have tx: "int_text base prefix bc comma v = (if v < 0 then [CHR 0x2D] else []) @ pre @ rev L"
    by (simp add: int_text_def L_def pre_def num_def)
  have "num < 2 ^ 32" using num by simp
  then have fit: "length L + length pre + 2 \<le> n"
    using numerals_fit [OF assms(1,2) num(1) _ n, of bc] by (simp add: L_def pre_def)
  have sn: "(if v < 0 then (s32 (- v), True) else (v, False)) = (num, v < 0)"
    using assms(3) num by (auto simp: num_def s32_small)
  have body: "(if num = 0 then Some (n - 1 - 1, [CHR 0x30]) else fmt_loop 33 base bc comma (n - 1) 0 num []) = Some (n - 1 - length L, rev L)"
  proof (cases "num = 0")
    case True
    have "rdigs base 0 = [0]" by (subst rdigs.simps) simp
    then show ?thesis using True by (simp add: L_def digit_char_0)
  next
    case False
    have "num < 2 ^ 33" using num by simp
    then show ?thesis using fmt_loop_spec [OF assms(1), of num 33 comma 0 bc "n - 1" "[]"] False num fit by (simp add: L_def)
  qed
  have pf: "(case prefix of None \<Rightarrow> (n - 1 - length L, rev L)
       | Some p \<Rightarrow> if n - 1 - length L > length p then (n - 1 - length L - length p, p @ rev L) else (n - 1 - length L, rev L))
     = (n - 1 - length L - length pre, pre @ rev L)"
    using fit by (auto simp: pre_def split: option.split)
  have "0 < n - 1 - length L - length pre" using fit by simp
  then show ?thesis
    unfolding mp_obj_int_formatted_def sn Let_def prod.case n bind.bind_lunit body pf tx by simp
qed

section \<open>Reading text\<close>

text \<open>The characters a reader of base \<open>base\<close> takes, and the number they spell.\<close>

definition digit_ok :: "int \<Rightarrow> char \<Rightarrow> bool" where
  "digit_ok base c = (case char_value c of None \<Rightarrow> False | Some v \<Rightarrow> v < base)"

definition text_val :: "int \<Rightarrow> bytes \<Rightarrow> int" where
  "text_val base s = foldl (\<lambda>a c. a * base + the (char_value c)) 0 s"

lemma char_value_range: "char_value c = Some v \<Longrightarrow> 0 \<le> v \<and> v < 36"
  by (auto simp: char_value_def Let_def split: if_splits)

lemma text_val_append: "foldl (\<lambda>a c. a * base + the (char_value c)) x s = x * base ^ length s + text_val base s" for x :: int
proof (induction s arbitrary: x)
  case (Cons c s)
  have "text_val base (c # s) = the (char_value c) * base ^ length s + text_val base s"
    unfolding text_val_def using Cons [of "0 * base + the (char_value c)"] by (simp add: text_val_def)
  then show ?case using Cons [of "x * base + the (char_value c)"] by (simp add: algebra_simps)
qed (simp add: text_val_def)

lemma set_str_loop_spec:
  assumes "0 \<le> base" "base \<le> 36" "digs ds" "normd ds" "dval ds < 256 ^ k" "(k + length cs) * 8 div 16 + 1 \<le> alloc"
  obtains ds' where "set_str_loop alloc base ds cs = Some (ds', length (takeWhile (digit_ok base) cs))" "digs ds'" "normd ds'"
    "dval ds' = foldl (\<lambda>a c. a * base + the (char_value c)) (dval ds) (takeWhile (digit_ok base) cs)" "length ds' \<le> max alloc (length ds)"
  using assms(3-)
proof (induction cs arbitrary: ds k thesis)
  case Nil
  then show ?case by (intro Nil(1) [of ds]) auto
next
  case (Cons c cs)
  show ?case
  proof (cases "digit_ok base c")
    case False
    then have "set_str_loop alloc base ds (c # cs) = Some (ds, 0)" by (auto simp: digit_ok_def split: option.splits)
    then show ?thesis using False Cons.prems by (intro Cons.prems(1) [of ds]) auto
  next
    case True
    then obtain v where v: "char_value c = Some v" "0 \<le> v" "v < base" using char_value_range by (auto simp: digit_ok_def split: option.splits)
    obtain w where w: "mpn_mul_dig_add_dig ds base v = (w, length w)" "digs w" "normd w" "length w \<le> length ds + 1" "dval w = dval ds * base + v"
      by (rule mpn_mul_dig_add_dig_spec [OF Cons.prems(2,3), of base v]) (use v assms(2) in auto)
    have "dval w < (dval ds + 1) * base" using v w(5) by (simp add: algebra_simps)
    also have "\<dots> \<le> 256 ^ k * 256" using Cons.prems(4) assms(1,2) by (intro mult_mono) auto
    finally have lt: "dval w < 256 ^ Suc k" by simp
    have "length w \<le> (Suc k + length cs) * 8 div 16 + 1"
    proof (rule length_le_of_value [OF w(2,3)])
      have "(256::int) ^ Suc k = 2 ^ (8 * Suc k)" by (simp add: power_mult power_add)
      also have "\<dots> \<le> 2 ^ (16 * ((Suc k + length cs) * 8 div 16 + 1))" by (intro power_increasing) auto
      finally show "dval w < DIG_BASE ^ ((Suc k + length cs) * 8 div 16 + 1)" unfolding power_base using lt by linarith
    qed
    then have fit: "length w \<le> alloc" using Cons.prems(5) by simp
    obtain ds' where IH: "set_str_loop alloc base w cs = Some (ds', length (takeWhile (digit_ok base) cs))" "digs ds'" "normd ds'"
      "dval ds' = foldl (\<lambda>a c. a * base + the (char_value c)) (dval w) (takeWhile (digit_ok base) cs)" "length ds' \<le> max alloc (length w)"
      by (rule Cons.IH [where ds = w and k = "Suc k"]) (use w lt Cons.prems(5) in auto)
    have "set_str_loop alloc base ds (c # cs) = Some (ds', length (takeWhile (digit_ok base) (c # cs)))"
      using v w(1) fit IH(1) True by simp
    then show ?thesis using IH True v w(5) fit by (intro Cons.prems(1) [of ds']) auto
  qed
qed

lemma mpz_set_from_str_spec:
  assumes "0 \<le> base" "base \<le> 36" "\<not> z_fixed (st z)"
  obtains st' where "mpz_set_from_str st z str neg base = Some (st', length (takeWhile (digit_ok base) str))"
    "\<And>x. x \<noteq> z \<Longrightarrow> st' x = st x" "\<not> z_fixed (st' z)" "z_neg (st' z) = neg"
    "dval (z_dig (st' z)) = text_val base (takeWhile (digit_ok base) str)"
    "zval (st' z) = sval neg (text_val base (takeWhile (digit_ok base) str))"
    "neg \<longrightarrow> text_val base (takeWhile (digit_ok base) str) \<noteq> 0 \<Longrightarrow> mpz_ok (st' z)"
proof -
  obtain a where a: "mpz_need_dig st z (length str * 8 div 16 + 1) = Some (grow st z a)" "length str * 8 div 16 + 1 \<le> a"
    using need_dig_spec [of st z, OF assms(3)] by metis
  obtain ds where d: "set_str_loop a base [] str = Some (ds, length (takeWhile (digit_ok base) str))" "digs ds" "normd ds"
    "dval ds = foldl (\<lambda>a c. a * base + the (char_value c)) (dval []) (takeWhile (digit_ok base) str)" "length ds \<le> max a (length ([]::digits))"
    by (rule set_str_loop_spec [OF assms(1,2), of "[]" 0 str a]) (use a in \<open>auto simp: normd_def\<close>)
  define st' where "st' = (grow st z a)(z := (grow st z a z)\<lparr>z_neg := neg, z_dig := ds\<rparr>)"
  have v: "dval ds = text_val base (takeWhile (digit_ok base) str)" using d(4) by (simp add: text_val_def)
  have "mpz_set_from_str st z str neg base = Some (st', length (takeWhile (digit_ok base) str))"
    using assms(2) a(1) d(1) by (simp add: mpz_set_from_str_def st'_def)
  moreover have "mpz_ok (st' z)" if "neg \<longrightarrow> text_val base (takeWhile (digit_ok base) str) \<noteq> 0"
    using that d v dval_eq_0 [OF d(2,3)] by (auto simp: mpz_ok_def st'_def)
  ultimately show thesis using assms(3) v by (intro that [of st']) (auto simp: st'_def zval_def grow_def)
qed

text \<open>Numerals are read back.  Letters are needed only for bases over ten.\<close>

definition letters_ok :: "int \<Rightarrow> char \<Rightarrow> bool" where
  "letters_ok base bc \<longleftrightarrow> base \<le> 10 \<or> bc = CHR ''a'' \<or> bc = CHR ''A''"

lemma char_value_digit:
  assumes "0 \<le> v" "v < base" "base \<le> 36" "letters_ok base bc"
  shows "char_value (digit_char bc v) = Some v"
proof (cases "v < 10")
  case True
  then show ?thesis using assms by (simp add: digit_char_def char_value_def Let_def)
next
  case False
  then have "bc = CHR ''a'' \<or> bc = CHR ''A''" using assms by (auto simp: letters_ok_def)
  then have "of_char bc = (97::int) \<or> of_char bc = (65::int)" by auto
  then show ?thesis using False assms by (auto simp: digit_char_def char_value_def Let_def)
qed

lemma text_val_snoc: "text_val base (s @ [c]) = text_val base s * base + the (char_value c)"
  by (simp add: text_val_def)

lemma numerals_read:
  assumes "2 \<le> base" "base \<le> 36" "letters_ok base bc" "0 \<le> n"
  shows "text_val base (rev (map (digit_char bc) (rdigs base n))) = n
    \<and> (\<forall>c \<in> set (map (digit_char bc) (rdigs base n)). digit_ok base c)"
  using assms(4)
proof (induction "nat n" arbitrary: n rule: less_induct)
  case less
  have m: "0 \<le> n mod base" "n mod base < base" using assms(1) by simp_all
  note cv = char_value_digit [OF m assms(2,3)]
  have ok: "digit_ok base (digit_char bc (n mod base))" using cv m by (simp add: digit_ok_def)
  show ?case
  proof (cases "n div base = 0")
    case True
    then have "rdigs base n = [n mod base]" by (subst rdigs.simps) simp
    moreover have "n mod base = n" using True div_mult_mod_eq [of n base] by simp
    ultimately show ?thesis using ok cv by (simp add: text_val_def)
  next
    case False
    have q: "0 < n div base" using False less.prems assms(1) by (simp add: order_less_le pos_imp_zdiv_nonneg_iff)
    then have r: "rdigs base n = n mod base # rdigs base (n div base)" using assms(1) by (subst rdigs.simps) simp
    have n0: "0 < n" using q less.prems by (cases "n = 0") auto
    have "n div base < n" using assms(1) n0 by (intro int_div_less_self) auto
    then have "nat (n div base) < nat n" using n0 by simp
    then have IH: "text_val base (rev (map (digit_char bc) (rdigs base (n div base)))) = n div base"
      "\<forall>c \<in> set (map (digit_char bc) (rdigs base (n div base))). digit_ok base c" using less.hyps [of "n div base"] q by auto
    show ?thesis using r IH ok cv by (simp add: text_val_snoc)
  qed
qed

lemma commafy_NUL: "commafy NUL k cs = cs"
  by (induction "NUL" k cs rule: commafy.induct) auto

lemma int_text_plain: "int_text base None bc NUL v = (if v < 0 then [CHR 0x2D] else []) @ rev (map (digit_char bc) (rdigs base \<bar>v\<bar>))"
  by (simp add: int_text_def commafy_NUL)

section \<open>Machine integers\<close>

lemma shift_in:
  fixes val d :: int
  assumes "0 \<le> d" "d < DIG_BASE"
  shows "u32 (val * DIG_BASE) OR d = (val * DIG_BASE + d) mod 4294967296"
proof -
  define x where "x = val mod DIG_BASE"
  have x: "0 \<le> x" "x < DIG_BASE" by (simp_all add: x_def)
  have v: "val = x + DIG_BASE * (val div DIG_BASE)" by (simp add: x_def)
  have "val * DIG_BASE = x * DIG_BASE + 4294967296 * (val div DIG_BASE)" by (subst v) (simp add: algebra_simps)
  then have u: "u32 (val * DIG_BASE) = x * DIG_BASE" "(val * DIG_BASE + d) = (x * DIG_BASE + d) + 4294967296 * (val div DIG_BASE)"
    using x by (simp_all add: u32_def)
  have "(val * DIG_BASE + d) mod 4294967296 = x * DIG_BASE + d" unfolding u(2) using x assms by simp
  then show ?thesis unfolding u(1) using or_base_add [OF assms] by simp
qed

lemma mod_shift: "((a mod 4294967296) * DIG_BASE ^ n + b) mod 4294967296 = (a * DIG_BASE ^ n + b) mod (4294967296 :: int)"
  by (metis mod_add_left_eq mod_mult_left_eq)

lemma fold_hash:
  assumes "digs ds"
  shows "foldl (\<lambda>val d. u32 (val * DIG_BASE) OR d) val ds mod 4294967296 = (val * DIG_BASE ^ length ds + dval (rev ds)) mod 4294967296"
  using assms
proof (induction ds arbitrary: val)
  case (Cons d ds)
  have "0 \<le> d" "d < DIG_BASE" "digs ds" using Cons.prems by simp_all
  then have "foldl (\<lambda>val d. u32 (val * DIG_BASE) OR d) val (d # ds) mod 4294967296
      = ((val * DIG_BASE + d) mod 4294967296 * DIG_BASE ^ length ds + dval (rev ds)) mod 4294967296"
    using Cons.IH [of "(val * DIG_BASE + d) mod 4294967296"] by (simp add: shift_in)
  also have "\<dots> = ((val * DIG_BASE + d) * DIG_BASE ^ length ds + dval (rev ds)) mod 4294967296" by (rule mod_shift)
  also have "(val * DIG_BASE + d) * DIG_BASE ^ length ds + dval (rev ds) = val * DIG_BASE ^ length (d # ds) + dval (rev (d # ds))"
    by (simp add: dval_append algebra_simps)
  finally show ?case .
qed simp

lemma s32_cong: "x mod 4294967296 = y mod 4294967296 \<Longrightarrow> s32 x = s32 y"
  by (simp add: s32_def) (metis mod_add_left_eq)

lemma mpz_hash_spec:
  assumes "mpz_ok z"
  shows "mpz_hash z = s32 (zval z)"
proof -
  define val where "val = foldl (\<lambda>val d. u32 (val * DIG_BASE) OR d) 0 (rev (z_dig z))"
  have v: "val mod 4294967296 = dval (z_dig z) mod 4294967296"
    using fold_hash [of "rev (z_dig z)" 0] okD(2) [OF assms] by (simp add: val_def)
  show ?thesis
  proof (cases "z_neg z")
    case True
    have "(- val) mod 4294967296 = (- (val mod 4294967296)) mod 4294967296" by (rule mod_minus_eq [symmetric])
    also have "\<dots> = (- (dval (z_dig z) mod 4294967296)) mod 4294967296" unfolding v ..
    also have "\<dots> = (- dval (z_dig z)) mod 4294967296" by (rule mod_minus_eq)
    finally have "u32 (- val) mod 4294967296 = (- dval (z_dig z)) mod 4294967296" by (simp only: u32_def mod_mod_trivial)
    note s32_cong [OF this]
    then show ?thesis using True by (simp add: mpz_hash_def Let_def val_def [symmetric] zval_def sval_def)
  next
    case False
    then show ?thesis using s32_cong [OF v] by (simp add: mpz_hash_def Let_def val_def [symmetric] zval_def sval_def)
  qed
qed

text \<open>The checked conversions stop before the value would pass a limit that leaves room for one more digit.\<close>

lemma checked_loop_spec:
  assumes "digs ds" "0 \<le> val" "val < (limit + 1) * DIG_BASE" "0 \<le> limit" "(limit + 1) * DIG_BASE \<le> 4294967296"
  shows "checked_loop limit val ds =
    (if val * DIG_BASE ^ length ds + dval (rev ds) < (limit + 1) * DIG_BASE then Some (val * DIG_BASE ^ length ds + dval (rev ds)) else None)"
  using assms(1-3)
proof (induction ds arbitrary: val)
  case (Cons d ds)
  define M :: int where "M = DIG_BASE ^ length ds"
  have M: "1 \<le> M" by (simp add: M_def)
  have d: "0 \<le> d" "d < DIG_BASE" "digs ds" using Cons.prems by simp_all
  have r: "0 \<le> dval (rev ds)" using dval_nonneg [of "rev ds"] d by simp
  have V: "val * DIG_BASE ^ length (d # ds) + dval (rev (d # ds)) = (val * DIG_BASE + d) * M + dval (rev ds)"
    by (simp add: dval_append M_def algebra_simps)
  show ?case
  proof (cases "val > limit")
    case True
    then have "(limit + 1) * DIG_BASE \<le> val * DIG_BASE + d" using d by simp
    also have "\<dots> \<le> (val * DIG_BASE + d) * M" using mult_left_mono [OF M, of "val * DIG_BASE + d"] Cons.prems(2) d by simp
    finally have "\<not> val * DIG_BASE ^ length (d # ds) + dval (rev (d # ds)) < (limit + 1) * DIG_BASE" unfolding V using r by linarith
    then show ?thesis using True by simp
  next
    case False
    have lt: "val * DIG_BASE + d < (limit + 1) * DIG_BASE" using False d by simp
    then have "u32 (val * DIG_BASE) OR d = val * DIG_BASE + d" using shift_in [OF d(1,2), of val] Cons.prems(2) d assms(5) by simp
    then have "checked_loop limit val (d # ds) = checked_loop limit (val * DIG_BASE + d) ds" using False by simp
    then show ?thesis unfolding V using Cons.IH [OF d(3) _ lt] Cons.prems(2) d by (simp add: M_def)
  qed
qed simp

lemma mpz_as_int_checked_spec:
  assumes "mpz_ok z"
  shows "mpz_as_int_checked z = (if \<bar>zval z\<bar> < 2 ^ 31 then Some (zval z) else None)"
proof -
  note ok = okD [OF assms]
  have a: "\<bar>zval z\<bar> = dval (z_dig z)" using ok(5) by (simp add: zval_def sval_def)
  have c: "checked_loop 32767 0 (rev (z_dig z)) = (if dval (z_dig z) < 2 ^ 31 then Some (dval (z_dig z)) else None)"
    using checked_loop_spec [of "rev (z_dig z)" 0 32767] ok(2) by simp
  have "s32 (if z_neg z then u32 (- dval (z_dig z)) else dval (z_dig z)) = zval z" if "dval (z_dig z) < 2 ^ 31"
  proof -
    have "s32 (if z_neg z then u32 (- dval (z_dig z)) else dval (z_dig z)) = s32 (zval z)"
      by (rule s32_cong) (simp add: zval_def sval_def u32_def)
    also have "\<dots> = zval z" using that ok(5) by (intro s32_id) (auto simp: zval_def sval_def)
    finally show ?thesis .
  qed
  then show ?thesis using c a by (simp add: mpz_as_int_checked_def)
qed

lemma mpz_as_uint_checked_spec:
  assumes "mpz_ok z"
  shows "mpz_as_uint_checked z = (if 0 \<le> zval z \<and> zval z < 2 ^ 32 then Some (zval z) else None)"
proof (cases "z_neg z")
  case True
  then show ?thesis using zval_neg [OF assms] by (simp add: mpz_as_uint_checked_def)
next
  case False
  note ok = okD [OF assms]
  have "checked_loop 65535 0 (rev (z_dig z)) = (if dval (z_dig z) < 2 ^ 32 then Some (dval (z_dig z)) else None)"
    using checked_loop_spec [of "rev (z_dig z)" 0 65535] ok(2) by simp
  then show ?thesis using False ok(5) by (simp add: mpz_as_uint_checked_def zval_def sval_def)
qed

lemma mpz_set_from_ll_spec:
  assumes "\<not> z_fixed (st d)" "is_signed \<Longrightarrow> - (2 ^ 63) \<le> v \<and> v < 2 ^ 63" "\<not> is_signed \<Longrightarrow> 0 \<le> v \<and> v < 2 ^ 64"
  obtains st' where "mpz_set_from_ll st d v is_signed = Some st'" "becomes st d v st'"
proof -
  define n where "n = (is_signed \<and> v < 0)"
  define u where "u = \<bar>v\<bar>"
  have u: "0 \<le> u" "u < DIG_BASE ^ 4" using assms(2,3) by (cases is_signed; auto simp: u_def)+
  define w where "w = uint_digits u"
  have w: "digs w" "normd w" "dval w = u" "length w \<le> 4" using uint_digits_spec [of u 4] u by (auto simp: w_def)
  obtain a where a: "mpz_need_dig st d 4 = Some (grow st d a)" "4 \<le> a" using need_dig_spec [of st d, OF assms(1)] by metis
  have "(if is_signed \<and> v < 0 then (True, u64 (- u64 v)) else (False, u64 v)) = (n, u)"
  proof (cases n)
    case True
    have "u64 (- u64 v) = u64 (- v)" unfolding u64_def by (rule mod_minus_eq)
    then show ?thesis using True assms(2) by (auto simp: n_def u_def u64_def)
  next
    case False
    then show ?thesis using assms(2,3) by (cases is_signed) (auto simp: n_def u_def u64_def)
  qed
  then have "mpz_set_from_ll st d v is_signed = Some (set_neg (putz st d a w) d n)"
    using a w(4) by (simp add: mpz_set_from_ll_def put_set_neg put_grow w_def [symmetric])
  moreover have "becomes st d v (set_neg (putz st d a w) d n)"
  proof (rule becomesI [of st d, OF assms(1)])
    show "length w \<le> a" "digs w" "normd w" using a w by simp_all
    show "n \<Longrightarrow> w \<noteq> []" using w(3) by (auto simp: n_def u_def)
    show "sval n (dval w) = v" using w(3) assms(3) by (cases is_signed) (auto simp: n_def u_def sval_def)
  qed
  ultimately show thesis by (rule that)
qed

section \<open>Floating-point numbers\<close>

lemma float_digits_spec: "length (float_digits n x) = n" "digs (float_digits n x)" "dval (float_digits n x) = x mod DIG_BASE ^ n"
proof (induction n arbitrary: x)
  case (Suc n)
  { case 3
    show ?case using Suc.IH(3) [of "x div DIG_BASE"] mod_base_step [of "DIG_BASE ^ n" x 0] by simp }
qed auto

lemma float_digits_split:
  assumes "0 < shft" "shft < 16" "0 \<le> F" "F < 2 ^ 53"
  shows "u64 (F * 2 ^ shft) mod DIG_BASE # float_digits n (F div 2 ^ (16 - shft)) = float_digits (Suc n) (F * 2 ^ shft)"
proof -
  have "u64 (F * 2 ^ shft) mod DIG_BASE = (F * 2 ^ shft) mod DIG_BASE"
    unfolding u64_def by (rule mod_mod_cancel) simp
  moreover have "(F * 2 ^ shft) div DIG_BASE = F div 2 ^ (16 - shft)"
  proof -
    have B: "DIG_BASE = 2 ^ (16 - shft) * 2 ^ shft" using base_split [of shft] assms(2) by (simp add: mult.commute)
    show ?thesis unfolding B by (rule div_mult_mult2) simp
  qed
  ultimately show ?thesis by simp
qed

text \<open>The integer part of the magnitude of a normal number.\<close>

definition float_int :: "int \<Rightarrow> int \<Rightarrow> int" where
  "float_int exp frc = ((2 ^ 52 + frc) * 2 ^ nat exp) div 2 ^ 1075"

lemma float_int_cases:
  assumes "1023 \<le> exp" "0 \<le> frc" "frc < 2 ^ 52"
  shows "exp < 1075 \<Longrightarrow> float_int exp frc = (2 ^ 52 + frc) div 2 ^ nat (1075 - exp)"
    "1075 \<le> exp \<Longrightarrow> float_int exp frc = (2 ^ 52 + frc) * 2 ^ nat (exp - 1075)"
    "2 ^ nat (exp - 1023) \<le> float_int exp frc" "float_int exp frc < 2 ^ nat (exp - 1022)"
proof -
  define F where "F = 2 ^ 52 + frc"
  have F: "2 ^ 52 \<le> F" "F < 2 ^ 53" using assms by (simp_all add: F_def)
  have split: "(2::int) ^ (a + b) = 2 ^ a * 2 ^ b" for a b :: nat by (rule power_add)
  { assume e: "exp < 1075"
    have "1075 = nat exp + nat (1075 - exp)" using e assms(1) by simp
    then have "(2::int) ^ 1075 = 2 ^ nat (1075 - exp) * 2 ^ nat exp" using split [of "nat (1075 - exp)" "nat exp"] by (metis add.commute)
    then show "float_int exp frc = (2 ^ 52 + frc) div 2 ^ nat (1075 - exp)" unfolding float_int_def by (simp only: div_mult_mult2 power_not_zero zero_neq_numeral not_False_eq_True) }
  note c1 = this
  { assume e: "1075 \<le> exp"
    have "nat exp = nat (exp - 1075) + 1075" using e by simp
    then have "(2::int) ^ nat exp = 2 ^ nat (exp - 1075) * 2 ^ 1075" by (metis split)
    then have "F * 2 ^ nat exp = (F * 2 ^ nat (exp - 1075)) * 2 ^ 1075" by (simp only: mult.assoc)
    then show "float_int exp frc = (2 ^ 52 + frc) * 2 ^ nat (exp - 1075)" unfolding float_int_def F_def [symmetric]
      by (simp only: nonzero_mult_div_cancel_right power_not_zero zero_neq_numeral not_False_eq_True) }
  note c2 = this
  show "2 ^ nat (exp - 1023) \<le> float_int exp frc"
  proof (cases "exp < 1075")
    case True
    have "52 = nat (1075 - exp) + nat (exp - 1023)" using True assms(1) by simp
    then have "(2::int) ^ 52 = 2 ^ nat (exp - 1023) * 2 ^ nat (1075 - exp)" by (metis split mult.commute)
    then have "2 ^ nat (exp - 1023) * 2 ^ nat (1075 - exp) \<le> F" using F(1) by simp
    then have "2 ^ nat (exp - 1023) \<le> F div 2 ^ nat (1075 - exp)"
      by (metis nonzero_mult_div_cancel_right power_not_zero zdiv_mono1 zero_less_numeral zero_less_power zero_neq_numeral)
    then show ?thesis using c1 [OF True] by (simp add: F_def)
  next
    case False
    have "nat (exp - 1023) = 52 + nat (exp - 1075)" using False by simp
    then have "(2::int) ^ nat (exp - 1023) = 2 ^ 52 * 2 ^ nat (exp - 1075)" by (metis split)
    also have "\<dots> \<le> F * 2 ^ nat (exp - 1075)" using F(1) by (intro mult_right_mono) auto
    finally show ?thesis using c2 False by (simp add: F_def)
  qed
  show "float_int exp frc < 2 ^ nat (exp - 1022)"
  proof (cases "exp < 1075")
    case True
    have "53 = nat (1075 - exp) + nat (exp - 1022)" using True assms(1) by simp
    then have "(2::int) ^ 53 = 2 ^ nat (exp - 1022) * 2 ^ nat (1075 - exp)" by (metis split mult.commute)
    then have "F div 2 ^ nat (1075 - exp) < 2 ^ nat (exp - 1022)" using F(2) by (intro div_less_if) auto
    then show ?thesis using c1 [OF True] by (simp add: F_def)
  next
    case False
    have "nat (exp - 1022) = 53 + nat (exp - 1075)" using False by simp
    then have "(2::int) ^ nat (exp - 1022) = 2 ^ 53 * 2 ^ nat (exp - 1075)" by (metis split)
    moreover have "F * 2 ^ nat (exp - 1075) < 2 ^ 53 * 2 ^ nat (exp - 1075)" using F(2) by (intro mult_strict_right_mono) auto
    ultimately show ?thesis using c2 False by (simp add: F_def)
  qed
qed

lemma shft_value:
  assumes "0 \<le> e"
  shows "nat (u32 ((e + 52) mod 16 - 52) mod 16) = nat (e mod 16)"
proof -
  have "u32 ((e + 52) mod 16 - 52) mod 16 = ((e + 52) mod 16 - 52) mod 16" unfolding u32_def by (rule mod_mod_cancel) simp
  also have "\<dots> = (e + 52 - 52) mod 16" by (rule mod_diff_left_eq)
  finally show ?thesis by simp
qed

lemma mpz_set_from_float_spec:
  assumes nf: "\<not> z_fixed (st z)" and e: "0 < exp" "exp < 2047" and f: "0 \<le> frc" "frc < 2 ^ 52"
    and s1: "exp \<noteq> 1023 \<or> \<not> sgn_bit"
  obtains st' where "mpz_set_from_float st z sgn_bit exp frc = Some st'" "becomes st z (sval sgn_bit (float_int exp frc)) st'"
proof -
  note close = that
  have zero: thesis if h: "mpz_set_from_float st z sgn_bit exp frc = mpz_set_from_int (set_neg st z sgn_bit) z v"
    "v = sval sgn_bit (float_int exp frc)" "v = 0 \<or> v = 1" for v
  proof -
    obtain st' where "mpz_set_from_int (set_neg st z sgn_bit) z v = Some st'" "becomes (set_neg st z sgn_bit) z v st'"
      by (rule mpz_set_from_int_spec [of "set_neg st z sgn_bit" z v]) (use nf h(3) in auto)
    moreover from this(2) have "becomes st z v st'" by (auto simp: becomes_def set_neg_def)
    ultimately show thesis using h by (intro close) auto
  qed
  define F where "F = 2 ^ 52 + frc"
  have F: "0 \<le> F" "F < 2 ^ 53" using f by (simp_all add: F_def)
  have Fo: "frc OR 4503599627370496 = F" using or_disjoint_add [OF f, of 1] by (simp add: F_def or.commute)
  consider (small) "exp < 1023" | (one) "exp = 1023" | (big) "1023 < exp" by linarith
  then show thesis
  proof cases
    case small
    have "(2 ^ 52 + frc) * 2 ^ nat exp < 2 ^ 1075"
    proof -
      have "(2 ^ 52 + frc) * 2 ^ nat exp < 2 ^ 53 * 2 ^ nat exp" using F by (simp add: F_def)
      also have "\<dots> = 2 ^ (53 + nat exp)" by (rule power_add [symmetric])
      also have "\<dots> \<le> (2::int) ^ 1075" using small by (intro power_increasing) auto
      finally show ?thesis .
    qed
    then have "float_int exp frc = 0" unfolding float_int_def using f by (intro div_pos_pos_trivial) auto
    then show ?thesis using small e by (intro zero [of 0]) (simp_all add: mpz_set_from_float_def sval_def)
  next
    case one
    have "float_int 1023 frc = 1" using float_int_cases(3,4) [of 1023 frc] f by simp
    then show ?thesis using one s1 by (intro zero [of 1]) (simp_all add: mpz_set_from_float_def sval_def)
  next
    case big
    note fi = float_int_cases [of exp frc]
    define V where "V = float_int exp frc"
    define cnt where "cnt = nat ((exp - 1023 + 1 + 15) div 16)"
    have V: "2 ^ nat (exp - 1023) \<le> V" "V < 2 ^ nat (exp - 1022)" using fi(3,4) big f by (simp_all add: V_def)
    have c: "nat (exp - 1022) \<le> 16 * cnt" "16 * (cnt - 1) \<le> nat (exp - 1023)" "0 < cnt" using big by (simp_all add: cnt_def)
    have up: "V < DIG_BASE ^ cnt"
    proof -
      have "(2::int) ^ nat (exp - 1022) \<le> 2 ^ (16 * cnt)" using c(1) by (intro power_increasing) auto
      then show ?thesis unfolding power_base using V(2) by linarith
    qed
    have lo: "DIG_BASE ^ (cnt - 1) \<le> V"
    proof -
      have "(2::int) ^ (16 * (cnt - 1)) \<le> 2 ^ nat (exp - 1023)" using c(2) by (intro power_increasing) auto
      then show ?thesis unfolding power_base using V(1) by linarith
    qed
    obtain a where a: "mpz_need_dig (set_neg st z sgn_bit) z cnt = Some (grow (set_neg st z sgn_bit) z a)" "cnt \<le> a"
      using need_dig_spec [of "set_neg st z sgn_bit" z cnt] nf by auto
    have fin: thesis if h: "mpz_set_from_float st z sgn_bit exp frc = put_dig (grow (set_neg st z sgn_bit) z a) z (w, cnt)"
      "length w = cnt" "digs w" "dval w = V" for w
    proof -
      have "last w \<noteq> 0" using h lo c(3) by (intro last_nonzero) auto
      then have n: "normd w" by (simp add: normd_def)
      have wne: "w \<noteq> []" using h(2) c(3) by auto
      have "put_dig (grow (set_neg st z sgn_bit) z a) z (w, cnt) = Some (set_neg (putz st z a w) z sgn_bit)"
        using h(2) a(2) by (simp add: put_grow putz_set_neg)
      moreover have "becomes st z (sval sgn_bit (float_int exp frc)) (set_neg (putz st z a w) z sgn_bit)"
        using h n wne a(2) by (intro becomesI) (use nf in \<open>auto simp: V_def\<close>)
      ultimately show thesis using h(1) by (intro close) simp_all
    qed
    show ?thesis
    proof (cases "exp < 1075")
      case True
      have v: "V = F div 2 ^ nat (1075 - exp)" using fi(1) True big f by (simp add: V_def F_def)
      have "52 - (exp - 1023) = 1075 - exp" by simp
      then have "mpz_set_from_float st z sgn_bit exp frc = put_dig (grow (set_neg st z sgn_bit) z a) z (float_digits cnt V, cnt)"
        using True big e a(1) by (simp add: mpz_set_from_float_def Let_def Fo cnt_def v)
      moreover have "V mod DIG_BASE ^ cnt = V"
        using up V(1) order_trans [of 0 "2 ^ nat (exp - 1023)" V] by (intro mod_pos_pos_trivial) simp_all
      ultimately show ?thesis using float_digits_spec [of cnt V] by (intro fin [of "float_digits cnt V"]) simp_all
    next
      case False
      define ex where "ex = exp - 1075"
      have ex: "0 \<le> ex" "exp - 1023 = ex + 52" using False by (simp_all add: ex_def)
      define sh ind where "sh = nat (ex mod 16)" and "ind = nat (ex div 16)"
      have sh: "sh < 16" by (simp add: sh_def nat_less_iff)
      have v: "V = DIG_BASE ^ ind * (F * 2 ^ sh)"
      proof -
        have "nat ex = 16 * ind + sh" using ex(1) by (simp add: sh_def ind_def nat_div_distrib nat_mod_distrib)
        then have "(2::int) ^ nat ex = DIG_BASE ^ ind * 2 ^ sh" by (simp only: power_add power_base)
        then show ?thesis using fi(2) False big f by (simp add: V_def F_def ex_def)
      qed
      have ic: "ind + (if sh = 0 then 0 else 1) \<le> cnt" using ex(1) by (auto simp: ind_def cnt_def ex(2) sh_def nat_le_iff)
      define w where "w = replicate ind 0 @ float_digits (cnt - ind) (F * 2 ^ sh)"
      have "mpz_set_from_float st z sgn_bit exp frc = put_dig (grow (set_neg st z sgn_bit) z a) z (w, cnt)"
      proof (cases "sh = 0")
        case True
        then show ?thesis using False big e ex(1) a(1) ic
          by (simp add: mpz_set_from_float_def Let_def Fo cnt_def ex(2) shft_value [OF ex(1)] sh_def [symmetric] ind_def [symmetric] w_def)
      next
        case nz: False
        obtain k where k: "cnt - ind = Suc k" using ic nz by (cases "cnt - ind") auto
        have "w = replicate ind 0 @ [u64 (F * 2 ^ sh) mod DIG_BASE] @ float_digits k (F div 2 ^ (16 - sh))"
          unfolding w_def k using float_digits_split [of sh F k] nz sh F by simp
        moreover have "cnt - Suc ind = k" using k by simp
        ultimately show ?thesis using False big e ex(1) a(1) ic nz
          by (simp add: mpz_set_from_float_def Let_def Fo cnt_def ex(2) shft_value [OF ex(1)] sh_def [symmetric] ind_def [symmetric] Suc_diff_Suc)
      qed
      moreover have "length w = cnt" "digs w" using ic float_digits_spec [of "cnt - ind" "F * 2 ^ sh"] by (auto simp: w_def split: if_splits)
      moreover have "dval w = V"
      proof -
        have "DIG_BASE ^ cnt = DIG_BASE ^ ind * DIG_BASE ^ (cnt - ind)" using ic by (metis add_leD1 le_add_diff_inverse power_add)
        then have "F * 2 ^ sh < DIG_BASE ^ (cnt - ind)" using up v by simp
        then have "(F * 2 ^ sh) mod DIG_BASE ^ (cnt - ind) = F * 2 ^ sh" using F by simp
        then show ?thesis by (simp add: w_def dval_append float_digits_spec v)
      qed
      ultimately show ?thesis by (rule fin)
    qed
  qed
qed

section \<open>Text and back\<close>

text \<open>C21: Printing a number and reading the digits back gives the same number: the text of a
  number in a base from 2 to 32, without prefix and separators, is a sign and digits; reading
  the digits with that sign in the same base consumes all of them and stores the number.
\<close>

theorem mpz_text_roundtrip:
  assumes "2 \<le> base" "base \<le> 32" "mpz_ok z" "letters_ok base bc" "\<not> z_fixed (st d)"
  shows "\<exists>ds st'. mpz_as_str_inpl z base None bc NUL = Some ((if zval z < 0 then [CHR 0x2D] else []) @ ds)
    \<and> mpz_set_from_str st d ds (zval z < 0) base = Some (st', length ds) \<and> zval (st' d) = zval z \<and> mpz_ok (st' d)"
proof -
  define ds where "ds = rev (map (digit_char bc) (rdigs base \<bar>zval z\<bar>))"
  have t: "mpz_as_str_inpl z base None bc NUL = Some ((if zval z < 0 then [CHR 0x2D] else []) @ ds)"
    using mpz_as_str_inpl_spec [OF assms(1-3), of None bc NUL] by (simp add: int_text_plain ds_def)
  have r: "text_val base ds = \<bar>zval z\<bar>" "\<forall>c \<in> set ds. digit_ok base c"
    using numerals_read [of base bc "\<bar>zval z\<bar>"] assms by (auto simp: ds_def)
  then have tw: "takeWhile (digit_ok base) ds = ds" by (simp add: takeWhile_eq_all_conv)
  have b: "0 \<le> base" "base \<le> 36" using assms(1,2) by simp_all
  obtain st' where s: "mpz_set_from_str st d ds (zval z < 0) base = Some (st', length (takeWhile (digit_ok base) ds))"
      "zval (st' d) = sval (zval z < 0) (text_val base (takeWhile (digit_ok base) ds))"
      "(zval z < 0) \<longrightarrow> text_val base (takeWhile (digit_ok base) ds) \<noteq> 0 \<Longrightarrow> mpz_ok (st' d)"
    by (rule mpz_set_from_str_spec [of base st d ds "zval z < 0", OF b assms(5)]) blast
  have "mpz_ok (st' d)" by (rule s(3)) (simp add: tw r(1))
  moreover have "zval (st' d) = zval z" using s(2) by (simp add: tw r(1) sval_def)
  ultimately show ?thesis using t s(1) unfolding tw by blast
qed

theorem mpz_text_roundtrip_witness:
  "\<exists>ds st'. mpz_as_str_inpl (sample_store (Obj 0)) 16 None (CHR ''a'') NUL = Some ([CHR 0x2D] @ ds)
    \<and> mpz_set_from_str sample_store (Obj 6) ds True 16 = Some (st', length ds) \<and> zval (st' (Obj 6)) = - 4294967296 \<and> mpz_ok (st' (Obj 6))"
  using mpz_text_roundtrip [of 16 "sample_store (Obj 0)" "CHR ''a''" sample_store "Obj 6"]
  by (simp add: sample_store_simps letters_ok_def)

end
