(* ===== verification/SmallInt.thy ===== *)
theory SmallInt
  imports MpzConv
begin

text \<open>
  Small integers (\<open>py/smallint.c\<close>, \<open>py/smallint.h\<close>, \<open>py/obj.h\<close>): a Python integer held in the
  object word itself, shifted left by one with the low bit set.  A word has 32 bits, so a small
  integer has 31; making one from a wider value drops the top bit.

  Shown here: the overflow test of the product is exact, the division and remainder are the
  floored ones of Python, and the bit trick of \<open>MP_SMALL_INT_FITS\<close> is a range test.
\<close>

unbundle bit_operations_syntax

abbreviation (input) MP_SMALL_INT_MIN :: int where
  "MP_SMALL_INT_MIN \<equiv> - 1073741824"

abbreviation (input) MP_SMALL_INT_MAX :: int where
  "MP_SMALL_INT_MAX \<equiv> 1073741823"

text \<open>\<open>MP_OBJ_SMALL_INT_VALUE (MP_OBJ_NEW_SMALL_INT (x))\<close>: shift left by one, shift back with the sign.\<close>

definition small_wrap :: "int \<Rightarrow> int" where
  "small_wrap x = s32 (u32 (u32 x * 2) OR 1) div 2"

definition MP_SMALL_INT_FITS :: "int \<Rightarrow> bool" where
  "MP_SMALL_INT_FITS n \<longleftrightarrow> (u32 n XOR u32 (u32 n * 2)) AND 0x80000000 = 0"

definition mp_small_int_mul_overflow :: "int \<Rightarrow> int \<Rightarrow> bool" where
  "mp_small_int_mul_overflow x y =
     (if x > 0 then
        (if y > 0 then x > c_div MP_SMALL_INT_MAX y
         else y < c_div MP_SMALL_INT_MIN x)
      else
        (if y > 0 then x < c_div MP_SMALL_INT_MIN y
         else x \<noteq> 0 \<and> y < c_div MP_SMALL_INT_MAX x))"

definition mp_small_int_modulo :: "int \<Rightarrow> int \<Rightarrow> int" where
  "mp_small_int_modulo dividend divisor =
     (let dividend = c_rem dividend divisor in
      if dividend < 0 \<and> divisor > 0 \<or> dividend > 0 \<and> divisor < 0 then s32 (dividend + divisor) else dividend)"

definition mp_small_int_floor_divide :: "int \<Rightarrow> int \<Rightarrow> int" where
  "mp_small_int_floor_divide num denom =
     (let num = (if num \<ge> 0 then (if denom < 0 then s32 (num + (s32 (- denom) - 1)) else num)
                 else (if denom \<ge> 0 then s32 (num + (s32 (- denom) + 1)) else num))
      in c_div num denom)"

section \<open>Facts\<close>

definition small :: "int \<Rightarrow> bool" where
  "small n \<longleftrightarrow> MP_SMALL_INT_MIN \<le> n \<and> n \<le> MP_SMALL_INT_MAX"

lemma small_wrap_mod: "small_wrap x = (x + 1073741824) mod 2147483648 - 1073741824"
proof -
  have e: "u32 (u32 x * 2) = 2 * (x mod 2147483648)"
  proof -
    have "u32 (u32 x * 2) = (x * 2) mod 4294967296" unfolding u32_def by (rule mod_mult_left_eq)
    then show ?thesis using mult_mod_left [of x 2147483648 2] by simp
  qed
  define y where "y = x mod 2147483648"
  have y: "0 \<le> y" "y < 2147483648" by (simp_all add: y_def)
  have "2 * y OR 1 = 2 * y + 1" by (simp add: or_one_eq)
  then have "small_wrap x = s32 (2 * y + 1) div 2" by (simp add: small_wrap_def e y_def)
  also have "\<dots> = (y + 1073741824) mod 2147483648 - 1073741824"
  proof (cases "y < 1073741824")
    case True
    then have "s32 (2 * y + 1) = 2 * y + 1" using y by (intro s32_id) auto
    then show ?thesis using True y by simp
  next
    case False
    have "(2 * y + 1 + 2147483648) mod 4294967296 = 2 * y + 1 + 2147483648 - 4294967296"
      using False y by (subst mod_pos_geq) auto
    moreover have "(y + 1073741824) mod 2147483648 = y + 1073741824 - 2147483648"
      using False y by (subst mod_pos_geq) auto
    ultimately show ?thesis by (simp add: s32_def)
  qed
  also have "(y + 1073741824) mod 2147483648 = (x + 1073741824) mod 2147483648" by (simp add: y_def mod_add_left_eq)
  finally show ?thesis .
qed

lemma small_wrap_id [conv_simps]: "small x \<Longrightarrow> small_wrap x = x"
  by (simp add: small_wrap_mod small_def)

lemma small_small_wrap: "small (small_wrap x)"
  using pos_mod_bound [of 2147483648 "x + 1073741824"] pos_mod_sign [of 2147483648 "x + 1073741824"]
  by (simp add: small_wrap_mod small_def)

lemma div_less_iff_mult: "0 < b \<Longrightarrow> a div b < p \<longleftrightarrow> a < p * b" for a b p :: int
  using zdiv_mono1 [of "p * b" a b] div_less_if [of b a p] by (auto simp: not_less [symmetric])

lemma div_is: "0 < b \<Longrightarrow> k * b \<le> a \<Longrightarrow> a < (k + 1) * b \<Longrightarrow> a div b = k" for a b k :: int
  using div_less_iff_mult [of b a k] div_less_iff_mult [of b a "k + 1"] by linarith

text \<open>Bits 30 and 31 of a word agree exactly for the small values.\<close>

lemma MP_SMALL_INT_FITS_iff:
  assumes "- 2147483648 \<le> n" "n < 2147483648"
  shows "MP_SMALL_INT_FITS n \<longleftrightarrow> small n"
proof -
  define x where "x = u32 n"
  have x: "x = (if n < 0 then n + 4294967296 else n)"
  proof (cases "n < 0")
    case True
    have "n mod 4294967296 = (n + 4294967296) mod 4294967296" by (rule mod_add_self2 [symmetric])
    also have "\<dots> = n + 4294967296" using True assms by (intro mod_pos_pos_trivial) auto
    finally show ?thesis using True by (simp add: x_def u32_def)
  next
    case False
    then show ?thesis using assms by (simp add: x_def u32_def)
  qed
  have t: "u32 y = take_bit 32 y" for y by (simp add: u32_def take_bit_eq_mod)
  have d: "bit (u32 (x * 2)) 31 \<longleftrightarrow> bit x 30"
    using bit_double_iff [of x 31] by (simp only: t bit_take_bit_iff mult.commute [of x]) (simp add: bit_iff_odd)
  have "MP_SMALL_INT_FITS n \<longleftrightarrow> \<not> bit (x XOR u32 (x * 2)) 31"
    using and_exp_eq_0_iff_not_bit [of "x XOR u32 (x * 2)" 31] by (simp add: MP_SMALL_INT_FITS_def x_def)
  also have "\<dots> \<longleftrightarrow> (bit x 31 \<longleftrightarrow> bit x 30)" by (simp add: bit_xor_iff d)
  also have "\<dots> \<longleftrightarrow> small n"
  proof -
    consider "n < - 1073741824" | "- 1073741824 \<le> n" "n < 0" | "0 \<le> n" "n < 1073741824" | "1073741824 \<le> n" by linarith
    then show ?thesis
    proof cases
      case 1
      then have "x div 2147483648 = 1" "x div 1073741824 = 2" using assms by (auto simp: x intro!: div_is)
      then show ?thesis using 1 by (simp add: bit_iff_odd small_def)
    next
      case 2
      then have "x div 2147483648 = 1" "x div 1073741824 = 3" using assms by (auto simp: x intro!: div_is)
      then show ?thesis using 2 by (simp add: bit_iff_odd small_def)
    next
      case 3
      then show ?thesis by (simp add: x bit_iff_odd small_def)
    next
      case 4
      then have "x div 2147483648 = 0" "x div 1073741824 = 1" using assms by (auto simp: x intro!: div_is)
      then show ?thesis using 4 by (simp add: bit_iff_odd small_def)
    qed
  qed
  finally show ?thesis .
qed

lemma c_div_neg_left: "c_div (- a) b = - c_div a b"
  by (simp add: c_div_def)

lemma c_div_neg_right: "c_div a (- b) = - c_div a b"
  by (simp add: c_div_def)

lemma mul_overflow_iff:
  assumes "small x" "small y"
  shows "mp_small_int_mul_overflow x y \<longleftrightarrow> \<not> small (x * y)"
proof -
  have over: "c_div a b < p \<longleftrightarrow> a < p * b" if "0 \<le> a" "0 < b" for a b p :: int
    using that by (simp add: c_div_nonneg div_less_iff_mult)
  consider (pp) "0 < x" "0 < y" | (pn) "0 < x" "y \<le> 0" | (np) "x \<le> 0" "0 < y" | (nn) "x < 0" "y \<le> 0" | (z) "x = 0" by linarith
  then show ?thesis
  proof cases
    case pp
    then have "0 < x * y" by simp
    then have "small (x * y) \<longleftrightarrow> x * y \<le> 1073741823" by (simp add: small_def)
    then show ?thesis using pp by (simp add: mp_small_int_mul_overflow_def over not_le)
  next
    case pn
    then have "x * y \<le> 0" by (simp add: mult_le_0_iff)
    moreover have "y < c_div (- 1073741824) x \<longleftrightarrow> 1073741824 < - y * x"
      using over [of 1073741824 x "- y"] pn by (simp add: c_div_neg_left) linarith
    ultimately show ?thesis using pn by (auto simp: mp_small_int_mul_overflow_def small_def mult.commute)
  next
    case np
    then have "x * y \<le> 0" by (simp add: mult_le_0_iff)
    moreover have "x < c_div (- 1073741824) y \<longleftrightarrow> 1073741824 < - x * y"
      using over [of 1073741824 y "- x"] np by (simp add: c_div_neg_left) linarith
    ultimately show ?thesis using np by (auto simp: mp_small_int_mul_overflow_def small_def)
  next
    case nn
    then have "0 \<le> x * y" by (simp add: mult_nonpos_nonpos)
    moreover have "y < c_div 1073741823 x \<longleftrightarrow> 1073741823 < x * y"
      using over [of 1073741823 "- x" "- y"] nn by (simp add: c_div_neg_right mult.commute)
    ultimately show ?thesis using nn by (auto simp: mp_small_int_mul_overflow_def small_def)
  next
    case z
    then show ?thesis using over [of 1073741824 y 0] by (auto simp: mp_small_int_mul_overflow_def small_def c_div_neg_left)
  qed
qed

lemma c_rem_cases:
  "0 \<le> a \<Longrightarrow> 0 < b \<Longrightarrow> c_rem a b = a mod b"
  "a < 0 \<Longrightarrow> 0 < b \<Longrightarrow> c_rem a b = - (- a mod b)"
  "0 \<le> a \<Longrightarrow> b < 0 \<Longrightarrow> c_rem a b = a mod - b"
  "a < 0 \<Longrightarrow> b < 0 \<Longrightarrow> c_rem a b = - (- a mod - b)"
  using minus_mult_div_eq_mod [of a b] minus_mult_div_eq_mod [of "- a" b] minus_mult_div_eq_mod [of a "- b"] minus_mult_div_eq_mod [of "- a" "- b"]
  by (cases "a = 0"; simp add: c_rem_def c_div_def)+

lemma small_modulo:
  assumes "small a" "small b" "b \<noteq> 0"
  shows "mp_small_int_modulo a b = a mod b"
proof -
  consider "0 \<le> a" "0 < b" | "a < 0" "0 < b" | "0 \<le> a" "b < 0" | "a < 0" "b < 0" using assms(3) by linarith
  note sg = this
  then have "\<bar>c_rem a b\<bar> < \<bar>b\<bar>" using abs_mod_less [of b] abs_mod_less [of "- b"] by cases (auto simp: c_rem_cases)
  then have "s32 (c_rem a b + b) = c_rem a b + b" using assms by (intro s32_id) (auto simp: small_def)
  with sg show ?thesis
    by (cases; auto simp: mp_small_int_modulo_def Let_def c_rem_cases zmod_zminus1_eq_if zmod_zminus2_eq_if;
        use pos_mod_sign [of b a] neg_mod_sign [of b a] neg_mod_bound [of b a] in linarith)
qed

lemma div_ceiling: "0 < b \<Longrightarrow> - ((b - 1 - a) div b) = a div b" for a b :: int
proof -
  assume b: "0 < b"
  have "(b - 1 - a) div b = - (a div b)"
    using pos_mod_bound [OF b, of a] pos_mod_sign [OF b, of a] mult_div_mod_eq [of b a] b
    by (intro div_is; simp add: algebra_simps; linarith)
  then show ?thesis by simp
qed

lemma small_floor_divide:
  assumes "small a" "small b" "b \<noteq> 0"
  shows "mp_small_int_floor_divide a b = a div b"
proof -
  have i: "s32 (- b) = - b" "s32 (a + (- b - 1)) = a + (- b - 1)" "0 < b \<Longrightarrow> s32 (a + (- b + 1)) = a + (- b + 1)"
    using assms by (auto simp: small_def intro!: s32_id)
  consider "0 \<le> a" "0 < b" | "a < 0" "0 < b" | "0 \<le> a" "b < 0" | "a < 0" "b < 0" using assms(3) by linarith
  then show ?thesis
  proof cases
    case 2
    then have "c_div (a + (- b + 1)) b = - ((b - 1 - a) div b)" by (simp add: c_div_def algebra_simps)
    then show ?thesis using 2 i div_ceiling [of b a] by (simp add: mp_small_int_floor_divide_def)
  next
    case 3
    show ?thesis
    proof (cases "a + (- b - 1) = 0")
      case True
      then show ?thesis using 3 i by (simp add: mp_small_int_floor_divide_def c_div_def)
    next
      case False
      then have "c_div (a + (- b - 1)) b = - ((- b - 1 - (- a)) div - b)" using 3 by (simp add: c_div_def algebra_simps)
      then show ?thesis using 3 i div_ceiling [of "- b" "- a"] by (simp add: mp_small_int_floor_divide_def)
    qed
  qed (use i in \<open>auto simp: mp_small_int_floor_divide_def c_div_nonneg\<close>, simp add: c_div_def)
qed

end
