(* ===== verification/IntObj.thy ===== *)
theory IntObj
  imports SmallInt
begin

text \<open>
  Python integer objects (\<open>py/objint_mpz.c\<close>, \<open>py/objint.c\<close>).  An integer is either a small
  integer, held in the object word, or a reference to an object of the heap that owns an
  \<open>mpz_t\<close>.  The heap hands out addresses in order and objects of different types share them.

  A function of the interpreter returns an object, returns \<open>MP_OBJ_NULL\<close> (the operation is not
  supported, \<open>None\<close> here), or raises.  The outer \<open>None\<close> is an execution without a defined
  result: a failed assertion, or one of the cases of the number library.

  Floating point arithmetic, and the operators of float and complex objects, are arguments
  of the model, collected in the record \<open>world\<close>.

  Shown here: every arithmetic operator on integers computes the integer Python asks for or
  raises the right exception, leaves every existing object as it was, and returns a result in
  the smaller representation whenever it fits there.
\<close>

section \<open>Objects\<close>

datatype pyobj =
    SmallInt int
  | IntRef nat
  | BoolObj bool
  | FloatRef nat
  | ComplexRef nat
  | TupleRef nat
  | OtherRef nat

record 'f heap =
  h_next :: nat
  h_mpz :: zstore
  h_float :: "nat \<Rightarrow> 'f"
  h_tuple :: "nat \<Rightarrow> pyobj list"

datatype exn = ZeroDivisionError | ValueError | OverflowError | TypeError

type_synonym ('a, 'f) mres = "(exn + 'a \<times> 'f heap) option"

abbreviation ret :: "'a \<Rightarrow> 'f heap \<Rightarrow> ('a, 'f) mres" where
  "ret v h \<equiv> Some (Inr (v, h))"

abbreviation raise :: "exn \<Rightarrow> ('a, 'f) mres" where
  "raise e \<equiv> Some (Inl e)"

definition then_do :: "('a, 'f) mres \<Rightarrow> ('a \<Rightarrow> 'f heap \<Rightarrow> ('b, 'f) mres) \<Rightarrow> ('b, 'f) mres" where
  "then_do m f = (case m of None \<Rightarrow> None | Some (Inl e) \<Rightarrow> Some (Inl e) | Some (Inr (v, h)) \<Rightarrow> f v h)"

text \<open>Operators, with the ones that come in three forms grouped.\<close>

datatype arith =
    ORop | XORop | ANDop | LSHIFT | RSHIFT | ADD | SUBTRACT | MULTIPLY | MAT_MULTIPLY
  | FLOOR_DIVIDE | TRUE_DIVIDE | MODULO | POWER

datatype binop =
    LESS | MORE | EQUAL | LESS_EQUAL | MORE_EQUAL | NOT_EQUAL | IN_OP | IS_OP | EXCEPTION_MATCH
  | INPLACE arith | NORMAL arith | DIVMOD | CONTAINS | REVERSE arith

datatype unop = POSITIVE | NEGATIVE | INVERT | NOT_OP | BOOL_OP | LEN_OP | HASH | ABS_OP | INT_MAYBE | FLOAT_MAYBE | COMPLEX_MAYBE | SIZEOF

record 'f fpops =
  f_of_int :: "int \<Rightarrow> 'f"
  f_add :: "'f \<Rightarrow> 'f \<Rightarrow> 'f"
  f_mul :: "'f \<Rightarrow> 'f \<Rightarrow> 'f"
  f_div :: "'f \<Rightarrow> 'f \<Rightarrow> 'f"
  f_neg :: "'f \<Rightarrow> 'f"

text \<open>
  The code of other objects: floating point, the operators of float and complex numbers
  applied to a left operand that is a number already converted, which objects are sequences
  that can be repeated, and the operator slot of every type but \<open>int\<close>.
\<close>

record 'f world =
  w_fp :: "'f fpops"
  w_float_op :: "binop \<Rightarrow> 'f \<Rightarrow> pyobj \<Rightarrow> 'f heap \<Rightarrow> (pyobj option, 'f) mres"
  w_complex_op :: "binop \<Rightarrow> 'f \<Rightarrow> 'f \<Rightarrow> pyobj \<Rightarrow> 'f heap \<Rightarrow> (pyobj option, 'f) mres"
  w_repeatable :: "pyobj \<Rightarrow> bool"
  w_binary_slot :: "binop \<Rightarrow> pyobj \<Rightarrow> pyobj \<Rightarrow> 'f heap \<Rightarrow> (pyobj option, 'f) mres"
  w_eq_flags :: "pyobj \<Rightarrow> bool \<times> bool \<times> bool"
  w_same_type :: "pyobj \<Rightarrow> pyobj \<Rightarrow> bool"
  w_is_str :: "pyobj \<Rightarrow> bool"
  w_str_equal :: "pyobj \<Rightarrow> pyobj \<Rightarrow> 'f heap \<Rightarrow> bool"
  w_is_true :: "pyobj \<Rightarrow> 'f heap \<Rightarrow> bool"
  w_unary_other :: "unop \<Rightarrow> pyobj \<Rightarrow> 'f heap \<Rightarrow> (pyobj option, 'f) mres"
  w_exception_match :: "pyobj \<Rightarrow> pyobj \<Rightarrow> 'f heap \<Rightarrow> (pyobj option, 'f) mres"
  w_contains :: "pyobj \<Rightarrow> pyobj \<Rightarrow> 'f heap \<Rightarrow> (pyobj option, 'f) mres"

definition MP_OBJ_NEW_SMALL_INT :: "int \<Rightarrow> pyobj" where
  "MP_OBJ_NEW_SMALL_INT n = SmallInt (small_wrap n)"

section \<open>Making integers\<close>

definition mp_obj_int_new_mpz :: "'f heap \<Rightarrow> nat \<times> 'f heap" where
  "mp_obj_int_new_mpz h =
     (h_next h, h\<lparr>h_next := Suc (h_next h), h_mpz := (h_mpz h)(Obj (h_next h) := mpz_init_zero)\<rparr>)"

text \<open>Running a function of the number library on the numbers of the heap.\<close>

definition with_mpz :: "'f heap \<Rightarrow> (zstore \<Rightarrow> zstore option) \<Rightarrow> 'f heap option" where
  "with_mpz h f = map_option (\<lambda>st. h\<lparr>h_mpz := st\<rparr>) (f (h_mpz h))"

definition mp_obj_new_int_from_ll :: "int \<Rightarrow> 'f heap \<Rightarrow> (pyobj, 'f) mres" where
  "mp_obj_new_int_from_ll val h = do {
     let (o', h) = mp_obj_int_new_mpz h;
     h \<leftarrow> with_mpz h (\<lambda>st. mpz_set_from_ll st (Obj o') val True);
     ret (IntRef o') h
   }"

definition mp_obj_new_int_from_ull :: "int \<Rightarrow> 'f heap \<Rightarrow> (pyobj, 'f) mres" where
  "mp_obj_new_int_from_ull val h = do {
     let (o', h) = mp_obj_int_new_mpz h;
     h \<leftarrow> with_mpz h (\<lambda>st. mpz_set_from_ll st (Obj o') val False);
     ret (IntRef o') h
   }"

definition mp_obj_new_int :: "int \<Rightarrow> 'f heap \<Rightarrow> (pyobj, 'f) mres" where
  "mp_obj_new_int value h =
     (if MP_SMALL_INT_FITS value then ret (MP_OBJ_NEW_SMALL_INT value) h else mp_obj_new_int_from_ll value h)"

definition mp_obj_new_int_from_uint :: "int \<Rightarrow> 'f heap \<Rightarrow> (pyobj, 'f) mres" where
  "mp_obj_new_int_from_uint value h =
     (if value AND 0xC0000000 = 0 then ret (MP_OBJ_NEW_SMALL_INT value) h else mp_obj_new_int_from_ull value h)"

definition mp_obj_new_int_from_str_len :: "bytes \<Rightarrow> bool \<Rightarrow> int \<Rightarrow> 'f heap \<Rightarrow> (pyobj \<times> nat, 'f) mres" where
  "mp_obj_new_int_from_str_len str neg base h = do {
     let (o', h) = mp_obj_int_new_mpz h;
     (st, n) \<leftarrow> mpz_set_from_str (h_mpz h) (Obj o') str neg base;
     ret (IntRef o', n) (h\<lparr>h_mpz := st\<rparr>)
   }"

definition mp_obj_int_from_bytes_impl :: "bool \<Rightarrow> int list \<Rightarrow> 'f heap \<Rightarrow> (pyobj, 'f) mres" where
  "mp_obj_int_from_bytes_impl big_endian buf h = do {
     let (o', h) = mp_obj_int_new_mpz h;
     h \<leftarrow> with_mpz h (\<lambda>st. mpz_set_from_bytes st (Obj o') big_endian buf);
     ret (IntRef o') h
   }"

section \<open>Reading integers\<close>

definition mp_obj_int_to_bytes_impl :: "'f heap \<Rightarrow> nat \<Rightarrow> bool \<Rightarrow> nat \<Rightarrow> int list \<times> bool" where
  "mp_obj_int_to_bytes_impl h self big_endian len =
     (let z = h_mpz h (Obj self) in mpz_as_bytes z big_endian (z_neg z) len)"

definition mp_obj_int_sign :: "'f heap \<Rightarrow> pyobj \<Rightarrow> int option" where
  "mp_obj_int_sign h self_in =
     (case self_in of
        SmallInt val \<Rightarrow> Some (if val < 0 then -1 else if val > 0 then 1 else 0)
      | IntRef a \<Rightarrow> (let self = h_mpz h (Obj a) in
          Some (if z_len self = 0 then 0 else if \<not> z_neg self then 1 else -1))
      | _ \<Rightarrow> None)"

definition mp_obj_int_get_truncated :: "'f heap \<Rightarrow> pyobj \<Rightarrow> int option" where
  "mp_obj_int_get_truncated h self_in =
     (case self_in of
        SmallInt val \<Rightarrow> Some val
      | IntRef a \<Rightarrow> Some (mpz_hash (h_mpz h (Obj a)))
      | _ \<Rightarrow> None)"

definition mp_obj_int_get_checked :: "'f heap \<Rightarrow> pyobj \<Rightarrow> (int, 'f) mres" where
  "mp_obj_int_get_checked h self_in =
     (case self_in of
        SmallInt val \<Rightarrow> ret val h
      | IntRef a \<Rightarrow> (case mpz_as_int_checked (h_mpz h (Obj a)) of
          Some value \<Rightarrow> ret value h
        | None \<Rightarrow> raise OverflowError)
      | _ \<Rightarrow> None)"

definition mp_obj_int_get_uint_checked :: "'f heap \<Rightarrow> pyobj \<Rightarrow> (int, 'f) mres" where
  "mp_obj_int_get_uint_checked h self_in =
     (case self_in of
        SmallInt val \<Rightarrow> if val \<ge> 0 then ret val h else raise OverflowError
      | IntRef a \<Rightarrow> (case mpz_as_uint_checked (h_mpz h (Obj a)) of
          Some value \<Rightarrow> ret value h
        | None \<Rightarrow> raise OverflowError)
      | _ \<Rightarrow> None)"

text \<open>Horner's rule in floating point, from the leading digit.\<close>

definition mpz_as_float :: "'f fpops \<Rightarrow> mpz \<Rightarrow> 'f" where
  "mpz_as_float fp i =
     (let val = foldl (\<lambda>val d. f_add fp (f_mul fp val (f_of_int fp DIG_BASE)) (f_of_int fp d)) (f_of_int fp 0) (rev (z_dig i)) in
      if z_neg i then f_neg fp val else val)"

text \<open>The text of an integer, small or not, in a buffer of the size asked for.\<close>

definition mp_obj_int_formatted_impl :: "'f heap \<Rightarrow> nat \<Rightarrow> int \<Rightarrow> bytes option \<Rightarrow> char \<Rightarrow> char \<Rightarrow> bytes option" where
  "mp_obj_int_formatted_impl h self base prefix base_char comma = do {
     let z = h_mpz h (Obj self);
     needed_size \<leftarrow> mp_int_format_size (mpz_max_num_bits z) base prefix comma;
     str \<leftarrow> mpz_as_str_inpl z base prefix base_char comma;
     if length str + 1 \<le> needed_size then Some str else None
   }"

definition int_formatted :: "'f heap \<Rightarrow> pyobj \<Rightarrow> int \<Rightarrow> bytes option \<Rightarrow> char \<Rightarrow> char \<Rightarrow> bytes option" where
  "int_formatted h self_in base prefix base_char comma =
     (case self_in of
        SmallInt num \<Rightarrow> mp_obj_int_formatted num base prefix base_char comma
      | IntRef a \<Rightarrow> mp_obj_int_formatted_impl h a base prefix base_char comma
      | _ \<Rightarrow> None)"

definition mp_obj_int_print :: "'f heap \<Rightarrow> pyobj \<Rightarrow> bytes option" where
  "mp_obj_int_print h self_in = int_formatted h self_in 10 None NUL NUL"

section \<open>Operators\<close>

definition mp_obj_new_float :: "'f \<Rightarrow> 'f heap \<Rightarrow> (pyobj option, 'f) mres" where
  "mp_obj_new_float v h =
     ret (Some (FloatRef (h_next h))) (h\<lparr>h_next := Suc (h_next h), h_float := (h_float h)(h_next h := v)\<rparr>)"

definition mp_obj_new_tuple :: "pyobj list \<Rightarrow> 'f heap \<Rightarrow> (pyobj option, 'f) mres" where
  "mp_obj_new_tuple vs h =
     ret (Some (TupleRef (h_next h))) (h\<lparr>h_next := Suc (h_next h), h_tuple := (h_tuple h)(h_next h := vs)\<rparr>)"

text \<open>A new number computed from an existing one.\<close>

definition new_from :: "(zstore \<Rightarrow> zaddr \<Rightarrow> zstore option) \<Rightarrow> 'f heap \<Rightarrow> (pyobj option, 'f) mres" where
  "new_from f h = do {
     let (o2, h) = mp_obj_int_new_mpz h;
     h \<leftarrow> with_mpz h (\<lambda>st. f st (Obj o2));
     ret (Some (IntRef o2)) h
   }"

definition mp_obj_int_unary_op :: "unop \<Rightarrow> nat \<Rightarrow> 'f heap \<Rightarrow> (pyobj option, 'f) mres" where
  "mp_obj_int_unary_op op a h =
     (let z = h_mpz h (Obj a) in
      case op of
        BOOL_OP \<Rightarrow> ret (Some (BoolObj (\<not> mpz_is_zero z))) h
      | HASH \<Rightarrow> ret (Some (MP_OBJ_NEW_SMALL_INT (mpz_hash z))) h
      | POSITIVE \<Rightarrow> ret (Some (IntRef a)) h
      | NEGATIVE \<Rightarrow> new_from (\<lambda>st d. mpz_neg_inpl st d (Obj a)) h
      | INVERT \<Rightarrow> new_from (\<lambda>st d. mpz_not_inpl st d (Obj a)) h
      | ABS_OP \<Rightarrow> if \<not> z_neg z then ret (Some (IntRef a)) h else new_from (\<lambda>st d. mpz_abs_inpl st d (Obj a)) h
      | INT_MAYBE \<Rightarrow> ret (Some (IntRef a)) h
      | _ \<Rightarrow> ret None h)"

text \<open>
  The operands of a binary operator.  A small one is put in \<open>z_int\<close>, of which there is only
  one; it lives on the stack with its digits.
\<close>

abbreviation (input) z_int :: zaddr where
  "z_int \<equiv> Loc 3"

abbreviation (input) z_tmp :: zaddr where
  "z_tmp \<equiv> Loc 4"

definition int_operand :: "'f heap \<Rightarrow> pyobj \<Rightarrow> ('f heap \<times> zaddr) option" where
  "int_operand h o_in =
     (case o_in of
        SmallInt v \<Rightarrow> map_option (\<lambda>h. (h, z_int)) (with_mpz h (\<lambda>st. mpz_init_fixed_from_int st z_int MPZ_NUM_DIG_FOR_INT v))
      | IntRef a \<Rightarrow> Some (h, Obj a)
      | _ \<Rightarrow> None)"

definition mp_obj_int_binary_op_extra_cases ::
  "'f world \<Rightarrow> (binop \<Rightarrow> pyobj \<Rightarrow> pyobj \<Rightarrow> 'f heap \<Rightarrow> (pyobj option, 'f) mres) \<Rightarrow> binop \<Rightarrow> pyobj \<Rightarrow> pyobj \<Rightarrow> 'f heap \<Rightarrow> (pyobj option, 'f) mres" where
  "mp_obj_int_binary_op_extra_cases w mp_binary_op op lhs_in rhs_in h =
     (if rhs_in = BoolObj False then mp_binary_op op lhs_in (MP_OBJ_NEW_SMALL_INT 0) h
      else if rhs_in = BoolObj True then mp_binary_op op lhs_in (MP_OBJ_NEW_SMALL_INT 1) h
      else if op = NORMAL MULTIPLY \<and> w_repeatable w rhs_in then mp_binary_op op rhs_in lhs_in h
      else ret None h)"

text \<open>The arithmetic operators, as functions that fill a new number or leave some other way.\<close>

datatype ('f) int_step =
    Fill "zstore \<Rightarrow> zaddr \<Rightarrow> zstore option"
  | Leave "(pyobj option, 'f) mres"

definition int_arith_op ::
  "'f world \<Rightarrow> binop \<Rightarrow> arith \<Rightarrow> zaddr \<Rightarrow> zaddr \<Rightarrow> pyobj \<Rightarrow> 'f heap \<Rightarrow> 'f int_step" where
  "int_arith_op w op a zlhs zrhs rhs_in h =
     (let st = h_mpz h;
          shift = (\<lambda>f. case mp_obj_int_get_checked h rhs_in of
                       None \<Rightarrow> Leave None
                     | Some (Inl e) \<Rightarrow> Leave (raise e)
                     | Some (Inr (irhs, h)) \<Rightarrow> if irhs < 0 then Leave (raise ValueError) else Fill (f (nat irhs)))
      in case a of
        ADD \<Rightarrow> Fill (\<lambda>st res. mpz_add_inpl st res zlhs zrhs)
      | SUBTRACT \<Rightarrow> Fill (\<lambda>st res. mpz_sub_inpl st res zlhs zrhs)
      | MULTIPLY \<Rightarrow> Fill (\<lambda>st res. mpz_mul_inpl st res zlhs zrhs)
      | FLOOR_DIVIDE \<Rightarrow>
          if mpz_is_zero (st zrhs) then Leave (raise ZeroDivisionError)
          else Fill (\<lambda>st res. mpz_divmod_inpl (st(z_tmp := mpz_init_zero)) res z_tmp zlhs zrhs)
      | MODULO \<Rightarrow>
          if mpz_is_zero (st zrhs) then Leave (raise ZeroDivisionError)
          else Fill (\<lambda>st res. mpz_divmod_inpl (st(z_tmp := mpz_init_zero)) z_tmp res zlhs zrhs)
      | ANDop \<Rightarrow> Fill (\<lambda>st res. mpz_and_inpl st res zlhs zrhs)
      | ORop \<Rightarrow> Fill (\<lambda>st res. mpz_or_inpl st res zlhs zrhs)
      | XORop \<Rightarrow> Fill (\<lambda>st res. mpz_xor_inpl st res zlhs zrhs)
      | LSHIFT \<Rightarrow> shift (\<lambda>n st res. mpz_shl_inpl st res zlhs n)
      | RSHIFT \<Rightarrow> shift (\<lambda>n st res. mpz_shr_inpl st res zlhs n)
      | POWER \<Rightarrow>
          if mpz_is_neg (st zrhs) then Leave (w_float_op w op (mpz_as_float (w_fp w) (st zlhs)) rhs_in h)
          else Fill (\<lambda>st res. mpz_pow_inpl st res zlhs zrhs)
      | _ \<Rightarrow> Leave (ret None h))"

text \<open>A result that fits is returned as a small integer.\<close>

definition int_result :: "'f heap \<Rightarrow> nat \<Rightarrow> (pyobj option, 'f) mres" where
  "int_result h res =
     (case mpz_as_int_checked (h_mpz h (Obj res)) of
        Some res_small \<Rightarrow>
          if MP_SMALL_INT_FITS res_small then ret (Some (MP_OBJ_NEW_SMALL_INT res_small)) h else ret (Some (IntRef res)) h
      | None \<Rightarrow> ret (Some (IntRef res)) h)"

definition int_compare :: "binop \<Rightarrow> int \<Rightarrow> pyobj option" where
  "int_compare op cmp =
     (case op of
        LESS \<Rightarrow> Some (BoolObj (cmp < 0))
      | MORE \<Rightarrow> Some (BoolObj (cmp > 0))
      | LESS_EQUAL \<Rightarrow> Some (BoolObj (cmp \<le> 0))
      | MORE_EQUAL \<Rightarrow> Some (BoolObj (cmp \<ge> 0))
      | EQUAL \<Rightarrow> Some (BoolObj (cmp = 0))
      | _ \<Rightarrow> None)"

definition arith_of :: "binop \<Rightarrow> arith option" where
  "arith_of op = (case op of NORMAL a \<Rightarrow> Some a | INPLACE a \<Rightarrow> Some a | _ \<Rightarrow> None)"

definition mp_obj_int_binary_op ::
  "'f world \<Rightarrow> (binop \<Rightarrow> pyobj \<Rightarrow> pyobj \<Rightarrow> 'f heap \<Rightarrow> (pyobj option, 'f) mres) \<Rightarrow> binop \<Rightarrow> pyobj \<Rightarrow> pyobj \<Rightarrow> 'f heap \<Rightarrow> (pyobj option, 'f) mres" where
  "mp_obj_int_binary_op w mp_binary_op op lhs_in rhs_in h = do {
     (h, zlhs) \<leftarrow> int_operand h lhs_in;
     case rhs_in of
       FloatRef _ \<Rightarrow> w_float_op w op (mpz_as_float (w_fp w) (h_mpz h zlhs)) rhs_in h
     | ComplexRef _ \<Rightarrow> w_complex_op w op (mpz_as_float (w_fp w) (h_mpz h zlhs)) (f_of_int (w_fp w) 0) rhs_in h
     | BoolObj _ \<Rightarrow> mp_obj_int_binary_op_extra_cases w mp_binary_op op lhs_in rhs_in h
     | TupleRef _ \<Rightarrow> mp_obj_int_binary_op_extra_cases w mp_binary_op op lhs_in rhs_in h
     | OtherRef _ \<Rightarrow> mp_obj_int_binary_op_extra_cases w mp_binary_op op lhs_in rhs_in h
     | _ \<Rightarrow> do {
         (h, zrhs) \<leftarrow> int_operand h rhs_in;
         let st = h_mpz h;
         if arith_of op = Some TRUE_DIVIDE then
           (if mpz_is_zero (st zrhs) then raise ZeroDivisionError
            else mp_obj_new_float (f_div (w_fp w) (mpz_as_float (w_fp w) (st zlhs)) (mpz_as_float (w_fp w) (st zrhs))) h)
         else
           case arith_of op of
             Some a \<Rightarrow> do {
               let (res, h) = mp_obj_int_new_mpz h;
               case int_arith_op w op a zlhs zrhs rhs_in h of
                 Leave r \<Rightarrow> r
               | Fill f \<Rightarrow> do { h \<leftarrow> with_mpz h (\<lambda>st. f st (Obj res)); int_result h res }
             }
           | None \<Rightarrow>
               if op = DIVMOD then do {
                 let (res, h) = mp_obj_int_new_mpz h;
                 if mpz_is_zero (h_mpz h zrhs) then raise ZeroDivisionError
                 else do {
                   let (quo, h) = mp_obj_int_new_mpz h;
                   h \<leftarrow> with_mpz h (\<lambda>st. mpz_divmod_inpl st (Obj quo) (Obj res) zlhs zrhs);
                   mp_obj_new_tuple [IntRef quo, IntRef res] h
                 }
               } else ret (int_compare op (mpz_cmp (st zlhs) (st zrhs))) h
       }
   }"

section \<open>Values and well-formed integers\<close>

fun ival :: "'f heap \<Rightarrow> pyobj \<Rightarrow> int" where
  "ival h (SmallInt v) = v"
| "ival h (IntRef a) = zval (h_mpz h (Obj a))"
| "ival h _ = 0"

fun int_ok :: "'f heap \<Rightarrow> pyobj \<Rightarrow> bool" where
  "int_ok h (SmallInt v) = small v"
| "int_ok h (IntRef a) = (a < h_next h \<and> mpz_ok (h_mpz h (Obj a)))"
| "int_ok h _ = False"

text \<open>A later heap: new objects may have been made, the existing ones are as they were.\<close>

definition extends :: "'f heap \<Rightarrow> 'f heap \<Rightarrow> bool" where
  "extends h h' \<longleftrightarrow> h_next h \<le> h_next h'
     \<and> (\<forall>a < h_next h. h_mpz h' (Obj a) = h_mpz h (Obj a) \<and> h_float h' a = h_float h a \<and> h_tuple h' a = h_tuple h a)"

lemma extends_refl [simp]: "extends h h"
  by (simp add: extends_def)

lemma extends_trans: "extends h h' \<Longrightarrow> extends h' h'' \<Longrightarrow> extends h h''"
  by (auto simp: extends_def)

lemma extends_ival: "extends h h' \<Longrightarrow> int_ok h x \<Longrightarrow> ival h' x = ival h x"
  by (cases x) (auto simp: extends_def)

lemma extends_int_ok: "extends h h' \<Longrightarrow> int_ok h x \<Longrightarrow> int_ok h' x"
  by (cases x) (auto simp: extends_def)

text \<open>A new heap that differs from the old only in numbers on the stack.\<close>

definition same_objects :: "'f heap \<Rightarrow> 'f heap \<Rightarrow> bool" where
  "same_objects h h' \<longleftrightarrow> (\<exists>st. h' = h\<lparr>h_mpz := st\<rparr> \<and> (\<forall>a. st (Obj a) = h_mpz h (Obj a)))"

lemma same_objects_extends: "same_objects h h' \<Longrightarrow> extends h h'"
  by (auto simp: same_objects_def extends_def)

lemma init_fixed_spec:
  assumes "- (2 ^ 31) \<le> v" "v < 2 ^ 31"
  obtains z where "mpz_init_fixed_from_int st d 2 v = Some (st(d := z))" "mpz_ok z" "zval z = v"
proof (cases "v = 0")
  case True
  then show thesis
    by (intro that [of "\<lparr>z_neg = False, z_fixed = True, z_alloc = 2, z_dig = []\<rparr>"])
      (simp_all add: mpz_init_fixed_from_int_def mpz_set_from_int_def mpz_ok_def normd_def zval_def sval_def)
next
  case False
  define u where "u = \<bar>v\<bar>"
  have u: "0 < u" "u < DIG_BASE ^ 2" using False assms by (auto simp: u_def)
  define w where "w = uint_digits u"
  have w: "digs w" "normd w" "dval w = u" "length w \<le> 2" using uint_digits_spec [of u 2] u by (auto simp: w_def)
  have "(if v < 0 then (True, u32 (- v)) else (False, v)) = (v < 0, u)" using u False by (auto simp: u_def intro!: u32_id)
  moreover have "sval (v < 0) u = v" by (simp add: sval_def u_def)
  ultimately show thesis using False w u
    by (intro that [of "\<lparr>z_neg = v < 0, z_fixed = True, z_alloc = 2, z_dig = w\<rparr>"])
      (auto simp: mpz_init_fixed_from_int_def mpz_set_from_int_def mpz_need_dig_def put_dig_def set_neg_def Let_def w_def [symmetric]
        mpz_ok_def zval_def)
qed

lemma int_operand_spec:
  assumes "int_ok h x"
  obtains h' z where "int_operand h x = Some (h', z)" "same_objects h h'" "mpz_ok (h_mpz h' z)" "zval (h_mpz h' z) = ival h x"
    "\<forall>y. y \<noteq> z_int \<longrightarrow> h_mpz h' y = h_mpz h y" "z = z_int \<or> (\<exists>a < h_next h. z = Obj a \<and> x = IntRef a)" "z = z_int \<longleftrightarrow> (\<exists>v. x = SmallInt v)"
proof (cases x)
  case (SmallInt v)
  obtain z where z: "mpz_init_fixed_from_int (h_mpz h) z_int 2 v = Some ((h_mpz h)(z_int := z))" "mpz_ok z" "zval z = v"
    by (rule init_fixed_spec [of v "h_mpz h" z_int]) (use assms SmallInt in \<open>auto simp: small_def\<close>)
  show thesis
    by (rule that [of "h\<lparr>h_mpz := (h_mpz h)(z_int := z)\<rparr>" z_int])
      (use SmallInt z in \<open>auto simp: int_operand_def with_mpz_def same_objects_def\<close>)
next
  case (IntRef a)
  then show thesis using assms by (intro that [of h "Obj a"]) (auto simp: int_operand_def same_objects_def intro!: exI [of _ "h_mpz h"])
qed (use assms in auto)

section \<open>Arithmetic operators\<close>

text \<open>
  What Python asks of an operator on two integers, where the answer is an integer or an exception: a
  quotient by a number other than zero and a negative power are floats and not given here.
\<close>

fun py_arith :: "arith \<Rightarrow> int \<Rightarrow> int \<Rightarrow> exn + int" where
  "py_arith ADD l r = Inr (l + r)"
| "py_arith SUBTRACT l r = Inr (l - r)"
| "py_arith MULTIPLY l r = Inr (l * r)"
| "py_arith FLOOR_DIVIDE l r = (if r = 0 then Inl ZeroDivisionError else Inr (l div r))"
| "py_arith MODULO l r = (if r = 0 then Inl ZeroDivisionError else Inr (l mod r))"
| "py_arith ANDop l r = Inr (l AND r)"
| "py_arith ORop l r = Inr (l OR r)"
| "py_arith XORop l r = Inr (l XOR r)"
| "py_arith LSHIFT l r = (if r < 0 then Inl ValueError else Inr (l * 2 ^ nat r))"
| "py_arith RSHIFT l r = (if r < 0 then Inl ValueError else Inr (l div 2 ^ nat r))"
| "py_arith POWER l r = Inr (l ^ nat r)"
| "py_arith TRUE_DIVIDE l r = Inl ZeroDivisionError"
| "py_arith MAT_MULTIPLY l r = Inl TypeError"

definition fills :: "(zstore \<Rightarrow> zaddr \<Rightarrow> zstore option) \<Rightarrow> zstore \<Rightarrow> zaddr \<Rightarrow> int \<Rightarrow> bool" where
  "fills f st d v \<longleftrightarrow> (\<exists>st'. f st d = Some st' \<and> mpz_ok (st' d) \<and> zval (st' d) = v \<and> (\<forall>a. Obj a \<noteq> d \<longrightarrow> st' (Obj a) = st (Obj a)))"

lemma becomes_fills: "f st d = Some st' \<Longrightarrow> becomes st d v st' \<Longrightarrow> fills f st d v"
  unfolding fills_def by (blast dest: becomesD)

lemma divmod_fills:
  assumes "divmod_store st dq q dr r st'" "\<And>a. st (Obj a) = st0 (Obj a)"
  shows "f st0 dq = Some st' \<Longrightarrow> (\<And>a. dr \<noteq> Obj a) \<Longrightarrow> fills f st0 dq q"
    "f st0 dr = Some st' \<Longrightarrow> (\<And>a. dq \<noteq> Obj a) \<Longrightarrow> fills f st0 dr r"
  using assms unfolding divmod_store_def fills_def by (metis zaddr.distinct(1))+

lemma get_checked_spec:
  assumes "int_ok h x"
  shows "mp_obj_int_get_checked h x = (if \<bar>ival h x\<bar> < 2 ^ 31 then ret (ival h x) h else raise OverflowError)"
  using assms by (cases x) (auto simp: mp_obj_int_get_checked_def mpz_as_int_checked_spec small_def)

text \<open>Where the operands of an operator can be: in objects other than the result, or in the number on the stack.\<close>

definition operands :: "zstore \<Rightarrow> zaddr \<Rightarrow> zaddr \<Rightarrow> zaddr \<Rightarrow> bool" where
  "operands st d l r \<longleftrightarrow> mpz_ok (st l) \<and> mpz_ok (st r) \<and> \<not> z_fixed (st d) \<and> (\<exists>n. d = Obj n) \<and> d \<noteq> l \<and> d \<noteq> r
     \<and> (l = z_int \<or> (\<exists>a. l = Obj a)) \<and> (r = z_int \<or> (\<exists>a. r = Obj a))"

lemma operandsD:
  assumes "operands st d l r"
  shows "mpz_ok (st l)" "mpz_ok (st r)" "\<not> z_fixed (st d)" "d \<noteq> l" "d \<noteq> r" "l \<noteq> d" "r \<noteq> d"
    "k \<noteq> 3 \<Longrightarrow> l \<noteq> Loc k" "k \<noteq> 3 \<Longrightarrow> r \<noteq> Loc k" "d \<noteq> Loc k" "Loc k \<noteq> d"
  using assms by (auto simp: operands_def)

lemma arith_fills:
  assumes "operands st d l r"
  shows "fills (\<lambda>st d. mpz_add_inpl st d l r) st d (zval (st l) + zval (st r))"
    "fills (\<lambda>st d. mpz_sub_inpl st d l r) st d (zval (st l) - zval (st r))"
    "fills (\<lambda>st d. mpz_mul_inpl st d l r) st d (zval (st l) * zval (st r))"
    "fills (\<lambda>st d. mpz_and_inpl st d l r) st d (zval (st l) AND zval (st r))"
    "fills (\<lambda>st d. mpz_or_inpl st d l r) st d (zval (st l) OR zval (st r))"
    "fills (\<lambda>st d. mpz_xor_inpl st d l r) st d (zval (st l) XOR zval (st r))"
    "n < 2 ^ 32 - 15 \<Longrightarrow> fills (\<lambda>st d. mpz_shl_inpl st d l n) st d (zval (st l) * 2 ^ n)"
    "fills (\<lambda>st d. mpz_shr_inpl st d l n) st d (zval (st l) div 2 ^ n)"
  by ((rule mpz_add_inpl_spec [of st l r d, OF operandsD(1-3) [OF assms]] mpz_sub_inpl_spec [of st l r d, OF operandsD(1-3) [OF assms]]
        mpz_mul_inpl_spec [of st l r d, OF operandsD(1-3) [OF assms]] mpz_and_inpl_spec [of st l r d, OF operandsD(1-3) [OF assms]]
        mpz_or_inpl_spec [of st l r d, OF operandsD(1-3) [OF assms]] mpz_xor_inpl_spec [of st l r d, OF operandsD(1-3) [OF assms]]
        mpz_shl_inpl_spec [of st l d n, OF operandsD(1,3) [OF assms]] mpz_shr_inpl_spec [of st l d n, OF operandsD(1,3) [OF assms] disjI1 [OF operandsD(4) [OF assms]]],
      (assumption | (rule becomes_fills, assumption, assumption))+))+

lemma divmod_fills_op:
  assumes "operands st d l r" "zval (st r) \<noteq> 0"
  shows "fills (\<lambda>st d. mpz_divmod_inpl (st(z_tmp := mpz_init_zero)) d z_tmp l r) st d (zval (st l) div zval (st r))"
    "fills (\<lambda>st d. mpz_divmod_inpl (st(z_tmp := mpz_init_zero)) z_tmp d l r) st d (zval (st l) mod zval (st r))"
proof -
  note o = operandsD [OF assms(1)]
  define s where "s = st(z_tmp := mpz_init_zero)"
  have s: "s l = st l" "s r = st r" "s d = st d" "\<not> z_fixed (s z_tmp)" "\<And>a. s (Obj a) = st (Obj a)"
    using assms(1) by (auto simp: s_def mpz_init_zero_def operands_def)
  have al: "d \<noteq> z_tmp" "z_tmp \<noteq> d" "z_tmp \<noteq> l" "z_tmp \<noteq> r" "Loc 0 \<notin> {d, z_tmp, l, r}" "Loc 0 \<notin> {z_tmp, d, l, r}"
    using assms(1) by (auto simp: operands_def)
  obtain st' q where 1: "mpz_divmod_inpl s d z_tmp l r = Some st'" "divmod_store s d q z_tmp (zval (s l) mod zval (s r)) st'"
      "z_tmp \<noteq> l \<Longrightarrow> q = zval (s l) div zval (s r)"
    by (rule mpz_divmod_inpl_spec [of s l r d z_tmp]) (use o(1-7) al s assms(2) in auto)
  then have "q = zval (st l) div zval (st r)" using al s by auto
  with divmod_fills(1) [OF 1(2), of st] 1(1) s(5)
  show "fills (\<lambda>st d. mpz_divmod_inpl (st(z_tmp := mpz_init_zero)) d z_tmp l r) st d (zval (st l) div zval (st r))"
    by (simp add: s_def)
  obtain st' q where 2: "mpz_divmod_inpl s z_tmp d l r = Some st'" "divmod_store s z_tmp q d (zval (s l) mod zval (s r)) st'"
    by (rule mpz_divmod_inpl_spec [of s l r z_tmp d]) (use o(1-7) al s assms(2) in auto)
  with divmod_fills(2) [OF 2(2), of st] s
  show "fills (\<lambda>st d. mpz_divmod_inpl (st(z_tmp := mpz_init_zero)) z_tmp d l r) st d (zval (st l) mod zval (st r))"
    by (simp add: s_def)
qed

lemma pow_fills:
  assumes "operands st d l r" "0 \<le> zval (st r)" "zval (st l) \<noteq> 0 \<or> zval (st r) \<noteq> 0"
  shows "fills (\<lambda>st d. mpz_pow_inpl st d l r) st d (zval (st l) ^ nat (zval (st r)))"
proof (cases "zval (st l) = 0")
  case True
  note o = operandsD [OF assms(1)]
  obtain st' where "mpz_set_from_int st d 0 = Some st'" "becomes st d 0 st'"
    by (rule mpz_set_from_int_spec [of st d 0, OF o(3)]) auto
  moreover have "z_dig (st l) = []" using True zval_zero [OF o(1)] by simp
  ultimately show ?thesis using True assms(2,3) by (intro becomes_fills [of _ _ _ st']) (auto simp: mpz_pow_inpl_def zero_power)
next
  case False
  note o = operandsD [OF assms(1)]
  obtain st' where "mpz_pow_inpl st d l r = Some st'" "mpz_ok (st' d)" "zval (st' d) = zval (st l) ^ nat (zval (st r))"
      "\<forall>x. x \<noteq> d \<longrightarrow> x \<noteq> Loc 1 \<longrightarrow> st' x = st x"
    by (rule mpz_pow_inpl_spec [of st l r d, OF o(1-3) o(10) [of 1] assms(2) False]) (rule that)
  then show ?thesis unfolding fills_def by blast
qed

text \<open>
  The operators that are a number: not the division with a float result, not the matrix product, not a
  negative power, and no shift by a count that does not fit a machine word.
\<close>

definition int_case :: "arith \<Rightarrow> int \<Rightarrow> int \<Rightarrow> bool" where
  "int_case a l r \<longleftrightarrow> a \<noteq> TRUE_DIVIDE \<and> a \<noteq> MAT_MULTIPLY \<and> (a = POWER \<longrightarrow> 0 \<le> r) \<and> (a = LSHIFT \<or> a = RSHIFT \<longrightarrow> \<bar>r\<bar> < 2 ^ 31)"

lemma int_arith_op_spec:
  assumes op: "operands (h_mpz h) d l r" and x: "int_ok h x" "ival h x = zval (h_mpz h r)"
    and a: "int_case a (zval (h_mpz h l)) (zval (h_mpz h r))" "a = POWER \<longrightarrow> zval (h_mpz h l) \<noteq> 0 \<or> zval (h_mpz h r) \<noteq> 0"
  shows "case py_arith a (zval (h_mpz h l)) (zval (h_mpz h r)) of
      Inl e \<Rightarrow> int_arith_op w op' a l r x h = Leave (raise e)
    | Inr v \<Rightarrow> (\<exists>f. int_arith_op w op' a l r x h = Fill f \<and> fills f (h_mpz h) d v)"
proof -
  note o = operandsD [OF op]
  have z: "mpz_is_zero (h_mpz h r) \<longleftrightarrow> zval (h_mpz h r) = 0" using zval_zero [OF o(2)] by (simp add: mpz_is_zero_def)
  have n: "mpz_is_neg (h_mpz h r) \<longleftrightarrow> zval (h_mpz h r) < 0" using zval_neg [OF o(2)] by (simp add: mpz_is_neg_def)
  have c: "nat (zval (h_mpz h r)) < 2 ^ 32 - 15" if "\<bar>zval (h_mpz h r)\<bar> < 2 ^ 31" using that by simp
  show ?thesis
    using arith_fills [OF op] divmod_fills_op [OF op] pow_fills [OF op] a get_checked_spec [OF x(1)] c
    by (cases a) (auto simp: int_arith_op_def int_case_def z n x(2))
qed

lemma small_checked: "small v \<longleftrightarrow> \<bar>v\<bar> < 2 ^ 31 \<and> MP_SMALL_INT_FITS v"
  using MP_SMALL_INT_FITS_iff [of v] by (auto simp: small_def)

lemma int_result_spec:
  assumes "mpz_ok (h_mpz h (Obj res))" "zval (h_mpz h (Obj res)) = v"
  shows "int_result h res = ret (Some (if small v then SmallInt v else IntRef res)) h"
  using assms small_checked [of v] by (auto simp: int_result_def mpz_as_int_checked_spec MP_OBJ_NEW_SMALL_INT_def small_wrap_id)

lemma new_mpz_extends: "mp_obj_int_new_mpz h = (res, h') \<Longrightarrow> extends h h' \<and> res = h_next h \<and> h_next h' = Suc res"
  by (auto simp: mp_obj_int_new_mpz_def extends_def)

lemma both_operands:
  assumes "int_ok h lhs" "int_ok h rhs" "\<not> (\<exists>l r. lhs = SmallInt l \<and> rhs = SmallInt r)"
  obtains h1 h2 l r where "int_operand h lhs = Some (h1, l)" "int_operand h1 rhs = Some (h2, r)" "extends h h2"
    "mpz_ok (h_mpz h2 l)" "mpz_ok (h_mpz h2 r)" "zval (h_mpz h2 l) = ival h lhs" "zval (h_mpz h2 r) = ival h rhs"
    "h_next h2 = h_next h" "l = z_int \<or> (\<exists>a < h_next h. l = Obj a)" "r = z_int \<or> (\<exists>a < h_next h. r = Obj a)" "\<not> (l = z_int \<and> r = z_int)"
proof -
  obtain h1 l where 1: "int_operand h lhs = Some (h1, l)" "same_objects h h1" "mpz_ok (h_mpz h1 l)" "zval (h_mpz h1 l) = ival h lhs"
    "\<forall>y. y \<noteq> z_int \<longrightarrow> h_mpz h1 y = h_mpz h y" "l = z_int \<or> (\<exists>a < h_next h. l = Obj a \<and> lhs = IntRef a)" "l = z_int \<longleftrightarrow> (\<exists>v. lhs = SmallInt v)"
    by (rule int_operand_spec [OF assms(1)])
  note e1 = same_objects_extends [OF 1(2)]
  have n1: "h_next h1 = h_next h" using 1(2) by (auto simp: same_objects_def)
  obtain h2 r where 2: "int_operand h1 rhs = Some (h2, r)" "same_objects h1 h2" "mpz_ok (h_mpz h2 r)" "zval (h_mpz h2 r) = ival h1 rhs"
    "\<forall>y. y \<noteq> z_int \<longrightarrow> h_mpz h2 y = h_mpz h1 y" "r = z_int \<or> (\<exists>a < h_next h1. r = Obj a \<and> rhs = IntRef a)" "r = z_int \<longleftrightarrow> (\<exists>v. rhs = SmallInt v)"
    by (rule int_operand_spec [OF extends_int_ok [OF e1 assms(2)]])
  have n: "\<not> (l = z_int \<and> r = z_int)" using 1(7) 2(7) assms(3) by blast
  have same: "h_mpz h2 l = h_mpz h1 l"
  proof (cases "l = z_int")
    case True
    then obtain a where "rhs = IntRef a" using n 2(6) by auto
    then show ?thesis using 2(1) by (auto simp: int_operand_def)
  qed (use 2(5) in auto)
  show thesis
    by (rule that [OF 1(1) 2(1) extends_trans [OF e1 same_objects_extends [OF 2(2)]]])
      (use 1 2 n same n1 e1 assms in \<open>auto simp: same_objects_def extends_ival\<close>)
qed

lemma new_result:
  assumes "mp_obj_int_new_mpz h2 = (res, h3)" "extends h h2" "h_next h2 = h_next h" and
    "mpz_ok (h_mpz h2 l)" "mpz_ok (h_mpz h2 r)" "l = z_int \<or> (\<exists>a < h_next h. l = Obj a)" "r = z_int \<or> (\<exists>a < h_next h. r = Obj a)"
  shows "operands (h_mpz h3) (Obj res) l r" "h_mpz h3 l = h_mpz h2 l" "h_mpz h3 r = h_mpz h2 r" "extends h h3" "h_next h3 = Suc res" "res = h_next h"
  using assms by (auto simp: mp_obj_int_new_mpz_def operands_def mpz_init_zero_def extends_def)

definition int_answer :: "'f heap \<Rightarrow> exn + int \<Rightarrow> (pyobj option, 'f) mres \<Rightarrow> bool" where
  "int_answer h p m \<longleftrightarrow> (case p of
     Inl e \<Rightarrow> m = raise e
   | Inr v \<Rightarrow> (\<exists>x h'. m = ret (Some x) h' \<and> extends h h' \<and> int_ok h' x \<and> ival h' x = v \<and> (small v \<longleftrightarrow> x = SmallInt v)))"

lemma fill_answer:
  assumes "fills f (h_mpz h3) (Obj res) v" "extends h h3" "h_next h3 = Suc res" "res = h_next h"
  shows "int_answer h (Inr v) (do { h \<leftarrow> with_mpz h3 (\<lambda>st. f st (Obj res)); int_result h res })"
proof -
  obtain st' where st: "f (h_mpz h3) (Obj res) = Some st'" "mpz_ok (st' (Obj res))" "zval (st' (Obj res)) = v"
    "\<forall>a. Obj a \<noteq> Obj res \<longrightarrow> st' (Obj a) = h_mpz h3 (Obj a)" using assms(1) by (auto simp: fills_def)
  have "extends h (h3\<lparr>h_mpz := st'\<rparr>)" using assms(2-4) st(4) by (auto simp: extends_def)
  then show ?thesis using st assms(3) by (auto simp: int_answer_def with_mpz_def int_result_spec)
qed

lemma mp_obj_int_binary_op_arith:
  assumes ok: "int_ok h lhs" "int_ok h rhs" and ns: "\<not> (\<exists>l r. lhs = SmallInt l \<and> rhs = SmallInt r)"
    and op: "arith_of op = Some a" "int_case a (ival h lhs) (ival h rhs)" "a = POWER \<longrightarrow> ival h lhs \<noteq> 0 \<or> ival h rhs \<noteq> 0"
  shows "int_answer h (py_arith a (ival h lhs) (ival h rhs)) (mp_obj_int_binary_op w bop op lhs rhs h)"
proof -
  obtain h1 h2 l r where b: "int_operand h lhs = Some (h1, l)" "int_operand h1 rhs = Some (h2, r)" "extends h h2"
    "mpz_ok (h_mpz h2 l)" "mpz_ok (h_mpz h2 r)" "zval (h_mpz h2 l) = ival h lhs" "zval (h_mpz h2 r) = ival h rhs"
    "h_next h2 = h_next h" "l = z_int \<or> (\<exists>a < h_next h. l = Obj a)" "r = z_int \<or> (\<exists>a < h_next h. r = Obj a)"
    by (rule both_operands [OF ok ns])
  obtain res h3 where n: "mp_obj_int_new_mpz h2 = (res, h3)" by fastforce
  note nr = new_result [OF n b(3,8,4,5,9,10)]
  have run: "mp_obj_int_binary_op w bop op lhs rhs h =
      (case int_arith_op w op a l r rhs h3 of Leave m \<Rightarrow> m | Fill f \<Rightarrow> do { h \<leftarrow> with_mpz h3 (\<lambda>st. f st (Obj res)); int_result h res })"
    using ok(2) op(1,2) b(1,2) n by (cases rhs) (auto simp: mp_obj_int_binary_op_def int_case_def)
  have "ival h3 rhs = zval (h_mpz h3 r)" using extends_ival [OF nr(4) ok(2)] b(7) nr(3) by simp
  then have "case py_arith a (ival h lhs) (ival h rhs) of
      Inl e \<Rightarrow> int_arith_op w op a l r rhs h3 = Leave (raise e)
    | Inr v \<Rightarrow> (\<exists>f. int_arith_op w op a l r rhs h3 = Fill f \<and> fills f (h_mpz h3) (Obj res) v)"
    using int_arith_op_spec [OF nr(1) extends_int_ok [OF nr(4) ok(2)], of a w op] op(2,3) by (simp only: nr(2,3) b(6,7))
  then show ?thesis
    using fill_answer [OF _ nr(4-6)] by (auto simp: run int_answer_def split: sum.splits)
qed

text \<open>
  The operators that do not answer with the integer Python asks for.  A shift count beyond a
  machine word raises; zero to the zero is zero; the rest leaves the integers.  A float is computed from
  the digits of a number.
\<close>

definition wide_float :: "'f fpops \<Rightarrow> int \<Rightarrow> 'f" where
  "wide_float fp v = mpz_as_float fp \<lparr>z_neg = v < 0, z_fixed = False, z_alloc = 0, z_dig = uint_digits \<bar>v\<bar>\<rparr>"

lemma dval_inj: "digs xs \<Longrightarrow> normd xs \<Longrightarrow> digs ys \<Longrightarrow> normd ys \<Longrightarrow> dval xs = dval ys \<Longrightarrow> xs = ys"
proof (induction xs arbitrary: ys)
  case Nil
  then show ?case using dval_eq_0 [of ys] by simp
next
  case (Cons x xs)
  show ?case
  proof (cases ys)
    case Nil
    then show ?thesis using Cons.prems dval_eq_0 [of "x # xs"] by simp
  next
    case y: (Cons y ys')
    have d: "0 \<le> x" "x < DIG_BASE" "0 \<le> y" "y < DIG_BASE" "digs xs" "digs ys'" "normd xs" "normd ys'"
      using Cons.prems(1-4) y by (auto simp: digs_def normd_def split: if_splits)
    have e: "x + DIG_BASE * dval xs = y + DIG_BASE * dval ys'" using Cons.prems(5) y by simp
    then have "(x + DIG_BASE * dval xs) mod DIG_BASE = (y + DIG_BASE * dval ys') mod DIG_BASE" by simp
    then have "x = y" using d(1-4) by simp
    then show ?thesis using Cons.IH [OF d(5,7,6,8)] e y by simp
  qed
qed

lemma mpz_as_float_value:
  assumes "mpz_ok z"
  shows "mpz_as_float fp z = wide_float fp (zval z)"
proof -
  have nn: "0 \<le> dval (z_dig z)" using dval_nonneg [OF okD(2) [OF assms]] .
  have a: "\<bar>zval z\<bar> = dval (z_dig z)" using nn by (simp add: zval_def sval_def)
  have "digs (uint_digits \<bar>zval z\<bar>)" "normd (uint_digits \<bar>zval z\<bar>)" "dval (uint_digits \<bar>zval z\<bar>) = dval (z_dig z)"
    using uint_digits_spec [of "\<bar>zval z\<bar>" "z_len z"] dval_less [OF okD(2) [OF assms]] a by auto
  then have "uint_digits \<bar>zval z\<bar> = z_dig z" using dval_inj okD(2,3) [OF assms] by blast
  then show ?thesis using zval_neg [OF assms] by (simp add: wide_float_def mpz_as_float_def)
qed

lemma mp_obj_int_binary_op_other:
  assumes ok: "int_ok h lhs" "int_ok h rhs" and ns: "\<not> (\<exists>l r. lhs = SmallInt l \<and> rhs = SmallInt r)"
    and op: "arith_of op = Some a"
  shows "a = LSHIFT \<or> a = RSHIFT \<Longrightarrow> \<bar>ival h rhs\<bar> \<ge> 2 ^ 31 \<Longrightarrow> mp_obj_int_binary_op w bop op lhs rhs h = raise OverflowError"
    and "a = POWER \<Longrightarrow> ival h lhs = 0 \<Longrightarrow> ival h rhs = 0 \<Longrightarrow> int_answer h (Inr 0) (mp_obj_int_binary_op w bop op lhs rhs h)"
    and "a = POWER \<Longrightarrow> ival h rhs < 0 \<Longrightarrow>
      \<exists>h'. extends h h' \<and> mp_obj_int_binary_op w bop op lhs rhs h = w_float_op w op (wide_float (w_fp w) (ival h lhs)) rhs h'"
    and "a = TRUE_DIVIDE \<Longrightarrow> ival h rhs = 0 \<Longrightarrow> mp_obj_int_binary_op w bop op lhs rhs h = raise ZeroDivisionError"
    and "a = TRUE_DIVIDE \<Longrightarrow> ival h rhs \<noteq> 0 \<Longrightarrow> \<exists>h'. extends h h' \<and> mp_obj_int_binary_op w bop op lhs rhs h =
      mp_obj_new_float (f_div (w_fp w) (wide_float (w_fp w) (ival h lhs)) (wide_float (w_fp w) (ival h rhs))) h'"
    and "a = MAT_MULTIPLY \<Longrightarrow> \<exists>h'. extends h h' \<and> mp_obj_int_binary_op w bop op lhs rhs h = ret None h'"
proof -
  obtain h1 h2 l r where b: "int_operand h lhs = Some (h1, l)" "int_operand h1 rhs = Some (h2, r)" "extends h h2"
    "mpz_ok (h_mpz h2 l)" "mpz_ok (h_mpz h2 r)" "zval (h_mpz h2 l) = ival h lhs" "zval (h_mpz h2 r) = ival h rhs"
    "h_next h2 = h_next h" "l = z_int \<or> (\<exists>a < h_next h. l = Obj a)" "r = z_int \<or> (\<exists>a < h_next h. r = Obj a)"
    by (rule both_operands [OF ok ns])
  obtain res h3 where n: "mp_obj_int_new_mpz h2 = (res, h3)" by fastforce
  note nr = new_result [OF n b(3,8,4,5,9,10)]
  have v: "ival h3 rhs = ival h rhs" using extends_ival [OF nr(4) ok(2)] .
  note g = get_checked_spec [OF extends_int_ok [OF nr(4) ok(2)], unfolded v]
  have z: "mpz_is_zero (h_mpz h2 r) \<longleftrightarrow> ival h rhs = 0" using zval_zero [OF b(5)] b(7) by (simp add: mpz_is_zero_def)
  have neg: "mpz_is_neg (h_mpz h3 r) \<longleftrightarrow> ival h rhs < 0" using zval_neg [OF b(5)] b(7) nr(3) by (simp add: mpz_is_neg_def)
  have run: "mp_obj_int_binary_op w bop op lhs rhs h =
      (case int_arith_op w op a l r rhs h3 of Leave m \<Rightarrow> m | Fill f \<Rightarrow> do { h \<leftarrow> with_mpz h3 (\<lambda>st. f st (Obj res)); int_result h res })" if "a \<noteq> TRUE_DIVIDE"
    using ok(2) op b(1,2) n that by (cases rhs) (auto simp: mp_obj_int_binary_op_def)
  have div: "mp_obj_int_binary_op w bop op lhs rhs h =
      (if mpz_is_zero (h_mpz h2 r) then raise ZeroDivisionError
       else mp_obj_new_float (f_div (w_fp w) (mpz_as_float (w_fp w) (h_mpz h2 l)) (mpz_as_float (w_fp w) (h_mpz h2 r))) h2)" if "a = TRUE_DIVIDE"
    using ok(2) op b(1,2) n that by (cases rhs) (auto simp: mp_obj_int_binary_op_def Let_def)
  show "a = LSHIFT \<or> a = RSHIFT \<Longrightarrow> \<bar>ival h rhs\<bar> \<ge> 2 ^ 31 \<Longrightarrow> mp_obj_int_binary_op w bop op lhs rhs h = raise OverflowError"
    using run g by (auto simp: int_arith_op_def)
  show "a = TRUE_DIVIDE \<Longrightarrow> ival h rhs = 0 \<Longrightarrow> mp_obj_int_binary_op w bop op lhs rhs h = raise ZeroDivisionError"
    using div z by simp
  show "a = TRUE_DIVIDE \<Longrightarrow> ival h rhs \<noteq> 0 \<Longrightarrow> \<exists>h'. extends h h' \<and> mp_obj_int_binary_op w bop op lhs rhs h =
      mp_obj_new_float (f_div (w_fp w) (wide_float (w_fp w) (ival h lhs)) (wide_float (w_fp w) (ival h rhs))) h'"
    using div z b(3) mpz_as_float_value [OF b(4), of "w_fp w"] mpz_as_float_value [OF b(5), of "w_fp w"] b(6,7) by (intro exI [of _ h2]) simp
  show "a = MAT_MULTIPLY \<Longrightarrow> \<exists>h'. extends h h' \<and> mp_obj_int_binary_op w bop op lhs rhs h = ret None h'"
    using run nr(4) by (intro exI [of _ h3]) (simp add: int_arith_op_def)
  show "a = POWER \<Longrightarrow> ival h rhs < 0 \<Longrightarrow>
      \<exists>h'. extends h h' \<and> mp_obj_int_binary_op w bop op lhs rhs h = w_float_op w op (wide_float (w_fp w) (ival h lhs)) rhs h'"
    using run neg nr(2,4) mpz_as_float_value [OF b(4), of "w_fp w"] b(6) by (intro exI [of _ h3]) (simp add: int_arith_op_def)
  { assume p: "a = POWER" "ival h lhs = 0" "ival h rhs = 0"
    note o = operandsD [OF nr(1)]
    obtain st' where st': "mpz_pow_inpl (h_mpz h3) (Obj res) l r = Some st'" "mpz_ok (st' (Obj res))" "zval (st' (Obj res)) = 0"
        "\<forall>x. x \<noteq> Obj res \<longrightarrow> x \<noteq> Loc 1 \<longrightarrow> st' x = h_mpz h3 x"
      by (rule mpz_pow_inpl_cases [of "h_mpz h3" l r "Obj res", OF o(1-3)]) (use p(2) b(6) nr(2) in auto)
    then have "fills (\<lambda>st d. mpz_pow_inpl st d l r) (h_mpz h3) (Obj res) 0" unfolding fills_def by blast
    then show "int_answer h (Inr 0) (mp_obj_int_binary_op w bop op lhs rhs h)"
      using fill_answer [OF _ nr(4-6)] run p neg by (simp add: int_arith_op_def) }
qed

fun py_compare :: "binop \<Rightarrow> int \<Rightarrow> int \<Rightarrow> bool option" where
  "py_compare LESS l r = Some (l < r)"
| "py_compare MORE l r = Some (l > r)"
| "py_compare LESS_EQUAL l r = Some (l \<le> r)"
| "py_compare MORE_EQUAL l r = Some (l \<ge> r)"
| "py_compare EQUAL l r = Some (l = r)"
| "py_compare _ l r = None"

lemma int_compare_sgn: "int_compare op (sgn (l - r)) = map_option BoolObj (py_compare op l r)"
  by (cases op) (auto simp: int_compare_def sgn_if)

lemma mp_obj_int_binary_op_compare:
  assumes ok: "int_ok h lhs" "int_ok h rhs" and ns: "\<not> (\<exists>l r. lhs = SmallInt l \<and> rhs = SmallInt r)"
    and op: "arith_of op = None" "op \<noteq> DIVMOD"
  obtains h' where "mp_obj_int_binary_op w bop op lhs rhs h = ret (map_option BoolObj (py_compare op (ival h lhs) (ival h rhs))) h'" "extends h h'"
proof -
  obtain h1 h2 l r where b: "int_operand h lhs = Some (h1, l)" "int_operand h1 rhs = Some (h2, r)" "extends h h2"
    "mpz_ok (h_mpz h2 l)" "mpz_ok (h_mpz h2 r)" "zval (h_mpz h2 l) = ival h lhs" "zval (h_mpz h2 r) = ival h rhs"
    by (rule both_operands [OF ok ns])
  have "mp_obj_int_binary_op w bop op lhs rhs h = ret (int_compare op (mpz_cmp (h_mpz h2 l) (h_mpz h2 r))) h2"
    using ok(2) op b(1,2) by (cases rhs) (simp_all add: mp_obj_int_binary_op_def Let_def)
  then show thesis using that [of h2] b(3-7) by (simp add: mpz_cmp_spec int_compare_sgn)
qed

lemma mp_obj_int_binary_op_divmod:
  assumes ok: "int_ok h lhs" "int_ok h rhs" and ns: "\<not> (\<exists>l r. lhs = SmallInt l \<and> rhs = SmallInt r)"
  shows "ival h rhs = 0 \<Longrightarrow> mp_obj_int_binary_op w bop DIVMOD lhs rhs h = raise ZeroDivisionError"
    "ival h rhs \<noteq> 0 \<Longrightarrow> \<exists>t h' q r. mp_obj_int_binary_op w bop DIVMOD lhs rhs h = ret (Some (TupleRef t)) h' \<and> extends h h' \<and> t < h_next h'
       \<and> h_tuple h' t = [q, r] \<and> int_ok h' q \<and> int_ok h' r \<and> ival h' q = ival h lhs div ival h rhs \<and> ival h' r = ival h lhs mod ival h rhs"
proof -
  obtain h1 h2 l r where b: "int_operand h lhs = Some (h1, l)" "int_operand h1 rhs = Some (h2, r)" "extends h h2"
    "mpz_ok (h_mpz h2 l)" "mpz_ok (h_mpz h2 r)" "zval (h_mpz h2 l) = ival h lhs" "zval (h_mpz h2 r) = ival h rhs"
    "h_next h2 = h_next h" "l = z_int \<or> (\<exists>a < h_next h. l = Obj a)" "r = z_int \<or> (\<exists>a < h_next h. r = Obj a)"
    by (rule both_operands [OF ok ns])
  obtain res h3 where n: "mp_obj_int_new_mpz h2 = (res, h3)" by fastforce
  obtain quo h4 where m: "mp_obj_int_new_mpz h3 = (quo, h4)" by fastforce
  note nr = new_result [OF n b(3,8,4,5,9,10)]
  have h4: "quo = Suc (h_next h)" "res = h_next h" "h_mpz h4 = (h_mpz h3)(Obj quo := mpz_init_zero)" "extends h h4" "h_next h4 = Suc quo"
    "h_mpz h4 l = h_mpz h2 l" "h_mpz h4 r = h_mpz h2 r" "\<not> z_fixed (h_mpz h4 (Obj res))" "\<not> z_fixed (h_mpz h4 (Obj quo))"
  proof -
    have m': "quo = h_next h3" "h4 = h3\<lparr>h_next := Suc (h_next h3), h_mpz := (h_mpz h3)(Obj (h_next h3) := mpz_init_zero)\<rparr>"
      using m by (auto simp: mp_obj_int_new_mpz_def)
    have f: "\<not> z_fixed (h_mpz h3 (Obj res))" using nr(1) by (simp add: operands_def)
    show "quo = Suc (h_next h)" "res = h_next h" "h_mpz h4 = (h_mpz h3)(Obj quo := mpz_init_zero)" "h_next h4 = Suc quo"
      using m' nr(5,6) by simp_all
    show "extends h h4" using nr(4) new_mpz_extends [OF m] extends_trans by blast
    show "h_mpz h4 l = h_mpz h2 l" using m'(2) nr(2,5,6) b(9) by auto
    show "h_mpz h4 r = h_mpz h2 r" using m'(2) nr(3,5,6) b(10) by auto
    show "\<not> z_fixed (h_mpz h4 (Obj res))" "\<not> z_fixed (h_mpz h4 (Obj quo))" using f m' nr(5) by (simp_all add: mpz_init_zero_def)
  qed
  have z: "mpz_is_zero (h_mpz h3 r) \<longleftrightarrow> ival h rhs = 0" using zval_zero [OF b(5)] b(7) nr(3) by (simp add: mpz_is_zero_def)
  have run: "mp_obj_int_binary_op w bop DIVMOD lhs rhs h =
      (if mpz_is_zero (h_mpz h3 r) then raise ZeroDivisionError
       else do { h \<leftarrow> with_mpz h4 (\<lambda>st. mpz_divmod_inpl st (Obj quo) (Obj res) l r); mp_obj_new_tuple [IntRef quo, IntRef res] h })"
    using ok(2) b(1,2) n m by (cases rhs) (auto simp: mp_obj_int_binary_op_def arith_of_def)
  { assume "ival h rhs = 0"
    then show "mp_obj_int_binary_op w bop DIVMOD lhs rhs h = raise ZeroDivisionError" using run z by simp }
  { assume nz: "ival h rhs \<noteq> 0"
    have al: "Obj quo \<noteq> Obj res" "Obj quo \<noteq> l" "Obj quo \<noteq> r" "Obj res \<noteq> l" "Obj res \<noteq> r" "Loc 0 \<notin> {Obj quo, Obj res, l, r}"
      using b(9,10) h4(1,2) by auto
    obtain st' q where d: "mpz_divmod_inpl (h_mpz h4) (Obj quo) (Obj res) l r = Some st'"
      "divmod_store (h_mpz h4) (Obj quo) q (Obj res) (zval (h_mpz h4 l) mod zval (h_mpz h4 r)) st'" "Obj res \<noteq> l \<Longrightarrow> q = zval (h_mpz h4 l) div zval (h_mpz h4 r)"
      by (rule mpz_divmod_inpl_spec [of "h_mpz h4" l r "Obj quo" "Obj res"]) (use al h4(6-9) b(4,5,7) nz in auto)
    have q: "q = ival h lhs div ival h rhs" using d(3) al(4) h4(6,7) b(6,7) by simp
    define h' where "h' = h4\<lparr>h_mpz := st', h_next := Suc (h_next h4), h_tuple := (h_tuple h4)(h_next h4 := [IntRef quo, IntRef res])\<rparr>"
    have "mp_obj_int_binary_op w bop DIVMOD lhs rhs h = ret (Some (TupleRef (h_next h4))) h'"
      using run z nz d(1) by (simp add: with_mpz_def mp_obj_new_tuple_def h'_def)
    moreover have "extends h h'" using d(2) h4(1-5) by (auto simp: h'_def extends_def divmod_store_def)
    moreover have "h_next h4 < h_next h'" "h_tuple h' (h_next h4) = [IntRef quo, IntRef res]" "int_ok h' (IntRef quo)" "int_ok h' (IntRef res)"
      "ival h' (IntRef quo) = ival h lhs div ival h rhs" "ival h' (IntRef res) = ival h lhs mod ival h rhs"
      using d(2) h4 b(6,7) q by (simp_all add: h'_def divmod_store_def)
    ultimately show "\<exists>t h' q r. mp_obj_int_binary_op w bop DIVMOD lhs rhs h = ret (Some (TupleRef t)) h' \<and> extends h h' \<and> t < h_next h'
       \<and> h_tuple h' t = [q, r] \<and> int_ok h' q \<and> int_ok h' r \<and> ival h' q = ival h lhs div ival h rhs \<and> ival h' r = ival h lhs mod ival h rhs"
      by blast }
qed

section \<open>Unary operators and new integers\<close>

lemma new_from_spec:
  assumes "fills f ((h_mpz h)(Obj (h_next h) := mpz_init_zero)) (Obj (h_next h)) v"
  obtains h' where "new_from f h = ret (Some (IntRef (h_next h))) h'" "extends h h'" "int_ok h' (IntRef (h_next h))" "ival h' (IntRef (h_next h)) = v"
proof -
  define st where "st = (h_mpz h)(Obj (h_next h) := mpz_init_zero)"
  obtain st' where st': "f st (Obj (h_next h)) = Some st'" "mpz_ok (st' (Obj (h_next h)))" "zval (st' (Obj (h_next h))) = v"
    "\<forall>a. Obj a \<noteq> Obj (h_next h) \<longrightarrow> st' (Obj a) = st (Obj a)" using assms by (auto simp: fills_def st_def)
  have "new_from f h = ret (Some (IntRef (h_next h))) (h\<lparr>h_next := Suc (h_next h), h_mpz := st'\<rparr>)"
    using st'(1) by (simp add: new_from_def mp_obj_int_new_mpz_def with_mpz_def st_def)
  then show thesis by (rule that) (use st' in \<open>auto simp: extends_def st_def\<close>)
qed

text \<open>What Python asks of the unary operators that return an integer.\<close>

fun py_unary :: "unop \<Rightarrow> int \<Rightarrow> int option" where
  "py_unary POSITIVE v = Some v"
| "py_unary NEGATIVE v = Some (- v)"
| "py_unary INVERT v = Some (- v - 1)"
| "py_unary ABS_OP v = Some \<bar>v\<bar>"
| "py_unary INT_MAYBE v = Some v"
| "py_unary _ v = None"

lemma mp_obj_int_unary_op_spec:
  assumes ok: "int_ok h (IntRef a)" and v: "py_unary op (ival h (IntRef a)) = Some v"
  obtains x h' where "mp_obj_int_unary_op op a h = ret (Some x) h'" "extends h h'" "int_ok h' x" "ival h' x = v"
proof -
  note close = that
  define st where "st = (h_mpz h)(Obj (h_next h) := mpz_init_zero)"
  have a: "mpz_ok (st (Obj a))" "\<not> z_fixed (st (Obj (h_next h)))" "zval (st (Obj a)) = ival h (IntRef a)"
    using ok by (auto simp: st_def mpz_init_zero_def)
  have f: "fills (\<lambda>st d. mpz_neg_inpl st d (Obj a)) st (Obj (h_next h)) (- ival h (IntRef a))"
    "fills (\<lambda>st d. mpz_not_inpl st d (Obj a)) st (Obj (h_next h)) (- ival h (IntRef a) - 1)"
    "fills (\<lambda>st d. mpz_abs_inpl st d (Obj a)) st (Obj (h_next h)) \<bar>ival h (IntRef a)\<bar>"
    unfolding a(3) [symmetric]
    by (rule mpz_neg_inpl_spec [of st "Obj a" "Obj (h_next h)", OF a(1,2)] mpz_not_inpl_spec [of st "Obj a" "Obj (h_next h)", OF a(1,2)]
          mpz_abs_inpl_spec [of st "Obj a" "Obj (h_next h)", OF a(1,2)], rule becomes_fills, assumption, assumption)+
  have keep: thesis if "mp_obj_int_unary_op op a h = ret (Some (IntRef a)) h" "v = ival h (IntRef a)"
    using that ok by (intro close [of "IntRef a" h]) auto
  have make: thesis if g: "mp_obj_int_unary_op op a h = new_from g h" "fills g st (Obj (h_next h)) v" for g
  proof -
    obtain h' where "new_from g h = ret (Some (IntRef (h_next h))) h'" "extends h h'" "int_ok h' (IntRef (h_next h))" "ival h' (IntRef (h_next h)) = v"
      by (rule new_from_spec [of g h v]) (use g(2) in \<open>simp_all add: st_def\<close>)
    then show thesis using g(1) by (intro close [of "IntRef (h_next h)" h']) simp_all
  qed
  have s: "z_neg (h_mpz h (Obj a)) \<longleftrightarrow> ival h (IntRef a) < 0" using zval_neg ok by auto
  show thesis
  proof (cases op)
    case NEGATIVE
    then show ?thesis using v f(1) by (intro make) (auto simp: mp_obj_int_unary_op_def)
  next
    case INVERT
    then show ?thesis using v f(2) by (intro make) (auto simp: mp_obj_int_unary_op_def)
  next
    case ABS_OP
    then show ?thesis
      using v s f(3) by (cases "ival h (IntRef a) < 0") (auto simp: mp_obj_int_unary_op_def intro: keep make)
  qed (use v in \<open>auto simp: mp_obj_int_unary_op_def intro: keep\<close>)
qed

lemma new_int_spec:
  assumes "st = (h_mpz h)(Obj (h_next h) := mpz_init_zero)" "fills f st (Obj (h_next h)) v"
  obtains h' where "(do { let (o', h) = mp_obj_int_new_mpz h; h \<leftarrow> with_mpz h (\<lambda>st. f st (Obj o')); ret (IntRef o') h }) = ret (IntRef (h_next h)) h'"
    "extends h h'" "int_ok h' (IntRef (h_next h))" "ival h' (IntRef (h_next h)) = v"
proof -
  obtain st' where st': "f st (Obj (h_next h)) = Some st'" "mpz_ok (st' (Obj (h_next h)))" "zval (st' (Obj (h_next h))) = v"
    "\<forall>a. Obj a \<noteq> Obj (h_next h) \<longrightarrow> st' (Obj a) = st (Obj a)" using assms(2) by (auto simp: fills_def)
  show thesis
    by (rule that [of "h\<lparr>h_next := Suc (h_next h), h_mpz := st'\<rparr>"])
      (use st' assms(1) in \<open>auto simp: mp_obj_int_new_mpz_def with_mpz_def extends_def\<close>)
qed

lemma new_int_from_ll_spec:
  assumes "- (2 ^ 63) \<le> v" "v < 2 ^ 63"
  obtains h' where "mp_obj_new_int_from_ll v h = ret (IntRef (h_next h)) h'" "extends h h'" "int_ok h' (IntRef (h_next h))" "ival h' (IntRef (h_next h)) = v"
proof -
  define st where "st = (h_mpz h)(Obj (h_next h) := mpz_init_zero)"
  obtain st' where "mpz_set_from_ll st (Obj (h_next h)) v True = Some st'" "becomes st (Obj (h_next h)) v st'"
    by (rule mpz_set_from_ll_spec [of st "Obj (h_next h)" True v]) (use assms in \<open>auto simp: st_def mpz_init_zero_def\<close>)
  then have "fills (\<lambda>st d. mpz_set_from_ll st d v True) st (Obj (h_next h)) v" by (intro becomes_fills)
  from new_int_spec [OF st_def this] that show thesis unfolding mp_obj_new_int_from_ll_def by blast
qed

lemma new_int_from_ull_spec:
  assumes "0 \<le> v" "v < 2 ^ 64"
  obtains h' where "mp_obj_new_int_from_ull v h = ret (IntRef (h_next h)) h'" "extends h h'" "int_ok h' (IntRef (h_next h))" "ival h' (IntRef (h_next h)) = v"
proof -
  define st where "st = (h_mpz h)(Obj (h_next h) := mpz_init_zero)"
  obtain st' where "mpz_set_from_ll st (Obj (h_next h)) v False = Some st'" "becomes st (Obj (h_next h)) v st'"
    by (rule mpz_set_from_ll_spec [of st "Obj (h_next h)" False v]) (use assms in \<open>auto simp: st_def mpz_init_zero_def\<close>)
  then have "fills (\<lambda>st d. mpz_set_from_ll st d v False) st (Obj (h_next h)) v" by (intro becomes_fills)
  from new_int_spec [OF st_def this] that show thesis unfolding mp_obj_new_int_from_ull_def by blast
qed

text \<open>A machine word as an integer object.\<close>

lemma new_int_value:
  assumes "- (2 ^ 31) \<le> v" "v < 2 ^ 31"
  obtains x h' where "mp_obj_new_int v h = ret x h'" "extends h h'" "int_ok h' x" "ival h' x = v" "small v \<longleftrightarrow> x = SmallInt v"
proof (cases "small v")
  case True
  then show thesis using that [of "SmallInt v" h] assms
    by (simp add: mp_obj_new_int_def MP_SMALL_INT_FITS_iff MP_OBJ_NEW_SMALL_INT_def small_wrap_id)
next
  case False
  obtain h' where "mp_obj_new_int_from_ll v h = ret (IntRef (h_next h)) h'" "extends h h'" "int_ok h' (IntRef (h_next h))" "ival h' (IntRef (h_next h)) = v"
    by (rule new_int_from_ll_spec [of v h]) (use assms in auto)
  then show thesis using that [of "IntRef (h_next h)" h'] assms False
    by (simp add: mp_obj_new_int_def MP_SMALL_INT_FITS_iff)
qed

section \<open>Text and machine words\<close>

text \<open>A heap with the numbers of the sample store.\<close>

definition sample_heap :: "nat heap" where
  "sample_heap = \<lparr>h_next = 4, h_mpz = sample_store, h_float = (\<lambda>_. 0), h_tuple = (\<lambda>_. [])\<rparr>"

lemma sample_ok: "int_ok sample_heap (IntRef 0)" "int_ok sample_heap (IntRef 2)" "ival sample_heap (IntRef 0) = - 4294967296" "ival sample_heap (IntRef 2) = 2147483648"
  by (simp_all add: sample_heap_def sample_store_simps)

lemma zval_bits: "mpz_ok z \<Longrightarrow> \<bar>zval z\<bar> < 2 ^ mpz_max_num_bits z"
  using dval_fuel [OF okD(2)] okD(5) [of z] by (simp add: mpz_max_num_bits_def zval_def sval_def mult.commute)

lemma int_formatted_spec:
  assumes "int_ok h x" "2 \<le> base" "base \<le> 16"
  shows "int_formatted h x base prefix bc comma = Some (int_text base prefix bc comma (ival h x))"
proof (cases x)
  case (SmallInt v)
  then show ?thesis using assms by (simp add: int_formatted_def mp_obj_int_formatted_spec small_def)
next
  case (IntRef a)
  define z where "z = h_mpz h (Obj a)"
  have z: "mpz_ok z" using assms(1) IntRef by (simp add: z_def)
  obtain n where n: "mp_int_format_size (mpz_max_num_bits z) base prefix comma = Some n" using assms(2,3) by (auto simp: mp_int_format_size_def Let_def)
  show ?thesis using mpz_as_str_inpl_spec [OF assms(2) _ z, of prefix bc comma] int_text_fits [OF assms(2,3) zval_bits [OF z] n, of bc] n assms(3)
    by (simp add: int_formatted_def IntRef mp_obj_int_formatted_impl_def Let_def flip: z_def)
qed (use assms in auto)

text \<open>C22: Printing does not depend on the representation: two integer objects with the same value,
  one small and one big or both of a kind, have the same text in every base from 2 to 16,
  with every prefix and thousands separator, and formatting never overruns its buffer.
\<close>

theorem int_text_independent:
  assumes "int_ok h x" "int_ok h y" "ival h x = ival h y" "2 \<le> base" "base \<le> 16"
  shows "int_formatted h x base prefix bc comma = int_formatted h y base prefix bc comma \<and> int_formatted h x base prefix bc comma \<noteq> None"
  using assms by (simp add: int_formatted_spec)

theorem int_text_independent_witness:
  "int_formatted sample_heap (IntRef 3) 16 None (CHR ''a'') NUL = int_formatted sample_heap (SmallInt 5) 16 None (CHR ''a'') NUL
    \<and> int_formatted sample_heap (IntRef 3) 16 None (CHR ''a'') NUL \<noteq> None"
  by (rule int_text_independent) (simp_all add: sample_heap_def sample_store_simps small_def)

text \<open>C26: Reading a machine word out of an integer object: the checked readers return the value
  exactly when it lies in range (for the signed one, strictly above the smallest word when it
  comes from a big integer) and raise \<open>OverflowError\<close> otherwise; the truncating one returns the
  value modulo \<open>2^32\<close>; the sign function returns the sign.
\<close>

theorem int_readers_correct:
  assumes "int_ok h x"
  shows "mp_obj_int_get_checked h x = (if \<bar>ival h x\<bar> < 2 ^ 31 then ret (ival h x) h else raise OverflowError)
    \<and> mp_obj_int_get_uint_checked h x = (if 0 \<le> ival h x \<and> ival h x < 2 ^ 32 then ret (ival h x) h else raise OverflowError)
    \<and> mp_obj_int_get_truncated h x = Some (s32 (ival h x)) \<and> mp_obj_int_sign h x = Some (sgn (ival h x))"
proof (intro conjI)
  show "mp_obj_int_get_checked h x = (if \<bar>ival h x\<bar> < 2 ^ 31 then ret (ival h x) h else raise OverflowError)"
    by (rule get_checked_spec [OF assms])
  show "mp_obj_int_get_uint_checked h x = (if 0 \<le> ival h x \<and> ival h x < 2 ^ 32 then ret (ival h x) h else raise OverflowError)"
    using assms by (cases x) (auto simp: mp_obj_int_get_uint_checked_def mpz_as_uint_checked_spec small_def)
  show "mp_obj_int_get_truncated h x = Some (s32 (ival h x))"
    using assms by (cases x) (auto simp: mp_obj_int_get_truncated_def mpz_hash_spec small_def s32_id)
  show "mp_obj_int_sign h x = Some (sgn (ival h x))"
  proof (cases x)
    case (IntRef a)
    define z where "z = h_mpz h (Obj a)"
    have "z_dig z = [] \<longleftrightarrow> zval z = 0" "z_neg z \<longleftrightarrow> zval z < 0" using assms IntRef zval_zero [of z] zval_neg [of z] by (auto simp: z_def)
    then show ?thesis by (simp add: mp_obj_int_sign_def IntRef Let_def sgn_if flip: z_def)
  qed (use assms in \<open>auto simp: mp_obj_int_sign_def sgn_if\<close>)
qed

theorem int_readers_correct_witness:
  "mp_obj_int_get_checked sample_heap (IntRef 0) = raise OverflowError \<and> mp_obj_int_get_uint_checked sample_heap (IntRef 2) = ret 2147483648 sample_heap
    \<and> mp_obj_int_get_truncated sample_heap (IntRef 2) = Some (- 2147483648) \<and> mp_obj_int_sign sample_heap (IntRef 0) = Some (- 1)"
  using int_readers_correct [of sample_heap "IntRef 0", OF sample_ok(1)] int_readers_correct [of sample_heap "IntRef 2", OF sample_ok(2)]
  unfolding sample_ok by (simp add: s32_def)

end
