(* ===== verification/Operators.thy ===== *)
theory Operators
  imports IntObj
begin

text \<open>
  The operators of the interpreter on integers: \<open>mp_unary_op\<close> and \<open>mp_binary_op\<close> of
  \<open>py/runtime.c\<close> with the equality and truth tests of \<open>py/obj.c\<close>.  Two small integers are
  handled here, in machine words, with a test before each operation that could leave their
  range; anything else goes to the operator slot of the type of the left operand.

  The integer type's slot may call \<open>mp_binary_op\<close> again, for a truth value on the right or a
  sequence to repeat.  The recursion is bounded by a number of levels; two are enough when
  both operands are numbers or truth values, and one when they are integers.

  Shown here: on integers the operators compute what Python asks, whichever of the two
  representations each operand has, and the result is in the smaller one whenever it fits.
\<close>

unbundle bit_operations_syntax

section \<open>Truth and equality\<close>

type_synonym 'f bop = "binop \<Rightarrow> pyobj \<Rightarrow> pyobj \<Rightarrow> 'f heap \<Rightarrow> (pyobj option, 'f) mres"

definition mp_obj_is_true :: "'f world \<Rightarrow> pyobj \<Rightarrow> 'f heap \<Rightarrow> bool" where
  "mp_obj_is_true w arg h =
     (case arg of
        BoolObj b \<Rightarrow> b
      | SmallInt v \<Rightarrow> v \<noteq> 0
      | IntRef a \<Rightarrow> \<not> mpz_is_zero (h_mpz h (Obj a))
      | _ \<Rightarrow> w_is_true w arg h)"

definition is_int_obj :: "pyobj \<Rightarrow> bool" where
  "is_int_obj x = (case x of SmallInt _ \<Rightarrow> True | IntRef _ \<Rightarrow> True | _ \<Rightarrow> False)"

text \<open>The flags of a type that matter for equality; the integer type has none of them.\<close>

definition eq_flags :: "'f world \<Rightarrow> pyobj \<Rightarrow> bool \<times> bool \<times> bool" where
  "eq_flags w x = (if is_int_obj x then (False, False, False) else w_eq_flags w x)"

definition same_type :: "'f world \<Rightarrow> pyobj \<Rightarrow> pyobj \<Rightarrow> bool" where
  "same_type w x y = (if is_int_obj x \<or> is_int_obj y then is_int_obj x \<and> is_int_obj y else w_same_type w x y)"

definition is_str :: "'f world \<Rightarrow> pyobj \<Rightarrow> bool" where
  "is_str w x = (case x of OtherRef _ \<Rightarrow> w_is_str w x | _ \<Rightarrow> False)"

definition binary_slot :: "'f world \<Rightarrow> 'f bop \<Rightarrow> 'f bop" where
  "binary_slot w mp_binary_op op lhs rhs h =
     (if is_int_obj lhs then mp_obj_int_binary_op w mp_binary_op op lhs rhs h else w_binary_slot w op lhs rhs h)"

text \<open>One pass of the generic comparison; \<open>None\<close> when the type of the first object cannot tell.\<close>

definition eq_pass :: "'f world \<Rightarrow> 'f bop \<Rightarrow> binop \<Rightarrow> pyobj \<Rightarrow> pyobj \<Rightarrow> 'f heap \<Rightarrow> (pyobj option, 'f) mres" where
  "eq_pass w bop op o1 o2 h =
     (let (not_reflexive, checks_other, has_neq) = eq_flags w o1;
          eq = (\<lambda>h. then_do (binary_slot w bop EQUAL o1 o2 h) (\<lambda>r h.
                 case r of
                   None \<Rightarrow> ret None h
                 | Some v \<Rightarrow> if op = EQUAL then ret (Some v) h
                             else ret (Some (BoolObj ((op = NOT_EQUAL) \<noteq> mp_obj_is_true w v h))) h))
      in if checks_other \<or> same_type w o2 o1 then
           (if op = NOT_EQUAL \<and> has_neq
            then then_do (binary_slot w bop NOT_EQUAL o1 o2 h) (\<lambda>r h. case r of Some v \<Rightarrow> ret (Some v) h | None \<Rightarrow> eq h)
            else eq h)
         else ret None h)"

definition mp_obj_equal_not_equal :: "'f world \<Rightarrow> 'f bop \<Rightarrow> 'f bop" where
  "mp_obj_equal_not_equal w bop op o1 o2 h =
     (let answer = (\<lambda>b. Some (BoolObj ((op = NOT_EQUAL) \<noteq> b)));
          last_pass = (\<lambda>h. then_do (eq_pass w bop op o2 o1 h) (\<lambda>r h.
                        case r of Some v \<Rightarrow> ret (Some v) h | None \<Rightarrow> ret (answer (o1 = o2)) h))
      in if o1 = o2 \<and> ((\<exists>v. o1 = SmallInt v) \<or> \<not> fst (eq_flags w o1)) then ret (answer True) h
         else if is_str w o1 then
           (if is_str w o2 then ret (answer (w_str_equal w o1 o2 h)) h else last_pass h)
         else case (o1, o2) of
           (SmallInt _, SmallInt _) \<Rightarrow> ret (answer False) h
         | (SmallInt _, _) \<Rightarrow> last_pass h
         | _ \<Rightarrow> then_do (eq_pass w bop op o1 o2 h) (\<lambda>r h. case r of Some v \<Rightarrow> ret (Some v) h | None \<Rightarrow> last_pass h))"

section \<open>Small integers\<close>

text \<open>How an operation on two small integers goes on: with a word to be made an object, with a wider left operand, or not at all.\<close>

datatype 'f small_step = Word int | Widen | Out "(pyobj option, 'f) mres"

text \<open>Repeated squaring; \<open>None\<close> for a product that leaves the small integers.\<close>

function power_loop :: "int \<Rightarrow> int \<Rightarrow> int \<Rightarrow> int option" where
  "power_loop ans lhs_val rhs_val =
     (if rhs_val > 0 then
        if rhs_val AND 1 \<noteq> 0 \<and> mp_small_int_mul_overflow ans lhs_val then None
        else
          let ans = (if rhs_val AND 1 \<noteq> 0 then ans * lhs_val else ans) in
          if rhs_val = 1 then Some ans
          else if mp_small_int_mul_overflow lhs_val lhs_val then None
          else power_loop ans (lhs_val * lhs_val) (rhs_val div 2)
      else Some ans)"
  by pat_completeness auto
termination
  by (relation "measure (\<lambda>(ans, l, r). nat r)") auto

declare power_loop.simps [simp del]

definition small_arith_op :: "'f world \<Rightarrow> binop \<Rightarrow> arith \<Rightarrow> int \<Rightarrow> int \<Rightarrow> 'f heap \<Rightarrow> 'f small_step" where
  "small_arith_op w op a lhs_val rhs_val h =
     (case a of
        ORop \<Rightarrow> Word (lhs_val OR rhs_val)
      | XORop \<Rightarrow> Word (lhs_val XOR rhs_val)
      | ANDop \<Rightarrow> Word (lhs_val AND rhs_val)
      | LSHIFT \<Rightarrow>
          if rhs_val < 0 then Out (raise ValueError)
          else if rhs_val \<ge> 32 \<or> lhs_val > MP_SMALL_INT_MAX div 2 ^ nat rhs_val \<or> lhs_val < MP_SMALL_INT_MIN div 2 ^ nat rhs_val then Widen
          else Word (s32 (u32 (u32 lhs_val * 2 ^ nat rhs_val)))
      | RSHIFT \<Rightarrow>
          if rhs_val < 0 then Out (raise ValueError)
          else Word (lhs_val div 2 ^ nat (if rhs_val \<ge> 32 then 31 else rhs_val))
      | ADD \<Rightarrow> Word (s32 (lhs_val + rhs_val))
      | SUBTRACT \<Rightarrow> Word (s32 (lhs_val - rhs_val))
      | MULTIPLY \<Rightarrow>
          if mp_small_int_mul_overflow lhs_val rhs_val then Widen
          else Out (ret (Some (MP_OBJ_NEW_SMALL_INT (lhs_val * rhs_val))) h)
      | FLOOR_DIVIDE \<Rightarrow> if rhs_val = 0 then Out (raise ZeroDivisionError) else Word (mp_small_int_floor_divide lhs_val rhs_val)
      | TRUE_DIVIDE \<Rightarrow>
          if rhs_val = 0 then Out (raise ZeroDivisionError)
          else Out (mp_obj_new_float (f_div (w_fp w) (f_of_int (w_fp w) lhs_val) (f_of_int (w_fp w) rhs_val)) h)
      | MODULO \<Rightarrow> if rhs_val = 0 then Out (raise ZeroDivisionError) else Word (mp_small_int_modulo lhs_val rhs_val)
      | POWER \<Rightarrow>
          if rhs_val < 0 then Out (w_float_op w op (f_of_int (w_fp w) lhs_val) (SmallInt rhs_val) h)
          else (case power_loop 1 lhs_val rhs_val of Some ans \<Rightarrow> Word ans | None \<Rightarrow> Widen)
      | MAT_MULTIPLY \<Rightarrow> Out (raise TypeError))"

definition small_binary_op :: "'f world \<Rightarrow> binop \<Rightarrow> int \<Rightarrow> int \<Rightarrow> 'f heap \<Rightarrow> 'f small_step" where
  "small_binary_op w op lhs_val rhs_val h =
     (case op of
        INPLACE a \<Rightarrow> small_arith_op w op a lhs_val rhs_val h
      | NORMAL a \<Rightarrow> small_arith_op w op a lhs_val rhs_val h
      | DIVMOD \<Rightarrow>
          if rhs_val = 0 then Out (raise ZeroDivisionError)
          else Out (mp_obj_new_tuple
                 [MP_OBJ_NEW_SMALL_INT (mp_small_int_floor_divide lhs_val rhs_val), MP_OBJ_NEW_SMALL_INT (mp_small_int_modulo lhs_val rhs_val)] h)
      | LESS \<Rightarrow> Out (ret (Some (BoolObj (lhs_val < rhs_val))) h)
      | MORE \<Rightarrow> Out (ret (Some (BoolObj (lhs_val > rhs_val))) h)
      | LESS_EQUAL \<Rightarrow> Out (ret (Some (BoolObj (lhs_val \<le> rhs_val))) h)
      | MORE_EQUAL \<Rightarrow> Out (ret (Some (BoolObj (lhs_val \<ge> rhs_val))) h)
      | _ \<Rightarrow> Out (raise TypeError))"

section \<open>The operators of the interpreter\<close>

text \<open>
  The slot of the left operand's type, then for an in-place operator the plain one, then the
  reversed one of the other operand; at last iteration for \<open>in\<close>, and the exception.
\<close>

definition try_slot :: "'f world \<Rightarrow> 'f bop \<Rightarrow> binop \<Rightarrow> pyobj \<Rightarrow> pyobj \<Rightarrow> 'f heap \<Rightarrow> ('f heap \<Rightarrow> (pyobj option, 'f) mres) \<Rightarrow> (pyobj option, 'f) mres" where
  "try_slot w bop op lhs rhs h otherwise =
     then_do (binary_slot w bop op lhs rhs h) (\<lambda>r h. case r of Some v \<Rightarrow> ret (Some v) h | None \<Rightarrow> otherwise h)"

definition generic_binary_op :: "'f world \<Rightarrow> 'f bop \<Rightarrow> 'f bop" where
  "generic_binary_op w bop op lhs rhs h =
     (let reversed = (\<lambda>a h. try_slot w bop (REVERSE a) rhs lhs h (\<lambda>h. raise TypeError));
          normal = (\<lambda>a h. try_slot w bop (NORMAL a) lhs rhs h (reversed a))
      in try_slot w bop op lhs rhs h (\<lambda>h.
           case op of
             INPLACE a \<Rightarrow> normal a h
           | NORMAL a \<Rightarrow> reversed a h
           | CONTAINS \<Rightarrow> w_contains w lhs rhs h
           | _ \<Rightarrow> raise TypeError))"

fun mp_binary_op :: "nat \<Rightarrow> 'f world \<Rightarrow> 'f bop" where
  "mp_binary_op 0 w op lhs rhs h = None"
| "mp_binary_op (Suc fuel) w op lhs rhs h =
     (let bop = mp_binary_op fuel w;
          not_null = (\<lambda>m. then_do m (\<lambda>r h. case r of Some v \<Rightarrow> ret (Some v) h | None \<Rightarrow> raise TypeError));
          generic = (\<lambda>lhs h. if op = IN_OP then generic_binary_op w bop CONTAINS rhs lhs h else generic_binary_op w bop op lhs rhs h)
      in if op = IS_OP then ret (Some (BoolObj (lhs = rhs))) h
         else if op = EQUAL \<or> op = NOT_EQUAL then mp_obj_equal_not_equal w bop op lhs rhs h
         else if op = EXCEPTION_MATCH then w_exception_match w lhs rhs h
         else case lhs of
           SmallInt lhs_val \<Rightarrow>
             (case rhs of
                SmallInt rhs_val \<Rightarrow>
                  (case small_binary_op w op lhs_val rhs_val h of
                     Word v \<Rightarrow> if MP_SMALL_INT_FITS v then ret (Some (MP_OBJ_NEW_SMALL_INT v)) h
                               else then_do (mp_obj_new_int_from_ll v h) (\<lambda>x h. ret (Some x) h)
                   | Widen \<Rightarrow> then_do (mp_obj_new_int_from_ll lhs_val h) (\<lambda>lhs h. generic_binary_op w bop op lhs rhs h)
                   | Out m \<Rightarrow> m)
              | FloatRef _ \<Rightarrow> not_null (w_float_op w op (f_of_int (w_fp w) lhs_val) rhs h)
              | ComplexRef _ \<Rightarrow> not_null (w_complex_op w op (f_of_int (w_fp w) lhs_val) (f_of_int (w_fp w) 0) rhs h)
              | _ \<Rightarrow> generic lhs h)
         | _ \<Rightarrow> generic lhs h)"

definition mp_unary_op :: "'f world \<Rightarrow> unop \<Rightarrow> pyobj \<Rightarrow> 'f heap \<Rightarrow> (pyobj option, 'f) mres" where
  "mp_unary_op w op arg h =
     (if op = NOT_OP then ret (Some (BoolObj (\<not> mp_obj_is_true w arg h))) h
      else case arg of
        SmallInt val \<Rightarrow>
          (case op of
             BOOL_OP \<Rightarrow> ret (Some (BoolObj (val \<noteq> 0))) h
           | HASH \<Rightarrow> ret (Some arg) h
           | POSITIVE \<Rightarrow> ret (Some arg) h
           | INT_MAYBE \<Rightarrow> ret (Some arg) h
           | NEGATIVE \<Rightarrow>
               if val = MP_SMALL_INT_MIN then then_do (mp_obj_new_int (- val) h) (\<lambda>x h. ret (Some x) h)
               else ret (Some (MP_OBJ_NEW_SMALL_INT (- val))) h
           | ABS_OP \<Rightarrow>
               if val \<ge> 0 then ret (Some arg) h
               else if val = MP_SMALL_INT_MIN then then_do (mp_obj_new_int (- val) h) (\<lambda>x h. ret (Some x) h)
               else ret (Some (MP_OBJ_NEW_SMALL_INT (- val))) h
           | INVERT \<Rightarrow> ret (Some (MP_OBJ_NEW_SMALL_INT (NOT val))) h
           | _ \<Rightarrow> None)
      | IntRef a \<Rightarrow>
          then_do (mp_obj_int_unary_op op a h) (\<lambda>r h. case r of
              Some v \<Rightarrow> ret (Some v) h
            | None \<Rightarrow>
                if op = BOOL_OP then ret (Some (BoolObj True)) h
                else if op = INT_MAYBE \<or> op = FLOAT_MAYBE \<or> op = COMPLEX_MAYBE then ret None h
                else raise TypeError)
      | _ \<Rightarrow> w_unary_other w op arg h)"

section \<open>Arithmetic\<close>

text \<open>A word is small when its bits from 30 up are all the same.\<close>

lemma small_bits: "small v \<longleftrightarrow> (\<forall>m. bit v (min 30 m) = bit v m)"
proof -
  have "small v \<longleftrightarrow> signed_take_bit 30 v = v" by (auto simp: small_def signed_take_bit_int_eq_self_iff)
  then show ?thesis by (simp add: bit_eq_iff bit_signed_take_bit_iff)
qed

lemma small_bitwise:
  assumes "small l" "small r"
  shows "small (l AND r)" "small (l OR r)" "small (l XOR r)"
  using assms by (simp_all add: small_bits bit_and_iff bit_or_iff bit_xor_iff)

lemma power_halve:
  fixes l r :: int
  assumes "0 < r"
  shows "l ^ nat r = (if r AND 1 \<noteq> 0 then l else 1) * (l * l) ^ nat (r div 2)"
proof -
  have "nat r = 2 * nat (r div 2) + nat (r mod 2)" using assms by (simp add: nat_mod_distrib nat_div_distrib)
  then have "l ^ nat r = (l * l) ^ nat (r div 2) * l ^ nat (r mod 2)" by (simp add: power_add power_mult power2_eq_square)
  then show ?thesis by (cases "even r") (auto simp: and_one_eq odd_iff_mod_2_eq_one)
qed

lemma power_loop_spec: "small ans \<Longrightarrow> small l \<Longrightarrow> 0 \<le> r \<Longrightarrow> power_loop ans l r = Some v \<Longrightarrow> v = ans * l ^ nat r \<and> small v"
proof (induction ans l r rule: power_loop.induct)
  case (1 ans l r)
  show ?case
  proof (cases "0 < r")
    case True
    define ans' where "ans' = (if r AND 1 \<noteq> 0 then ans * l else ans)"
    have s: "small ans'" and n: "\<not> (r AND 1 \<noteq> 0 \<and> mp_small_int_mul_overflow ans l)"
      using "1.prems" True mul_overflow_iff [of ans l] by (auto simp: ans'_def power_loop.simps [of ans l r] split: if_splits)
    have step: "ans * l ^ nat r = ans' * (l * l) ^ nat (r div 2)" unfolding power_halve [OF True] by (simp add: ans'_def)
    show ?thesis
    proof (cases "r = 1")
      case one: True
      then have "Some v = Some ans'" using "1.prems"(4) n by (simp add: power_loop.simps [of ans l 1] ans'_def)
      then show ?thesis using s step one by simp
    next
      case False
      then have o: "\<not> mp_small_int_mul_overflow l l" "power_loop ans' (l * l) (r div 2) = Some v"
        using "1.prems"(4) True n by (simp_all add: power_loop.simps [of ans l r] ans'_def Let_def split: if_splits)
      then have sq: "small (l * l)" using mul_overflow_iff [of l l] "1.prems"(2) by simp
      have "v = ans' * (l * l) ^ nat (r div 2) \<and> small v"
        by (rule "1.IH" [OF True n refl False o(1), folded ans'_def]) (use sq s o(2) True in simp_all)
      then show ?thesis unfolding step .
    qed
  next
    case False
    then show ?thesis using "1.prems" by (simp add: power_loop.simps [of ans l 0])
  qed
qed

lemma small_range: "small v \<Longrightarrow> - (2 ^ 31) \<le> v \<and> v < 2 ^ 31"
  by (simp add: small_def)

lemma s32_u32_shift: "s32 (u32 (u32 l * p)) = s32 (l * p)"
proof -
  have "u32 (u32 l * p) = u32 (l * p)" unfolding u32_def by (rule mod_mult_left_eq)
  moreover have "s32 (u32 x) = s32 x" for x unfolding s32_def u32_def by (simp add: mod_add_left_eq)
  ultimately show ?thesis by simp
qed

lemma shift_left_word:
  assumes "0 \<le> r" "r < 32" "l \<le> 1073741823 div 2 ^ nat r" "- 1073741824 div 2 ^ nat r \<le> l"
  shows "s32 (u32 (u32 l * 2 ^ nat r)) = l * 2 ^ nat r" "- (2 ^ 31) \<le> l * 2 ^ nat r" "l * 2 ^ nat r < 2 ^ 31"
proof -
  define p :: int where "p = 2 ^ nat r"
  have p: "0 < p" by (simp add: p_def)
  have "l * p \<le> (1073741823 div p) * p" using assms(3) p by (intro mult_right_mono) (auto simp: p_def)
  then have "l * p \<le> 1073741823" using div_mult_mod_eq [of 1073741823 p] pos_mod_sign [OF p, of 1073741823] by linarith
  then have hi: "l * p < 2 ^ 31" by simp
  have lo: "- (2 ^ 31) \<le> l * p"
  proof (cases "r = 31")
    case True
    then have "p = 2147483648" "-1 \<le> l" using assms(4) by (simp_all add: p_def)
    then show ?thesis by simp
  next
    case False
    then have "p \<le> 2 ^ 30" unfolding p_def using assms(1,2) by (intro power_increasing) auto
    moreover have "(- 1073741824 div p) * p \<le> l * p" using assms(4) p by (intro mult_right_mono) (auto simp: p_def)
    moreover have "- 1073741824 - p < (- 1073741824 div p) * p" using div_mult_mod_eq [of "- 1073741824" p] pos_mod_bound [OF p, of "- 1073741824"] by linarith
    ultimately show ?thesis by simp
  qed
  show "- (2 ^ 31) \<le> l * 2 ^ nat r" "l * 2 ^ nat r < 2 ^ 31" using lo hi by (simp_all add: p_def)
  then show "s32 (u32 (u32 l * 2 ^ nat r)) = l * 2 ^ nat r" unfolding s32_u32_shift by (intro s32_id) simp_all
qed

lemma shift_right_word:
  assumes "small l" "0 \<le> r"
  shows "l div 2 ^ nat (if r \<ge> 32 then 31 else r) = l div 2 ^ nat r" "small (l div 2 ^ nat r)"
proof -
  have far: "l div 2 ^ n = (if l < 0 then -1 else 0)" if "30 \<le> n" for n
  proof -
    have "(2::int) ^ 30 \<le> 2 ^ n" using that by (intro power_increasing) auto
    then show ?thesis using assms(1) by (auto simp: small_def intro!: div_is)
  qed
  show "l div 2 ^ nat (if r \<ge> 32 then 31 else r) = l div 2 ^ nat r"
  proof (cases "32 \<le> r")
    case True
    then show ?thesis using far [of 31] far [of "nat r"] by simp
  qed simp
  have "(1::int) \<le> 2 ^ nat r" by simp
  then have "l < 1073741824 * 2 ^ nat r" "\<not> l < - 1073741824 * 2 ^ nat r" using assms(1) unfolding small_def by linarith+
  then show "small (l div 2 ^ nat r)"
    using div_less_iff_mult [of "2 ^ nat r" l "1073741824"] div_less_iff_mult [of "2 ^ nat r" l "- 1073741824"] by (simp add: small_def)
qed

lemma div_word: "0 < r \<Longrightarrow> \<bar>l\<bar> < 2 ^ 31 \<Longrightarrow> - (2 ^ 31) \<le> l div r \<and> l div r < 2 ^ 31" for l r :: int
  using div_less_iff_mult [of r l "2 ^ 31"] div_less_iff_mult [of r l "- (2 ^ 31)"] by simp linarith

lemma int_answerI: "small v \<Longrightarrow> int_answer h (Inr v) (ret (Some (SmallInt v)) h)"
  by (auto simp: int_answer_def)

lemma new_small_id: "small v \<Longrightarrow> MP_OBJ_NEW_SMALL_INT v = SmallInt v"
  by (simp add: MP_OBJ_NEW_SMALL_INT_def small_wrap_id)

lemma small_arith_op_spec:
  assumes s: "small l" "small r" and c: "int_case a l r"
  shows "case small_arith_op w op a l r h of
      Word v \<Rightarrow> py_arith a l r = Inr v \<and> - (2 ^ 31) \<le> v \<and> v < 2 ^ 31
    | Widen \<Rightarrow> a = POWER \<longrightarrow> r \<noteq> 0
    | Out m \<Rightarrow> int_answer h (py_arith a l r) m"
proof (cases a)
  case LSHIFT
  show ?thesis using LSHIFT shift_left_word [of r l] by (auto simp: small_arith_op_def int_answer_def)
next
  case RSHIFT
  show ?thesis using RSHIFT shift_right_word [of l r, OF s(1)] small_range [of "l div 2 ^ nat r"]
    by (cases "r < 0") (simp_all add: small_arith_op_def int_answer_def abs_if)
next
  case MULTIPLY
  then show ?thesis using mul_overflow_iff [OF s] by (simp add: small_arith_op_def new_small_id int_answerI)
next
  case POWER
  then have r: "0 \<le> r" using c by (simp add: int_case_def)
  have z: "power_loop 1 l 0 = Some 1" by (simp add: power_loop.simps [of 1 l 0])
  have one: "small 1" by (simp add: small_def)
  show ?thesis
  proof (cases "power_loop 1 l r")
    case None
    then show ?thesis using POWER r z by (simp add: small_arith_op_def) (use None z in force)
  next
    case (Some v)
    note p = power_loop_spec [OF one s(1) r Some]
    have v: "l ^ nat r = v" "small v" using conjunct1 [OF p] conjunct2 [OF p] by simp_all
    show ?thesis using POWER r Some small_range [OF v(2)] by (simp add: small_arith_op_def v(1))
  qed
next
  case FLOOR_DIVIDE
  have "- (2 ^ 31) \<le> l div r \<and> l div r < 2 ^ 31" if "r \<noteq> 0"
    using div_word [of "- r" "- l"] div_word [of r l] s(1) that by (cases "0 < r") (auto simp: small_def)
  then show ?thesis using FLOOR_DIVIDE s by (auto simp: small_arith_op_def int_answer_def small_floor_divide)
next
  case MODULO
  have "\<bar>l mod r\<bar> < \<bar>r\<bar>" if "r \<noteq> 0" using abs_mod_less that by blast
  then show ?thesis using MODULO s by (auto simp: small_arith_op_def int_answer_def small_modulo small_def)
next
  case ADD
  then show ?thesis using s by (auto simp: small_arith_op_def small_def s32_id)
next
  case SUBTRACT
  then show ?thesis using s by (auto simp: small_arith_op_def small_def s32_id)
qed (use c small_bitwise [OF s] small_range in \<open>auto simp: small_arith_op_def int_case_def\<close>)

lemma int_answer_extends: "extends h h' \<Longrightarrow> int_answer h' p m \<Longrightarrow> int_answer h p m"
  by (auto simp: int_answer_def intro: extends_trans split: sum.splits)

lemma generic_int_answer:
  assumes "is_int_obj lhs" "int_answer h0 p (mp_obj_int_binary_op w bop op lhs rhs h)"
  shows "generic_binary_op w bop op lhs rhs h = mp_obj_int_binary_op w bop op lhs rhs h"
  using assms
  by (auto simp: generic_binary_op_def Let_def try_slot_def binary_slot_def then_do_def int_answer_def split: sum.splits)

lemma mp_binary_op_arith:
  assumes ok: "int_ok h lhs" "int_ok h rhs" and op: "arith_of op = Some a" "int_case a (ival h lhs) (ival h rhs)"
    and z: "a = POWER \<longrightarrow> ival h lhs \<noteq> 0 \<or> ival h rhs \<noteq> 0 \<or> (\<exists>l r. lhs = SmallInt l \<and> rhs = SmallInt r)"
  shows "int_answer h (py_arith a (ival h lhs) (ival h rhs)) (mp_binary_op (Suc fuel) w op lhs rhs h)"
proof (cases "\<exists>l r. lhs = SmallInt l \<and> rhs = SmallInt r")
  case True
  then obtain l r where lr: "lhs = SmallInt l" "rhs = SmallInt r" by blast
  have s: "small l" "small r" using ok lr by auto
  have sb: "small_binary_op w op l r h = small_arith_op w op a l r h" "op \<noteq> IS_OP" "op \<noteq> EQUAL" "op \<noteq> NOT_EQUAL" "op \<noteq> EXCEPTION_MATCH" "op \<noteq> IN_OP"
    using op(1) by (cases op; simp add: arith_of_def small_binary_op_def)+
  note sp = small_arith_op_spec [OF s, where a = a and w = w and op = op and h = h]
  show ?thesis
  proof (cases "small_arith_op w op a l r h")
    case (Word v)
    obtain x h' where n: "mp_obj_new_int v h = ret x h'" "extends h h'" "int_ok h' x" "ival h' x = v" "small v \<longleftrightarrow> x = SmallInt v"
      by (rule new_int_value [of v h]) (use sp op(2) lr Word in auto)
    have "mp_binary_op (Suc fuel) w op lhs rhs h = ret (Some x) h'"
      using n(1) sb Word by (simp add: lr mp_obj_new_int_def then_do_def split: if_splits)
    then show ?thesis using n sp op(2) lr Word by (auto simp: int_answer_def)
  next
    case Widen
    obtain h' where n: "mp_obj_new_int_from_ll l h = ret (IntRef (h_next h)) h'" "extends h h'" "int_ok h' (IntRef (h_next h))" "ival h' (IntRef (h_next h)) = l"
      by (rule new_int_from_ll_spec [of l h]) (use s in \<open>auto simp: small_def\<close>)
    have "int_answer h' (py_arith a l r) (mp_obj_int_binary_op w (mp_binary_op fuel w) op (IntRef (h_next h)) rhs h')"
      using mp_obj_int_binary_op_arith [OF n(3), of rhs op a w "mp_binary_op fuel w"] lr s op n(4) sp Widen by simp
    moreover from this have "mp_binary_op (Suc fuel) w op lhs rhs h = mp_obj_int_binary_op w (mp_binary_op fuel w) op (IntRef (h_next h)) rhs h'"
      using sb Widen n(1) generic_int_answer [of "IntRef (h_next h)"] by (simp add: lr then_do_def is_int_obj_def)
    ultimately show ?thesis using int_answer_extends [OF n(2)] lr by simp
  next
    case (Out m)
    then show ?thesis using sp op(2) sb lr by simp
  qed
next
  case False
  have "int_answer h (py_arith a (ival h lhs) (ival h rhs)) (mp_obj_int_binary_op w (mp_binary_op fuel w) op lhs rhs h)"
    using mp_obj_int_binary_op_arith [OF ok False op(1,2)] z False by blast
  moreover have "op \<noteq> IS_OP" "op \<noteq> EQUAL" "op \<noteq> NOT_EQUAL" "op \<noteq> EXCEPTION_MATCH" "op \<noteq> IN_OP"
    using op(1) by (cases op; simp add: arith_of_def)+
  moreover have "is_int_obj lhs" using ok(1) by (cases lhs) (simp_all add: is_int_obj_def)
  note generic_int_answer [OF this calculation(1)]
  ultimately show ?thesis using ok False by (cases lhs; cases rhs; simp add: Let_def)
qed

text \<open>The operators that do not answer with an integer of Python.\<close>

lemma mp_obj_int_binary_op_reverse:
  assumes "int_ok h lhs" "int_ok h rhs" "\<not> (\<exists>l r. lhs = SmallInt l \<and> rhs = SmallInt r)"
  shows "\<exists>h'. mp_obj_int_binary_op w bop (REVERSE a) lhs rhs h = ret None h'"
  using mp_obj_int_binary_op_compare [OF assms, of "REVERSE a" w bop] by (auto simp: arith_of_def)

lemma mp_binary_op_wide:
  assumes "int_ok h lhs" "int_ok h rhs" "\<not> (\<exists>l r. lhs = SmallInt l \<and> rhs = SmallInt r)" "arith_of op = Some a"
    and "mp_obj_int_binary_op w (mp_binary_op fuel w) op lhs rhs h = m" "\<And>h'. m \<noteq> ret None h'"
  shows "mp_binary_op (Suc fuel) w op lhs rhs h = m"
proof -
  have i: "is_int_obj lhs" "is_int_obj rhs" using assms(1,2) by (cases lhs; cases rhs; simp add: is_int_obj_def)+
  have "op \<notin> {IS_OP, EQUAL, NOT_EQUAL, EXCEPTION_MATCH, IN_OP}" using assms(4) by (auto simp: arith_of_def)
  then have "mp_binary_op (Suc fuel) w op lhs rhs h = generic_binary_op w (mp_binary_op fuel w) op lhs rhs h"
    using i assms(3) by (cases lhs; cases rhs; simp add: Let_def is_int_obj_def)
  also have "\<dots> = m"
    using i assms(5,6) by (auto simp: generic_binary_op_def Let_def try_slot_def binary_slot_def then_do_def split: option.splits sum.splits)
  finally show ?thesis .
qed

lemma mp_binary_op_mat_multiply:
  assumes ok: "int_ok h lhs" "int_ok h rhs" and op: "arith_of op = Some MAT_MULTIPLY"
  shows "mp_binary_op (Suc fuel) w op lhs rhs h = raise TypeError"
proof (cases "\<exists>l r. lhs = SmallInt l \<and> rhs = SmallInt r")
  case True
  then show ?thesis using op by (cases op) (auto simp: arith_of_def small_binary_op_def small_arith_op_def)
next
  case False
  define bop where "bop = mp_binary_op fuel w"
  have i: "is_int_obj lhs" "is_int_obj rhs" using ok by (cases lhs; cases rhs; simp add: is_int_obj_def)+
  have none: "\<exists>h'. extends k h' \<and> mp_obj_int_binary_op w bop o' lhs rhs k = ret None h'" if "extends h k" "arith_of o' = Some MAT_MULTIPLY" for k o'
    using mp_obj_int_binary_op_other(6) [OF extends_int_ok [OF that(1) ok(1)] extends_int_ok [OF that(1) ok(2)] False that(2), of w bop] by simp
  have rev: "\<exists>h'. mp_obj_int_binary_op w bop (REVERSE MAT_MULTIPLY) rhs lhs k = ret None h'" if "extends h k" for k
    using mp_obj_int_binary_op_reverse [OF extends_int_ok [OF that ok(2)] extends_int_ok [OF that ok(1)]] False by blast
  obtain h1 where h1: "extends h h1" "mp_obj_int_binary_op w bop op lhs rhs h = ret None h1" using none [of h op] op by auto
  obtain h2 where h2: "extends h1 h2" "mp_obj_int_binary_op w bop (NORMAL MAT_MULTIPLY) lhs rhs h1 = ret None h2"
    using none [OF h1(1), of "NORMAL MAT_MULTIPLY"] by (auto simp: arith_of_def)
  obtain h3 where h3: "mp_obj_int_binary_op w bop (REVERSE MAT_MULTIPLY) rhs lhs h1 = ret None h3" using rev [OF h1(1)] by blast
  obtain h4 where h4: "mp_obj_int_binary_op w bop (REVERSE MAT_MULTIPLY) rhs lhs h2 = ret None h4" using rev [OF extends_trans [OF h1(1) h2(1)]] by blast
  have "op = NORMAL MAT_MULTIPLY \<or> op = INPLACE MAT_MULTIPLY" using op by (cases op) (auto simp: arith_of_def)
  then have "generic_binary_op w bop op lhs rhs h = raise TypeError"
    using h1(2) h2(2) h3 h4 i by (auto simp: generic_binary_op_def Let_def try_slot_def binary_slot_def then_do_def)
  moreover have "mp_binary_op (Suc fuel) w op lhs rhs h = generic_binary_op w bop op lhs rhs h"
    using i False \<open>op = _ \<or> _\<close> by (cases lhs; cases rhs; auto simp: Let_def is_int_obj_def bop_def)
  ultimately show ?thesis by simp
qed

lemma mp_binary_op_other:
  fixes w :: "'f world"
  assumes ok: "int_ok h lhs" "int_ok h rhs" and op: "arith_of op = Some a"
  defines "both_small \<equiv> \<exists>x y. lhs = SmallInt x \<and> rhs = SmallInt y"
  defines "as_float \<equiv> (if both_small then f_of_int (w_fp w) else wide_float (w_fp w))"
  shows "a = LSHIFT \<or> a = RSHIFT \<Longrightarrow> \<bar>ival h rhs\<bar> \<ge> 2 ^ 31 \<Longrightarrow> mp_binary_op (Suc fuel) w op lhs rhs h = raise OverflowError"
    and "a = POWER \<Longrightarrow> ival h lhs = 0 \<Longrightarrow> ival h rhs = 0 \<Longrightarrow> \<not> both_small \<Longrightarrow> int_answer h (Inr 0) (mp_binary_op (Suc fuel) w op lhs rhs h)"
    and "a = POWER \<Longrightarrow> ival h rhs < 0 \<Longrightarrow> \<exists>h'. extends h h' \<and>
      ((\<forall>h''. w_float_op w op (as_float (ival h lhs)) rhs h' \<noteq> ret None h'') \<longrightarrow>
        mp_binary_op (Suc fuel) w op lhs rhs h = w_float_op w op (as_float (ival h lhs)) rhs h')"
    and "a = TRUE_DIVIDE \<Longrightarrow> ival h rhs = 0 \<Longrightarrow> mp_binary_op (Suc fuel) w op lhs rhs h = raise ZeroDivisionError"
    and "a = TRUE_DIVIDE \<Longrightarrow> ival h rhs \<noteq> 0 \<Longrightarrow> \<exists>t h'. mp_binary_op (Suc fuel) w op lhs rhs h = ret (Some (FloatRef t)) h' \<and> extends h h' \<and>
      t < h_next h' \<and> h_float h' t = f_div (w_fp w) (as_float (ival h lhs)) (as_float (ival h rhs))"
    and "a = MAT_MULTIPLY \<Longrightarrow> mp_binary_op (Suc fuel) w op lhs rhs h = raise TypeError"
proof -
  have o: "op = NORMAL a \<or> op = INPLACE a" using op by (cases op) (auto simp: arith_of_def)
  note wide = mp_binary_op_wide [OF ok _ op, of w fuel] and other = mp_obj_int_binary_op_other [OF ok _ op, of w "mp_binary_op fuel w"]
  have small: "\<bar>ival h rhs\<bar> < 2 ^ 31" if both_small using that ok(2) by (auto simp: both_small_def small_def)
  show "a = MAT_MULTIPLY \<Longrightarrow> mp_binary_op (Suc fuel) w op lhs rhs h = raise TypeError"
    using mp_binary_op_mat_multiply [OF ok] op by simp
  show "a = LSHIFT \<or> a = RSHIFT \<Longrightarrow> \<bar>ival h rhs\<bar> \<ge> 2 ^ 31 \<Longrightarrow> mp_binary_op (Suc fuel) w op lhs rhs h = raise OverflowError"
    using wide other(1) small by (cases both_small) (auto simp: both_small_def)
  show "a = POWER \<Longrightarrow> ival h lhs = 0 \<Longrightarrow> ival h rhs = 0 \<Longrightarrow> \<not> both_small \<Longrightarrow> int_answer h (Inr 0) (mp_binary_op (Suc fuel) w op lhs rhs h)"
    using wide [OF _ refl] other(2) unfolding both_small_def int_answer_def by fastforce
  show "a = POWER \<Longrightarrow> ival h rhs < 0 \<Longrightarrow> \<exists>h'. extends h h' \<and>
      ((\<forall>h''. w_float_op w op (as_float (ival h lhs)) rhs h' \<noteq> ret None h'') \<longrightarrow>
        mp_binary_op (Suc fuel) w op lhs rhs h = w_float_op w op (as_float (ival h lhs)) rhs h')"
  proof (cases both_small)
    case True
    then show "a = POWER \<Longrightarrow> ival h rhs < 0 \<Longrightarrow> ?thesis" using o
      by (intro exI [of _ h]) (auto simp: both_small_def as_float_def small_binary_op_def small_arith_op_def)
  next
    case False
    assume a: "a = POWER" "ival h rhs < 0"
    have ns: "\<not> (\<exists>l r. lhs = SmallInt l \<and> rhs = SmallInt r)" using False by (simp add: both_small_def)
    obtain k where "extends h k" "mp_obj_int_binary_op w (mp_binary_op fuel w) op lhs rhs h = w_float_op w op (wide_float (w_fp w) (ival h lhs)) rhs k"
      using other(3) [OF ns a] by blast
    then show ?thesis using wide [OF ns] False unfolding as_float_def by (intro exI [of _ k]) simp
  qed
  show "a = TRUE_DIVIDE \<Longrightarrow> ival h rhs = 0 \<Longrightarrow> mp_binary_op (Suc fuel) w op lhs rhs h = raise ZeroDivisionError"
  proof (cases both_small)
    case True
    then show "a = TRUE_DIVIDE \<Longrightarrow> ival h rhs = 0 \<Longrightarrow> ?thesis" using o by (auto simp: both_small_def small_binary_op_def small_arith_op_def)
  next
    case False
    then show "a = TRUE_DIVIDE \<Longrightarrow> ival h rhs = 0 \<Longrightarrow> ?thesis" using wide other(4) by (auto simp: both_small_def)
  qed
  have float: "\<exists>t k'. mp_obj_new_float v k = ret (Some (FloatRef t)) k' \<and> extends h k' \<and> t < h_next k' \<and> h_float k' t = v" if "extends h k" for v k
    using that by (auto simp: mp_obj_new_float_def extends_def)
  show "a = TRUE_DIVIDE \<Longrightarrow> ival h rhs \<noteq> 0 \<Longrightarrow> \<exists>t h'. mp_binary_op (Suc fuel) w op lhs rhs h = ret (Some (FloatRef t)) h' \<and> extends h h' \<and>
      t < h_next h' \<and> h_float h' t = f_div (w_fp w) (as_float (ival h lhs)) (as_float (ival h rhs))"
  proof (cases both_small)
    case True
    then show "a = TRUE_DIVIDE \<Longrightarrow> ival h rhs \<noteq> 0 \<Longrightarrow> ?thesis"
      using o float [OF extends_refl] by (auto simp: both_small_def as_float_def small_binary_op_def small_arith_op_def)
  next
    case False
    assume a: "a = TRUE_DIVIDE" "ival h rhs \<noteq> 0"
    have ns: "\<not> (\<exists>l r. lhs = SmallInt l \<and> rhs = SmallInt r)" using False by (simp add: both_small_def)
    obtain k where k: "extends h k" "mp_obj_int_binary_op w (mp_binary_op fuel w) op lhs rhs h =
        mp_obj_new_float (f_div (w_fp w) (wide_float (w_fp w) (ival h lhs)) (wide_float (w_fp w) (ival h rhs))) k"
      using other(5) [OF ns a] by blast
    have "mp_binary_op (Suc fuel) w op lhs rhs h = mp_obj_new_float (f_div (w_fp w) (wide_float (w_fp w) (ival h lhs)) (wide_float (w_fp w) (ival h rhs))) k"
      by (rule wide [OF ns k(2)]) (simp add: mp_obj_new_float_def)
    then show ?thesis using float [OF k(1)] False by (simp add: as_float_def)
  qed
qed

section \<open>Comparison\<close>

lemma generic_some:
  assumes "is_int_obj lhs" "mp_obj_int_binary_op w bop op lhs rhs h = ret (Some v) h'"
  shows "generic_binary_op w bop op lhs rhs h = ret (Some v) h'"
  using assms by (simp add: generic_binary_op_def Let_def try_slot_def binary_slot_def then_do_def)

lemma int_ok_is_int: "int_ok h x \<Longrightarrow> is_int_obj x"
  by (cases x) (simp_all add: is_int_obj_def)

lemma mp_binary_op_not_small:
  assumes "is_int_obj lhs" "is_int_obj rhs" "\<not> (\<exists>l r. lhs = SmallInt l \<and> rhs = SmallInt r)"
    and "op \<notin> {IS_OP, EQUAL, NOT_EQUAL, EXCEPTION_MATCH, IN_OP}"
  shows "mp_binary_op (Suc fuel) w op lhs rhs h = generic_binary_op w (mp_binary_op fuel w) op lhs rhs h"
  using assms by (cases lhs; cases rhs; simp add: Let_def is_int_obj_def)

lemma mp_binary_op_compare:
  assumes ok: "int_ok h lhs" "int_ok h rhs" and op: "op \<in> {LESS, MORE, LESS_EQUAL, MORE_EQUAL}" and c: "py_compare op (ival h lhs) (ival h rhs) = Some b"
  obtains h' where "mp_binary_op (Suc fuel) w op lhs rhs h = ret (Some (BoolObj b)) h'" "extends h h'"
proof (cases "\<exists>l r. lhs = SmallInt l \<and> rhs = SmallInt r")
  case True
  then obtain l r where lr: "lhs = SmallInt l" "rhs = SmallInt r" by blast
  have "mp_binary_op (Suc fuel) w op lhs rhs h = ret (Some (BoolObj b)) h"
    using op c lr by (auto simp: small_binary_op_def)
  then show thesis by (rule that) simp
next
  case False
  have "arith_of op = None" "op \<noteq> DIVMOD" using op by (auto simp: arith_of_def)
  then obtain h' where h': "mp_obj_int_binary_op w (mp_binary_op fuel w) op lhs rhs h = ret (map_option BoolObj (py_compare op (ival h lhs) (ival h rhs))) h'" "extends h h'"
    by (rule mp_obj_int_binary_op_compare [OF ok False])
  then have "mp_binary_op (Suc fuel) w op lhs rhs h = ret (Some (BoolObj b)) h'"
    using c op False ok by (subst mp_binary_op_not_small) (auto simp: int_ok_is_int intro!: generic_some)
  then show thesis using h'(2) by (rule that)
qed

lemma eq_pass_int:
  assumes ok: "int_ok h o1" "int_ok h o2" and ns: "\<not> (\<exists>l r. o1 = SmallInt l \<and> o2 = SmallInt r)" and op: "op \<in> {EQUAL, NOT_EQUAL}"
  obtains h' where "eq_pass w bop op o1 o2 h = ret (Some (BoolObj ((op = NOT_EQUAL) \<noteq> (ival h o1 = ival h o2)))) h'" "extends h h'"
proof -
  note i = int_ok_is_int [OF ok(1)] int_ok_is_int [OF ok(2)]
  have "arith_of EQUAL = None" "EQUAL \<noteq> DIVMOD" by (simp_all add: arith_of_def)
  then obtain h' where "mp_obj_int_binary_op w bop EQUAL o1 o2 h = ret (map_option BoolObj (py_compare EQUAL (ival h o1) (ival h o2))) h'" "extends h h'"
    by (rule mp_obj_int_binary_op_compare [OF ok ns])
  then show thesis using i op
    by (intro that [of h']) (auto simp: eq_pass_def eq_flags_def same_type_def binary_slot_def then_do_def mp_obj_is_true_def)
qed

lemma mp_binary_op_equal:
  assumes ok: "int_ok h o1" "int_ok h o2" and op: "op \<in> {EQUAL, NOT_EQUAL}"
  obtains h' where "mp_binary_op (Suc fuel) w op o1 o2 h = ret (Some (BoolObj ((op = NOT_EQUAL) \<noteq> (ival h o1 = ival h o2)))) h'" "extends h h'"
proof -
  note i = int_ok_is_int [OF ok(1)] int_ok_is_int [OF ok(2)]
  define bop where "bop = mp_binary_op fuel w"
  have run: "mp_binary_op (Suc fuel) w op o1 o2 h = mp_obj_equal_not_equal w bop op o1 o2 h" using op by (auto simp: bop_def)
  have str: "\<not> is_str w o1" using i by (cases o1) (simp_all add: is_str_def is_int_obj_def)
  show thesis
  proof (cases "o1 = o2")
    case True
    then have "mp_obj_equal_not_equal w bop op o1 o2 h = ret (Some (BoolObj ((op = NOT_EQUAL) \<noteq> True))) h"
      using i by (simp add: mp_obj_equal_not_equal_def eq_flags_def)
    then show thesis using that [of h] True run by simp
  next
    case ne: False
    show thesis
    proof (cases o1)
      case (SmallInt l)
      show thesis
      proof (cases o2)
        case (SmallInt r)
        then have "mp_obj_equal_not_equal w bop op o1 o2 h = ret (Some (BoolObj ((op = NOT_EQUAL) \<noteq> False))) h"
          using ne \<open>o1 = SmallInt l\<close> str by (simp add: mp_obj_equal_not_equal_def)
        then show thesis using that [of h] run ne SmallInt \<open>o1 = SmallInt l\<close> by simp
      next
        case (IntRef b)
        obtain h' where "eq_pass w bop op o2 o1 h = ret (Some (BoolObj ((op = NOT_EQUAL) \<noteq> (ival h o2 = ival h o1)))) h'" "extends h h'"
          by (rule eq_pass_int [OF ok(2,1) _ op]) (use IntRef in auto)
        then show thesis using that [of h'] run ne IntRef SmallInt str
          by (simp add: mp_obj_equal_not_equal_def then_do_def eq_commute [of l])
      qed (use i in \<open>simp_all add: is_int_obj_def\<close>)
    next
      case (IntRef a)
      obtain h' where "eq_pass w bop op o1 o2 h = ret (Some (BoolObj ((op = NOT_EQUAL) \<noteq> (ival h o1 = ival h o2)))) h'" "extends h h'"
        by (rule eq_pass_int [OF ok _ op]) (use IntRef in auto)
      then show thesis using that [of h'] run ne IntRef str by (simp add: mp_obj_equal_not_equal_def then_do_def)
    qed (use i in \<open>simp_all add: is_int_obj_def\<close>)
  qed
qed

section \<open>Division with remainder\<close>

definition pair_answer :: "'f heap \<Rightarrow> int \<Rightarrow> int \<Rightarrow> (pyobj option, 'f) mres \<Rightarrow> bool" where
  "pair_answer h v1 v2 m \<longleftrightarrow> (\<exists>t h' q r. m = ret (Some (TupleRef t)) h' \<and> extends h h' \<and> t < h_next h' \<and> h_tuple h' t = [q, r]
     \<and> int_ok h' q \<and> int_ok h' r \<and> ival h' q = v1 \<and> ival h' r = v2)"

lemma small_mod: "small r \<Longrightarrow> r \<noteq> 0 \<Longrightarrow> small (l mod r)"
  using abs_mod_less [of r l] pos_mod_sign [of r l] neg_mod_sign [of r l] by (auto simp: small_def)

lemma small_div:
  assumes "small l" "small r" "r \<noteq> 0" "l \<noteq> - 1073741824 \<or> r \<noteq> -1"
  shows "small (l div r)"
proof -
  have pos: "- 1073741824 \<le> a div b \<and> a div b < 1073741824" if "0 < b" "a < 1073741824 * b" "- 1073741824 * b \<le> a" for a b :: int
    using div_less_iff_mult [of b a 1073741824] div_less_iff_mult [of b a "- 1073741824"] that by simp
  show ?thesis
  proof (cases "0 < r")
    case True
    then show ?thesis using pos [of r l] assms(1) by (auto simp: small_def)
  next
    case False
    then have r: "0 < - r" using assms(3) by simp
    have "- l < 1073741824 * - r" using assms r by (cases "r = -1") (auto simp: small_def)
    then show ?thesis using pos [OF r, of "- l"] assms(1) r by (auto simp: small_def)
  qed
qed

lemma mp_binary_op_divmod:
  assumes ok: "int_ok h lhs" "int_ok h rhs"
  shows "ival h rhs = 0 \<Longrightarrow> mp_binary_op (Suc fuel) w DIVMOD lhs rhs h = raise ZeroDivisionError"
    "ival h rhs \<noteq> 0 \<Longrightarrow> lhs \<noteq> SmallInt (- 1073741824) \<or> rhs \<noteq> SmallInt (-1) \<Longrightarrow>
       pair_answer h (ival h lhs div ival h rhs) (ival h lhs mod ival h rhs) (mp_binary_op (Suc fuel) w DIVMOD lhs rhs h)"
proof -
  note i = int_ok_is_int [OF ok(1)] int_ok_is_int [OF ok(2)]
  note d = mp_obj_int_binary_op_divmod [OF ok]
  have wide: "mp_binary_op (Suc fuel) w DIVMOD lhs rhs h = generic_binary_op w (mp_binary_op fuel w) DIVMOD lhs rhs h"
    if "\<not> (\<exists>l r. lhs = SmallInt l \<and> rhs = SmallInt r)"
    by (rule mp_binary_op_not_small [OF i that]) simp
  { assume z: "ival h rhs = 0"
    show "mp_binary_op (Suc fuel) w DIVMOD lhs rhs h = raise ZeroDivisionError"
    proof (cases "\<exists>l r. lhs = SmallInt l \<and> rhs = SmallInt r")
      case True
      then show ?thesis using z by (auto simp: small_binary_op_def)
    next
      case False
      show ?thesis using wide [OF False] d(1) [OF False z] i
        by (simp add: generic_binary_op_def Let_def try_slot_def binary_slot_def then_do_def)
    qed }
  { assume nz: "ival h rhs \<noteq> 0" and nm: "lhs \<noteq> SmallInt (- 1073741824) \<or> rhs \<noteq> SmallInt (-1)"
    show "pair_answer h (ival h lhs div ival h rhs) (ival h lhs mod ival h rhs) (mp_binary_op (Suc fuel) w DIVMOD lhs rhs h)"
    proof (cases "\<exists>l r. lhs = SmallInt l \<and> rhs = SmallInt r")
      case True
      then obtain l r where lr: "lhs = SmallInt l" "rhs = SmallInt r" by blast
      have s: "small l" "small r" "r \<noteq> 0" "small (l div r)" "small (l mod r)"
        using ok nz nm lr small_div [of l r] small_mod [of r l] by auto
      define h' where "h' = h\<lparr>h_next := Suc (h_next h), h_tuple := (h_tuple h)(h_next h := [SmallInt (l div r), SmallInt (l mod r)])\<rparr>"
      have "mp_binary_op (Suc fuel) w DIVMOD lhs rhs h = ret (Some (TupleRef (h_next h))) h'"
        using s by (simp add: lr small_binary_op_def small_floor_divide small_modulo new_small_id mp_obj_new_tuple_def h'_def)
      moreover have "extends h h'" "h_next h < h_next h'" "h_tuple h' (h_next h) = [SmallInt (l div r), SmallInt (l mod r)]"
        by (simp_all add: h'_def extends_def)
      ultimately show ?thesis using s lr by (auto simp: pair_answer_def)
    next
      case False
      obtain t h' q r where t: "mp_obj_int_binary_op w (mp_binary_op fuel w) DIVMOD lhs rhs h = ret (Some (TupleRef t)) h'" "extends h h'" "t < h_next h'"
        "h_tuple h' t = [q, r]" "int_ok h' q" "int_ok h' r" "ival h' q = ival h lhs div ival h rhs" "ival h' r = ival h lhs mod ival h rhs"
        using d(2) [OF False nz, of w "mp_binary_op fuel w"] by blast
      show ?thesis unfolding pair_answer_def wide [OF False] using generic_some [OF i(1) t(1)] t(2-) by blast
    qed }
qed

lemma divmod_min_wraps:
  "\<exists>h'. mp_binary_op (Suc fuel) w DIVMOD (SmallInt (- 1073741824)) (SmallInt (-1)) h = ret (Some (TupleRef (h_next h))) h'
     \<and> h_tuple h' (h_next h) = [SmallInt (- 1073741824), SmallInt 0]"
  by (simp add: small_binary_op_def small_floor_divide small_modulo small_def mp_obj_new_tuple_def MP_OBJ_NEW_SMALL_INT_def small_wrap_mod)

section \<open>Unary operators\<close>

lemma mp_unary_op_spec:
  assumes ok: "int_ok h x" and v: "py_unary op (ival h x) = Some v"
  obtains y h' where "mp_unary_op w op x h = ret (Some y) h'" "extends h h'" "int_ok h' y" "ival h' y = v"
proof -
  note close = that
  have op: "op \<in> {POSITIVE, NEGATIVE, INVERT, ABS_OP, INT_MAYBE}" using v by (cases op) auto
  show thesis
  proof (cases x)
    case (SmallInt a)
    have s: "small a" using ok SmallInt by simp
    have here: thesis if "mp_unary_op w op x h = ret (Some (SmallInt v)) h" "small v"
      using that by (intro close [of "SmallInt v" h]) simp_all
    have wide: thesis if m: "mp_unary_op w op x h = then_do (mp_obj_new_int v h) (\<lambda>x h. ret (Some x) h)" "v = 1073741824"
    proof -
      obtain y h' where "mp_obj_new_int v h = ret y h'" "extends h h'" "int_ok h' y" "ival h' y = v"
        by (rule new_int_value [of v h]) (use m(2) in simp_all)
      then show thesis using m(1) by (intro close [of y h']) (simp_all add: then_do_def)
    qed
    have n: "small (- a)" if "a \<noteq> - 1073741824" using s that by (auto simp: small_def)
    have i: "small (- a - 1)" using s by (auto simp: small_def)
    show thesis
    proof (cases "a = - 1073741824 \<and> op \<in> {NEGATIVE, ABS_OP}")
      case True
      then show ?thesis using v SmallInt by (intro wide) (auto simp: mp_unary_op_def)
    next
      case False
      then show ?thesis using v SmallInt op s n i
        by (intro here) (auto simp: mp_unary_op_def new_small_id not_eq_complement abs_if split: if_splits)
    qed
  next
    case (IntRef a)
    obtain y h' where "mp_obj_int_unary_op op a h = ret (Some y) h'" "extends h h'" "int_ok h' y" "ival h' y = v"
      by (rule mp_obj_int_unary_op_spec [of h a op v]) (use ok v IntRef in simp_all)
    then show thesis using IntRef op by (intro close [of y h']) (auto simp: mp_unary_op_def then_do_def)
  qed (use ok in auto)
qed

lemma mp_obj_is_true_spec: "int_ok h x \<Longrightarrow> mp_obj_is_true w x h \<longleftrightarrow> ival h x \<noteq> 0"
  by (cases x) (auto simp: mp_obj_is_true_def mpz_is_zero_def zval_zero)

section \<open>What the operators do\<close>



text \<open>C7: The six comparisons of two integers, in either representation, return the truth value
  of the comparison of their values and leave every object as it was.
\<close>

theorem int_comparisons_correct:
  assumes "int_ok h lhs" "int_ok h rhs"
    and "(op, b) \<in> {(LESS, ival h lhs < ival h rhs), (MORE, ival h lhs > ival h rhs), (LESS_EQUAL, ival h lhs \<le> ival h rhs),
      (MORE_EQUAL, ival h lhs \<ge> ival h rhs), (EQUAL, ival h lhs = ival h rhs), (NOT_EQUAL, ival h lhs \<noteq> ival h rhs)}"
  shows "\<exists>h'. mp_binary_op (Suc fuel) w op lhs rhs h = ret (Some (BoolObj b)) h' \<and> extends h h'"
proof (cases "op \<in> {EQUAL, NOT_EQUAL}")
  case True
  obtain h' where "mp_binary_op (Suc fuel) w op lhs rhs h = ret (Some (BoolObj ((op = NOT_EQUAL) \<noteq> (ival h lhs = ival h rhs)))) h'" "extends h h'"
    by (rule mp_binary_op_equal [OF assms(1,2) True])
  then show ?thesis using assms(3) True by (intro exI [of _ h'] conjI) auto
next
  case False
  then have o: "op \<in> {LESS, MORE, LESS_EQUAL, MORE_EQUAL}" and c: "py_compare op (ival h lhs) (ival h rhs) = Some b" using assms(3) by auto
  obtain h' where "mp_binary_op (Suc fuel) w op lhs rhs h = ret (Some (BoolObj b)) h'" "extends h h'"
    by (rule mp_binary_op_compare [OF assms(1,2) o c])
  then show ?thesis by blast
qed

theorem int_comparisons_correct_witness:
  "\<forall>w :: nat world. (\<exists>h'. mp_binary_op 1 w LESS (SmallInt 7) (IntRef 0) sample_heap = ret (Some (BoolObj False)) h' \<and> extends sample_heap h')
     \<and> (\<exists>h'. mp_binary_op 1 w NOT_EQUAL (SmallInt 7) (IntRef 0) sample_heap = ret (Some (BoolObj True)) h' \<and> extends sample_heap h')"
  using int_comparisons_correct [of sample_heap "SmallInt 7" "IntRef 0" LESS False 0] int_comparisons_correct [of sample_heap "SmallInt 7" "IntRef 0" NOT_EQUAL True 0]
    sample_ok(1,3) by (simp add: small_def del: int_ok.simps(2) ival.simps(2))

text \<open>C8: \<open>divmod\<close> of two integers returns a pair of the floored quotient and the remainder with
  the sign of the divisor, or raises on a zero divisor.  The one exception is the smallest
  small integer divided by minus one, where the quotient wraps around to the dividend.
\<close>

theorem int_divmod_correct:
  assumes "int_ok h lhs" "int_ok h rhs"
  shows "if ival h rhs = 0 then mp_binary_op (Suc fuel) w DIVMOD lhs rhs h = raise ZeroDivisionError
    else if lhs = SmallInt (- 1073741824) \<and> rhs = SmallInt (-1)
    then \<exists>h'. mp_binary_op (Suc fuel) w DIVMOD lhs rhs h = ret (Some (TupleRef (h_next h))) h' \<and> h_tuple h' (h_next h) = [lhs, SmallInt 0]
    else \<exists>t h' q r. mp_binary_op (Suc fuel) w DIVMOD lhs rhs h = ret (Some (TupleRef t)) h' \<and> extends h h' \<and> h_tuple h' t = [q, r]
      \<and> int_ok h' q \<and> int_ok h' r \<and> ival h' q = ival h lhs div ival h rhs \<and> ival h' r = ival h lhs mod ival h rhs"
  using mp_binary_op_divmod [OF assms, of fuel w] divmod_min_wraps [of fuel w h] unfolding pair_answer_def
  by (auto simp del: mp_binary_op.simps)

theorem int_divmod_correct_witness:
  "\<forall>w :: nat world. \<exists>t h' q r. mp_binary_op 1 w DIVMOD (IntRef 0) (SmallInt (-7)) sample_heap = ret (Some (TupleRef t)) h' \<and> extends sample_heap h'
     \<and> h_tuple h' t = [q, r] \<and> int_ok h' q \<and> int_ok h' r \<and> ival h' q = 613566756 \<and> ival h' r = -4"
proof
  fix w :: "nat world"
  show "\<exists>t h' q r. mp_binary_op 1 w DIVMOD (IntRef 0) (SmallInt (-7)) sample_heap = ret (Some (TupleRef t)) h' \<and> extends sample_heap h'
     \<and> h_tuple h' t = [q, r] \<and> int_ok h' q \<and> int_ok h' r \<and> ival h' q = 613566756 \<and> ival h' r = -4"
    using int_divmod_correct [of sample_heap "IntRef 0" "SmallInt (-7)" 0 w] sample_ok(1,3)
    by (simp add: small_def del: int_ok.simps(2) ival.simps(2) mp_binary_op.simps)
qed

text \<open>C27: The unary operators \<open>+\<close>, \<open>-\<close>, \<open>~\<close>, \<open>abs\<close> and the conversion to an integer return an
  integer object with the value Python defines, for both representations, and change no
  existing object; in particular the smallest small integer is negated without overflow.
\<close>

theorem int_unary_correct:
  assumes "int_ok h x" "(op, v) \<in> {(POSITIVE, ival h x), (NEGATIVE, - ival h x), (INVERT, - ival h x - 1), (ABS_OP, \<bar>ival h x\<bar>), (INT_MAYBE, ival h x)}"
  shows "\<exists>y h'. mp_unary_op w op x h = ret (Some y) h' \<and> extends h h' \<and> int_ok h' y \<and> ival h' y = v"
proof -
  have "py_unary op (ival h x) = Some v" using assms(2) by auto
  then obtain y h' where "mp_unary_op w op x h = ret (Some y) h'" "extends h h'" "int_ok h' y" "ival h' y = v"
    by (rule mp_unary_op_spec [OF assms(1)])
  then show ?thesis by blast
qed

theorem int_unary_correct_witness:
  "\<forall>w :: nat world. \<exists>y h'. mp_unary_op w NEGATIVE (SmallInt (- 1073741824)) sample_heap = ret (Some y) h'
     \<and> extends sample_heap h' \<and> int_ok h' y \<and> ival h' y = 1073741824"
  using int_unary_correct [of sample_heap "SmallInt (- 1073741824)" NEGATIVE 1073741824] by (simp add: small_def)

end
