(* ===== verification/IntKeys.thy ===== *)
theory IntKeys
  imports HashTable Operators
begin

text \<open>
  The tables of \<open>py/map.c\<close> with integer objects as keys: their equality is the interpreter's, their
  hash the one of its hash operator, for both representations of an integer.  This
  interprets the contract of hashing, so that the properties of the tables can be stated for the
  keys of a program: what a map and a set do, and what is left of a set when memory runs out.
\<close>

section \<open>Integers as keys\<close>

text \<open>\<open>mp_obj_equal\<close>, and the hash as \<open>mp_map_lookup\<close> and \<open>mp_set_lookup\<close> compute it.\<close>

definition mp_obj_equal :: "'f world \<Rightarrow> 'f heap \<Rightarrow> pyobj \<Rightarrow> pyobj \<Rightarrow> bool" where
  "mp_obj_equal w h o1 o2 \<longleftrightarrow>
     (case mp_obj_equal_not_equal w (mp_binary_op 1 w) EQUAL o1 o2 h of
        Some (Inr (Some r, _)) \<Rightarrow> r = BoolObj True
      | _ \<Rightarrow> False)"

definition obj_hash :: "'f world \<Rightarrow> 'f heap \<Rightarrow> pyobj \<Rightarrow> nat" where
  "obj_hash w h x =
     (case mp_unary_op w HASH x h of
        Some (Inr (Some (SmallInt v), _)) \<Rightarrow> nat (u32 v)
      | _ \<Rightarrow> 0)"

definition int_keys :: "'f world \<Rightarrow> 'f heap \<Rightarrow> pyobj key_ops" where
  "int_keys w h = \<lparr>k_eq = mp_obj_equal w h, k_hash = obj_hash w h, k_qstr = (\<lambda>_. False), k_str = (\<lambda>_. False)\<rparr>"

lemma int_keys_simps [simp]:
  "k_eq (int_keys w h) = mp_obj_equal w h" "k_hash (int_keys w h) = obj_hash w h"
  "\<not> k_qstr (int_keys w h) x" "\<not> k_str (int_keys w h) x"
  by (simp_all add: int_keys_def)

lemma mp_obj_equal_int:
  assumes "int_ok h x" "int_ok h y"
  shows "mp_obj_equal w h x y \<longleftrightarrow> ival h x = ival h y"
proof -
  obtain h' where "mp_binary_op (Suc 1) w EQUAL x y h = ret (Some (BoolObj ((EQUAL = NOT_EQUAL) \<noteq> (ival h x = ival h y)))) h'"
    by (rule mp_binary_op_equal [OF assms, of EQUAL 1 w]) simp
  then show ?thesis by (simp add: mp_obj_equal_def)
qed

lemma obj_hash_int:
  assumes "int_ok h x"
  shows "obj_hash w h x = nat (u32 (small_wrap (s32 (ival h x))))"
proof (cases x)
  case (SmallInt v)
  then have "small v" using assms by simp
  then have "small_wrap (s32 v) = v" by (simp add: small_wrap_id s32_id small_def)
  then show ?thesis using SmallInt by (simp add: obj_hash_def mp_unary_op_def)
next
  case (IntRef a)
  then show ?thesis
    using assms by (simp add: obj_hash_def mp_unary_op_def mp_obj_int_unary_op_def then_do_def MP_OBJ_NEW_SMALL_INT_def mpz_hash_spec)
qed (use assms in simp_all)

interpretation ik: hash_keys "int_keys w h" "int_ok h" for w :: "'f world" and h :: "'f heap"
proof unfold_locales
  fix x y z
  assume x: "int_ok h x"
  then show "k_eq (int_keys w h) x x" by (simp add: mp_obj_equal_int)
  assume y: "int_ok h y"
  show "k_eq (int_keys w h) x y \<Longrightarrow> k_eq (int_keys w h) y x" using x y by (simp add: mp_obj_equal_int)
  show "k_eq (int_keys w h) x y \<Longrightarrow> k_hash (int_keys w h) x = k_hash (int_keys w h) y"
    using x y by (simp add: mp_obj_equal_int obj_hash_int)
  assume "int_ok h z"
  then show "k_eq (int_keys w h) x y \<Longrightarrow> k_eq (int_keys w h) y z \<Longrightarrow> k_eq (int_keys w h) x z"
    using x y by (simp add: mp_obj_equal_int)
qed simp_all

section \<open>Maps and sets\<close>

text \<open>
  A map and a set that are full, of two integers whose probing starts at the same slot.
\<close>

definition sample_keys :: "pyobj slotkey list" where
  "sample_keys = [Key (SmallInt 4), Key (IntRef 0)]"

definition sample_map :: "(pyobj, nat) mp_map" where
  "sample_map = \<lparr>all_keys_are_qstrs = False, is_fixed = False, is_ordered = False, m_used = 2, m_alloc = 2,
     m_table = [(Key (SmallInt 4), Some 10), (Key (IntRef 0), Some 20)]\<rparr>"

definition sample_set :: "pyobj mp_set" where
  "sample_set = \<lparr>s_alloc = 2, s_used = 2, s_table = sample_keys\<rparr>"

lemma sample_int_ok: "int_ok sample_heap (SmallInt 4)" "int_ok sample_heap (SmallInt 7)"
  by (simp_all add: small_def)

lemma sample_keys_inv: "keys_inv (int_keys w sample_heap) (int_ok sample_heap) sample_keys"
proof -
  note ok = sample_ok(1) sample_int_ok(1)
  have eq: "\<not> mp_obj_equal w sample_heap (SmallInt 4) (IntRef 0)" "\<not> mp_obj_equal w sample_heap (IntRef 0) (SmallInt 4)"
    using mp_obj_equal_int [OF ok(2,1), of w] mp_obj_equal_int [OF ok(1,2), of w] sample_ok(3) by (simp_all del: ival.simps(2))
  have "k \<noteq> NullKey" if "k \<in> set sample_keys" for k using that by (auto simp: sample_keys_def)
  then have "nth_slot sample_keys s j \<noteq> NullKey" for s j
    using nth_mem [of "(s + j) mod length sample_keys" sample_keys] by (simp add: sample_keys_def)
  then show ?thesis
    unfolding keys_inv_def using ok eq
    by (simp add: sample_keys_def less_Suc_eq del: int_ok.simps)
qed

lemma sample_tables_inv:
  "map_inv (int_keys w sample_heap) (int_ok sample_heap) sample_map"
  "set_inv (int_keys w sample_heap) (int_ok sample_heap) sample_set"
  using sample_keys_inv [of w] by (simp_all add: map_inv_def set_inv_def sample_map_def sample_set_def sample_keys_def)

text \<open>C3: A hash map behaves as a finite map, for keys whose equality and hash obey the contract of
  hashing.  In a map that is well formed, a lookup returns without changing anything, with the slot
  a linear search through the whole table finds; adding a key returns its slot, with the
  value it had, if any, and storing into that slot changes the value of this key only, or it
  raises MemoryError because the table was full and could not grow, and the map is as it was;
  removing returns the slot with the value and takes away this key only.  The map stays
  well formed.\<close>

theorem mp_map_correct:
  assumes "hash_keys ops valid" "map_inv ops valid m" "valid x"
  shows "(\<exists>r. mp_map_lookup 2 ops room m x LOOKUP = Some (m, Got r) \<and>
        table_get ops (m_table m) x = map_option (\<lambda>pos. snd (m_table m ! pos)) r) \<and>
    (mp_map_lookup 2 ops room m x ADD_IF_NOT_FOUND = Some (m, MemoryError) \<and> table_get ops (m_table m) x = None \<and>
        m_used m = m_alloc m \<and> \<not> room (get_hash_alloc_greater_or_equal_to (m_alloc m + 1)) \<or>
      (\<exists>m' pos. mp_map_lookup 2 ops room m x ADD_IF_NOT_FOUND = Some (m', Got (Some pos)) \<and>
        snd (m_table m' ! pos) = (case table_get ops (m_table m) x of Some v \<Rightarrow> v | None \<Rightarrow> None) \<and>
        (\<forall>v. map_inv ops valid (set_value m' pos v) \<and>
          (\<forall>y. valid y \<longrightarrow> table_get ops (m_table (set_value m' pos v)) y =
            (if k_eq ops x y then Some v else table_get ops (m_table m) y))))) \<and>
    (\<exists>m' r. mp_map_lookup 2 ops room m x REMOVE_IF_FOUND = Some (m', Got r) \<and> map_inv ops valid m' \<and>
        table_get ops (m_table m) x = map_option (\<lambda>pos. snd (m_table m' ! pos)) r \<and>
        (\<forall>y. valid y \<longrightarrow> table_get ops (m_table m') y =
          (if k_eq ops x y then None else table_get ops (m_table m) y)))"
  unfolding numeral_2_eq_2
proof (intro conjI)
  show "\<exists>r. mp_map_lookup (Suc (Suc 0)) ops room m x LOOKUP = Some (m, Got r) \<and>
      table_get ops (m_table m) x = map_option (\<lambda>pos. snd (m_table m ! pos)) r"
    by (rule hash_keys.map_lookup_finds [OF assms, of "Suc 0" room]) blast
  show "\<exists>m' r. mp_map_lookup (Suc (Suc 0)) ops room m x REMOVE_IF_FOUND = Some (m', Got r) \<and> map_inv ops valid m' \<and>
      table_get ops (m_table m) x = map_option (\<lambda>pos. snd (m_table m' ! pos)) r \<and>
      (\<forall>y. valid y \<longrightarrow> table_get ops (m_table m') y = (if k_eq ops x y then None else table_get ops (m_table m) y))"
    by (rule hash_keys.map_lookup_removes [OF assms, of "Suc 0" room]) blast
  show "mp_map_lookup (Suc (Suc 0)) ops room m x ADD_IF_NOT_FOUND = Some (m, MemoryError) \<and> table_get ops (m_table m) x = None \<and>
        m_used m = m_alloc m \<and> \<not> room (get_hash_alloc_greater_or_equal_to (m_alloc m + 1)) \<or>
      (\<exists>m' pos. mp_map_lookup (Suc (Suc 0)) ops room m x ADD_IF_NOT_FOUND = Some (m', Got (Some pos)) \<and>
        snd (m_table m' ! pos) = (case table_get ops (m_table m) x of Some v \<Rightarrow> v | None \<Rightarrow> None) \<and>
        (\<forall>v. map_inv ops valid (set_value m' pos v) \<and>
          (\<forall>y. valid y \<longrightarrow> table_get ops (m_table (set_value m' pos v)) y =
            (if k_eq ops x y then Some v else table_get ops (m_table m) y))))"
    by (rule hash_keys.map_lookup_adds [OF assms, of 0 room]) (auto simp only: slot_for_def)
qed

theorem mp_map_correct_witness:
  "\<forall>w :: nat world. \<exists>m' pos. mp_map_lookup 2 (int_keys w sample_heap) (\<lambda>_. True) sample_map (SmallInt 7) ADD_IF_NOT_FOUND = Some (m', Got (Some pos)) \<and>
     table_get (int_keys w sample_heap) (m_table (set_value m' pos (Some 30))) (SmallInt 7) = Some (Some 30) \<and>
     table_get (int_keys w sample_heap) (m_table (set_value m' pos (Some 30))) (IntRef 0) = Some (Some 20)"
proof
  fix w :: "nat world"
  let ?ops = "int_keys w sample_heap"
  have ne: "\<not> mp_obj_equal w sample_heap (SmallInt 7) (IntRef 0)" "\<not> mp_obj_equal w sample_heap (SmallInt 4) (IntRef 0)"
    using sample_ok(1,3) sample_int_ok by (simp_all add: mp_obj_equal_int del: ival.simps(2) int_ok.simps)
  have eq: "mp_obj_equal w sample_heap (SmallInt 7) (SmallInt 7)" "mp_obj_equal w sample_heap (IntRef 0) (IntRef 0)"
    using sample_ok(1) sample_int_ok by (simp_all add: mp_obj_equal_int del: ival.simps(2) int_ok.simps)
  obtain m' pos where "mp_map_lookup 2 ?ops (\<lambda>_. True) sample_map (SmallInt 7) ADD_IF_NOT_FOUND = Some (m', Got (Some pos))"
    "\<forall>v y. int_ok sample_heap y \<longrightarrow> table_get ?ops (m_table (set_value m' pos v)) y =
       (if k_eq ?ops (SmallInt 7) y then Some v else table_get ?ops (m_table sample_map) y)"
    using mp_map_correct [OF ik.hash_keys_axioms sample_tables_inv(1) sample_int_ok(2), of w "\<lambda>_. True"] by blast
  then show "\<exists>m' pos. mp_map_lookup 2 ?ops (\<lambda>_. True) sample_map (SmallInt 7) ADD_IF_NOT_FOUND = Some (m', Got (Some pos)) \<and>
     table_get ?ops (m_table (set_value m' pos (Some 30))) (SmallInt 7) = Some (Some 30) \<and>
     table_get ?ops (m_table (set_value m' pos (Some 30))) (IntRef 0) = Some (Some 20)"
    using sample_ok(1) sample_int_ok(2) ne eq by (auto simp: sample_map_def simp del: int_ok.simps)
qed

text \<open>C13: A set, for the same keys, behaves as a finite set: looking an element up, with or
  without adding it when it is missing and removing it when it is there, returns the element of the
  set equal to it, or the one added, or none, changes the membership of this element only and
  keeps the set well formed; the one exception is a MemoryError when a full set could not
  grow.  Popping takes away one element, or finds the set empty.\<close>

theorem mp_set_correct:
  assumes "hash_keys ops valid" "set_inv ops valid s" "valid x"
  shows "(\<exists>s'. mp_set_lookup 2 ops room s x add remove = Some (s', MemoryError) \<and> add \<and> \<not> set_has ops s x \<and>
        s_used s = s_alloc s \<and> \<not> room (get_hash_alloc_greater_or_equal_to (s_alloc s + 1)) \<or>
      (\<exists>e. mp_set_lookup 2 ops room s x add remove = Some (s', Got e) \<and> set_inv ops valid s' \<and>
        (if set_has ops s x then \<exists>k. e = Some k \<and> k_eq ops k x else e = (if add then Some x else None)) \<and>
        (\<forall>y. valid y \<longrightarrow> set_has ops s' y =
          (if k_eq ops x y then (if set_has ops s x then \<not> remove else add) else set_has ops s y)))) \<and>
    (mp_set_remove_first s = Some (s, None) \<and> (\<forall>y. \<not> set_has ops s y) \<or>
      (\<exists>s' k. mp_set_remove_first s = Some (s', Some k) \<and> set_inv ops valid s' \<and> valid k \<and> set_has ops s k \<and>
        (\<forall>y. valid y \<longrightarrow> set_has ops s' y = (\<not> k_eq ops k y \<and> set_has ops s y))))"
  unfolding numeral_2_eq_2 mp_set_remove_first_def
proof (rule conjI)
  show "\<exists>s'. mp_set_lookup (Suc (Suc 0)) ops room s x add remove = Some (s', MemoryError) \<and> add \<and> \<not> set_has ops s x \<and>
        s_used s = s_alloc s \<and> \<not> room (get_hash_alloc_greater_or_equal_to (s_alloc s + 1)) \<or>
      (\<exists>e. mp_set_lookup (Suc (Suc 0)) ops room s x add remove = Some (s', Got e) \<and> set_inv ops valid s' \<and>
        (if set_has ops s x then \<exists>k. e = Some k \<and> k_eq ops k x else e = (if add then Some x else None)) \<and>
        (\<forall>y. valid y \<longrightarrow> set_has ops s' y =
          (if k_eq ops x y then (if set_has ops s x then \<not> remove else add) else set_has ops s y)))"
    by (rule hash_keys.set_lookup_correct [OF assms, of 0 room add remove]) blast+
  show "remove_first_from s (s_alloc s) 0 = Some (s, None) \<and> (\<forall>y. \<not> set_has ops s y) \<or>
      (\<exists>s' k. remove_first_from s (s_alloc s) 0 = Some (s', Some k) \<and> set_inv ops valid s' \<and> valid k \<and> set_has ops s k \<and>
        (\<forall>y. valid y \<longrightarrow> set_has ops s' y = (\<not> k_eq ops k y \<and> set_has ops s y)))"
    by (rule hash_keys.remove_first_from_correct [OF assms(1,2), of 0 "s_alloc s"]) (auto simp only: add_0 not_less_zero)
qed

theorem mp_set_correct_witness:
  "\<forall>w :: nat world. \<exists>s' e. mp_set_lookup 2 (int_keys w sample_heap) (\<lambda>_. True) sample_set (SmallInt 7) True False = Some (s', Got e) \<and>
     set_has (int_keys w sample_heap) s' (SmallInt 7) \<and> set_has (int_keys w sample_heap) s' (SmallInt 4)"
proof
  fix w :: "nat world"
  let ?ops = "int_keys w sample_heap"
  have eq: "mp_obj_equal w sample_heap (SmallInt 7) (SmallInt 7)" "mp_obj_equal w sample_heap (SmallInt 4) (SmallInt 4)"
    using sample_int_ok by (simp_all add: mp_obj_equal_int del: int_ok.simps)
  have "\<not> set_has ?ops sample_set (SmallInt 7)" "set_has ?ops sample_set (SmallInt 4)"
    using sample_ok(1,3) sample_int_ok eq
    by (simp_all add: set_has_def sample_set_def sample_keys_def units_def mp_obj_equal_int del: ival.simps(2) int_ok.simps)
  then show "\<exists>s' e. mp_set_lookup 2 ?ops (\<lambda>_. True) sample_set (SmallInt 7) True False = Some (s', Got e) \<and>
     set_has ?ops s' (SmallInt 7) \<and> set_has ?ops s' (SmallInt 4)"
    using mp_set_correct [OF ik.hash_keys_axioms sample_tables_inv(2) sample_int_ok(2), of w "\<lambda>_. True" True False]
      sample_int_ok eq by (auto simp del: int_ok.simps)
qed

text \<open>C14: When a full set cannot grow, adding an element raises MemoryError and leaves the set
  broken: its size is that of the bigger array it did not get, so that any later lookup of
  an element whose hash falls into the missing part reads outside the array.\<close>

theorem mp_set_memory_error:
  assumes "hash_keys ops valid" "set_inv ops valid s" "valid x" "\<not> set_has ops s x" "s_used s = s_alloc s"
    and "\<not> room (get_hash_alloc_greater_or_equal_to (s_alloc s + 1))"
  shows "\<exists>s'. mp_set_lookup 2 ops room s x True remove = Some (s', MemoryError) \<and> s_used s' = 0 \<and> s_table s' = s_table s \<and>
    length (s_table s') < s_alloc s' \<and>
    (\<forall>y l room' a r. s_alloc s \<le> k_hash ops y mod s_alloc s' \<longrightarrow> mp_set_lookup l ops room' s' y a r = None)"
proof (intro exI conjI)
  let ?s = "s\<lparr>s_alloc := get_hash_alloc_greater_or_equal_to (s_alloc s + 1), s_used := 0\<rparr>"
  show "mp_set_lookup 2 ops room s x True remove = Some (?s, MemoryError)"
    unfolding numeral_2_eq_2 by (rule hash_keys.set_full_raises [of ops valid s x room, OF assms])
  show "length (s_table ?s) < s_alloc ?s"
    using hash_alloc_ge [of "s_alloc s + 1"] set_invD(1) [OF assms(2)] by simp
  then show "\<forall>y l room' a r. s_alloc s \<le> k_hash ops y mod s_alloc ?s \<longrightarrow> mp_set_lookup l ops room' ?s y a r = None"
    using set_search_outside [of ?s ops] set_invD(1) [OF assms(2)] by simp
qed simp_all

theorem mp_set_memory_error_witness:
  "\<forall>w :: nat world. \<exists>s'. mp_set_lookup 2 (int_keys w sample_heap) (\<lambda>_. False) sample_set (SmallInt 7) True False = Some (s', MemoryError) \<and>
     s_used s' = 0 \<and> length (s_table s') < s_alloc s'"
proof
  fix w :: "nat world"
  let ?ops = "int_keys w sample_heap"
  have "\<not> set_has ?ops sample_set (SmallInt 7)"
    using sample_ok(1,3) sample_int_ok
    by (simp add: set_has_def sample_set_def sample_keys_def units_def mp_obj_equal_int del: ival.simps(2) int_ok.simps)
  moreover have "s_used sample_set = s_alloc sample_set" by (simp add: sample_set_def)
  ultimately show "\<exists>s'. mp_set_lookup 2 ?ops (\<lambda>_. False) sample_set (SmallInt 7) True False = Some (s', MemoryError) \<and>
     s_used s' = 0 \<and> length (s_table s') < s_alloc s'"
    using mp_set_memory_error [OF ik.hash_keys_axioms sample_tables_inv(2) sample_int_ok(2), of w "\<lambda>_. False" False] by blast
qed

end
