(* ===== verification/DictObj.thy ===== *)
theory DictObj
  imports IntKeys
begin

text \<open>
  Python dictionaries (\<open>py/objdict.c\<close>) on the hash maps of \<open>py/map.c\<close>.  A dictionary is its map;
  its keys are of any type that obeys the contract of hashing, its values of any type.  An
  operation returns the map and a result or an exception; \<open>None\<close> is an execution without a
  defined result, among them the use of an empty slot.  Iterables are the lists of what they
  yield.  Printing, the type tables and the view objects' memory are left out.

  Shown here, for the finite map a dictionary stands for: every operation has the effect that
  Python defines on it, or raises \<open>KeyError\<close>, \<open>TypeError\<close> or \<open>MemoryError\<close>, the last two without
  changing it; iterating visits every entry once; two dictionaries compare equal exactly when
  they stand for the same finite map.
\<close>

section \<open>Dictionaries\<close>

datatype dict_error = Key_Error | Type_Error | Value_Error | Memory_Error

type_synonym ('k, 'v, 'a) dict_result = "(('k, 'v) mp_map \<times> (dict_error + 'a)) option"

text \<open>Looking up and storing, as the C code does with the slot that \<open>mp_map_lookup\<close> returns.\<close>

definition map_find :: "'k key_ops \<Rightarrow> (nat \<Rightarrow> bool) \<Rightarrow> ('k, 'v) mp_map \<Rightarrow> 'k \<Rightarrow> (('k, 'v) mp_map \<times> nat option) option" where
  "map_find ops room m index =
     (case mp_map_lookup 2 ops room m index LOOKUP of
        Some (m', Got elem) \<Rightarrow> Some (m', elem)
      | _ \<Rightarrow> None)"

definition map_put :: "'k key_ops \<Rightarrow> (nat \<Rightarrow> bool) \<Rightarrow> ('k, 'v) mp_map \<Rightarrow> 'k \<Rightarrow> 'v \<Rightarrow> ('k, 'v, unit) dict_result" where
  "map_put ops room m key value =
     (case mp_map_lookup 2 ops room m key ADD_IF_NOT_FOUND of
        Some (m', Got (Some pos)) \<Rightarrow> Some (set_value m' pos (Some value), Inr ())
      | Some (m', MemoryError) \<Rightarrow> Some (m', Inl Memory_Error)
      | _ \<Rightarrow> None)"

subsection \<open>Iteration\<close>

fun next_filled :: "('k, 'v) mp_map \<Rightarrow> nat \<Rightarrow> nat \<Rightarrow> nat option option" where
  "next_filled m 0 i = Some None"
| "next_filled m (Suc n) i =
     (case mp_map_slot_is_filled m i of
        None \<Rightarrow> None
      | Some filled \<Rightarrow> if filled then Some (Some i) else next_filled m n (Suc i))"

text \<open>The slot found; the iteration goes on behind it.\<close>

definition dict_iter_next :: "('k, 'v) mp_map \<Rightarrow> nat \<Rightarrow> nat option option" where
  "dict_iter_next m cur =
     do {
       r \<leftarrow> next_filled m (m_alloc m - cur) cur;
       if r = None \<and> \<not> (m_used m = 0 \<or> cur \<le> m_alloc m) then None else Some r
     }"

definition slot_key :: "('k, 'v) mp_map \<Rightarrow> nat \<Rightarrow> 'k option" where
  "slot_key m i = (case fst (m_table m ! i) of Key k \<Rightarrow> Some k | _ \<Rightarrow> None)"

definition slot_item :: "('k, 'v) mp_map \<Rightarrow> nat \<Rightarrow> ('k \<times> 'v) option" where
  "slot_item m i = do { k \<leftarrow> slot_key m i; v \<leftarrow> snd (m_table m ! i); Some (k, v) }"

datatype mp_dict_view_kind = MP_DICT_VIEW_ITEMS | MP_DICT_VIEW_KEYS | MP_DICT_VIEW_VALUES

datatype ('k, 'v) view_item = ViewItem 'k 'v | ViewKey 'k | ViewValue 'v

record view_it =
  it_kind :: mp_dict_view_kind
  it_cur :: nat

definition dict_view_getiter :: "mp_dict_view_kind \<Rightarrow> view_it" where
  "dict_view_getiter kind = \<lparr>it_kind = kind, it_cur = 0\<rparr>"

definition dict_getiter :: view_it where
  "dict_getiter = \<lparr>it_kind = MP_DICT_VIEW_KEYS, it_cur = 0\<rparr>"

fun view_of :: "mp_dict_view_kind \<Rightarrow> 'k \<times> 'v \<Rightarrow> ('k, 'v) view_item" where
  "view_of MP_DICT_VIEW_ITEMS (k, v) = ViewItem k v"
| "view_of MP_DICT_VIEW_KEYS (k, v) = ViewKey k"
| "view_of MP_DICT_VIEW_VALUES (k, v) = ViewValue v"

text \<open>An association is returned as a new tuple; \<open>tup\<close> says whether the allocator grants it.\<close>

definition dict_view_it_iternext :: "bool \<Rightarrow> ('k, 'v) mp_map \<Rightarrow> view_it \<Rightarrow> (view_it \<times> (dict_error + ('k, 'v) view_item option)) option" where
  "dict_view_it_iternext tup m it =
     (case dict_iter_next m (it_cur it) of
        None \<Rightarrow> None
      | Some None \<Rightarrow> Some (it, Inr None)
      | Some (Some i) \<Rightarrow>
          (case slot_item m i of
             None \<Rightarrow> None
           | Some kv \<Rightarrow> Some (it\<lparr>it_cur := Suc i\<rparr>,
               if it_kind it = MP_DICT_VIEW_ITEMS \<and> \<not> tup then Inl Memory_Error else Inr (Some (view_of (it_kind it) kv)))))"

text \<open>All that an iterator yields until it stops; one step for each slot and one to stop are enough.\<close>

fun view_list :: "nat \<Rightarrow> bool \<Rightarrow> ('k, 'v) mp_map \<Rightarrow> view_it \<Rightarrow> (dict_error + ('k, 'v) view_item list) option" where
  "view_list 0 tup m it = None"
| "view_list (Suc n) tup m it =
     (case dict_view_it_iternext tup m it of
        None \<Rightarrow> None
      | Some (it', Inl e) \<Rightarrow> Some (Inl e)
      | Some (it', Inr None) \<Rightarrow> Some (Inr [])
      | Some (it', Inr (Some x)) \<Rightarrow> map_option (map_sum id (\<lambda>xs. x # xs)) (view_list n tup m it'))"

subsection \<open>Operators\<close>

definition mp_obj_dict_len :: "('k, 'v) mp_map \<Rightarrow> nat" where
  "mp_obj_dict_len m = m_used m"

definition dict_bool :: "('k, 'v) mp_map \<Rightarrow> bool" where
  "dict_bool m = (m_used m \<noteq> 0)"

definition dict_contains :: "'k key_ops \<Rightarrow> (nat \<Rightarrow> bool) \<Rightarrow> ('k, 'v) mp_map \<Rightarrow> 'k \<Rightarrow> bool option" where
  "dict_contains ops room m index = map_option (\<lambda>(m', elem). elem \<noteq> None) (map_find ops room m index)"

fun equal_loop :: "nat \<Rightarrow> 'k key_ops \<Rightarrow> (nat \<Rightarrow> bool) \<Rightarrow> ('v \<Rightarrow> 'v \<Rightarrow> bool) \<Rightarrow> ('k, 'v) mp_map \<Rightarrow> ('k, 'v) mp_map \<Rightarrow> nat \<Rightarrow> bool option" where
  "equal_loop 0 ops room veq m rhs cur = None"
| "equal_loop (Suc n) ops room veq m rhs cur =
     (case dict_iter_next m cur of
        None \<Rightarrow> None
      | Some None \<Rightarrow> Some True
      | Some (Some i) \<Rightarrow>
          do {
            (k, v) \<leftarrow> slot_item m i;
            (rhs', elem) \<leftarrow> map_find ops room rhs k;
            case elem of
              None \<Rightarrow> Some False
            | Some pos \<Rightarrow>
                (case snd (m_table rhs' ! pos) of
                   None \<Rightarrow> None
                 | Some w \<Rightarrow> if veq v w then equal_loop n ops room veq m rhs' (Suc i) else Some False)
          })"

definition dict_equal :: "'k key_ops \<Rightarrow> (nat \<Rightarrow> bool) \<Rightarrow> ('v \<Rightarrow> 'v \<Rightarrow> bool) \<Rightarrow> ('k, 'v) mp_map \<Rightarrow> ('k, 'v) mp_map \<Rightarrow> bool option" where
  "dict_equal ops room veq m rhs =
     (if m_used m \<noteq> m_used rhs then Some False else equal_loop (Suc (m_alloc m)) ops room veq m rhs 0)"

subsection \<open>Items\<close>

definition mp_obj_dict_get :: "'k key_ops \<Rightarrow> (nat \<Rightarrow> bool) \<Rightarrow> ('k, 'v) mp_map \<Rightarrow> 'k \<Rightarrow> ('k, 'v, 'v) dict_result" where
  "mp_obj_dict_get ops room m index =
     (case map_find ops room m index of
        None \<Rightarrow> None
      | Some (m', None) \<Rightarrow> Some (m', Inl Key_Error)
      | Some (m', Some pos) \<Rightarrow> map_option (\<lambda>v. (m', Inr v)) (snd (m_table m' ! pos)))"

definition mp_ensure_not_fixed :: "('k, 'v) mp_map \<Rightarrow> ('k, 'v, 'a) dict_result \<Rightarrow> ('k, 'v, 'a) dict_result" where
  "mp_ensure_not_fixed m body = (if is_fixed m then Some (m, Inl Type_Error) else body)"

definition mp_obj_dict_store :: "'k key_ops \<Rightarrow> (nat \<Rightarrow> bool) \<Rightarrow> ('k, 'v) mp_map \<Rightarrow> 'k \<Rightarrow> 'v \<Rightarrow> ('k, 'v, unit) dict_result" where
  "mp_obj_dict_store ops room m key value = mp_ensure_not_fixed m (map_put ops room m key value)"

text \<open>\<open>deflt\<close> is the optional third argument, \<open>none\<close> the object \<open>None\<close>.\<close>

definition dict_get_helper :: "'v \<Rightarrow> 'k key_ops \<Rightarrow> (nat \<Rightarrow> bool) \<Rightarrow> ('k, 'v) mp_map \<Rightarrow> 'k \<Rightarrow> 'v option \<Rightarrow> lookup_kind \<Rightarrow> ('k, 'v, 'v) dict_result" where
  "dict_get_helper none ops room m index deflt lookup_kind =
     (if lookup_kind \<noteq> LOOKUP \<and> is_fixed m then Some (m, Inl Type_Error)
      else case mp_map_lookup 2 ops room m index lookup_kind of
        None \<Rightarrow> None
      | Some (m', MemoryError) \<Rightarrow> Some (m', Inl Memory_Error)
      | Some (m', Got elem) \<Rightarrow>
          (case do { pos \<leftarrow> elem; v \<leftarrow> snd (m_table m' ! pos); Some (pos, v) } of
             None \<Rightarrow>
               if deflt = None \<and> lookup_kind = REMOVE_IF_FOUND then Some (m', Inl Key_Error)
               else
                 let value = (case deflt of None \<Rightarrow> none | Some d \<Rightarrow> d) in
                 if lookup_kind = ADD_IF_NOT_FOUND then
                   map_option (\<lambda>pos. (set_value m' pos (Some value), Inr value)) elem
                 else Some (m', Inr value)
           | Some (pos, value) \<Rightarrow>
               if lookup_kind = REMOVE_IF_FOUND then Some (set_value m' pos None, Inr value)
               else Some (m', Inr value)))"

definition dict_get :: "'v \<Rightarrow> 'k key_ops \<Rightarrow> (nat \<Rightarrow> bool) \<Rightarrow> ('k, 'v) mp_map \<Rightarrow> 'k \<Rightarrow> 'v option \<Rightarrow> ('k, 'v, 'v) dict_result" where
  "dict_get none ops room m index deflt = dict_get_helper none ops room m index deflt LOOKUP"

definition dict_pop :: "'v \<Rightarrow> 'k key_ops \<Rightarrow> (nat \<Rightarrow> bool) \<Rightarrow> ('k, 'v) mp_map \<Rightarrow> 'k \<Rightarrow> 'v option \<Rightarrow> ('k, 'v, 'v) dict_result" where
  "dict_pop none ops room m index deflt = dict_get_helper none ops room m index deflt REMOVE_IF_FOUND"

definition dict_setdefault :: "'v \<Rightarrow> 'k key_ops \<Rightarrow> (nat \<Rightarrow> bool) \<Rightarrow> ('k, 'v) mp_map \<Rightarrow> 'k \<Rightarrow> 'v option \<Rightarrow> ('k, 'v, 'v) dict_result" where
  "dict_setdefault none ops room m index deflt = dict_get_helper none ops room m index deflt ADD_IF_NOT_FOUND"

definition mp_obj_dict_delete :: "'v \<Rightarrow> 'k key_ops \<Rightarrow> (nat \<Rightarrow> bool) \<Rightarrow> ('k, 'v) mp_map \<Rightarrow> 'k \<Rightarrow> ('k, 'v, unit) dict_result" where
  "mp_obj_dict_delete none ops room m key =
     map_option (\<lambda>(m', r). (m', map_sum id (\<lambda>_. ()) r)) (dict_get_helper none ops room m key None REMOVE_IF_FOUND)"

datatype 'v subscr = SubscrDelete | SubscrLoad | SubscrStore 'v

fun dict_subscr :: "'v \<Rightarrow> 'k key_ops \<Rightarrow> (nat \<Rightarrow> bool) \<Rightarrow> ('k, 'v) mp_map \<Rightarrow> 'k \<Rightarrow> 'v subscr \<Rightarrow> ('k, 'v, 'v) dict_result" where
  "dict_subscr none ops room m index SubscrDelete =
     map_option (\<lambda>(m', r). (m', map_sum id (\<lambda>_. none) r)) (mp_obj_dict_delete none ops room m index)"
| "dict_subscr none ops room m index SubscrLoad =
     (case map_find ops room m index of
        None \<Rightarrow> None
      | Some (m', None) \<Rightarrow> Some (m', Inl Key_Error)
      | Some (m', Some pos) \<Rightarrow> map_option (\<lambda>v. (m', Inr v)) (snd (m_table m' ! pos)))"
| "dict_subscr none ops room m index (SubscrStore value) =
     map_option (\<lambda>(m', r). (m', map_sum id (\<lambda>_. none) r)) (mp_obj_dict_store ops room m index value)"

text \<open>The slot of the item popped is marked as deleted before its tuple is allocated.\<close>

definition dict_popitem :: "bool \<Rightarrow> ('k, 'v) mp_map \<Rightarrow> ('k, 'v, 'k \<times> 'v) dict_result" where
  "dict_popitem tup m =
     mp_ensure_not_fixed m
       (if m_used m = 0 then Some (m, Inl Key_Error)
        else
          do {
            next \<leftarrow> dict_iter_next m 0;
            i \<leftarrow> next;
            items \<leftarrow> slot_item m i;
            Some (m\<lparr>m_used := m_used m - 1, m_table := (m_table m)[i := (SentinelKey, None)]\<rparr>,
              if tup then Inr items else Inl Memory_Error)
          })"

subsection \<open>Whole dictionaries\<close>

definition mp_obj_new_dict :: "(nat \<Rightarrow> bool) \<Rightarrow> nat \<Rightarrow> dict_error + ('k, 'v) mp_map" where
  "mp_obj_new_dict room n = (if n = 0 \<or> room n then Inr (mp_map_init n) else Inl Memory_Error)"

definition dict_clear :: "('k, 'v) mp_map \<Rightarrow> ('k, 'v, unit) dict_result" where
  "dict_clear m = mp_ensure_not_fixed m (Some (mp_map_clear m, Inr ()))"

definition mp_obj_dict_copy :: "(nat \<Rightarrow> bool) \<Rightarrow> ('k, 'v) mp_map \<Rightarrow> dict_error + ('k, 'v) mp_map" where
  "mp_obj_dict_copy room m =
     map_sum id
       (\<lambda>other. other\<lparr>m_used := m_used m, all_keys_are_qstrs := all_keys_are_qstrs m, is_fixed := False,
          is_ordered := is_ordered m, m_table := take (m_alloc m) (m_table m)\<rparr>)
       (mp_obj_new_dict room (m_alloc m))"

fun put_all :: "'k key_ops \<Rightarrow> (nat \<Rightarrow> bool) \<Rightarrow> ('k, 'v) mp_map \<Rightarrow> ('k \<times> 'v) list \<Rightarrow> ('k, 'v, unit) dict_result" where
  "put_all ops room m [] = Some (m, Inr ())"
| "put_all ops room m ((k, v) # kvs) =
     (case map_put ops room m k v of
        Some (m', Inr _) \<Rightarrow> put_all ops room m' kvs
      | r \<Rightarrow> r)"

text \<open>An iterable of pairs: an element that does not have two items is \<open>None\<close>.\<close>

fun put_pairs :: "'k key_ops \<Rightarrow> (nat \<Rightarrow> bool) \<Rightarrow> ('k, 'v) mp_map \<Rightarrow> ('k \<times> 'v) option list \<Rightarrow> ('k, 'v, unit) dict_result" where
  "put_pairs ops room m [] = Some (m, Inr ())"
| "put_pairs ops room m (None # kvs) = Some (m, Inl Value_Error)"
| "put_pairs ops room m (Some (k, v) # kvs) =
     (case map_put ops room m k v of
        Some (m', Inr _) \<Rightarrow> put_pairs ops room m' kvs
      | r \<Rightarrow> r)"

text \<open>The items of a map in the order of its slots, as \<open>dict_iter_next\<close> finds them one by one.\<close>

fun items_from :: "nat \<Rightarrow> ('k, 'v) mp_map \<Rightarrow> nat \<Rightarrow> ('k \<times> 'v) list option" where
  "items_from 0 m cur = None"
| "items_from (Suc n) m cur =
     (case dict_iter_next m cur of
        None \<Rightarrow> None
      | Some None \<Rightarrow> Some []
      | Some (Some i) \<Rightarrow> do { kv \<leftarrow> slot_item m i; kvs \<leftarrow> items_from n m (Suc i); Some (kv # kvs) })"

datatype ('k, 'v) update_arg = NoArg | SameDict | OtherDict "('k, 'v) mp_map" | Iterable "('k \<times> 'v) option list"

definition dict_update :: "'k key_ops \<Rightarrow> (nat \<Rightarrow> bool) \<Rightarrow> ('k, 'v) mp_map \<Rightarrow> ('k, 'v) update_arg \<Rightarrow> ('k, 'v) mp_map \<Rightarrow> ('k, 'v, unit) dict_result" where
  "dict_update ops room m arg kwargs =
     mp_ensure_not_fixed m
       (case (case arg of
                NoArg \<Rightarrow> Some (m, Inr ())
              | SameDict \<Rightarrow> Some (m, Inr ())
              | OtherDict other \<Rightarrow> do { kvs \<leftarrow> items_from (Suc (m_alloc other)) other 0; put_all ops room m kvs }
              | Iterable kvs \<Rightarrow> put_pairs ops room m kvs) of
          Some (m', Inr _) \<Rightarrow> do { kvs \<leftarrow> items_from (Suc (m_alloc kwargs)) kwargs 0; put_all ops room m' kvs }
        | r \<Rightarrow> r)"

text \<open>A dictionary that an operation builds is dropped when it raises.\<close>

definition built :: "('k, 'v, 'a) dict_result \<Rightarrow> (dict_error + ('k, 'v) mp_map) option" where
  "built r = map_option (\<lambda>(m, res). map_sum id (\<lambda>_. m) res) r"

definition mp_obj_dict_make_new :: "'k key_ops \<Rightarrow> (nat \<Rightarrow> bool) \<Rightarrow> ('k, 'v) update_arg \<Rightarrow> ('k \<times> 'v) list \<Rightarrow> (dict_error + ('k, 'v) mp_map) option" where
  "mp_obj_dict_make_new ops room arg kw =
     (case mp_obj_new_dict room 0 of
        Inl e \<Rightarrow> Some (Inl e)
      | Inr m \<Rightarrow>
          if arg = NoArg \<and> kw = [] then Some (Inr m)
          else built (dict_update ops room m arg (mp_map_init_fixed_table kw)))"

definition dict_fromkeys :: "'k key_ops \<Rightarrow> (nat \<Rightarrow> bool) \<Rightarrow> 'k list \<Rightarrow> nat option \<Rightarrow> 'v \<Rightarrow> (dict_error + ('k, 'v) mp_map) option" where
  "dict_fromkeys ops room keys len value =
     (case mp_obj_new_dict room (case len of None \<Rightarrow> 0 | Some n \<Rightarrow> n) of
        Inl e \<Rightarrow> Some (Inl e)
      | Inr m \<Rightarrow> built (put_all ops room m (map (\<lambda>k. (k, value)) keys)))"

text \<open>The operators \<open>|\<close> and \<open>|=\<close>.\<close>

definition dict_inplace_or :: "'k key_ops \<Rightarrow> (nat \<Rightarrow> bool) \<Rightarrow> ('k, 'v) mp_map \<Rightarrow> ('k, 'v) update_arg \<Rightarrow> ('k, 'v, unit) dict_result" where
  "dict_inplace_or ops room m rhs = dict_update ops room m rhs (mp_map_init_fixed_table [])"

definition dict_or :: "'k key_ops \<Rightarrow> (nat \<Rightarrow> bool) \<Rightarrow> ('k, 'v) mp_map \<Rightarrow> ('k, 'v) update_arg \<Rightarrow> (dict_error + ('k, 'v) mp_map) option" where
  "dict_or ops room m rhs =
     (case mp_obj_dict_copy room m of
        Inl e \<Rightarrow> Some (Inl e)
      | Inr copy \<Rightarrow> built (dict_update ops room copy (case rhs of SameDict \<Rightarrow> OtherDict m | _ \<Rightarrow> rhs) (mp_map_init_fixed_table [])))"

section \<open>The finite map of a dictionary\<close>

text \<open>In a dictionary every key has a value.\<close>

definition dict_inv :: "'k key_ops \<Rightarrow> ('k \<Rightarrow> bool) \<Rightarrow> ('k, 'v) mp_map \<Rightarrow> bool" where
  "dict_inv ops valid m \<longleftrightarrow> map_inv ops valid m \<and> (\<forall>y. valid y \<longrightarrow> table_get ops (m_table m) y \<noteq> Some None)"

definition dict_abs :: "'k key_ops \<Rightarrow> ('k, 'v) mp_map \<Rightarrow> 'k \<Rightarrow> 'v option" where
  "dict_abs ops m y = Option.bind (table_get ops (m_table m) y) id"

definition updated :: "'k key_ops \<Rightarrow> ('k \<Rightarrow> bool) \<Rightarrow> ('k, 'v) mp_map \<Rightarrow> 'k \<Rightarrow> 'v option \<Rightarrow> ('k, 'v) mp_map \<Rightarrow> bool" where
  "updated ops valid m x v m' \<longleftrightarrow>
     dict_inv ops valid m' \<and> (\<forall>y. valid y \<longrightarrow> dict_abs ops m' y = (if k_eq ops x y then v else dict_abs ops m y))"

text \<open>A store can only fail when the table is full and cannot grow.\<close>

definition stuck :: "(nat \<Rightarrow> bool) \<Rightarrow> ('k, 'v) mp_map \<Rightarrow> bool" where
  "stuck room m \<longleftrightarrow> m_used m = m_alloc m \<and> \<not> room (get_hash_alloc_greater_or_equal_to (m_alloc m + 1))"

lemma updatedI:
  assumes "dict_inv ops valid m" "map_inv ops valid m'" "v \<noteq> Some None"
    and "\<forall>y. valid y \<longrightarrow> table_get ops (m_table m') y = (if k_eq ops x y then v else table_get ops (m_table m) y)"
  shows "updated ops valid m x (Option.bind v id) m'"
  using assms by (auto simp: updated_def dict_inv_def dict_abs_def)

text \<open>The entries of a table from a slot on.\<close>

definition item :: "'k slotkey \<times> 'v option \<Rightarrow> ('k \<times> 'v) option" where
  "item e = (case fst e of Key k \<Rightarrow> map_option (Pair k) (snd e) | _ \<Rightarrow> None)"

definition entries_from :: "('k, 'v) mp_map \<Rightarrow> nat \<Rightarrow> ('k \<times> 'v) list" where
  "entries_from m i = List.map_filter item (drop i (m_table m))"

lemma slot_item_item: "slot_item m i = item (m_table m ! i)"
  by (cases "fst (m_table m ! i)"; cases "snd (m_table m ! i)") (simp_all add: slot_item_def slot_key_def item_def)

lemma next_filled_steps:
  assumes "length (m_table m) = m_alloc m" "i < m_alloc m"
  shows "next_filled m (m_alloc m - i) i =
    (if is_key (fst (m_table m ! i)) then Some (Some i) else next_filled m (m_alloc m - Suc i) (Suc i))"
proof -
  have "m_alloc m - i = Suc (m_alloc m - Suc i)" using assms(2) by simp
  then show ?thesis using assms by (simp add: mp_map_slot_is_filled_def)
qed

lemma dict_iter_next_steps:
  assumes "length (m_table m) = m_alloc m"
  shows "cur = m_alloc m \<Longrightarrow> dict_iter_next m cur = Some None"
    and "cur < m_alloc m \<Longrightarrow> is_key (fst (m_table m ! cur)) \<Longrightarrow> dict_iter_next m cur = Some (Some cur)"
    and "cur < m_alloc m \<Longrightarrow> \<not> is_key (fst (m_table m ! cur)) \<Longrightarrow> dict_iter_next m cur = dict_iter_next m (Suc cur)"
  using next_filled_steps [OF assms, of cur] by (simp_all add: dict_iter_next_def)

lemma entries_from_steps:
  assumes "length (m_table m) = m_alloc m"
  shows "cur = m_alloc m \<Longrightarrow> entries_from m cur = []"
    and "cur < m_alloc m \<Longrightarrow> item (m_table m ! cur) = Some kv \<Longrightarrow> entries_from m cur = kv # entries_from m (Suc cur)"
    and "cur < m_alloc m \<Longrightarrow> item (m_table m ! cur) = None \<Longrightarrow> entries_from m cur = entries_from m (Suc cur)"
  using assms Cons_nth_drop_Suc [of cur "m_table m", symmetric] by (simp_all add: entries_from_def map_filter_simps)

text \<open>Every key of a well-formed dictionary has a value, so the iteration never gets stuck.\<close>

definition filled_ok :: "('k, 'v) mp_map \<Rightarrow> bool" where
  "filled_ok m \<longleftrightarrow> length (m_table m) = m_alloc m \<and> (\<forall>e \<in> set (m_table m). is_key (fst e) \<longrightarrow> snd e \<noteq> None)"

text \<open>An induction that follows the iteration of a dictionary.\<close>

lemma iter_induct [consumes 2, case_names stop skip item]:
  assumes "filled_ok m" "cur \<le> m_alloc m"
    and stop: "dict_iter_next m (m_alloc m) = Some None \<Longrightarrow> entries_from m (m_alloc m) = [] \<Longrightarrow> P (m_alloc m)"
    and skip: "\<And>cur. cur < m_alloc m \<Longrightarrow> dict_iter_next m cur = dict_iter_next m (Suc cur) \<Longrightarrow>
      entries_from m cur = entries_from m (Suc cur) \<Longrightarrow> P (Suc cur) \<Longrightarrow> P cur"
    and item: "\<And>cur k v. cur < m_alloc m \<Longrightarrow> dict_iter_next m cur = Some (Some cur) \<Longrightarrow> m_table m ! cur = (Key k, Some v) \<Longrightarrow>
      slot_item m cur = Some (k, v) \<Longrightarrow> entries_from m cur = (k, v) # entries_from m (Suc cur) \<Longrightarrow> P (Suc cur) \<Longrightarrow> P cur"
  shows "P cur"
  using assms(2)
proof (induction rule: inc_induct)
  case base
  then show ?case using stop dict_iter_next_steps(1) [of m "m_alloc m"] entries_from_steps(1) [of m "m_alloc m"] assms(1) by (simp add: filled_ok_def)
next
  case (step cur)
  have len: "length (m_table m) = m_alloc m" using assms(1) by (simp add: filled_ok_def)
  show ?case
  proof (cases "is_key (fst (m_table m ! cur))")
    case True
    then obtain k v where kv: "m_table m ! cur = (Key k, Some v)"
      using assms(1) nth_mem [of cur "m_table m"] step(2) len
      by (cases "m_table m ! cur"; cases "fst (m_table m ! cur)"; cases "snd (m_table m ! cur)") (auto simp: filled_ok_def)
    then have "item (m_table m ! cur) = Some (k, v)" by (simp add: item_def)
    then show ?thesis
      using item [OF step(2) _ kv] dict_iter_next_steps(2) [OF len step(2) True] entries_from_steps(2) [OF len step(2)] step(3)
      by (simp add: slot_item_item)
  next
    case False
    then have "item (m_table m ! cur) = None" by (auto simp: item_def is_key_def split: slotkey.splits)
    then show ?thesis
      using skip [OF step(2)] dict_iter_next_steps(3) [OF len step(2) False] entries_from_steps(3) [OF len step(2)] step(3) by simp
  qed
qed

lemma items_from_entries:
  assumes "filled_ok m" "cur \<le> m_alloc m"
  shows "m_alloc m - cur < n \<Longrightarrow> items_from n m cur = Some (entries_from m cur)"
  using assms
proof (induction arbitrary: n rule: iter_induct)
  case (skip cur)
  have "items_from n m cur = items_from n m (Suc cur)" by (cases n) (simp_all add: skip(2))
  then show ?case using skip(3,5) skip(4) [of n] by simp
next
  case (item cur k v)
  then show ?case using item(6) [of "n - 1"] by (cases n) auto
next
  case stop
  then show ?case by (cases n) auto
qed

lemma view_list_entries:
  assumes "filled_ok m" "cur \<le> m_alloc m"
  shows "m_alloc m - cur < n \<Longrightarrow> view_list n tup m \<lparr>it_kind = kind, it_cur = cur\<rparr> =
    Some (if kind = MP_DICT_VIEW_ITEMS \<and> \<not> tup \<and> entries_from m cur \<noteq> [] then Inl Memory_Error else Inr (map (view_of kind) (entries_from m cur)))"
  using assms
proof (induction arbitrary: n rule: iter_induct)
  case (skip cur)
  have "view_list n tup m \<lparr>it_kind = kind, it_cur = cur\<rparr> = view_list n tup m \<lparr>it_kind = kind, it_cur = Suc cur\<rparr>"
    by (cases n) (auto simp: dict_view_it_iternext_def skip(2) split: option.split)
  then show ?case using skip(3,5) skip(4) [of n] by simp
next
  case (item cur k v)
  then show ?case using item(6) [of "n - 1"] by (cases n) (auto simp: dict_view_it_iternext_def)
next
  case stop
  then show ?case by (cases n) (auto simp: dict_view_it_iternext_def)
qed

lemma iter_next_entries:
  assumes "filled_ok m" "cur \<le> m_alloc m"
  shows "case entries_from m cur of
      [] \<Rightarrow> dict_iter_next m cur = Some None
    | (k, v) # kvs \<Rightarrow> \<exists>i < m_alloc m. dict_iter_next m cur = Some (Some i) \<and> m_table m ! i = (Key k, Some v) \<and> slot_item m i = Some (k, v)"
  using assms by (induction rule: iter_induct) (auto split: list.split)

lemma length_entries:
  assumes "filled_ok m"
  shows "length (entries_from m 0) = length (filter is_key (m_keys m))"
proof -
  have "item e = None \<longleftrightarrow> \<not> is_key (fst e)" if "e \<in> set (m_table m)" for e
    using assms that by (cases "fst e") (auto simp: filled_ok_def item_def)
  then show ?thesis
    unfolding entries_from_def by (simp add: map_filter_def filter_map o_def cong: filter_cong)
qed

lemma entries_no_eq: "no_eq ops (m_keys m) \<Longrightarrow> no_eq ops (map (\<lambda>kv. Key (fst kv)) (entries_from m 0))"
proof -
  have "no_eq ops (map (\<lambda>kv. Key (fst kv)) (List.map_filter item tbl))" if "no_eq ops (map fst tbl)" for tbl :: "('a slotkey \<times> 'b option) list"
    using that
  proof (induction tbl)
    case (Cons e tbl)
    have rest: "no_eq ops (map (\<lambda>kv. Key (fst kv)) (List.map_filter item tbl))" using Cons by (simp add: no_eq_def)
    show ?case
    proof (cases "item e")
      case (Some kv)
      then have "fst e = Key (fst kv)" by (auto simp: item_def split: slotkey.splits)
      moreover have "Key (fst kv') \<in> set (map fst tbl)" if "kv' \<in> set (List.map_filter item tbl)" for kv'
        using that by (force simp: map_filter_def item_def split: slotkey.splits)
      moreover have "\<not> k_eq ops k k'" if "fst e = Key k" "Key k' \<in> set (map fst tbl)" for k k'
        using Cons.prems that unfolding no_eq_def by auto
      ultimately show ?thesis using rest Some unfolding no_eq_def by (simp add: map_filter_simps)
    qed (simp add: map_filter_simps rest)
  qed (simp add: no_eq_def map_filter_simps)
  then show "no_eq ops (m_keys m) \<Longrightarrow> no_eq ops (map (\<lambda>kv. Key (fst kv)) (entries_from m 0))" by (simp add: entries_from_def)
qed

text \<open>A map after some associations have been stored, the later ones over the earlier ones.\<close>

fun stored :: "'k key_ops \<Rightarrow> ('k \<times> 'v) list \<Rightarrow> ('k \<Rightarrow> 'v option) \<Rightarrow> 'k \<Rightarrow> 'v option" where
  "stored ops [] f = f"
| "stored ops ((k, v) # kvs) f = stored ops kvs (\<lambda>y. if k_eq ops k y then Some v else f y)"

lemma stored_cong: "f y = g y \<Longrightarrow> stored ops kvs f y = stored ops kvs g y"
proof (induction kvs arbitrary: f g)
  case (Cons kv kvs)
  obtain k v where kv: "kv = (k, v)" by (cases kv)
  have "(if k_eq ops k y then Some v else f y) = (if k_eq ops k y then Some v else g y)" using Cons.prems by simp
  then show ?case unfolding kv stored.simps by (rule Cons.IH)
qed simp

lemma stored_agree:
  assumes "\<And>k v. (k, v) \<in> set kvs \<Longrightarrow> k_eq ops k y \<Longrightarrow> w = Some v"
  shows "stored ops kvs f y = (if \<exists>(k, v) \<in> set kvs. k_eq ops k y then w else f y)"
  using assms
proof (induction kvs arbitrary: f)
  case (Cons kv kvs)
  obtain k v where kv: "kv = (k, v)" by (cases kv)
  have "stored ops kvs g y = (if \<exists>(k, v) \<in> set kvs. k_eq ops k y then w else g y)" for g
    by (rule Cons.IH) (rule Cons.prems, simp_all)
  then show ?case using Cons.prems [of k v] kv by auto
qed simp

text \<open>
  What an update from another dictionary does: all of it, or, when the table is full and cannot
  grow, a part of it.
\<close>

definition merged :: "'k key_ops \<Rightarrow> ('k \<Rightarrow> bool) \<Rightarrow> ('k, 'v) mp_map \<Rightarrow> ('k, 'v) mp_map \<Rightarrow> ('k, 'v) mp_map \<Rightarrow> bool" where
  "merged ops valid m other m' \<longleftrightarrow>
     (\<forall>y. valid y \<longrightarrow> dict_abs ops m' y = (case dict_abs ops other y of Some v \<Rightarrow> Some v | None \<Rightarrow> dict_abs ops m y))"

context hash_keys
begin

lemma map_find_correct:
  assumes "dict_inv ops valid m" "valid x"
  obtains (absent) "map_find ops room m x = Some (m, None)" "dict_abs ops m x = None"
  | (present) pos v where "map_find ops room m x = Some (m, Some pos)" "dict_abs ops m x = Some v" "snd (m_table m ! pos) = Some v"
proof -
  have "map_inv ops valid m" using assms(1) by (simp add: dict_inv_def)
  then obtain r where r: "mp_map_lookup 2 ops room m x LOOKUP = Some (m, Got r)"
    "table_get ops (m_table m) x = map_option (\<lambda>pos. snd (m_table m ! pos)) r"
    unfolding numeral_2_eq_2 by (rule map_lookup_finds [OF _ assms(2), of m "Suc 0" room]) blast
  show thesis
  proof (cases r)
    case None
    then show thesis using absent r by (simp add: map_find_def dict_abs_def)
  next
    case (Some pos)
    then obtain v where "snd (m_table m ! pos) = Some v" using r(2) assms by (cases "snd (m_table m ! pos)") (auto simp: dict_inv_def)
    then show thesis using present r Some by (simp add: map_find_def dict_abs_def)
  qed
qed

lemma map_put_correct:
  assumes "dict_inv ops valid m" "valid x"
  obtains (raised) "map_put ops room m x v = Some (m, Inl Memory_Error)" "dict_abs ops m x = None" "stuck room m"
  | (stored) m' where "map_put ops room m x v = Some (m', Inr ())" "updated ops valid m x (Some v) m'"
proof -
  have inv: "map_inv ops valid m" using assms(1) by (simp add: dict_inv_def)
  show thesis
  proof (rule map_lookup_adds [OF inv assms(2), of 0 room, folded numeral_2_eq_2])
    assume "mp_map_lookup 2 ops room m x ADD_IF_NOT_FOUND = Some (m, MemoryError)" "table_get ops (m_table m) x = None"
      "m_used m = m_alloc m" "\<not> room (get_hash_alloc_greater_or_equal_to (m_alloc m + 1))"
    then show thesis using raised by (simp add: map_put_def dict_abs_def stuck_def)
  next
    fix m' pos assume "mp_map_lookup 2 ops room m x ADD_IF_NOT_FOUND = Some (m', Got (Some pos))" "slot_for ops valid m x m' pos"
    then show thesis
      using stored [of "set_value m' pos (Some v)"] updatedI [OF assms(1), of "set_value m' pos (Some v)" "Some (Some v)" x]
      by (simp add: map_put_def slot_for_def)
  qed
qed

lemma get_helper_lookup:
  assumes "dict_inv ops valid m" "valid x"
  shows "dict_get_helper none ops room m x deflt LOOKUP =
    Some (m, Inr (case dict_abs ops m x of Some v \<Rightarrow> v | None \<Rightarrow> (case deflt of Some d \<Rightarrow> d | None \<Rightarrow> none)))"
proof -
  have "map_inv ops valid m" using assms(1) by (simp add: dict_inv_def)
  then obtain r where r: "mp_map_lookup 2 ops room m x LOOKUP = Some (m, Got r)"
    "table_get ops (m_table m) x = map_option (\<lambda>pos. snd (m_table m ! pos)) r"
    unfolding numeral_2_eq_2 by (rule map_lookup_finds [OF _ assms(2), of m "Suc 0" room]) blast
  then show ?thesis
    by (cases r; cases "snd (m_table m ! the r)") (auto simp: dict_get_helper_def dict_abs_def Let_def split: option.split)
qed

lemma get_helper_add:
  assumes "dict_inv ops valid m" "valid x"
  obtains (raised) "dict_get_helper none ops room m x deflt ADD_IF_NOT_FOUND = Some (m, Inl Memory_Error)"
      "dict_abs ops m x = None" "stuck room m"
  | (returned) m' v where "dict_get_helper none ops room m x deflt ADD_IF_NOT_FOUND = Some (m', Inr v)" "updated ops valid m x (Some v) m'"
      "v = (case dict_abs ops m x of Some v \<Rightarrow> v | None \<Rightarrow> (case deflt of Some d \<Rightarrow> d | None \<Rightarrow> none))"
proof -
  have inv: "map_inv ops valid m" and fixed: "\<not> is_fixed m" using assms(1) map_invD(1) by (auto simp: dict_inv_def)
  show thesis
  proof (rule map_lookup_adds [OF inv assms(2), of 0 room, folded numeral_2_eq_2])
    assume "mp_map_lookup 2 ops room m x ADD_IF_NOT_FOUND = Some (m, MemoryError)" "table_get ops (m_table m) x = None"
      "m_used m = m_alloc m" "\<not> room (get_hash_alloc_greater_or_equal_to (m_alloc m + 1))"
    then show thesis using raised fixed by (simp add: dict_get_helper_def dict_abs_def stuck_def)
  next
    fix m' pos assume l: "mp_map_lookup 2 ops room m x ADD_IF_NOT_FOUND = Some (m', Got (Some pos))" "slot_for ops valid m x m' pos"
    have upd: "updated ops valid m x (Some v) (set_value m' pos (Some v))" for v
      using updatedI [OF assms(1), of "set_value m' pos (Some v)" "Some (Some v)" x] l(2) by (simp add: slot_for_def)
    show thesis
    proof (cases "dict_abs ops m x")
      case None
      then have "snd (m_table m' ! pos) = None"
        using l(2) by (auto simp: slot_for_def dict_abs_def split: option.splits)
      then show thesis using returned [OF _ upd] l(1) fixed None by (cases deflt) (simp_all add: dict_get_helper_def)
    next
      case (Some v)
      then have v: "snd (m_table m' ! pos) = Some v"
        using l(2) by (auto simp: slot_for_def dict_abs_def split: option.splits)
      then have eq: "(fst (m_table m' ! pos), Some v) = m_table m' ! pos" by (simp add: prod_eq_iff)
      have "set_value m' pos (Some v) = m'" unfolding set_value_def eq by (cases m') simp
      then have "updated ops valid m x (Some v) m'" using upd [of v] by simp
      moreover have "dict_get_helper none ops room m x deflt ADD_IF_NOT_FOUND = Some (m', Inr v)"
        using l(1) fixed v by (simp add: dict_get_helper_def)
      ultimately show thesis using returned Some by simp
    qed
  qed
qed

lemma get_helper_remove:
  assumes "dict_inv ops valid m" "valid x"
  obtains m' where "dict_get_helper none ops room m x deflt REMOVE_IF_FOUND =
      Some (m', case dict_abs ops m x of Some v \<Rightarrow> Inr v | None \<Rightarrow> (case deflt of Some d \<Rightarrow> Inr d | None \<Rightarrow> Inl Key_Error))"
    "updated ops valid m x None m'"
proof -
  have inv: "map_inv ops valid m" and fixed: "\<not> is_fixed m" using assms(1) map_invD(1) by (auto simp: dict_inv_def)
  obtain m1 r where m1: "mp_map_lookup 2 ops room m x REMOVE_IF_FOUND = Some (m1, Got r)" "map_inv ops valid m1"
      "table_get ops (m_table m) x = map_option (\<lambda>pos. snd (m_table m1 ! pos)) r"
      "\<forall>pos. r = Some pos \<longrightarrow> pos < m_alloc m1 \<and> \<not> is_key (fst (m_table m1 ! pos))"
      "\<forall>y. valid y \<longrightarrow> table_get ops (m_table m1) y = (if k_eq ops x y then None else table_get ops (m_table m) y)"
    unfolding numeral_2_eq_2 by (rule map_lookup_removes [OF inv assms(2), of "Suc 0" room]) blast
  show thesis
  proof (cases r)
    case None
    then have "updated ops valid m x None m1" using updatedI [OF assms(1) m1(2) _ m1(5)] by simp
    then show thesis using that [of m1] m1(1,3) None fixed by (cases deflt) (simp_all add: dict_get_helper_def dict_abs_def)
  next
    case (Some pos)
    then obtain v where v: "snd (m_table m1 ! pos) = Some v"
      using m1(3) assms by (cases "snd (m_table m1 ! pos)") (auto simp: dict_inv_def)
    have "pos < length (m_table m1)" "\<not> is_key (fst (m_table m1 ! pos))" using m1(4) Some map_invD(3) [OF m1(2)] by auto
    then have "updated ops valid m x None (set_value m1 pos None)"
      using updatedI [OF assms(1), of "set_value m1 pos None" None x] m1(2,5) by (simp add: set_value_free)
    then show thesis using that [of "set_value m1 pos None"] m1(1,3) Some v fixed by (simp add: dict_get_helper_def dict_abs_def)
  qed
qed

lemma dict_filled_ok:
  assumes "dict_inv ops valid m"
  shows "filled_ok m"
  unfolding filled_ok_def
proof (intro conjI ballI impI)
  note inv = map_invD [of ops valid m]
  have m: "map_inv ops valid m" using assms by (simp add: dict_inv_def)
  show len: "length (m_table m) = m_alloc m" using inv(3) [OF m] .
  fix e assume e: "e \<in> set (m_table m)" "is_key (fst e)"
  then obtain k where k: "fst e = Key k" by (cases "fst e") auto
  then have "valid k" using keys_invD(1) [OF inv(4) [OF m], of k] e(1) by (metis image_eqI set_map)
  moreover obtain p where "p < length (m_table m)" "m_table m ! p = e" using e(1) by (auto simp: in_set_conv_nth)
  ultimately have "table_get ops (m_table m) k = Some (snd e)"
    using table_get_iff [OF inv(4) [OF m]] k eq_refl by (metis prod.collapse)
  then show "snd e \<noteq> None" using assms \<open>valid k\<close> by (auto simp: dict_inv_def)
qed

lemma entries_dict_abs:
  assumes "dict_inv ops valid m"
  shows "(k, v) \<in> set (entries_from m 0) \<longleftrightarrow> Key k \<in> set (m_keys m) \<and> dict_abs ops m k = Some v"
proof -
  have m: "map_inv ops valid m" using assms by (simp add: dict_inv_def)
  note inv = map_invD [OF m]
  have "(k, v) \<in> set (entries_from m 0) \<longleftrightarrow> (Key k, Some v) \<in> set (m_table m)"
    by (force simp: entries_from_def map_filter_def item_def split: slotkey.splits)
  also have "\<dots> \<longleftrightarrow> Key k \<in> set (m_keys m) \<and> table_get ops (m_table m) k = Some (Some v)"
  proof
    assume *: "(Key k, Some v) \<in> set (m_table m)"
    then have "Key k \<in> set (m_keys m)" by force
    moreover have "valid k" using keys_invD(1) [OF inv(4)] calculation .
    ultimately show "Key k \<in> set (m_keys m) \<and> table_get ops (m_table m) k = Some (Some v)"
      using * table_get_iff [OF inv(4), of k "Some v"] eq_refl by (auto simp: in_set_conv_nth)
  next
    assume *: "Key k \<in> set (m_keys m) \<and> table_get ops (m_table m) k = Some (Some v)"
    then have "valid k" using keys_invD(1) [OF inv(4)] by blast
    obtain p w where p: "p < length (m_table m)" "m_table m ! p = (Key k, w)" using * by (auto simp: in_set_conv_nth)
    then have "table_get ops (m_table m) k = Some w" using table_get_iff [OF inv(4) \<open>valid k\<close>] eq_refl [OF \<open>valid k\<close>] by metis
    then show "(Key k, Some v) \<in> set (m_table m)" using * p nth_mem by fastforce
  qed
  also have "\<dots> \<longleftrightarrow> Key k \<in> set (m_keys m) \<and> dict_abs ops m k = Some v"
    by (cases "table_get ops (m_table m) k") (auto simp: dict_abs_def)
  finally show ?thesis .
qed

lemma popitem_correct:
  assumes "dict_inv ops valid m"
  obtains (empty) "dict_popitem tup m = Some (m, Inl Key_Error)" "\<forall>y. dict_abs ops m y = None"
  | (popped) m' k v where "dict_popitem tup m = Some (m', if tup then Inr (k, v) else Inl Memory_Error)" "valid k" "dict_abs ops m k = Some v" "updated ops valid m k None m'"
proof -
  have m: "map_inv ops valid m" using assms by (simp add: dict_inv_def)
  note inv = map_invD [OF m]
  have used: "m_used m = length (entries_from m 0)" using length_entries [OF dict_filled_ok [OF assms]] inv(5) by simp
  show thesis
  proof (cases "entries_from m 0")
    case Nil
    then have "filter is_key (m_keys m) = []" using used inv(5) by (simp only: length_0_conv list.size(3))
    then have "table_get ops (m_table m) y = None" for y
      unfolding table_get_None absent_def filter_empty_conv by (metis is_key_simps(1))
    then show thesis using empty Nil used inv(1) by (simp add: dict_popitem_def mp_ensure_not_fixed_def dict_abs_def)
  next
    case (Cons kv kvs)
    obtain k v where kv: "kv = (k, v)" by (cases kv)
    obtain i where i: "i < m_alloc m" "dict_iter_next m 0 = Some (Some i)" "m_table m ! i = (Key k, Some v)" "slot_item m i = Some (k, v)"
      using iter_next_entries [OF dict_filled_ok [OF assms], of 0] Cons kv by auto
    define m' where "m' = m\<lparr>m_used := m_used m - 1, m_table := (m_table m)[i := (SentinelKey, None)]\<rparr>"
    have k: "Key k \<in> set (m_keys m)" "dict_abs ops m k = Some v" using entries_dict_abs [OF assms, of k v] Cons kv by simp_all
    then have "valid k" using keys_invD(1) [OF inv(4)] by blast
    have "keys_inv ops valid ((m_keys m)[i := SentinelKey])" using keys_inv_unset [OF inv(4), of i SentinelKey] i(1) inv(3) by simp
    then have "map_inv ops valid m'"
        "\<forall>y. valid y \<longrightarrow> table_get ops (m_table m') y = (if k_eq ops k y then None else table_get ops (m_table m) y)"
      using unset_slot_correct [OF m \<open>valid k\<close> i(1) _ eq_refl [OF \<open>valid k\<close>] _ _ m'_def] i(3) by simp_all
    then have "updated ops valid m k None m'" using updatedI [OF assms, of m' None k] by simp
    then show thesis
      using popped [of m' k v] i(2,4) used Cons inv(1) \<open>valid k\<close> k(2) by (simp add: dict_popitem_def mp_ensure_not_fixed_def m'_def)
  qed
qed

lemma dict_abs_cong:
  assumes "dict_inv ops valid m" "valid x" "valid y" "k_eq ops x y"
  shows "dict_abs ops m x = dict_abs ops m y"
proof -
  have inv: "keys_inv ops valid (m_keys m)" using assms(1) map_invD(4) by (auto simp: dict_inv_def)
  have "k_eq ops k x = k_eq ops k y" if "valid k" for k using that eq_trans eq_sym assms(2-4) by metis
  moreover have "valid k" if "p < length (m_table m)" "m_table m ! p = (Key k, v)" for p k v
    using keys_invD(1) [OF inv, of k] that by (metis fst_conv image_eqI nth_mem set_map)
  ultimately have "table_get ops (m_table m) x = Some v \<longleftrightarrow> table_get ops (m_table m) y = Some v" for v
    unfolding table_get_iff [OF inv assms(2)] table_get_iff [OF inv assms(3)] by metis
  then have "table_get ops (m_table m) x = table_get ops (m_table m) y" by (rule option_ext)
  then show ?thesis by (simp add: dict_abs_def)
qed

lemma dict_abs_keys:
  assumes "dict_inv ops valid m" "valid x" "dict_abs ops m x = Some v"
  obtains k where "(k, v) \<in> set (entries_from m 0)" "k_eq ops k x" "valid k"
proof -
  have m: "keys_inv ops valid (m_keys m)" using assms(1) map_invD(4) by (auto simp: dict_inv_def)
  have "table_get ops (m_table m) x = Some (Some v)" using assms(3) by (cases "table_get ops (m_table m) x") (auto simp: dict_abs_def)
  then obtain p k where p: "p < length (m_table m)" "m_table m ! p = (Key k, Some v)" "k_eq ops k x"
    using table_get_SomeD by fastforce
  then have key: "Key k \<in> set (m_keys m)" by (metis fst_conv image_eqI nth_mem set_map)
  then have "valid k" using keys_invD(1) [OF m] by blast
  moreover have "dict_abs ops m k = Some v" using dict_abs_cong [OF assms(1) \<open>valid k\<close> assms(2) p(3)] assms(3) by simp
  ultimately show thesis using that entries_dict_abs [OF assms(1)] key p(3) by blast
qed

lemma dict_key_held:
  assumes "dict_inv ops valid m" "Key k \<in> set (m_keys m)"
  shows "\<exists>v. dict_abs ops m k = Some v"
proof -
  have inv: "keys_inv ops valid (m_keys m)" using assms(1) map_invD(4) by (auto simp: dict_inv_def)
  have k: "valid k" using keys_invD(1) [OF inv assms(2)] .
  have "table_get ops (m_table m) k \<noteq> None"
    unfolding table_get_None absent_def using assms(2) eq_refl [OF k] by blast
  then show ?thesis using assms(1) k by (auto simp: dict_inv_def dict_abs_def)
qed

lemma dict_key_of:
  assumes "dict_inv ops valid m" "valid x" "dict_abs ops m x = Some v"
  shows "\<exists>k. Key k \<in> set (m_keys m) \<and> k_eq ops x k"
proof -
  obtain k where k: "(k, v) \<in> set (entries_from m 0)" "k_eq ops k x" "valid k" by (rule dict_abs_keys [OF assms])
  then show ?thesis using entries_dict_abs [OF assms(1)] eq_sym [OF k(3) assms(2) k(2)] by blast
qed

text \<open>
  When every key of one table has an equal key in another, the other has at least as many; if it has
  not more, each of its keys has an equal one in the first.
\<close>

lemma keys_embed:
  assumes "keys_inv ops valid ks" "keys_inv ops valid ks'"
    and "\<And>k. Key k \<in> set ks \<Longrightarrow> \<exists>k'. Key k' \<in> set ks' \<and> k_eq ops k k'"
  shows "length (filter is_key ks) \<le> length (filter is_key ks')"
    and "length (filter is_key ks) = length (filter is_key ks') \<Longrightarrow> Key k' \<in> set ks' \<Longrightarrow> \<exists>k. Key k \<in> set ks \<and> k_eq ops k k'"
proof -
  define P Q where "P = {i. i < length ks \<and> is_key (ks ! i)}" and "Q = {i. i < length ks' \<and> is_key (ks' ! i)}"
  have fin: "finite P" "finite Q" and card: "card P = length (filter is_key ks)" "card Q = length (filter is_key ks')"
    by (simp_all add: P_def Q_def length_filter_conv_card)
  have "\<forall>i \<in> P. \<exists>j \<in> Q. \<exists>k k'. ks ! i = Key k \<and> ks' ! j = Key k' \<and> k_eq ops k k'"
  proof
    fix i assume i: "i \<in> P"
    then obtain k where k: "ks ! i = Key k" by (cases "ks ! i") (auto simp: P_def)
    then have "Key k \<in> set ks" using i nth_mem [of i ks] by (simp add: P_def)
    then obtain k' where k': "Key k' \<in> set ks'" "k_eq ops k k'" using assms(3) by blast
    then obtain j where "j < length ks'" "ks' ! j = Key k'" by (auto simp: in_set_conv_nth)
    then show "\<exists>j \<in> Q. \<exists>k k'. ks ! i = Key k \<and> ks' ! j = Key k' \<and> k_eq ops k k'" using k k'(2) by (auto simp: Q_def)
  qed
  then have "\<exists>f. \<forall>i \<in> P. f i \<in> Q \<and> (\<exists>k k'. ks ! i = Key k \<and> ks' ! f i = Key k' \<and> k_eq ops k k')"
    unfolding Bex_def by (rule bchoice)
  then obtain f where f: "\<forall>i \<in> P. f i \<in> Q \<and> (\<exists>k k'. ks ! i = Key k \<and> ks' ! f i = Key k' \<and> k_eq ops k k')" ..
  have inj: "inj_on f P"
  proof (rule inj_onI)
    fix i j assume ij: "i \<in> P" "j \<in> P" "f i = f j"
    obtain k k' l where k: "ks ! i = Key k" "ks' ! f i = Key k'" "k_eq ops k k'" "ks ! j = Key l" "k_eq ops l k'"
      using f ij by (metis slotkey.inject)
    have "i < length ks" "j < length ks" "f i < length ks'" using f ij by (auto simp: P_def Q_def)
    then have "valid k" "valid l" "valid k'"
      using keys_invD(1) [OF assms(1)] keys_invD(1) [OF assms(2)] k nth_mem [of i ks] nth_mem [of j ks] nth_mem [of "f i" ks'] by simp_all
    then have "k_eq ops k l" using k eq_sym eq_trans by blast
    then show "i = j" using keys_invD(2) [OF assms(1), of i j k l] k ij by (simp add: P_def)
  qed
  have sub: "f ` P \<subseteq> Q" using f by blast
  show "length (filter is_key ks) \<le> length (filter is_key ks')"
    using card_inj_on_le [OF inj sub fin(2)] card by simp
  assume "length (filter is_key ks) = length (filter is_key ks')" and k': "Key k' \<in> set ks'"
  then have "f ` P = Q" using card_subset_eq [OF fin(2) sub] card_image [OF inj] card by simp
  moreover obtain j where "j < length ks'" "ks' ! j = Key k'" using k' by (auto simp: in_set_conv_nth)
  ultimately have "j \<in> f ` P" by (simp add: Q_def)
  then obtain i where i: "i \<in> P" "f i = j" by blast
  then obtain k where "ks ! i = Key k" "k_eq ops k k'" using f \<open>ks' ! j = Key k'\<close> by fastforce
  then show "\<exists>k. Key k \<in> set ks \<and> k_eq ops k k'" using i(1) nth_mem [of i ks] by (auto simp: P_def)
qed

lemma equal_loop_entries:
  assumes "filled_ok m" "cur \<le> m_alloc m"
  shows "m_alloc m - cur < n \<Longrightarrow> dict_inv ops valid rhs \<Longrightarrow> \<forall>(k, v) \<in> set (entries_from m cur). valid k \<Longrightarrow>
    equal_loop n ops room veq m rhs cur =
      Some (\<forall>(k, v) \<in> set (entries_from m cur). \<exists>w. dict_abs ops rhs k = Some w \<and> veq v w)"
  using assms
proof (induction arbitrary: n rule: iter_induct)
  case stop
  then show ?case by (cases n) auto
next
  case (skip cur)
  have "equal_loop n ops room veq m rhs cur = equal_loop n ops room veq m rhs (Suc cur)" by (cases n) (simp_all add: skip(2))
  then show ?case using skip(3,5-7) skip(4) [of n] by simp
next
  case (item cur k v)
  then obtain n' where n: "n = Suc n'" by (cases n) auto
  have k: "valid k" using item(5,9) by simp
  have rest: "equal_loop n' ops room veq m rhs (Suc cur) =
      Some (\<forall>(k, v) \<in> set (entries_from m (Suc cur)). \<exists>w. dict_abs ops rhs k = Some w \<and> veq v w)"
    using item(6) [of n'] item(1,5,7,8,9) n by simp
  show ?case
  proof (rule map_find_correct [OF item(8) k, of room])
    assume "map_find ops room rhs k = Some (rhs, None)" "dict_abs ops rhs k = None"
    then show ?case using item(2,4,5) n by simp
  next
    fix pos w assume "map_find ops room rhs k = Some (rhs, Some pos)" "dict_abs ops rhs k = Some w" "snd (m_table rhs ! pos) = Some w"
    then show ?case using item(2,4,5) n rest by simp
  qed
qed

lemma dict_equal_iff:
  assumes "dict_inv ops valid m" "dict_inv ops valid rhs"
  shows "dict_equal ops room veq m rhs =
    Some (\<forall>y. valid y \<longrightarrow> rel_option veq (dict_abs ops m y) (dict_abs ops rhs y))"
proof -
  note ok = dict_filled_ok [OF assms(1)]
  have m: "map_inv ops valid m" "map_inv ops valid rhs" using assms by (simp_all add: dict_inv_def)
  note keys = map_invD(4) [OF m(1)] map_invD(4) [OF m(2)] and used = map_invD(5) [OF m(1)] map_invD(5) [OF m(2)]
  define R where "R = (\<forall>y. valid y \<longrightarrow> rel_option veq (dict_abs ops m y) (dict_abs ops rhs y))"
  define E where "E = (\<forall>(k, v) \<in> set (entries_from m 0). \<exists>w. dict_abs ops rhs k = Some w \<and> veq v w)"
  have val: "valid k" if "Key k \<in> set (m_keys m)" for k using keys_invD(1) [OF keys(1) that] .
  have loop: "equal_loop (Suc (m_alloc m)) ops room veq m rhs 0 = Some E"
    unfolding E_def by (rule equal_loop_entries [OF ok]) (use assms(2) val entries_dict_abs [OF assms(1)] in auto)
  have "R \<longleftrightarrow> m_used m = m_used rhs \<and> E"
  proof
    assume R: R
    have "E" unfolding E_def
    proof (intro ballI, clarify)
      fix k v assume "(k, v) \<in> set (entries_from m 0)"
      then have "valid k" "dict_abs ops m k = Some v" using entries_dict_abs [OF assms(1)] val by auto
      then have "rel_option veq (Some v) (dict_abs ops rhs k)" using R unfolding R_def by metis
      then show "\<exists>w. dict_abs ops rhs k = Some w \<and> veq v w" by (cases "dict_abs ops rhs k") auto
    qed
    have there: "\<exists>k'. Key k' \<in> set (m_keys rhs) \<and> k_eq ops k k'" if "Key k \<in> set (m_keys m)" for k
      using dict_key_held [OF assms(1) that] R val [OF that] dict_key_of [OF assms(2) val [OF that]] unfolding R_def by (metis option_rel_Some1)
    have val': "valid k" if "Key k \<in> set (m_keys rhs)" for k using keys_invD(1) [OF keys(2) that] .
    have there': "\<exists>k'. Key k' \<in> set (m_keys m) \<and> k_eq ops k k'" if "Key k \<in> set (m_keys rhs)" for k
      using dict_key_held [OF assms(2) that] R val' [OF that] dict_key_of [OF assms(1) val' [OF that]] unfolding R_def by (metis option_rel_Some2)
    have "m_used m = m_used rhs"
      using keys_embed(1) [OF keys there] keys_embed(1) [OF keys(2,1) there'] used by simp
    then show "m_used m = m_used rhs \<and> E" using \<open>E\<close> by simp
  next
    assume E: "m_used m = m_used rhs \<and> E"
    have there: "\<exists>k'. Key k' \<in> set (m_keys rhs) \<and> k_eq ops k k'" if key: "Key k \<in> set (m_keys m)" for k
    proof -
      obtain v where "dict_abs ops m k = Some v" using dict_key_held [OF assms(1) key] by blast
      then obtain w where "dict_abs ops rhs k = Some w" using E entries_dict_abs [OF assms(1), of k v] key unfolding E_def by blast
      then show ?thesis using dict_key_of [OF assms(2) val [OF key]] by blast
    qed
    have "rel_option veq (dict_abs ops m y) (dict_abs ops rhs y)" if y: "valid y" for y
    proof (cases "dict_abs ops m y")
      case (Some v)
      obtain k where k: "(k, v) \<in> set (entries_from m 0)" "k_eq ops k y" "valid k" by (rule dict_abs_keys [OF assms(1) y Some])
      then obtain w where "dict_abs ops rhs k = Some w" "veq v w" using E unfolding E_def by blast
      then show ?thesis using Some dict_abs_cong [OF assms(2) k(3) y k(2)] by simp
    next
      case None
      have "dict_abs ops rhs y \<noteq> Some w" for w
      proof
        assume w: "dict_abs ops rhs y = Some w"
        obtain k' where k': "(k', w) \<in> set (entries_from rhs 0)" "k_eq ops k' y" "valid k'" by (rule dict_abs_keys [OF assms(2) y w])
        then have "Key k' \<in> set (m_keys rhs)" using entries_dict_abs [OF assms(2)] by blast
        then obtain k where k: "Key k \<in> set (m_keys m)" "k_eq ops k k'"
          using keys_embed(2) [OF keys there, of k'] E used by auto
        then have "k_eq ops k y" using eq_trans [OF val [OF k(1)] k'(3) y k(2) k'(2)] by simp
        then show False using dict_key_held [OF assms(1) k(1)] dict_abs_cong [OF assms(1) val [OF k(1)] y] None by simp
      qed
      then show ?thesis using None by (cases "dict_abs ops rhs y") auto
    qed
    then show R unfolding R_def by blast
  qed
  then show ?thesis unfolding R_def [symmetric] dict_equal_def loop by auto
qed

lemma put_all_correct:
  assumes "dict_inv ops valid m" "\<forall>(k, v) \<in> set kvs. valid k"
  obtains (raised) m' put k v rest where "put_all ops room m kvs = Some (m', Inl Memory_Error)" "dict_inv ops valid m'" "stuck room m'"
      "kvs = put @ (k, v) # rest" "dict_abs ops m' k = None" "\<forall>y. valid y \<longrightarrow> dict_abs ops m' y = stored ops put (dict_abs ops m) y"
  | (finished) m' where "put_all ops room m kvs = Some (m', Inr ())" "dict_inv ops valid m'"
      "\<forall>y. valid y \<longrightarrow> dict_abs ops m' y = stored ops kvs (dict_abs ops m) y"
  using assms
proof (induction kvs arbitrary: m thesis)
  case Nil
  then show ?case by simp
next
  case (Cons kv kvs)
  obtain k v where kv: "kv = (k, v)" by (cases kv)
  then have k: "valid k" using Cons.prems(4) by simp
  show ?case
  proof (rule map_put_correct [OF Cons.prems(3) k, of room v])
    assume "map_put ops room m k v = Some (m, Inl Memory_Error)" "dict_abs ops m k = None" "stuck room m"
    then show ?case using Cons.prems(1) [of m "[]" k v kvs] Cons.prems(3) kv by simp
  next
    fix m1 assume m1: "map_put ops room m k v = Some (m1, Inr ())" "updated ops valid m k (Some v) m1"
    have eq: "put_all ops room m (kv # kvs) = put_all ops room m1 kvs" using m1(1) kv by simp
    have inv: "dict_inv ops valid m1" using m1(2) by (simp add: updated_def)
    show ?case
    proof (rule Cons.IH [OF _ _ inv])
      show "\<forall>(k, v) \<in> set kvs. valid k" using Cons.prems(4) by simp
      fix m' put k' v' rest
      assume m': "put_all ops room m1 kvs = Some (m', Inl Memory_Error)" "dict_inv ops valid m'" "stuck room m'"
        "kvs = put @ (k', v') # rest" "dict_abs ops m' k' = None" "\<forall>y. valid y \<longrightarrow> dict_abs ops m' y = stored ops put (dict_abs ops m1) y"
      have "dict_abs ops m' y = stored ops (kv # put) (dict_abs ops m) y" if "valid y" for y
        using m'(6) that m1(2) kv by (auto simp: updated_def intro!: stored_cong)
      then show ?case using Cons.prems(1) [of m' "kv # put" k' v' rest] m'(1-5) eq by simp
    next
      fix m' assume m': "put_all ops room m1 kvs = Some (m', Inr ())" "dict_inv ops valid m'"
        "\<forall>y. valid y \<longrightarrow> dict_abs ops m' y = stored ops kvs (dict_abs ops m1) y"
      have "dict_abs ops m' y = stored ops (kv # kvs) (dict_abs ops m) y" if "valid y" for y
        using m'(3) that m1(2) kv by (auto simp: updated_def intro!: stored_cong)
      then show ?case using Cons.prems(2) [of m'] m'(1,2) eq by simp
    qed
  qed
qed

lemma dict_entries_valid:
  assumes "dict_inv ops valid m"
  shows "\<forall>(k, v) \<in> set (entries_from m 0). valid k"
proof clarify
  fix k v assume "(k, v) \<in> set (entries_from m 0)"
  then have "Key k \<in> set (m_keys m)" using entries_dict_abs [OF assms] by blast
  moreover have "keys_inv ops valid (m_keys m)" using assms map_invD(4) by (auto simp: dict_inv_def)
  ultimately show "valid k" using keys_invD(1) [of ops valid "m_keys m" k] by blast
qed

lemma stored_entries:
  assumes "dict_inv ops valid other" "valid y"
  shows "stored ops (entries_from other 0) f y = (case dict_abs ops other y of Some v \<Rightarrow> Some v | None \<Rightarrow> f y)"
proof -
  have val: "valid k" if "(k, v) \<in> set (entries_from other 0)" for k v
    using dict_entries_valid [OF assms(1)] that by blast
  have agree: "dict_abs ops other y = Some v" if "(k, v) \<in> set (entries_from other 0)" "k_eq ops k y" for k v
    using dict_abs_cong [OF assms(1) val [OF that(1)] assms(2) that(2)] entries_dict_abs [OF assms(1)] that(1) by auto
  have eq: "stored ops (entries_from other 0) f y =
      (if \<exists>(k, v) \<in> set (entries_from other 0). k_eq ops k y then dict_abs ops other y else f y)"
    by (rule stored_agree) (rule agree)
  show ?thesis
  proof (cases "dict_abs ops other y")
    case None
    then have "\<not> (\<exists>(k, v) \<in> set (entries_from other 0). k_eq ops k y)"
      using agree by force
    then show ?thesis using eq None by simp
  next
    case (Some v)
    then have "\<exists>(k, v) \<in> set (entries_from other 0). k_eq ops k y" using dict_abs_keys [OF assms Some] by blast
    then show ?thesis using eq Some by simp
  qed
qed

text \<open>Some of the entries of another dictionary stored over a map.\<close>

lemma stored_some_entries:
  assumes "dict_inv ops valid other" "valid y" "entries_from other 0 = put @ rest"
  shows "stored ops put f y = f y \<or> dict_abs ops other y \<noteq> None \<and> stored ops put f y = dict_abs ops other y"
proof -
  have sub: "(k, v) \<in> set (entries_from other 0)" if "(k, v) \<in> set put" for k v using that assms(3) by simp
  have agree: "dict_abs ops other y = Some v" if "(k, v) \<in> set put" "k_eq ops k y" for k v
  proof -
    have "valid k" using dict_entries_valid [OF assms(1)] sub [OF that(1)] by blast
    then show ?thesis
      using dict_abs_cong [OF assms(1) _ assms(2) that(2)] entries_dict_abs [OF assms(1), of k v] sub [OF that(1)] by auto
  qed
  have "stored ops put f y = (if \<exists>(k, v) \<in> set put. k_eq ops k y then dict_abs ops other y else f y)"
    by (rule stored_agree) (rule agree)
  then show ?thesis using agree by (auto split: if_splits)
qed

lemma dict_update_from:
  assumes "dict_inv ops valid m" "dict_inv ops valid other"
  obtains (raised) m' x where "dict_update ops room m (OtherDict other) (mp_map_init_fixed_table []) = Some (m', Inl Memory_Error)" "dict_inv ops valid m'"
      "stuck room m'" "valid x" "dict_abs ops other x \<noteq> None" "dict_abs ops m' x = None"
      "\<forall>y. valid y \<longrightarrow> dict_abs ops m' y = dict_abs ops m y \<or> dict_abs ops other y \<noteq> None \<and> dict_abs ops m' y = dict_abs ops other y"
  | (finished) m' where "dict_update ops room m (OtherDict other) (mp_map_init_fixed_table []) = Some (m', Inr ())" "dict_inv ops valid m'"
      "merged ops valid m other m'"
proof -
  have fixed: "\<not> is_fixed m" using assms(1) map_invD(1) by (auto simp: dict_inv_def)
  have items: "items_from (Suc (m_alloc other)) other 0 = Some (entries_from other 0)"
    using items_from_entries [OF dict_filled_ok [OF assms(2)], of 0 "Suc (m_alloc other)"] by (simp del: items_from.simps)
  have none: "items_from (Suc 0) (mp_map_init_fixed_table []) 0 = Some ([] :: ('k \<times> 'a) list)"
    by (simp add: dict_iter_next_def mp_map_init_fixed_table_def)
  have eq: "dict_update ops room m (OtherDict other) (mp_map_init_fixed_table []) = put_all ops room m (entries_from other 0)"
    using fixed items none
    by (simp add: dict_update_def mp_ensure_not_fixed_def mp_map_init_fixed_table_def del: items_from.simps split: option.split sum.split)
  show thesis
  proof (rule put_all_correct [OF assms(1) dict_entries_valid [OF assms(2)], of room])
    fix m' put k v rest
    assume r: "put_all ops room m (entries_from other 0) = Some (m', Inl Memory_Error)" "dict_inv ops valid m'" "stuck room m'"
      "entries_from other 0 = put @ (k, v) # rest" "dict_abs ops m' k = None" "\<forall>y. valid y \<longrightarrow> dict_abs ops m' y = stored ops put (dict_abs ops m) y"
    have k: "(k, v) \<in> set (entries_from other 0)" using r(4) by simp
    then have "valid k" using dict_entries_valid [OF assms(2)] by blast
    moreover have "dict_abs ops other k \<noteq> None" using entries_dict_abs [OF assms(2), of k v] k by simp
    ultimately show thesis
      by (rule raised [OF r(1) [folded eq] r(2,3) _ _ r(5)]) (use r(6) stored_some_entries [OF assms(2) _ r(4)] in metis)
  next
    fix m' assume "put_all ops room m (entries_from other 0) = Some (m', Inr ())" "dict_inv ops valid m'"
      "\<forall>y. valid y \<longrightarrow> dict_abs ops m' y = stored ops (entries_from other 0) (dict_abs ops m) y"
    then show thesis using finished [of m'] stored_entries [OF assms(2)] eq by (simp add: merged_def)
  qed
qed

end

lemma dict_copy_same:
  assumes "dict_inv ops valid m"
  shows "mp_obj_dict_copy room m = (if m_alloc m = 0 \<or> room (m_alloc m) then Inr m else Inl Memory_Error)"
proof -
  have "map_inv ops valid m" using assms by (simp add: dict_inv_def)
  from map_invD [OF this] show ?thesis
    by (cases m) (simp add: mp_obj_dict_copy_def mp_obj_new_dict_def mp_map_init_def)
qed

text \<open>A new dictionary, and one that was cleared, is empty.\<close>

lemma table_get_blank: "table_get ops (replicate n (NullKey, v)) y = None"
  by (simp add: table_get_None absent_def)

lemma dict_empty_inv: "dict_inv ops valid (mp_map_init n)"
  using fresh_tables(1) [of ops valid n] by (simp add: dict_inv_def mp_map_init_def table_get_blank)

lemma dict_empty_abs: "dict_abs ops (mp_map_init n) y = None" "dict_abs ops (mp_map_clear m) y = None"
  by (simp_all add: dict_abs_def mp_map_init_def mp_map_clear_def table_get_blank)

lemma dict_clear_correct: "dict_inv ops valid m \<Longrightarrow> \<exists>m'. dict_clear m = Some (m', Inr ()) \<and> dict_inv ops valid m' \<and> (\<forall>y. dict_abs ops m' y = None)"
  using fresh_tables(2) [of m ops valid] map_invD(1,2) [of ops valid m] dict_empty_abs(2) [of ops m]
  by (auto simp: dict_clear_def mp_ensure_not_fixed_def dict_inv_def mp_map_clear_def)

section \<open>Properties\<close>

lemma sample_dict: "dict_inv (int_keys w sample_heap) (int_ok sample_heap) sample_map"
  unfolding dict_inv_def
proof (intro conjI allI impI notI)
  show "map_inv (int_keys w sample_heap) (int_ok sample_heap) sample_map" by (rule sample_tables_inv)
  fix y assume "table_get (int_keys w sample_heap) (m_table sample_map) y = Some None"
  then show False by (simp add: sample_map_def split: if_splits)
qed

lemma sample_dict_abs:
  "dict_abs (int_keys w sample_heap) sample_map (SmallInt 7) = None"
  "dict_abs (int_keys w sample_heap) sample_map (SmallInt 4) = Some 10"
  using sample_ok(1,3) sample_int_ok
  by (simp_all add: dict_abs_def sample_map_def mp_obj_equal_int del: ival.simps(2) int_ok.simps)

text \<open>C6: A dictionary implements the finite map it stands for.  Reading an item returns the value
  of the key or raises KeyError; \<open>in\<close> tells whether there is one; \<open>get\<close> returns the value or the
  default; \<open>pop\<close> and \<open>del\<close> take the key away, and raise KeyError if it was not there and there is no
  default; \<open>setdefault\<close> and storing an item give the key a value, or raise MemoryError and
  leave the dictionary as it was; \<open>popitem\<close> takes away one association and returns it, or, when
  there is no memory for the tuple, raises MemoryError with the association already gone.  No
  operation changes the value of a key that is not equal to the one given.\<close>

theorem dict_operations_correct:
  assumes "hash_keys ops valid" "dict_inv ops valid m" "valid x"
  shows "dict_subscr none ops room m x SubscrLoad =
      Some (m, case dict_abs ops m x of Some v \<Rightarrow> Inr v | None \<Rightarrow> Inl Key_Error) \<and>
    dict_contains ops room m x = Some (dict_abs ops m x \<noteq> None) \<and>
    dict_get none ops room m x deflt =
      Some (m, Inr (case dict_abs ops m x of Some v \<Rightarrow> v | None \<Rightarrow> (case deflt of Some d \<Rightarrow> d | None \<Rightarrow> none))) \<and>
    (\<exists>m'. dict_pop none ops room m x deflt =
        Some (m', case dict_abs ops m x of Some v \<Rightarrow> Inr v | None \<Rightarrow> (case deflt of Some d \<Rightarrow> Inr d | None \<Rightarrow> Inl Key_Error)) \<and>
      updated ops valid m x None m') \<and>
    (\<exists>m'. dict_subscr none ops room m x SubscrDelete =
        Some (m', if dict_abs ops m x = None then Inl Key_Error else Inr none) \<and> updated ops valid m x None m') \<and>
    (dict_setdefault none ops room m x deflt = Some (m, Inl Memory_Error) \<and> dict_abs ops m x = None \<and> stuck room m \<or>
      (\<exists>m' v. dict_setdefault none ops room m x deflt = Some (m', Inr v) \<and> updated ops valid m x (Some v) m' \<and>
        v = (case dict_abs ops m x of Some v \<Rightarrow> v | None \<Rightarrow> (case deflt of Some d \<Rightarrow> d | None \<Rightarrow> none)))) \<and>
    (dict_subscr none ops room m x (SubscrStore v) = Some (m, Inl Memory_Error) \<and> dict_abs ops m x = None \<and> stuck room m \<or>
      (\<exists>m'. dict_subscr none ops room m x (SubscrStore v) = Some (m', Inr none) \<and> updated ops valid m x (Some v) m')) \<and>
    (dict_popitem tup m = Some (m, Inl Key_Error) \<and> (\<forall>y. dict_abs ops m y = None) \<or>
      (\<exists>m' k v. dict_popitem tup m = Some (m', if tup then Inr (k, v) else Inl Memory_Error) \<and> valid k \<and> dict_abs ops m k = Some v \<and> updated ops valid m k None m'))"
proof (intro conjI)
  note keys = assms(1) and args = assms(2,3)
  have fixed: "\<not> is_fixed m" using assms(2) map_invD(1) by (auto simp: dict_inv_def)
  show "dict_subscr none ops room m x SubscrLoad = Some (m, case dict_abs ops m x of Some v \<Rightarrow> Inr v | None \<Rightarrow> Inl Key_Error)"
    by (rule hash_keys.map_find_correct [OF keys args, of room]) simp_all
  show "dict_contains ops room m x = Some (dict_abs ops m x \<noteq> None)"
    by (rule hash_keys.map_find_correct [OF keys args, of room]) (simp_all add: dict_contains_def)
  show "dict_get none ops room m x deflt =
      Some (m, Inr (case dict_abs ops m x of Some v \<Rightarrow> v | None \<Rightarrow> (case deflt of Some d \<Rightarrow> d | None \<Rightarrow> none)))"
    unfolding dict_get_def by (rule hash_keys.get_helper_lookup [OF keys args])
  show "\<exists>m'. dict_pop none ops room m x deflt =
        Some (m', case dict_abs ops m x of Some v \<Rightarrow> Inr v | None \<Rightarrow> (case deflt of Some d \<Rightarrow> Inr d | None \<Rightarrow> Inl Key_Error)) \<and>
      updated ops valid m x None m'"
    unfolding dict_pop_def by (rule hash_keys.get_helper_remove [OF keys args, of none room deflt]) blast
  show "\<exists>m'. dict_subscr none ops room m x SubscrDelete =
        Some (m', if dict_abs ops m x = None then Inl Key_Error else Inr none) \<and> updated ops valid m x None m'"
    by (rule hash_keys.get_helper_remove [OF keys args, of none room None])
      (auto simp: mp_obj_dict_delete_def split: option.splits)
  show "dict_setdefault none ops room m x deflt = Some (m, Inl Memory_Error) \<and> dict_abs ops m x = None \<and> stuck room m \<or>
      (\<exists>m' v. dict_setdefault none ops room m x deflt = Some (m', Inr v) \<and> updated ops valid m x (Some v) m' \<and>
        v = (case dict_abs ops m x of Some v \<Rightarrow> v | None \<Rightarrow> (case deflt of Some d \<Rightarrow> d | None \<Rightarrow> none)))"
    unfolding dict_setdefault_def by (rule hash_keys.get_helper_add [OF keys args, of none room deflt]) blast+
  show "dict_subscr none ops room m x (SubscrStore v) = Some (m, Inl Memory_Error) \<and> dict_abs ops m x = None \<and> stuck room m \<or>
      (\<exists>m'. dict_subscr none ops room m x (SubscrStore v) = Some (m', Inr none) \<and> updated ops valid m x (Some v) m')"
    by (rule hash_keys.map_put_correct [OF keys args, of room v])
      (use fixed in \<open>simp_all add: mp_obj_dict_store_def mp_ensure_not_fixed_def\<close>)
  show "dict_popitem tup m = Some (m, Inl Key_Error) \<and> (\<forall>y. dict_abs ops m y = None) \<or>
      (\<exists>m' k v. dict_popitem tup m = Some (m', if tup then Inr (k, v) else Inl Memory_Error) \<and> valid k \<and> dict_abs ops m k = Some v \<and> updated ops valid m k None m')"
    by (rule hash_keys.popitem_correct [OF keys args(1), of tup]) blast+
qed

theorem dict_operations_correct_witness:
  "\<forall>w :: nat world. \<exists>m'. dict_subscr 0 (int_keys w sample_heap) (\<lambda>_. True) sample_map (SmallInt 7) (SubscrStore 30) = Some (m', Inr 0) \<and>
     updated (int_keys w sample_heap) (int_ok sample_heap) sample_map (SmallInt 7) (Some 30) m'"
proof
  fix w :: "nat world"
  show "\<exists>m'. dict_subscr 0 (int_keys w sample_heap) (\<lambda>_. True) sample_map (SmallInt 7) (SubscrStore 30) = Some (m', Inr 0) \<and>
     updated (int_keys w sample_heap) (int_ok sample_heap) sample_map (SmallInt 7) (Some 30) m'"
    using dict_operations_correct [OF ik.hash_keys_axioms sample_dict [of w] sample_int_ok(2), of 0 "\<lambda>_. True" None 30]
    by (simp only: stuck_def simp_thms)
qed

text \<open>C10: Two dictionaries compare equal exactly when they give every key equal values: no
  value for a key in one means none in the other, whatever the sizes of their tables, the
  order of insertion and the history of deletions.\<close>

theorem dict_equal_correct:
  assumes "hash_keys ops valid" "dict_inv ops valid m" "dict_inv ops valid rhs"
  shows "dict_equal ops room veq m rhs = Some (\<forall>y. valid y \<longrightarrow> rel_option veq (dict_abs ops m y) (dict_abs ops rhs y))"
  using assms by (rule hash_keys.dict_equal_iff)

theorem dict_equal_correct_witness:
  "\<forall>w :: nat world. dict_equal (int_keys w sample_heap) (\<lambda>_. True) (=) sample_map (mp_map_init 4) = Some False"
proof
  fix w :: "nat world"
  have "\<not> rel_option (=) (dict_abs (int_keys w sample_heap) sample_map (SmallInt 4)) (dict_abs (int_keys w sample_heap) (mp_map_init 4) (SmallInt 4))"
    by (simp add: sample_dict_abs(2) dict_empty_abs(1))
  then show "dict_equal (int_keys w sample_heap) (\<lambda>_. True) (=) sample_map (mp_map_init 4) = Some False"
    using dict_equal_correct [OF ik.hash_keys_axioms sample_dict [of w] dict_empty_inv [of _ _ 4], of "\<lambda>_. True" "(=)"] sample_int_ok(1)
    by (simp only: option.inject) blast
qed

text \<open>C15: Iterating over a dictionary that is not modified ends, and a view yields the association
  of every key exactly once: as many as the length of the dictionary, no two with equal
  keys, and a key has a value exactly when an association with an equal key is yielded.  Only a
  view of associations needs memory, for its tuples, and raises MemoryError when that is refused.\<close>

theorem dict_iteration_complete:
  assumes "hash_keys ops valid" "dict_inv ops valid m"
  shows "\<exists>kvs. view_list (Suc (m_alloc m)) tup m (dict_view_getiter kind) =
      Some (if kind = MP_DICT_VIEW_ITEMS \<and> \<not> tup \<and> kvs \<noteq> [] then Inl Memory_Error else Inr (map (view_of kind) kvs)) \<and>
    length kvs = mp_obj_dict_len m \<and> no_eq ops (map (\<lambda>kv. Key (fst kv)) kvs) \<and>
    (\<forall>y v. valid y \<longrightarrow> (dict_abs ops m y = Some v \<longleftrightarrow> (\<exists>k. (k, v) \<in> set kvs \<and> k_eq ops k y)))"
proof (intro exI conjI allI impI)
  have m: "map_inv ops valid m" using assms(2) by (simp add: dict_inv_def)
  note ok = hash_keys.dict_filled_ok [OF assms]
  show "view_list (Suc (m_alloc m)) tup m (dict_view_getiter kind) =
      Some (if kind = MP_DICT_VIEW_ITEMS \<and> \<not> tup \<and> entries_from m 0 \<noteq> [] then Inl Memory_Error else Inr (map (view_of kind) (entries_from m 0)))"
    using view_list_entries [OF ok, of 0 "Suc (m_alloc m)" tup] by (simp add: dict_view_getiter_def del: view_list.simps)
  show "length (entries_from m 0) = mp_obj_dict_len m"
    using length_entries [OF ok] map_invD(5) [OF m] by (simp add: mp_obj_dict_len_def)
  show "no_eq ops (map (\<lambda>kv. Key (fst kv)) (entries_from m 0))"
    using entries_no_eq [OF keys_inv_no_eq [OF map_invD(4) [OF m]]] .
  fix y v assume y: "valid y"
  show "dict_abs ops m y = Some v \<longleftrightarrow> (\<exists>k. (k, v) \<in> set (entries_from m 0) \<and> k_eq ops k y)"
  proof
    assume "dict_abs ops m y = Some v"
    then show "\<exists>k. (k, v) \<in> set (entries_from m 0) \<and> k_eq ops k y"
      using hash_keys.dict_abs_keys [OF assms y] by metis
  next
    assume "\<exists>k. (k, v) \<in> set (entries_from m 0) \<and> k_eq ops k y"
    then obtain k where k: "(k, v) \<in> set (entries_from m 0)" "k_eq ops k y" by blast
    then have "valid k" using hash_keys.dict_entries_valid [OF assms] by blast
    then show "dict_abs ops m y = Some v"
      using hash_keys.dict_abs_cong [OF assms _ y k(2)] hash_keys.entries_dict_abs [OF assms] k(1) by auto
  qed
qed

theorem dict_iteration_complete_witness:
  "\<forall>w :: nat world. \<exists>kvs. view_list 3 True sample_map (dict_view_getiter MP_DICT_VIEW_ITEMS) = Some (Inr (map (view_of MP_DICT_VIEW_ITEMS) kvs)) \<and>
     length kvs = 2 \<and> (\<exists>k. (k, 10) \<in> set kvs \<and> mp_obj_equal w sample_heap k (SmallInt 4))"
proof
  fix w :: "nat world"
  have len: "Suc (m_alloc sample_map) = 3" "mp_obj_dict_len sample_map = 2" by (simp_all add: sample_map_def mp_obj_dict_len_def)
  show "\<exists>kvs. view_list 3 True sample_map (dict_view_getiter MP_DICT_VIEW_ITEMS) = Some (Inr (map (view_of MP_DICT_VIEW_ITEMS) kvs)) \<and>
     length kvs = 2 \<and> (\<exists>k. (k, 10) \<in> set kvs \<and> mp_obj_equal w sample_heap k (SmallInt 4))"
    using dict_iteration_complete [OF ik.hash_keys_axioms sample_dict [of w], of True MP_DICT_VIEW_ITEMS] sample_dict_abs(2) [of w] sample_int_ok(1)
    unfolding len int_keys_simps by (simp only: simp_thms if_False) metis
qed

text \<open>C16: Updating a dictionary from another ends in one of two ways.  It succeeds: the keys of the
  other have the values they have there, and the rest is kept.  Or it raises MemoryError, only
  because the table is full, a key of the other has no place in it, and the allocator refuses
  a larger one; then the dictionary is well formed and every key has its old value or the one of the
  other dictionary.  The operator \<open>|\<close> raises MemoryError when there is no memory for the copy, and
  otherwise does the same to the copy.  With an allocator that refuses nothing both succeed.\<close>

theorem dict_update_correct:
  assumes "hash_keys ops valid" "dict_inv ops valid m" "dict_inv ops valid other"
  shows "(case dict_inplace_or ops room m (OtherDict other) of
      None \<Rightarrow> False
    | Some (m', Inr _) \<Rightarrow> dict_inv ops valid m' \<and> merged ops valid m other m'
    | Some (m', Inl e) \<Rightarrow> e = Memory_Error \<and> dict_inv ops valid m' \<and> stuck room m' \<and>
        (\<exists>x. valid x \<and> dict_abs ops other x \<noteq> None \<and> dict_abs ops m' x = None) \<and>
        (\<forall>y. valid y \<longrightarrow> dict_abs ops m' y = dict_abs ops m y \<or> dict_abs ops other y \<noteq> None \<and> dict_abs ops m' y = dict_abs ops other y)) \<and>
    dict_or ops room m (OtherDict other) =
      (if m_alloc m = 0 \<or> room (m_alloc m) then built (dict_inplace_or ops room m (OtherDict other)) else Some (Inl Memory_Error)) \<and>
    ((\<forall>n. room n) \<longrightarrow> (\<exists>m'. dict_inplace_or ops room m (OtherDict other) = Some (m', Inr ()) \<and>
      dict_or ops room m (OtherDict other) = Some (Inr m') \<and> dict_inv ops valid m' \<and> merged ops valid m other m'))"
proof -
  have or: "dict_or ops room m (OtherDict other) =
      (if m_alloc m = 0 \<or> room (m_alloc m) then built (dict_inplace_or ops room m (OtherDict other)) else Some (Inl Memory_Error))"
    by (simp add: dict_or_def dict_inplace_or_def dict_copy_same [OF assms(2)])
  show ?thesis
    unfolding or by (rule hash_keys.dict_update_from [OF assms, of room]) (auto simp: dict_inplace_or_def built_def stuck_def)
qed

theorem dict_update_correct_witness:
  "\<forall>w :: nat world. \<exists>m'. dict_inplace_or (int_keys w sample_heap) (\<lambda>_. True) (mp_map_init 2) (OtherDict sample_map) = Some (m', Inr ()) \<and>
     dict_or (int_keys w sample_heap) (\<lambda>_. True) (mp_map_init 2) (OtherDict sample_map) = Some (Inr m') \<and>
     dict_abs (int_keys w sample_heap) m' (SmallInt 4) = Some 10"
proof
  fix w :: "nat world"
  show "\<exists>m'. dict_inplace_or (int_keys w sample_heap) (\<lambda>_. True) (mp_map_init 2) (OtherDict sample_map) = Some (m', Inr ()) \<and>
     dict_or (int_keys w sample_heap) (\<lambda>_. True) (mp_map_init 2) (OtherDict sample_map) = Some (Inr m') \<and>
     dict_abs (int_keys w sample_heap) m' (SmallInt 4) = Some 10"
    using dict_update_correct [OF ik.hash_keys_axioms dict_empty_inv [of _ _ 2] sample_dict [of w], of "\<lambda>_. True"] sample_dict_abs(2) [of w] sample_int_ok(1)
    unfolding merged_def by fastforce
qed

end
