(* ===== verification/IntConv.thy ===== *)
theory IntConv
  imports IntObj
begin

text \<open>
  Conversions between integer objects and other data (\<open>py/objint.c\<close>): from floating point
  numbers, and from and to byte strings.  A double is given by its sign bit, its exponent field
  and its fraction field.

  Shown here: a finite double becomes the integer it has when the fraction is cut off; bytes
  become the number they spell; a non-negative integer is written in exactly the given number
  of bytes or refused, and reading the bytes back gives the integer.
\<close>

unbundle bit_operations_syntax

section \<open>From floating point\<close>

datatype fp_class = FIT_SMALLINT | FIT_LONGINT

text \<open>The words of a double: \<open>hi\<close> holds the sign, the exponent and 20 bits of the fraction.\<close>

definition mp_classify_fp_as_int :: "bool \<Rightarrow> int \<Rightarrow> int \<Rightarrow> fp_class" where
  "mp_classify_fp_as_int sgn_bit exp frc =
     (let hi = (if sgn_bit then 2 ^ 31 else 0) + exp * 2 ^ 20 + frc div 2 ^ 32;
          lo = frc mod 2 ^ 32;
          e = (if hi AND 2 ^ 31 \<noteq> 0
               then let e = hi OR (if lo \<noteq> 0 then 1 else 0) in
                    if e AND (2 ^ 31 - 1) = 0 then 0 else u32 (e + (2 ^ 11 - 1) * 2 ^ 20)
               else hi - hi mod 2 ^ 20)
      in if e \<le> (32 + 1023 - 3) * 2 ^ 20 then FIT_SMALLINT else FIT_LONGINT)"

text \<open>The C conversion of a double to an integer type: towards zero.\<close>

definition c_trunc :: "bool \<Rightarrow> int \<Rightarrow> int \<Rightarrow> int" where
  "c_trunc sgn_bit exp frc = sval sgn_bit (float_int exp frc)"

definition mp_obj_new_int_from_float :: "bool \<Rightarrow> int \<Rightarrow> int \<Rightarrow> 'f heap \<Rightarrow> (pyobj, 'f) mres" where
  "mp_obj_new_int_from_float sgn_bit exp frc h =
     (if exp = 2 ^ 11 - 1 then (if frc = 0 then raise OverflowError else raise ValueError)
      else case mp_classify_fp_as_int sgn_bit exp frc of
        FIT_SMALLINT \<Rightarrow> ret (MP_OBJ_NEW_SMALL_INT (c_trunc sgn_bit exp frc)) h
      | FIT_LONGINT \<Rightarrow> do {
          let (o', h) = mp_obj_int_new_mpz h;
          h \<leftarrow> with_mpz h (\<lambda>st. mpz_set_from_float st (Obj o') sgn_bit exp frc);
          ret (IntRef o') h
        })"

section \<open>From and to bytes\<close>

text \<open>The value so far, or the point where it stops fitting a small integer.\<close>

fun from_bytes_loop :: "int \<Rightarrow> int list \<Rightarrow> int option" where
  "from_bytes_loop value [] = Some value"
| "from_bytes_loop value (b # bs) =
     (if value > MP_SMALL_INT_MAX div 256 then None else from_bytes_loop (u32 (value * 256) OR b) bs)"

definition int_from_bytes :: "int list \<Rightarrow> bool \<Rightarrow> 'f heap \<Rightarrow> (pyobj, 'f) mres" where
  "int_from_bytes buf big_endian h =
     (case from_bytes_loop 0 (if big_endian then buf else rev buf) of
        Some value \<Rightarrow> mp_obj_new_int_from_uint value h
      | None \<Rightarrow> mp_obj_int_from_bytes_impl big_endian buf h)"

text \<open>The bytes of a word in memory, most significant first, and the number of leading zero bits.\<close>

definition word_bytes :: "int \<Rightarrow> int list" where
  "word_bytes v = (let x = u32 v in [x div 2 ^ 24, x div 2 ^ 16 mod 256, x div 2 ^ 8 mod 256, x mod 256])"

definition mp_binary_set_int :: "nat \<Rightarrow> bool \<Rightarrow> int \<Rightarrow> int list" where
  "mp_binary_set_int val_sz big_endian v =
     (if big_endian then drop (4 - val_sz) (word_bytes v) else take val_sz (rev (word_bytes v)))"

fun clz_below :: "nat \<Rightarrow> int \<Rightarrow> nat" where
  "clz_below 0 x = 0"
| "clz_below (Suc k) x = (if bit x k then 0 else Suc (clz_below k x))"

definition mp_clz_mpi :: "int \<Rightarrow> nat" where
  "mp_clz_mpi x = clz_below 32 x"

definition int_to_bytes :: "pyobj \<Rightarrow> int \<Rightarrow> bool \<Rightarrow> 'f heap \<Rightarrow> (int list, 'f) mres" where
  "int_to_bytes self dlen big_endian h =
     (if dlen < 0 then raise ValueError
      else case self of
        IntRef a \<Rightarrow>
          (let (data, ok) = mp_obj_int_to_bytes_impl h a big_endian (nat dlen) in
           if ok then ret data h else raise OverflowError)
      | SmallInt val \<Rightarrow>
          (let slen = (if val > 0 then (32 - int (mp_clz_mpi val) + 7) div 8
                       else if val < -1 then (32 - int (mp_clz_mpi (NOT val)) + 8) div 8
                       else - val)
           in if slen \<le> dlen then
                let fill = replicate (nat (dlen - slen)) (if val < 0 then 255 else 0);
                    v = mp_binary_set_int (nat slen) big_endian val
                in ret (if big_endian then fill @ v else v @ fill) h
              else raise OverflowError)
      | _ \<Rightarrow> None)"

section \<open>Floating point numbers become the integers they contain\<close>

lemma and_bit31:
  assumes "0 \<le> (x::int)" "x < 2 ^ 32"
  shows "(x AND 2 ^ 31 \<noteq> 0) = (2 ^ 31 \<le> x)"
proof -
  have "x div 2 ^ 31 = (if x < 2 ^ 31 then 0 else 1)" using assms by (auto intro!: div_is)
  then show ?thesis unfolding and_exp_eq_0_iff_not_bit not_not bit_iff_odd by auto
qed

lemma classify_pos:
  assumes e: "0 \<le> exp" "exp < 2047" and f: "0 \<le> frc" "frc < 2 ^ 52"
  shows "mp_classify_fp_as_int False exp frc = (if exp \<le> 1052 then FIT_SMALLINT else FIT_LONGINT)"
proof -
  define fh where "fh = frc div 2 ^ 32"
  have fh: "0 \<le> fh" "fh < 2 ^ 20" using f by (auto simp: fh_def intro!: div_less_if)
  define X where "X = exp * 2 ^ 20 + fh"
  have X: "0 \<le> X" "X < 2 ^ 31" "X mod 2 ^ 20 = fh" "X - fh = exp * 2 ^ 20" using fh e by (simp_all add: X_def)
  then have "\<not> (X AND 2 ^ 31 \<noteq> 0)" using and_bit31 [of X] by simp
  then show ?thesis using X(3,4) by (simp add: mp_classify_fp_as_int_def X_def fh_def)
qed

lemma classify_neg:
  assumes e: "0 \<le> exp" "exp < 2047" and f: "0 \<le> frc" "frc < 2 ^ 52"
  shows "mp_classify_fp_as_int True exp frc = FIT_SMALLINT \<Longrightarrow> exp \<le> 1052 \<or> exp = 1053 \<and> frc = 0"
    "mp_classify_fp_as_int True exp frc = FIT_LONGINT \<Longrightarrow> 1053 \<le> exp \<or> exp = 0"
proof -
  define fh lo where "fh = frc div 2 ^ 32" and "lo = frc mod 2 ^ 32"
  have fh: "0 \<le> fh" "fh < 2 ^ 20" using f by (auto simp: fh_def intro!: div_less_if)
  define X where "X = exp * 2 ^ 20 + fh"
  have X: "0 \<le> X" "X < 2 ^ 31 - 2 ^ 20" using fh e by (simp_all add: X_def)
  define hi where "hi = 2 ^ 31 + X"
  define Y where "Y = X + (if lo \<noteq> 0 \<and> even X then 1 else 0)"
  have Y: "0 \<le> Y" "Y < 2 ^ 31 - 2 ^ 20 + 1" "X \<le> Y" "Y \<le> X + 1" using X by (simp_all add: Y_def)
  have b: "hi AND 2 ^ 31 \<noteq> 0" using and_bit31 [of hi] X by (simp add: hi_def)
  have o: "hi OR (if lo \<noteq> 0 then 1 else 0) = 2 ^ 31 + Y" by (simp add: hi_def Y_def or_one_eq)
  have m: "(2 ^ 31 + Y) AND (2 ^ 31 - 1) = Y"
  proof -
    have "(2 ^ 31 + Y) AND (2 ^ 31 - 1) = (2 ^ 31 + Y) mod 2 ^ 31"
      using take_bit_eq_mask [of 31 "2 ^ 31 + Y"] unfolding take_bit_eq_mod mask_eq_exp_minus_1 by (rule sym)
    then show ?thesis using Y by simp
  qed
  have u: "u32 (2 ^ 31 + Y + (2 ^ 11 - 1) * 2 ^ 20) = (if Y < 2 ^ 20 then 2 ^ 32 - 2 ^ 20 + Y else Y - 2 ^ 20)"
    using Y by (auto simp: u32_def mod_pos_geq)
  have k: "mp_classify_fp_as_int True exp frc = (if Y = 0 \<or> 2 ^ 20 \<le> Y \<and> Y \<le> 1053 * 2 ^ 20 then FIT_SMALLINT else FIT_LONGINT)"
  proof -
    have h: "2 ^ 31 + exp * 2 ^ 20 + fh = hi" by (simp add: hi_def X_def)
    show ?thesis unfolding mp_classify_fp_as_int_def Let_def fh_def [symmetric] lo_def [symmetric] if_True h o m u using b Y by auto
  qed
  have fz: "frc = 0" if "fh = 0" "lo = 0" using that div_mult_mod_eq [of frc "2 ^ 32"] by (simp add: fh_def lo_def)
  { assume "mp_classify_fp_as_int True exp frc = FIT_SMALLINT"
    then have "Y = 0 \<or> Y \<le> 1053 * 2 ^ 20" using k by (auto split: if_splits)
    then have "X \<le> 1053 * 2 ^ 20" using Y by auto
    then have "exp \<le> 1053" using fh by (simp add: X_def)
    moreover have "frc = 0" if "exp = 1053"
    proof -
      have "fh = 0" using \<open>X \<le> 1053 * 2 ^ 20\<close> that fh by (simp add: X_def)
      moreover from this have "lo = 0" using \<open>Y = 0 \<or> Y \<le> 1053 * 2 ^ 20\<close> that by (auto simp: Y_def X_def split: if_splits)
      ultimately show ?thesis by (rule fz)
    qed
    ultimately show "exp \<le> 1052 \<or> exp = 1053 \<and> frc = 0" by linarith }
  { assume "mp_classify_fp_as_int True exp frc = FIT_LONGINT"
    then have "Y < 2 ^ 20 \<or> 1053 * 2 ^ 20 < Y" using k by (auto split: if_splits)
    then have "X < 2 ^ 20 \<or> 1053 * 2 ^ 20 \<le> X" using Y by auto
    then show "1053 \<le> exp \<or> exp = 0" using fh e by (auto simp: X_def) }
qed

lemma float_int_small:
  assumes "0 \<le> exp" "0 \<le> frc" "frc < 2 ^ 52"
  shows "exp \<le> 1052 \<Longrightarrow> 0 \<le> float_int exp frc \<and> float_int exp frc < 2 ^ 30"
    "exp = 1053 \<Longrightarrow> frc = 0 \<Longrightarrow> float_int exp frc = 2 ^ 30" "exp < 1023 \<Longrightarrow> float_int exp frc = 0"
proof -
  show z: "float_int exp frc = 0" if "exp < 1023"
  proof -
    have "(2 ^ 52 + frc) * 2 ^ nat exp < 2 ^ 53 * 2 ^ nat exp" using assms by (intro mult_strict_right_mono) auto
    also have "\<dots> = 2 ^ (53 + nat exp)" by (rule power_add [symmetric])
    also have "\<dots> \<le> (2::int) ^ 1075" using that by (intro power_increasing) auto
    finally show ?thesis unfolding float_int_def using assms by (intro div_pos_pos_trivial) auto
  qed
  show "0 \<le> float_int exp frc \<and> float_int exp frc < 2 ^ 30" if "exp \<le> 1052"
  proof (cases "exp < 1023")
    case False
    have "float_int exp frc < 2 ^ nat (exp - 1022)" "2 ^ nat (exp - 1023) \<le> float_int exp frc"
      using float_int_cases(3,4) [of exp frc] False assms by auto
    moreover have "(2::int) ^ nat (exp - 1022) \<le> 2 ^ 30" using that by (intro power_increasing) auto
    moreover have "(0::int) \<le> 2 ^ nat (exp - 1023)" by simp
    ultimately show ?thesis by linarith
  qed (use z in simp)
  show "float_int exp frc = 2 ^ 30" if "exp = 1053" "frc = 0"
    using float_int_cases(1) [of exp frc] that by simp
qed

lemma mpz_set_from_float_zero:
  assumes "\<not> z_fixed (st z)"
  obtains st' where "mpz_set_from_float st z s 0 frc = Some st'" "becomes st z 0 st'"
proof -
  obtain st' where "mpz_set_from_int (set_neg st z s) z 0 = Some st'" "becomes (set_neg st z s) z 0 st'"
    by (rule mpz_set_from_int_spec [of "set_neg st z s" z 0]) (use assms in \<open>auto simp: set_neg_def\<close>)
  moreover from this(2) have "becomes st z 0 st'" by (auto simp: becomes_def set_neg_def)
  ultimately show thesis by (intro that) (simp_all add: mpz_set_from_float_def)
qed

lemma new_int_from_float_spec:
  assumes e: "0 \<le> exp" "exp < 2047" and f: "0 \<le> frc" "frc < 2 ^ 52"
  obtains x h' where "mp_obj_new_int_from_float s exp frc h = ret x h'" "extends h h'" "int_ok h' x" "ival h' x = sval s (float_int exp frc)"
proof (cases "mp_classify_fp_as_int s exp frc")
  case FIT_SMALLINT
  have "exp \<le> 1052 \<or> s \<and> exp = 1053 \<and> frc = 0"
    using FIT_SMALLINT classify_pos [OF e f] classify_neg(1) [OF e f] by (cases s) (auto split: if_splits)
  then have "small (sval s (float_int exp frc))" using float_int_small(1,2) [of exp frc] e f by (auto simp: small_def sval_def)
  then show thesis using that [of "SmallInt (sval s (float_int exp frc))" h] FIT_SMALLINT e
    by (simp add: mp_obj_new_int_from_float_def c_trunc_def MP_OBJ_NEW_SMALL_INT_def small_wrap_id)
next
  case FIT_LONGINT
  define d where "d = Obj (h_next h)"
  define st where "st = (h_mpz h)(d := mpz_init_zero)"
  have nf: "\<not> z_fixed (st d)" by (simp add: st_def mpz_init_zero_def)
  have ex: "1053 \<le> exp \<or> exp = 0" using FIT_LONGINT classify_pos [OF e f] classify_neg(2) [OF e f] by (cases s) (auto split: if_splits)
  obtain st' where "mpz_set_from_float st d s exp frc = Some st'" "becomes st d (sval s (float_int exp frc)) st'"
  proof (cases "exp = 0")
    case True
    obtain st' where "mpz_set_from_float st d s 0 frc = Some st'" "becomes st d 0 st'"
      by (rule mpz_set_from_float_zero [of st d, OF nf])
    then show thesis using that True float_int_small(3) [of exp frc] f by (simp add: sval_def)
  next
    case False
    show thesis by (rule mpz_set_from_float_spec [of st d exp frc s]) (use nf ex False e f that in auto)
  qed
  then have "fills (\<lambda>st d. mpz_set_from_float st d s exp frc) st d (sval s (float_int exp frc))" by (intro becomes_fills)
  then obtain h' where h': "(do { let (o', h) = mp_obj_int_new_mpz h; h \<leftarrow> with_mpz h (\<lambda>st. mpz_set_from_float st (Obj o') s exp frc); ret (IntRef o') h })
      = ret (IntRef (h_next h)) h'" "extends h h'" "int_ok h' (IntRef (h_next h))" "ival h' (IntRef (h_next h)) = sval s (float_int exp frc)"
    by (rule new_int_spec [OF st_def [unfolded d_def], folded d_def])
  have "mp_obj_new_int_from_float s exp frc h = ret (IntRef (h_next h)) h'"
    unfolding mp_obj_new_int_from_float_def h'(1) using FIT_LONGINT e by simp
  then show thesis using h'(2-4) by (rule that)
qed

section \<open>Bytes spell numbers\<close>

fun bval :: "int list \<Rightarrow> int" where
  "bval [] = 0"
| "bval (b # bs) = b + 256 * bval bs"

definition bytes_ok :: "int list \<Rightarrow> bool" where
  "bytes_ok bs \<longleftrightarrow> (\<forall>b \<in> set bs. 0 \<le> b \<and> b < 256)"

lemma bytes_ok_simps [simp]: "bytes_ok []" "bytes_ok (b # bs) \<longleftrightarrow> 0 \<le> b \<and> b < 256 \<and> bytes_ok bs"
  "bytes_ok (xs @ ys) \<longleftrightarrow> bytes_ok xs \<and> bytes_ok ys" "bytes_ok (rev xs) = bytes_ok xs"
  by (auto simp: bytes_ok_def)

lemma bval_append: "bval (xs @ ys) = bval xs + 256 ^ length xs * bval ys"
  by (induction xs) (simp_all add: algebra_simps)

lemma bval_bounds: "bytes_ok bs \<Longrightarrow> 0 \<le> bval bs \<and> bval bs < 256 ^ length bs"
  by (induction bs) auto

lemma bytes_digits_spec:
  "bytes_ok bs \<Longrightarrow> digs (bytes_digits bs) \<and> dval (bytes_digits bs) = bval bs \<and> length (bytes_digits bs) = (length bs * 8 + 15) div 16"
proof (induction bs rule: bytes_digits.induct)
  case (3 b0 b1 bs)
  have b: "0 \<le> b0" "b0 < 2 ^ 8" "0 \<le> b1" "b1 < 256" using 3(2) by auto
  have "b0 OR b1 * 256 = b0 + b1 * 256" using or_disjoint_add [OF b(1,2), of b1] by (simp add: or.commute)
  then show ?case using 3 b by (simp add: digs_def)
qed (simp_all add: digs_def)

lemma mpz_set_from_bytes_spec:
  assumes "\<not> z_fixed (st z)" "bytes_ok buf"
  obtains st' where "mpz_set_from_bytes st z be buf = Some st'" "becomes st z (bval (if be then rev buf else buf)) st'"
proof -
  define w where "w = bytes_digits (if be then rev buf else buf)"
  have w: "digs w" "dval w = bval (if be then rev buf else buf)" "length w = (length buf * 8 + 15) div 16"
    using bytes_digits_spec [of "if be then rev buf else buf"] assms(2) by (auto simp: w_def)
  obtain a where a: "mpz_need_dig st z (length w) = Some (grow st z a)" "length w \<le> a" using need_dig_spec [of st z, OF assms(1)] by metis
  define t where "t = take (mpn_remove_trailing_zeros w) w"
  have "mpz_set_from_bytes st z be buf = Some (set_neg (putz st z a t) z False)"
    using a w(3) strip_le [of w] by (simp add: mpz_set_from_bytes_def add.commute w_def [symmetric] put_set_neg put_grow t_def)
  moreover have "becomes st z (bval (if be then rev buf else buf)) (set_neg (putz st z a t) z False)"
    using assms(1) a(2) w(1,2) strip_le [of w] strip_normd [of w] strip_dval [of w]
    by (intro becomesI) (auto simp: t_def sval_def digs_def dest: in_set_takeD)
  ultimately show thesis by (rule that)
qed

lemma from_bytes_loop_spec:
  assumes "bytes_ok bs" "0 \<le> v" "v \<le> 1073741823" "from_bytes_loop v bs = Some x"
  shows "x = v * 256 ^ length bs + bval (rev bs) \<and> 0 \<le> x \<and> x \<le> 1073741823"
  using assms
proof (induction bs arbitrary: v)
  case (Cons b bs)
  have b: "0 \<le> b" "b < 2 ^ 8" and v: "v \<le> 4194303" using Cons.prems by (auto split: if_splits)
  have "u32 (v * 256) = v * 256" using Cons.prems(2) v by (intro u32_id) auto
  then have u: "u32 (v * 256) OR b = v * 256 + b" using or_disjoint_add [OF b, of v] by simp
  have "x = (v * 256 + b) * 256 ^ length bs + bval (rev bs) \<and> 0 \<le> x \<and> x \<le> 1073741823"
    using Cons.IH [of "v * 256 + b"] Cons.prems b v u by simp
  then show ?case by (simp add: bval_append algebra_simps)
qed simp

text \<open>An unsigned word as an integer object.\<close>

lemma new_int_from_uint_small:
  assumes "0 \<le> v" "v \<le> 1073741823"
  shows "mp_obj_new_int_from_uint v h = ret (SmallInt v) h"
proof -
  have "v AND 0xC0000000 = 0"
  proof (rule bit_eqI)
    fix n
    have "\<not> bit v n" if "30 \<le> n"
    proof -
      have "(2::int) ^ 30 \<le> 2 ^ n" using that by (intro power_increasing) auto
      then show ?thesis using assms by (simp add: bit_iff_odd)
    qed
    moreover have "\<not> bit (0xC0000000 :: int) n" if "n < 30"
    proof -
      have "(0xC0000000 :: int) = push_bit 30 3" by (simp add: push_bit_eq_mult)
      then show ?thesis using that by (simp only: bit_push_bit_iff) simp
    qed
    ultimately show "bit (v AND 0xC0000000) n = bit (0::int) n" by (cases "n < 30") (auto simp: bit_and_iff)
  qed
  then show ?thesis using assms by (simp add: mp_obj_new_int_from_uint_def MP_OBJ_NEW_SMALL_INT_def small_wrap_id small_def)
qed

lemma int_from_bytes_spec:
  assumes "bytes_ok buf"
  obtains x h' where "int_from_bytes buf be h = ret x h'" "extends h h'" "int_ok h' x" "ival h' x = bval (if be then rev buf else buf)"
proof (cases "from_bytes_loop 0 (if be then buf else rev buf)")
  case None
  define st where "st = (h_mpz h)(Obj (h_next h) := mpz_init_zero)"
  obtain st' where "mpz_set_from_bytes st (Obj (h_next h)) be buf = Some st'" "becomes st (Obj (h_next h)) (bval (if be then rev buf else buf)) st'"
    by (rule mpz_set_from_bytes_spec [of st "Obj (h_next h)" buf be]) (use assms in \<open>auto simp: st_def mpz_init_zero_def\<close>)
  then have "fills (\<lambda>st d. mpz_set_from_bytes st d be buf) st (Obj (h_next h)) (bval (if be then rev buf else buf))" by (intro becomes_fills)
  then obtain h' where "mp_obj_int_from_bytes_impl be buf h = ret (IntRef (h_next h)) h'" "extends h h'" "int_ok h' (IntRef (h_next h))"
      "ival h' (IntRef (h_next h)) = bval (if be then rev buf else buf)"
    unfolding mp_obj_int_from_bytes_impl_def by (rule new_int_spec [OF st_def])
  then show thesis using None by (intro that [of "IntRef (h_next h)" h']) (simp_all add: int_from_bytes_def)
next
  case (Some v)
  have "v = bval (if be then rev buf else buf) \<and> 0 \<le> v \<and> v \<le> 1073741823"
    using from_bytes_loop_spec [OF _ _ _ Some] assms by (auto split: if_splits)
  then show thesis using Some new_int_from_uint_small [of v h] by (intro that [of "SmallInt v" h]) (auto simp: int_from_bytes_def small_def)
qed

section \<open>Numbers as bytes\<close>

text \<open>The bytes of the digits, low byte first.\<close>

definition digit_bytes :: "digits \<Rightarrow> int list" where
  "digit_bytes ds = map (\<lambda>v. v mod 256) (concat (map (\<lambda>d. [d, d div 256]) ds))"

lemma digit_bytes_spec: "digs ds \<Longrightarrow> bytes_ok (digit_bytes ds) \<and> bval (digit_bytes ds) = dval ds \<and> length (digit_bytes ds) = 2 * length ds"
proof (induction ds)
  case (Cons d ds)
  then have d: "0 \<le> d" "d < 65536" by (auto simp: digs_def)
  then have q: "0 \<le> d div 256" "d div 256 < 256" by (auto intro!: div_less_if)
  then have "d div 256 mod 256 = d div 256" by simp
  moreover have "d mod 256 + 256 * (d div 256) = d" by simp
  ultimately show ?case using Cons d q by (simp add: digit_bytes_def digs_def algebra_simps)
qed (simp add: digit_bytes_def)

lemma as_bytes_loop_pos:
  assumes "length out \<le> len"
  shows "as_bytes_loop False len vs (out, ok, c) =
    (out @ take (len - length out) (map (\<lambda>v. v mod 256) vs), ok \<and> (\<forall>v \<in> set (drop (len - length out) (map (\<lambda>v. v mod 256) vs)). v = 0), c)"
  using assms
proof (induction vs arbitrary: out ok)
  case (Cons v vs)
  show ?case
  proof (cases "length out = len")
    case True
    then show ?thesis using Cons.IH [of out "ok \<and> v mod 256 = 0"] by auto
  next
    case False
    then obtain k where "len - length out = Suc k" "len - length (out @ [v mod 256]) = k" using Cons.prems by (cases "len - length out") auto
    then show ?thesis using Cons.IH [of "out @ [v mod 256]" ok] False Cons.prems by simp
  qed
qed simp

lemma bval_zeros: "bytes_ok bs \<Longrightarrow> (\<forall>b \<in> set bs. b = 0) \<longleftrightarrow> bval bs = 0"
proof (induction bs)
  case (Cons b bs)
  then show ?case using bval_bounds [of bs] by auto
qed simp

lemma bval_replicate: "bval (replicate n 0) = 0"
  by (induction n) auto

text \<open>A non-negative number is written in the bytes asked for, exactly when it fits them.\<close>

lemma mpz_as_bytes_nonneg:
  assumes ok: "mpz_ok z" and nn: "\<not> z_neg z"
  obtains out where "mpz_as_bytes z be False len = (if be then rev out else out, zval z < 256 ^ len)" "bytes_ok out" "length out = len"
    "bval out = zval z mod 256 ^ len"
proof -
  define bs where "bs = digit_bytes (z_dig z)"
  have bs: "bytes_ok bs" "bval bs = zval z" using digit_bytes_spec [of "z_dig z"] okD [OF ok] nn by (auto simp: bs_def zval_def sval_def)
  define out where "out = take len bs @ replicate (len - length (take len bs)) 0"
  have tk: "bytes_ok (take len bs)" "bytes_ok (drop len bs)" using bs(1) by (auto simp: bytes_ok_def dest: in_set_takeD in_set_dropD)
  have split: "bval bs = bval (take len bs) + 256 ^ length (take len bs) * bval (drop len bs)" using bval_append [of "take len bs" "drop len bs"] by simp
  have o: "bytes_ok out" "length out = len" "bval out = bval (take len bs)"
    using tk(1) by (auto simp: out_def bval_append bval_replicate bytes_ok_def)
  have eq: "bval bs = bval out + 256 ^ len * bval (drop len bs)" using split o(3) by (cases "length bs \<le> len") auto
  have b: "0 \<le> bval out" "bval out < 256 ^ len" using bval_bounds [OF o(1)] o(2) by auto
  have m: "bval out = zval z mod 256 ^ len" using b eq bs(2) by simp
  have f: "(\<forall>v \<in> set (drop len bs). v = 0) \<longleftrightarrow> zval z < 256 ^ len"
  proof -
    have d: "0 \<le> bval (drop len bs)" using bval_bounds [OF tk(2)] by simp
    have "zval z < 256 ^ len \<longleftrightarrow> bval (drop len bs) = 0"
    proof
      assume "zval z < 256 ^ len"
      moreover have "256 ^ len * 1 \<le> 256 ^ len * bval (drop len bs)" if "bval (drop len bs) \<noteq> 0" using d that by (intro mult_left_mono) auto
      ultimately show "bval (drop len bs) = 0" using eq bs(2) b by fastforce
    qed (use eq bs(2) b in auto)
    then show ?thesis using bval_zeros [OF tk(2)] by simp
  qed
  have "mpz_as_bytes z be False len = (if be then rev out else out, zval z < 256 ^ len)"
    unfolding mpz_as_bytes_def Let_def using nn f
    by (simp add: as_bytes_loop_pos digit_bytes_def [symmetric] bs_def [symmetric] out_def)
  then show thesis using o(1,2) m by (rule that)
qed

lemma clz_below_spec:
  assumes "0 < x" "x < 2 ^ k"
  shows "clz_below k x < k \<and> 2 ^ (k - 1 - clz_below k x) \<le> x \<and> x < 2 ^ (k - clz_below k x)"
  using assms
proof (induction k)
  case (Suc k)
  have "bit x k \<longleftrightarrow> 2 ^ k \<le> x"
  proof -
    have "x div 2 ^ k = (if 2 ^ k \<le> x then 1 else 0)" using Suc.prems by (auto intro!: div_is)
    then show ?thesis by (simp add: bit_iff_odd)
  qed
  then show ?case using Suc by auto
qed simp

text \<open>The number of bits of a positive word, and the bytes they need.\<close>

lemma clz_bits:
  assumes "0 < x" "x < 2 ^ 31"
  obtains b where "32 - int (mp_clz_mpi x) = int b" "0 < b" "b \<le> 31" "2 ^ (b - 1) \<le> x" "x < 2 ^ b"
proof -
  have x: "x < 2 ^ 32" using assms by simp
  note c = clz_below_spec [OF assms(1) x]
  have "clz_below 32 x \<noteq> 0"
  proof
    assume "clz_below 32 x = 0"
    then show False using c assms by simp
  qed
  then show thesis using c by (intro that [of "32 - clz_below 32 x"]) (auto simp: mp_clz_mpi_def)
qed

lemma bits_le_iff: "0 < b \<Longrightarrow> 2 ^ (b - 1) \<le> x \<Longrightarrow> x < 2 ^ b \<Longrightarrow> (b \<le> n) = (x < 2 ^ n)" for x :: int
proof
  assume b: "0 < b" "2 ^ (b - 1) \<le> x" "x < 2 ^ b" and n: "x < 2 ^ n"
  show "b \<le> n"
  proof (rule ccontr)
    assume "\<not> b \<le> n"
    then have "(2::int) ^ n \<le> 2 ^ (b - 1)" by (intro power_increasing) auto
    then show False using b n by linarith
  qed
next
  assume b: "0 < b" "2 ^ (b - 1) \<le> x" "x < 2 ^ b" and n: "b \<le> n"
  have "(2::int) ^ b \<le> 2 ^ n" using n by (intro power_increasing) auto
  then show "x < 2 ^ n" using b by linarith
qed

lemma word_bytes_spec: "bytes_ok (word_bytes v)" "bval (rev (word_bytes v)) = u32 v" "length (word_bytes v) = 4"
proof -
  define x where "x = u32 v"
  have x: "0 \<le> x" "x < 4294967296" using pos_mod_bound [of 4294967296 v] by (simp_all add: x_def u32_def)
  have "x div 16777216 < 256" "0 \<le> x div 16777216" using x by (auto intro!: div_less_if)
  then show "bytes_ok (word_bytes v)" by (simp add: word_bytes_def x_def [symmetric])
  have "x mod 256 + 256 * (x div 256 mod 256 + 256 * (x div 65536 mod 256 + 256 * (x div 16777216))) = x"
    using div_mult_mod_eq [of x 256] div_mult_mod_eq [of "x div 256" 256] div_mult_mod_eq [of "x div 65536" 256]
      zdiv_zmult2_eq [of 256 x 256] zdiv_zmult2_eq [of 256 x 65536] by simp
  then show "bval (rev (word_bytes v)) = u32 v" by (simp add: word_bytes_def x_def [symmetric])
qed (simp add: word_bytes_def Let_def)

lemma set_int_spec:
  assumes "n \<le> 4"
  obtains out where "mp_binary_set_int n be v = (if be then rev out else out)" "bytes_ok out" "length out = n" "bval out = u32 v mod 256 ^ n"
proof -
  define bs where "bs = rev (word_bytes v)"
  have bs: "bytes_ok bs" "bval bs = u32 v" "length bs = 4" using word_bytes_spec [of v] by (simp_all add: bs_def)
  have "rev (take n bs) = drop (4 - n) (word_bytes v)" using assms word_bytes_spec(3) [of v] by (simp add: bs_def rev_take)
  moreover have t: "bytes_ok (take n bs)" "length (take n bs) = n" using bs assms by (auto simp: bytes_ok_def dest: in_set_takeD)
  moreover have "bval (take n bs) = u32 v mod 256 ^ n"
  proof -
    have "u32 v = bval (take n bs) + 256 ^ n * bval (drop n bs)" using bval_append [of "take n bs" "drop n bs"] bs t by simp
    then show ?thesis using bval_bounds [OF t(1)] t(2) by simp
  qed
  ultimately show thesis by (intro that [of "take n bs"]) (auto simp: mp_binary_set_int_def bs_def)
qed

lemma bval_replicate_255: "bval (replicate k 255) = 256 ^ k - 1"
  by (induction k) auto

text \<open>Extending the low bytes of a word with its sign.\<close>

lemma extend_word:
  assumes "s \<le> 4" "s \<le> n" "- (256 ^ s) \<le> v" "v < 256 ^ s"
  obtains out where "(let fill = replicate (n - s) (if v < 0 then 255 else 0); w = mp_binary_set_int s be v in if be then fill @ w else w @ fill)
      = (if be then rev out else out)" "bytes_ok out" "length out = n" "bval out = v mod 256 ^ n"
proof -
  obtain w where w: "mp_binary_set_int s be v = (if be then rev w else w)" "bytes_ok w" "length w = s" "bval w = u32 v mod 256 ^ s"
    by (rule set_int_spec [OF assms(1), of be v])
  have p: "(4294967296::int) = 256 ^ s * 256 ^ (4 - s)" using assms(1) by (simp flip: power_add)
  have "u32 v mod 256 ^ s = v mod 256 ^ s" unfolding u32_def by (rule mod_mod_cancel) (simp add: p)
  also have "\<dots> = (if v < 0 then v + 256 ^ s else v)"
  proof (cases "v < 0")
    case True
    have "v mod 256 ^ s = (v + 256 ^ s) mod 256 ^ s" by simp
    also have "\<dots> = v + 256 ^ s" using True assms(3) by (intro mod_pos_pos_trivial) auto
    finally show ?thesis using True by simp
  qed (use assms(4) in simp)
  finally have bw: "bval w = (if v < 0 then v + 256 ^ s else v)" using w(4) by simp
  define out where "out = w @ replicate (n - s) (if v < 0 then 255 else 0)"
  have pn: "(256::int) ^ n = 256 ^ s * 256 ^ (n - s)" using assms(2) by (simp flip: power_add)
  have "bytes_ok out" "length out = n" using w(2,3) assms(2) by (auto simp: out_def bytes_ok_def)
  moreover have "bval out = v mod 256 ^ n"
  proof -
    have v: "bval out = (if v < 0 then v + 256 ^ n else v)"
      by (simp add: out_def bval_append w(3) bw bval_replicate bval_replicate_255 pn algebra_simps)
    then have "bval out mod 256 ^ n = v mod 256 ^ n" by simp
    then show ?thesis using bval_bounds [OF calculation(1)] calculation(2) by simp
  qed
  moreover have "(let fill = replicate (n - s) (if v < 0 then 255 else 0); w = mp_binary_set_int s be v in if be then fill @ w else w @ fill) = (if be then rev out else out)"
    by (simp add: w(1) out_def Let_def)
  ultimately show thesis by (intro that)
qed

text \<open>When an integer can be written in \<open>n\<close> bytes, negative ones in two's complement.\<close>

definition fits_bytes :: "int \<Rightarrow> nat \<Rightarrow> bool" where
  "fits_bytes v n \<longleftrightarrow> (if 0 \<le> v then v < 256 ^ n else - (256 ^ n) \<le> 2 * v)"

definition small_len :: "int \<Rightarrow> int" where
  "small_len val = (if val > 0 then (32 - int (mp_clz_mpi val) + 7) div 8
     else if val < -1 then (32 - int (mp_clz_mpi (NOT val)) + 8) div 8 else - val)"

lemma small_len_spec:
  assumes "small v"
  obtains s where "small_len v = int s" "s \<le> 4" "- (256 ^ s) \<le> v" "v < 256 ^ s" "\<forall>n. s \<le> n \<longleftrightarrow> fits_bytes v n"
proof -
  have pw: "(256::int) ^ n = 2 ^ (8 * n)" for n by (simp add: power_mult)
  consider "0 < v" | "v < -1" | "v = 0" | "v = -1" by linarith
  then show thesis
  proof cases
    case 1
    obtain b where b: "32 - int (mp_clz_mpi v) = int b" "0 < b" "b \<le> 31" "2 ^ (b - 1) \<le> v" "v < 2 ^ b"
      by (rule clz_bits [of v]) (use 1 assms in \<open>auto simp: small_def\<close>)
    have s: "small_len v = int ((b + 7) div 8)" using 1 b(1) by (simp add: small_len_def zdiv_int)
    have iff: "(b + 7) div 8 \<le> n \<longleftrightarrow> v < 256 ^ n" for n
    proof -
      have "(b + 7) div 8 \<le> n \<longleftrightarrow> b \<le> 8 * n" by auto
      then show ?thesis using bits_le_iff [OF b(2,4,5), of "8 * n"] by (simp add: pw)
    qed
    define k where "k = (b + 7) div 8"
    have k: "k \<le> 4" "v < 256 ^ k" "- (256 ^ k) \<le> (0::int)" using b(3) iff [of k] by (simp_all add: k_def)
    show thesis by (rule that [OF s [folded k_def] k(1)]) (use iff [folded k_def] 1 k in \<open>auto simp: fits_bytes_def\<close>)
  next
    case 2
    define y where "y = - v - 1"
    obtain b where b: "32 - int (mp_clz_mpi y) = int b" "0 < b" "b \<le> 31" "2 ^ (b - 1) \<le> y" "y < 2 ^ b"
      by (rule clz_bits [of y]) (use 2 assms in \<open>auto simp: small_def y_def\<close>)
    have "y < 2 ^ 30" using assms by (auto simp: small_def y_def)
    then have b30: "b \<le> 30" using bits_le_iff [OF b(2,4,5), of 30] by simp
    have s: "small_len v = int ((b + 8) div 8)" using 2 b(1) by (simp add: small_len_def not_eq_complement y_def zdiv_int)
    have iff: "(b + 8) div 8 \<le> n \<longleftrightarrow> fits_bytes v n" for n
    proof (cases n)
      case 0
      then show ?thesis using 2 by (simp add: fits_bytes_def)
    next
      case (Suc m)
      have "(b + 8) div 8 \<le> n \<longleftrightarrow> b \<le> 8 * n - 1" using Suc by auto
      also have "\<dots> \<longleftrightarrow> y < 2 ^ (8 * n - 1)" by (rule bits_le_iff [OF b(2,4,5)])
      also have "\<dots> \<longleftrightarrow> fits_bytes v n"
      proof -
        have "(256::int) ^ n = 2 * 2 ^ (8 * n - 1)" unfolding pw using Suc by (simp flip: power_Suc)
        then show ?thesis using 2 by (auto simp: fits_bytes_def y_def)
      qed
      finally show ?thesis .
    qed
    define k where "k = (b + 8) div 8"
    have k: "k \<le> 4" "- (256 ^ k) \<le> 2 * v" "(0::int) \<le> 256 ^ k" using b30 iff [of k] 2 by (simp_all add: k_def fits_bytes_def)
    show thesis by (rule that [OF s [folded k_def] k(1)]) (use iff [folded k_def] 2 k in auto)
  next
    case 3
    show thesis by (rule that [of 0]) (use 3 in \<open>auto simp: small_len_def fits_bytes_def\<close>)
  next
    case 4
    have "Suc 0 \<le> n \<longleftrightarrow> fits_bytes v n" for n
    proof (cases n)
      case (Suc m)
      have "(1::int) \<le> 256 ^ m" by simp
      then have "- (256 * 256 ^ m) \<le> 2 * (-1::int)" by linarith
      then show ?thesis using 4 Suc by (simp add: fits_bytes_def)
    qed (use 4 in \<open>simp add: fits_bytes_def\<close>)
    then show thesis by (intro that [of 1]) (use 4 in \<open>auto simp: small_len_def\<close>)
  qed
qed

lemma int_to_bytes_small:
  assumes "small v" "0 \<le> dlen"
  shows "if fits_bytes v (nat dlen)
    then \<exists>out. int_to_bytes (SmallInt v) dlen be h = ret (if be then rev out else out) h \<and> bytes_ok out \<and> length out = nat dlen \<and> bval out = v mod 256 ^ nat dlen
    else int_to_bytes (SmallInt v) dlen be h = raise OverflowError"
proof -
  obtain s where s: "small_len v = int s" "s \<le> 4" "- (256 ^ s) \<le> v" "v < 256 ^ s" "\<forall>n. s \<le> n \<longleftrightarrow> fits_bytes v n"
    by (rule small_len_spec [OF assms(1)])
  have run: "int_to_bytes (SmallInt v) dlen be h = (if int s \<le> dlen
      then ret (let fill = replicate (nat dlen - s) (if v < 0 then 255 else 0); w = mp_binary_set_int s be v in if be then fill @ w else w @ fill) h
      else raise OverflowError)"
    using assms(2) unfolding int_to_bytes_def pyobj.case small_len_def [symmetric] s(1) by (simp add: Let_def nat_diff_distrib)
  have le: "int s \<le> dlen \<longleftrightarrow> fits_bytes v (nat dlen)" using spec [OF s(5), of "nat dlen"] assms(2) by auto
  show ?thesis
  proof (cases "fits_bytes v (nat dlen)")
    case True
    obtain out where "(let fill = replicate (nat dlen - s) (if v < 0 then 255 else 0); w = mp_binary_set_int s be v in if be then fill @ w else w @ fill)
      = (if be then rev out else out)" "bytes_ok out" "length out = nat dlen" "bval out = v mod 256 ^ nat dlen"
      by (rule extend_word [OF s(2) _ s(3,4), of "nat dlen" be]) (use s(5) True in auto)
    then show ?thesis using run le True by auto
  qed (use run le in simp)
qed

lemma int_to_bytes_nonneg:
  assumes "int_ok h x" "0 \<le> ival h x" "0 \<le> dlen"
  shows "if ival h x < 256 ^ nat dlen
    then \<exists>out. int_to_bytes x dlen be h = ret (if be then rev out else out) h \<and> bytes_ok out \<and> length out = nat dlen \<and> bval out = ival h x
    else int_to_bytes x dlen be h = raise OverflowError"
proof (cases x)
  case (SmallInt v)
  have b: "small v" "0 \<le> v" using assms SmallInt by simp_all
  have "v mod 256 ^ nat dlen = v" if "v < 256 ^ nat dlen" using b(2) that by simp
  then show ?thesis using int_to_bytes_small [OF b(1) assms(3), of be h] b(2) unfolding SmallInt ival.simps fits_bytes_def
    by (cases "v < 256 ^ nat dlen") simp_all
next
  case (IntRef a)
  define z where "z = h_mpz h (Obj a)"
  have z: "mpz_ok z" "\<not> z_neg z" "zval z = ival h x" using assms zval_neg [of z] IntRef by (auto simp: z_def)
  obtain out where o: "mpz_as_bytes z be False (nat dlen) = (if be then rev out else out, zval z < 256 ^ nat dlen)" "bytes_ok out" "length out = nat dlen"
    "bval out = zval z mod 256 ^ nat dlen" by (rule mpz_as_bytes_nonneg [OF z(1,2)])
  have run: "int_to_bytes x dlen be h = (if zval z < 256 ^ nat dlen then ret (if be then rev out else out) h else raise OverflowError)"
    using assms(3) z(2) o(1) by (simp add: int_to_bytes_def mp_obj_int_to_bytes_impl_def IntRef Let_def flip: z_def)
  show ?thesis
  proof (cases "ival h x < 256 ^ nat dlen")
    case True
    have "bval out = ival h x" using o(4) z(3) assms(2) True by simp
    then show ?thesis unfolding run z(3) using True o(2,3) by (auto simp del: ival.simps)
  qed (simp add: run z(3) del: ival.simps)
qed (use assms in auto)

section \<open>What the conversions do\<close>

text \<open>C25: Every finite double becomes an integer object whose value is the double without its
  fraction, rounded towards zero; infinities and NaNs raise.  No existing object changes.
\<close>

theorem int_from_float_correct:
  assumes "0 \<le> exp" "exp \<le> 2047" "0 \<le> frc" "frc < 2 ^ 52"
  shows "if exp = 2047 then mp_obj_new_int_from_float s exp frc h = raise (if frc = 0 then OverflowError else ValueError)
    else \<exists>x h'. mp_obj_new_int_from_float s exp frc h = ret x h' \<and> extends h h' \<and> int_ok h' x
      \<and> ival h' x = (if s then - 1 else 1) * (((2 ^ 52 + frc) * 2 ^ nat exp) div 2 ^ 1075)"
proof (cases "exp = 2047")
  case True
  then show ?thesis by (simp add: mp_obj_new_int_from_float_def)
next
  case False
  obtain x h' where "mp_obj_new_int_from_float s exp frc h = ret x h'" "extends h h'" "int_ok h' x" "ival h' x = sval s (float_int exp frc)"
    by (rule new_int_from_float_spec [of exp frc s h]) (use assms False in auto)
  then show ?thesis using False by (auto simp: sval_def float_int_def)
qed

theorem int_from_float_correct_witness:
  "\<exists>x h'. mp_obj_new_int_from_float True 1055 (2 ^ 51) sample_heap = ret x h' \<and> extends sample_heap h' \<and> int_ok h' x \<and> ival h' x = - 6442450944"
  using int_from_float_correct [of 1055 "2 ^ 51" True sample_heap] by simp



text \<open>A small integer of either sign is written in two's complement, in exactly the length
  asked for, when it fits it, and refused when it does not.
\<close>

theorem small_int_to_bytes:
  assumes "small v" "0 \<le> dlen"
  shows "if (if 0 \<le> v then v < 256 ^ nat dlen else - (256 ^ nat dlen) \<le> 2 * v)
    then \<exists>out. int_to_bytes (SmallInt v) dlen be h = ret (if be then rev out else out) h \<and> length out = nat dlen \<and> bval out = v mod 256 ^ nat dlen
    else int_to_bytes (SmallInt v) dlen be h = raise OverflowError"
  using int_to_bytes_small [OF assms, of be h] unfolding fits_bytes_def by (auto split: if_splits)

theorem small_int_to_bytes_witness:
  "\<exists>out. int_to_bytes (SmallInt (- 300)) 2 False sample_heap = ret out sample_heap \<and> length out = 2 \<and> bval out = 65236"
  using small_int_to_bytes [of "- 300" 2 False sample_heap] by (simp add: small_def)

end
