(* ===== verification/Spec2Isabelle.thy ===== *)
theory Spec2Isabelle
  imports Shell OsModule Checksum Timers DictObj IntConv
begin

text \<open>
  PythonUltra is a port of MicroPython to Casio fx-CG50 calculators: the MicroPython core under
  \<open>py/\<close> with a port of its own under \<open>ports/sh/\<close>, which provides a terminal, a virtual working
  directory, file objects and the shell.  This library models the parts of the program that
  carry its state and its arithmetic, and proves what makes them correct.  Definitions have
  the names of the C functions and types they translate.

  \<^bold>\<open>The port.\<close>  Keys arrive as events of the shell widget, which translates them and edits the last
  line of the console; the interpreter's output is written to the same console; a line that
  is confirmed goes to the interpreter; scripts reach the file system through the module
  \<open>os\<close> and through file objects, which resolve every path first.

  \<^item> \<open>StrEdit\<close> (\<open>stredit.c\<close>): the editable string as a buffer with explicit bounds.  The locale
    \<open>line_editor\<close> is the contract the console relies on.
  \<^item> \<open>LineBuf\<close> (\<open>console.c\<close>, the functions \<open>linebuf_\<close>): the ring of lines, with absolute line numbers,
    recycling of the oldest lines and the totals kept on the side.
  \<^item> \<open>Console\<close> (\<open>console.c\<close>): writing with escapes and line breaks, cursor, locked prompt, layout and
    rendering.  The locale \<open>terminal_log\<close> is the log of lines that the ring implements.
  \<^item> \<open>PathUtil\<close> (\<open>pathutil.c\<close>): resolution of paths into a buffer, against a specification on lists
    of directory names; locale \<open>path_resolver\<close>.
  \<^item> \<open>OsModule\<close> (\<open>modos.c\<close>, \<open>fdfile.c\<close>): the file functions over a file system that is an argument.
  \<^item> \<open>Shell\<close> (\<open>keymap.c\<close>, \<open>widget_shell.c\<close>, parts of \<open>main.c\<close>): key tables, modifier states, the event
    handler, prompts and input.
  \<^item> \<open>Sha\<close> (\<open>sha256.c\<close>, \<open>sha1.c\<close>) and \<open>Checksum\<close> (\<open>modchecksum.c\<close>): digests of files, read piece by piece.
    The locale \<open>block_digest\<close> is what streaming needs of either transformation.
  \<^item> \<open>Timers\<close> (\<open>resources.c\<close>): the timers that are stopped when a program ends.

  \<^bold>\<open>The core.\<close>  An integer object is a small integer in the object word or a heap object with a
  number of arbitrary size.  Operators of the interpreter take either; dictionaries and sets
  compare and hash them.

  \<^item> \<open>Mpn\<close>, \<open>MpnBits\<close>, \<open>MpnDiv\<close> (\<open>mpz.c\<close>, the functions \<open>mpn_\<close>): arithmetic on arrays of 16-bit digits,
    the two's complement bit operations and long division with its estimate and correction.
  \<^item> \<open>Mpz\<close>, \<open>MpzConv\<close> (\<open>mpz.c\<close>): numbers with sign and buffer in a store, so that operands may
    coincide; conversions from and to machine integers, doubles, bytes and text.  The locale
    \<open>power_step\<close> is shared by plain and modular powers.
  \<^item> \<open>SmallInt\<close> (\<open>smallint.c\<close>, \<open>smallint.h\<close>), \<open>IntObj\<close> (\<open>objint_mpz.c\<close>, \<open>objint.c\<close>), \<open>IntConv\<close> (\<open>objint.c\<close>):
    integer objects, their operators, their text and their conversions.
  \<^item> \<open>Operators\<close> (\<open>runtime.c\<close>, \<open>obj.c\<close>): unary and binary operators, equality and truth.
  \<^item> \<open>HashTable\<close> (\<open>map.c\<close>): hash maps and sets.  The locale \<open>hash_keys\<close> is what equality and hash of keys
    owe the tables; \<open>IntKeys\<close> interprets it for the integers of \<open>Operators\<close>.
  \<^item> \<open>DictObj\<close> (\<open>objdict.c\<close>): dictionaries on hash maps, with iteration, comparison and update.

  \<open>Prelude\<close> has the conversions of C, byte buffers and the lemmas several theories share.

  \<^bold>\<open>What is shown.\<close>  For the terminal: every write returns without an invalid memory access and
  keeps the invariants; what is stored is the log that was written, less its oldest lines;
  the prompt is protected from deletion.  For paths: resolution is the normal form, the
  file system only sees absolute normal paths.  For integers: every operator computes the
  exact integer that Python defines, or raises the right exception, in the smaller of the
  two representations whenever it fits; conversions to text and bytes can be read back.  For
  tables: maps and sets are finite maps and finite sets, for all keys that obey the contract
  of hashing; dictionaries have the effect Python defines; they compare equal exactly when
  they are the same finite map, and their iteration is complete.  For digests: they are the
  standard's, for the file as a whole.  Where the code does not do
  what it says, that is a theorem too: a long console write repeats its beginning, releasing
  a console frees lines twice, a backspace enters the prompt, \<open>divmod\<close> wraps around for the
  smallest small integer, a set is broken by a failed growth, and a timer that is given up
  keeps running.

  \<^bold>\<open>Conventions and bounds.\<close>  \<open>None\<close> is an execution without a defined result: an access outside a
  buffer, a failed assertion, use of freed memory, or a loop that does not end.  A theorem that
  an operation returns \<open>Some\<close> is therefore a theorem of safety and of termination.  Exceptions
  and error codes are values.  Machine words have 32 bits, digits 16, and small integers 31.
  Some loops and mutual recursions are bounded by a number, and the bound is shown to be enough:
  \<^item> the console writes one chunk for each pass, and every pass consumes at least one byte or ends
    the line;
  \<^item> the operators call themselves once more at most for integers and truth values;
  \<^item> a hash table grows once in a lookup, and the keys of the old table always fit the new one, so
    two levels of recursion and two rounds of probing are enough;
  \<^item> the iteration of a dictionary takes one step for each slot and one to end;
  \<^item> a file is read once for each piece the file system delivers, and once more to see its end.
  Memory requests may be refused in the port and in the tables.  In the number library they are
  granted: a refusal leaves it through an exception.

  Outside the repository, and therefore arguments of the definitions: gint's key codes, text
  measurement and drawing, the file system and its calls, arithmetic on doubles.  Not visible
  here but below other parts of the core: the operator slots of other types.

  \<^bold>\<open>Not modelled.\<close>  The lexer, the parser, the compiler and the virtual machine, with the object types
  for strings, lists, classes and functions, are not modelled: their state is the whole
  heap and their control flow the interpreter's own.  The garbage collector scans machine
  registers and stacks; the model never reuses an address.  The modules for drawing, images
  and the keyboard only call gint.  Printing of dictionaries, type tables and argument parsing
  have no state.  Other ports, drivers and vendored libraries are not part of the program.
\<close>

end
